(* ===== verification/Prelude.thy ===== *)
theory Prelude
  imports Main "HOL-Library.Word"
begin

text \<open>
  Shared vocabulary of the development: the machine types of
  \<^verbatim>\<open>src/jrd/common.h\<close> as they are used by the modelled files, the error values that
  stand for \<^verbatim>\<open>BUGCHECK\<close> and for a read outside the memory a routine was given, and
  the generic facts on lists, results and bytes that the component theories lean on.

  A C pointer into a buffer is modelled by the list of bytes from that pointer to the end
  of the buffer; advancing the pointer is \<^term>\<open>drop\<close>.  Reading past the end of the list
  is undefined behaviour in C and is the value \<open>OUT_OF_BOUNDS\<close> here.
\<close>

unbundle bit_operations_syntax

named_theorems byte_simps
  \<open>evaluation of SCHAR values\<close>
named_theorems result_simps
  \<open>the result type\<close>

type_synonym byte = "8 word"

text \<open>
  \<^verbatim>\<open>BUGCHECK (n)\<close> aborts the request with message number \<open>n\<close>.
\<close>

datatype bugcheck = BUGCHECK nat | OUT_OF_BOUNDS

type_synonym 'a result = "bugcheck + 'a"

definition bind_result :: "'e + 'a \<Rightarrow> ('a \<Rightarrow> 'e + 'b) \<Rightarrow> 'e + 'b" where
  "bind_result m f = (case m of Inl e \<Rightarrow> Inl e | Inr x \<Rightarrow> f x)"

definition map_result :: "('a \<Rightarrow> 'b) \<Rightarrow> 'e + 'a \<Rightarrow> 'e + 'b" where
  "map_result f m = (case m of Inl e \<Rightarrow> Inl e | Inr x \<Rightarrow> Inr (f x))"

lemma bind_result_simps [simp, result_simps]:
  "bind_result (Inl e) f = Inl e"
  "bind_result (Inr x) f = f x"
  by (simp_all add: bind_result_def)

lemma map_result_simps [simp, result_simps]:
  "map_result f (Inl e) = Inl e"
  "map_result f (Inr x) = Inr (f x)"
  by (simp_all add: map_result_def)

lemma bind_result_eq_Inr [simp, result_simps]:
  "bind_result m f = Inr y \<longleftrightarrow> (\<exists>x. m = Inr x \<and> f x = Inr y)"
  by (cases m) simp_all

lemma map_result_eq_Inr [simp, result_simps]:
  "map_result f m = Inr y \<longleftrightarrow> (\<exists>x. m = Inr x \<and> y = f x)"
  by (cases m) auto

lemma map_result_eq_Inl [simp, result_simps]:
  "map_result f m = Inl e \<longleftrightarrow> m = Inl e"
  by (cases m) simp_all

section \<open>SCHAR\<close>

text \<open>A byte read as \<^verbatim>\<open>SCHAR\<close> and an integer stored into one.\<close>

definition schar :: "byte \<Rightarrow> int" where
  "schar b = sint b"

definition to_schar :: "int \<Rightarrow> byte" where
  "to_schar i = word_of_int i"

lemma schar_to_schar [byte_simps]:
  "-128 \<le> i \<Longrightarrow> i < 128 \<Longrightarrow> schar (to_schar i) = i"
  by (simp add: schar_def to_schar_def sint_sbintrunc' signed_take_bit_int_eq_self)

lemma to_schar_schar [simp, byte_simps]: "to_schar (schar b) = b"
  by (simp add: schar_def to_schar_def)

lemma schar_range: "-128 \<le> schar b \<and> schar b < 128"
  using sint_ge [of b] sint_lt [of b] by (simp add: schar_def)

lemma schar_lower: "-128 \<le> schar b" and schar_upper: "schar b < 128"
  using schar_range by auto

section \<open>Lists\<close>

lemma take_eq_replicate_hd:
  "n \<le> length xs \<Longrightarrow> (\<And>i. i < n \<Longrightarrow> xs ! i = c) \<Longrightarrow> take n xs = replicate n c"
  by (simp add: list_eq_iff_nth_eq)

lemma take_append_drop_take:
  "m \<le> length xs \<Longrightarrow> take (m + n) xs = take m xs @ take n (drop m xs)"
  by (simp add: take_add)

end
