(* ===== verification/Sqz.thy ===== *)
theory Sqz
  imports Prelude
begin

text \<open>
  Record compression, \<^verbatim>\<open>src/jrd/sqz.c\<close>.

  A record is compressed under a control string, a chain of \<^verbatim>\<open>dcc\<close> blocks of 128 bytes
  each, built by \<^verbatim>\<open>SQZ_length\<close>: a positive control byte announces that many literal
  bytes, a negative one a run.  \<^verbatim>\<open>SQZ_fast\<close> emits the whole compressed image,
  \<^verbatim>\<open>SQZ_compress\<close> as much of it as fits, \<^verbatim>\<open>SQZ_decompress\<close> expands one.
  Record versions are kept as differences, \<^verbatim>\<open>SQZ_differences\<close> and
  \<^verbatim>\<open>SQZ_apply_differences\<close>.

  A chain is the list of the control strings of its blocks.  Where a block comes from (the
  pool's free list \<^verbatim>\<open>plb_dccs\<close> or a new allocation) does not show in it.
\<close>

section \<open>The control string: SQZ\_length\<close>

text \<open>Blocks already full, and the block being filled.\<close>

type_synonym dcc_chain = "byte list list \<times> byte list"

definition dcc_size :: nat where
  "dcc_size = 128"

definition push_control :: "byte \<Rightarrow> dcc_chain \<Rightarrow> dcc_chain" where
  "push_control b ch =
     (let cur = snd ch @ [b] in
      if length cur = dcc_size then (fst ch @ [cur], []) else (fst ch, cur))"

text \<open>
  The scan for a run of three equal bytes; \<open>Some i\<close> when the loop breaks at offset \<open>i\<close>,
  \<open>None\<close> when it ends on its counter.
\<close>

fun find_run :: "byte list \<Rightarrow> nat \<Rightarrow> nat \<Rightarrow> nat option" where
  "find_run (a # b # c # data) limit i =
     (if a \<noteq> b \<or> a \<noteq> c
      then (if limit - 1 > 1 then find_run (b # c # data) (limit - 1) (Suc i) else None)
      else Some i)"
| "find_run _ limit i = None"

text \<open>Non-compressible runs are limited to 127 bytes.\<close>

function push_literals :: "nat \<Rightarrow> dcc_chain \<Rightarrow> int \<Rightarrow> dcc_chain \<times> int" where
  "push_literals count ch len =
     (if count = 0 then (ch, len)
      else let limit = min count 127 in
           push_literals (count - limit) (push_control (to_schar (int limit)) ch) (len + 1 + int limit))"
  by pat_completeness auto
termination
  by (relation "measure (\<lambda>(count, ch, len). count)") auto

declare push_literals.simps [simp del]

text \<open>The length of the run of \<open>c\<close> at the front, within the loop's limit.\<close>

fun run_length :: "byte \<Rightarrow> byte list \<Rightarrow> nat \<Rightarrow> nat" where
  "run_length c (d # data) (Suc limit) = (if d \<noteq> c then 0 else Suc (run_length c data limit))"
| "run_length c _ _ = 0"

text \<open>The number of literal bytes before the next run (\<open>count\<close> is a \<^verbatim>\<open>USHORT\<close>).\<close>

definition literal_count :: "byte list \<Rightarrow> nat \<Rightarrow> nat" where
  "literal_count data count =
     (if count - 1 > 1
      then (case find_run data (count - 1) 0 of Some i \<Rightarrow> i | None \<Rightarrow> count)
      else count)"

lemma run_length_pos: "data \<noteq> [] \<Longrightarrow> 0 < limit \<Longrightarrow> 0 < run_length (hd data) data limit"
  by (cases data; cases limit) simp_all

lemma find_run_bound: "find_run data limit i = Some j \<Longrightarrow> i \<le> j \<and> j + 3 \<le> i + length data"
  by (induction data limit i rule: find_run.induct) (fastforce split: if_splits)+

lemma literal_count_le: "literal_count data count \<le> max count (length data)"
  by (auto simp: literal_count_def split: option.splits dest: find_run_bound)

text \<open>Compressible runs are limited to 128 bytes.\<close>

definition compressible_run :: "byte list \<Rightarrow> nat" where
  "compressible_run rest = run_length (hd rest) rest (min 128 (length rest))"

function sqz_length_loop :: "byte list \<Rightarrow> dcc_chain \<Rightarrow> int \<Rightarrow> dcc_chain \<times> int" where
  "sqz_length_loop data ch len =
     (let count = length data mod 65536 in
      if count = 0 then (ch, len)
      else
        let lit = literal_count data count;
            rest = drop lit data;
            (ch1, len1) = push_literals lit ch len
        in if min 128 (length rest) \<ge> 3
           then let run = compressible_run rest in
                sqz_length_loop (drop run rest) (push_control (to_schar (- int run)) ch1) (len1 + 2)
           else sqz_length_loop rest ch1 len1)"
  by pat_completeness auto

text \<open>Every round consumes at least one byte.\<close>

lemma compressible_run_pos: "3 \<le> length rest \<Longrightarrow> 0 < compressible_run rest"
  unfolding compressible_run_def by (rule run_length_pos) auto

lemma literal_count_0: "count \<noteq> 0 \<Longrightarrow> literal_count data count = 0 \<Longrightarrow> 3 \<le> length data"
  by (auto simp: literal_count_def split: if_splits option.splits dest: find_run_bound)

lemma sqz_round_progress:
  fixes data :: "byte list"
  assumes "length data mod 65536 \<noteq> 0"
  shows "3 \<le> length (drop n data) \<Longrightarrow>
     length (drop (compressible_run (drop n data)) (drop n data)) < length data"
    and "\<not> 3 \<le> length (drop (literal_count data (length data mod 65536)) data) \<Longrightarrow>
     length (drop (literal_count data (length data mod 65536)) data) < length data"
proof -
  assume a: "3 \<le> length (drop n data)"
  from compressible_run_pos [OF this] a
  show "length (drop (compressible_run (drop n data)) (drop n data)) < length data" by simp
next
  have "0 < length data" using assms by (cases data) simp_all
  moreover assume "\<not> 3 \<le> length (drop (literal_count data (length data mod 65536)) data)"
  with literal_count_0 [OF assms, of data] have "0 < literal_count data (length data mod 65536)" by force
  ultimately show "length (drop (literal_count data (length data mod 65536)) data) < length data"
    by simp
qed

termination sqz_length_loop
  by (relation "measure (\<lambda>(data, ch, len). length data)")
     (simp_all add: sqz_round_progress del: length_drop drop_drop)

declare sqz_length_loop.simps [simp del]

definition SQZ_length :: "byte list \<Rightarrow> byte list list \<times> nat" where
  "SQZ_length data =
     (let (ch, len) = sqz_length_loop data ([], []) 0
      in (fst ch @ [snd ch], nat (len mod 65536)))"

section \<open>Compression under a control string\<close>

text \<open>One block of \<^verbatim>\<open>SQZ_fast\<close>: the output and the input left over.\<close>

fun sqz_fast_block :: "byte list \<Rightarrow> byte list \<Rightarrow> (byte list \<times> byte list) result" where
  "sqz_fast_block [] input = Inr ([], input)"
| "sqz_fast_block (c # control) input =
     (let l = schar c in
      if l < 0
      then (if input = [] then Inl OUT_OF_BOUNDS
            else map_result (\<lambda>(out, rest). (c # hd input # out, rest))
                   (sqz_fast_block control (drop (nat (- l)) input)))
      else if l > 0
      then (if length input < nat l then Inl OUT_OF_BOUNDS
            else map_result (\<lambda>(out, rest). (c # take (nat l) input @ out, rest))
                   (sqz_fast_block control (drop (nat l) input)))
      else map_result (\<lambda>(out, rest). (c # out, rest)) (sqz_fast_block control input))"

fun SQZ_fast :: "byte list list \<Rightarrow> byte list \<Rightarrow> byte list result" where
  "SQZ_fast [] input = Inr []"
| "SQZ_fast (block # dcc) input =
     bind_result (sqz_fast_block block input)
       (\<lambda>(out, rest). map_result (\<lambda>out'. out @ out') (SQZ_fast dcc rest))"

text \<open>
  The loop of \<^verbatim>\<open>SQZ_compress\<close>: input bytes consumed and output written from here on.
  The test \<^verbatim>\<open>length & 128\<close> is the sign of the control byte.
\<close>

fun sqz_compress_loop ::
  "byte list list \<Rightarrow> byte list \<Rightarrow> int \<Rightarrow> (nat \<times> byte list) result" where
  "sqz_compress_loop [] input space = Inl (BUGCHECK 178)"
| "sqz_compress_loop ([] # dcc) input space = sqz_compress_loop dcc input space"
| "sqz_compress_loop ((c # control) # dcc) input space =
     (let space1 = space - 1 in
      if space1 \<le> 0 then Inr (0, if space1 = 0 then [0] else [])
      else
        let l = schar c in
        if l < 0
        then (if input = [] then Inl OUT_OF_BOUNDS
              else map_result (\<lambda>(n, out). (nat (- l) + n, c # hd input # out))
                     (sqz_compress_loop (control # dcc) (drop (nat (- l)) input) (space1 - 1)))
        else
          let space2 = space1 - l in
          if space2 < 0
          then let l' = l + space2 in
               (if length input < nat l' then Inl OUT_OF_BOUNDS
                else Inr (nat l', to_schar l' # take (nat l') input))
          else (if length input < nat l then Inl OUT_OF_BOUNDS
                else map_result (\<lambda>(n, out). (nat l + n, c # take (nat l) input @ out))
                       (sqz_compress_loop (control # dcc) (drop (nat l) input) space2)))"

definition SQZ_compress ::
  "byte list list \<Rightarrow> byte list \<Rightarrow> int \<Rightarrow> (nat \<times> byte list) result" where
  "SQZ_compress dcc input space =
     map_result (\<lambda>(n, out). (n mod 65536, out)) (sqz_compress_loop dcc input space)"

text \<open>
  \<^verbatim>\<open>SQZ_compress_length\<close> moves the input pointer only; it never reads through it.
\<close>

fun sqz_compress_length_loop :: "byte list list \<Rightarrow> int \<Rightarrow> nat result" where
  "sqz_compress_length_loop [] space = Inl (BUGCHECK 178)"
| "sqz_compress_length_loop ([] # dcc) space = sqz_compress_length_loop dcc space"
| "sqz_compress_length_loop ((c # control) # dcc) space =
     (let space1 = space - 1 in
      if space1 \<le> 0 then Inr 0
      else
        let l = schar c in
        if l < 0
        then map_result (\<lambda>n. nat (- l) + n) (sqz_compress_length_loop (control # dcc) (space1 - 1))
        else
          let space2 = space1 - l in
          if space2 < 0 then Inr (nat (l + space2))
          else map_result (\<lambda>n. nat l + n) (sqz_compress_length_loop (control # dcc) space2))"

definition SQZ_compress_length :: "byte list list \<Rightarrow> int \<Rightarrow> nat result" where
  "SQZ_compress_length dcc space =
     map_result (\<lambda>n. n mod 65536) (sqz_compress_length_loop dcc space)"

text \<open>
  \<open>decompress_loop input written room\<close> is the loop of \<^verbatim>\<open>SQZ_decompress\<close>, with \<open>written\<close> what has been
  written so far into a buffer of \<open>room\<close> bytes.  The result is the error the loop ends with, if
  any, and all it has written by then: memory beyond the buffer is changed when that is longer
  than \<open>room\<close>.  A piece that is cut short by the end of the input is read beyond it.
\<close>

function decompress_loop :: "byte list \<Rightarrow> byte list \<Rightarrow> nat \<Rightarrow> bugcheck option \<times> byte list" where
  "decompress_loop [] written room = (None, written)"
| "decompress_loop (b # input) written room =
     (let l = schar b in
      if l < 0
      then (case input of
              [] \<Rightarrow> (Some OUT_OF_BOUNDS, written)
            | c # input' \<Rightarrow>
                if length written + nat (- l) > room then (Some (BUGCHECK 179), written)
                else decompress_loop input' (written @ replicate (nat (- l)) c) room)
      else (if length written + nat l > room then (Some (BUGCHECK 179), written)
            else if length input < nat l then (Some OUT_OF_BOUNDS, written @ input)
            else decompress_loop (drop (nat l) input) (written @ take (nat l) input) room))"
  by pat_completeness auto
termination
  by (relation "measure (\<lambda>(input, written, room). length input)") auto

declare decompress_loop.simps(2) [simp del]

definition SQZ_decompress :: "byte list \<Rightarrow> nat \<Rightarrow> byte list result" where
  "SQZ_decompress input room =
     (case decompress_loop input [] room of
        (Some e, written) \<Rightarrow> Inl e
      | (None, written) \<Rightarrow> if length written > room then Inl (BUGCHECK 179) else Inr written)"

lemma decompress_loop_shift:
  "decompress_loop input (pre @ written) (length pre + room) =
     (case decompress_loop input written room of (e, out) \<Rightarrow> (e, pre @ out))"
proof (induction input written room rule: decompress_loop.induct)
  case (2 b input written room)
  then show ?case by (auto simp: decompress_loop.simps(2) Let_def split: list.split)
qed simp

text \<open>Decompression of the first piece, then of the rest into the room that is left.\<close>

lemma SQZ_decompress_piece:
  "decompress_loop input pre room = (case decompress_loop input [] (room - length pre) of (e, out) \<Rightarrow> (e, pre @ out))"
  if "length pre \<le> room"
  using decompress_loop_shift [of input pre "[]" "room - length pre"] that by simp

lemma SQZ_decompress_Nil [simp]: "SQZ_decompress [] room = Inr []"
  by (simp add: SQZ_decompress_def)

lemma SQZ_decompress_Cons:
  "SQZ_decompress (b # input) room =
     (let l = schar b in
      if l < 0
      then (case input of
              [] \<Rightarrow> Inl OUT_OF_BOUNDS
            | c # input' \<Rightarrow>
                if nat (- l) > room then Inl (BUGCHECK 179)
                else map_result (\<lambda>out. replicate (nat (- l)) c @ out)
                       (SQZ_decompress input' (room - nat (- l))))
      else (if nat l > room then Inl (BUGCHECK 179)
            else if length input < nat l then Inl OUT_OF_BOUNDS
            else map_result (\<lambda>out. take (nat l) input @ out)
                   (SQZ_decompress (drop (nat l) input) (room - nat l))))"
proof -
  have piece: "(case decompress_loop input' pre room of (Some e, written) \<Rightarrow> Inl e
        | (None, written) \<Rightarrow> if length written > room then Inl (BUGCHECK 179) else Inr written) =
      map_result (\<lambda>out. pre @ out) (SQZ_decompress input' (room - length pre))" if "length pre \<le> room" for input' pre
    using that by (auto simp: SQZ_decompress_piece [OF that] SQZ_decompress_def split: prod.split option.split)
  show ?thesis
    using piece [of "replicate (nat (- schar b)) (hd input)" "tl input"] piece [of "take (nat (schar b)) input" "drop (nat (schar b)) input"]
    unfolding SQZ_decompress_def [of "b # input"]
    by (cases input) (auto simp: decompress_loop.simps(2) Let_def)
qed

section \<open>What a control string describes\<close>

text \<open>
  The contract between \<^verbatim>\<open>SQZ_length\<close> and the routines that take its control string: the
  control string covers the data exactly, and each negative control byte stands on a run of
  equal bytes.
\<close>

fun describes :: "byte list \<Rightarrow> byte list \<Rightarrow> bool" where
  "describes [] data = (data = [])"
| "describes (c # control) data =
     (let l = schar c in
      if l < 0
      then nat (- l) \<le> length data \<and>
           take (nat (- l)) data = replicate (nat (- l)) (hd data) \<and>
           describes control (drop (nat (- l)) data)
      else nat l \<le> length data \<and> describes control (drop (nat l) data))"

definition chain_string :: "dcc_chain \<Rightarrow> byte list" where
  "chain_string ch = concat (fst ch) @ snd ch"

lemma chain_string_push [simp]: "chain_string (push_control b ch) = chain_string ch @ [b]"
  by (cases ch) (simp add: chain_string_def push_control_def Let_def)

text \<open>The number of bytes the compressed image has under a control string.\<close>

fun image_length :: "byte list \<Rightarrow> int" where
  "image_length [] = 0"
| "image_length (c # control) =
     (if schar c < 0 then 2 else 1 + schar c) + image_length control"

lemma image_length_append [simp]: "image_length (xs @ ys) = image_length xs + image_length ys"
  by (induction xs) simp_all

lemma describes_append:
  assumes "describes xs d1" "describes ys d2"
  shows "describes (xs @ ys) (d1 @ d2)"
  using assms
proof (induction xs arbitrary: d1)
  case (Cons c xs)
  have "schar c < 0 \<Longrightarrow> d1 \<noteq> []" using Cons.prems by (auto simp: Let_def)
  with Cons show ?case by (auto simp: Let_def hd_append split: if_splits)
qed simp

lemma run_length_le: "run_length c data n \<le> n" "run_length c data n \<le> length data"
  by (induction c data n rule: run_length.induct) auto

lemma run_length_take: "take (run_length c data n) data = replicate (run_length c data n) c"
  by (induction c data n rule: run_length.induct) auto

lemma compressible_run_spec:
  "compressible_run rest \<le> 128" "compressible_run rest \<le> length rest"
  "take (compressible_run rest) rest = replicate (compressible_run rest) (hd rest)"
  using run_length_le [of "hd rest" rest "min 128 (length rest)"]
  by (simp_all add: compressible_run_def run_length_take)

lemma push_literals_describes:
  assumes "push_literals count ch len = (ch', len')"
  shows "\<exists>cs. chain_string ch' = chain_string ch @ cs \<and> len' = len + image_length cs \<and>
           (\<forall>d. length d = count \<longrightarrow> describes cs d)"
  using assms
proof (induction count ch len rule: push_literals.induct)
  case (1 count ch len)
  show ?case
  proof (cases "count = 0")
    case True
    with 1(2) show ?thesis by (intro exI [of _ "[]"]) (simp add: push_literals.simps)
  next
    case False
    define k where "k = min count 127"
    have k: "schar (to_schar (int k)) = int k" by (rule schar_to_schar) (simp_all add: k_def)
    from 1 False obtain cs where
      "chain_string ch' = chain_string (push_control (to_schar (int k)) ch) @ cs"
      "len' = len + 1 + int k + image_length cs" "\<forall>d. length d = count - k \<longrightarrow> describes cs d"
      unfolding k_def by (fastforce simp: push_literals.simps [of count] Let_def)
    with k show ?thesis
      by (intro exI [of _ "to_schar (int k) # cs"]) (auto simp: Let_def k_def)
  qed
qed

lemma sqz_length_loop_describes:
  assumes "length data < 65536" "sqz_length_loop data ch len = (ch', len')"
  shows "\<exists>cs. chain_string ch' = chain_string ch @ cs \<and> len' = len + image_length cs \<and> describes cs data"
  using assms
proof (induction "length data" arbitrary: data ch len rule: less_induct)
  case less
  show ?case
  proof (cases "data = []")
    case True
    with less.prems show ?thesis by (intro exI [of _ "[]"]) (simp add: sqz_length_loop.simps)
  next
    case False
    define lit where "lit = literal_count data (length data mod 65536)"
    define run where "run = compressible_run (drop lit data)"
    have lit: "lit \<le> length data"
      using less.prems(1) literal_count_le [of data "length data"] by (simp add: lit_def)
    obtain ch1 len1 where pl: "push_literals lit ch len = (ch1, len1)" by fastforce
    from push_literals_describes [OF pl] obtain cs1 where cs1:
      "chain_string ch1 = chain_string ch @ cs1" "len1 = len + image_length cs1"
      "describes cs1 (take lit data)" using lit by auto
    show ?thesis
    proof (cases "3 \<le> length (drop lit data)")
      case True
      have run: "0 < run" "run \<le> 128" "run \<le> length (drop lit data)"
        "take run (drop lit data) = replicate run (hd (drop lit data))"
        using compressible_run_pos [OF True] compressible_run_spec [of "drop lit data"]
        unfolding run_def by simp_all
      have r: "schar (to_schar (- int run)) = - int run" using run by (intro schar_to_schar) auto
      from less.prems False True pl have next_round:
        "sqz_length_loop (drop run (drop lit data)) (push_control (to_schar (- int run)) ch1) (len1 + 2) = (ch', len')"
        by (simp add: sqz_length_loop.simps [of data] Let_def lit_def run_def del: drop_drop)
      have "length (drop run (drop lit data)) < length data"
           "length (drop run (drop lit data)) < 65536"
        using less.prems(1) False run(1) True by auto
      from less.hyps [OF this next_round] obtain cs2 where cs2:
        "chain_string ch' = chain_string (push_control (to_schar (- int run)) ch1) @ cs2"
        "len' = len1 + 2 + image_length cs2" "describes cs2 (drop run (drop lit data))"
        by blast
      have "describes (to_schar (- int run) # cs2) (drop lit data)"
        using run r cs2(3) by (simp add: Let_def del: drop_drop)
      from describes_append [OF cs1(3) this] cs1 cs2 r run(1) show ?thesis
        by (intro exI [of _ "cs1 @ to_schar (- int run) # cs2"]) simp
    next
      case False': False
      from less.prems False False' pl have next_round:
        "sqz_length_loop (drop lit data) ch1 len1 = (ch', len')"
        by (simp add: sqz_length_loop.simps [of data] Let_def lit_def)
      have "0 < lit"
        using False False' less.prems(1) literal_count_0 [of "length data" data]
        by (cases "lit = 0") (simp_all add: lit_def)
      then have "length (drop lit data) < length data" "length (drop lit data) < 65536"
        using less.prems(1) False by auto
      from less.hyps [OF this next_round] obtain cs2 where cs2:
        "chain_string ch' = chain_string ch1 @ cs2"
        "len' = len1 + image_length cs2" "describes cs2 (drop lit data)" by blast
      from describes_append [OF cs1(3) cs2(3)] cs1 cs2 show ?thesis
        by (intro exI [of _ "cs1 @ cs2"]) simp
    qed
  qed
qed

lemma SQZ_length_describes:
  assumes "length data < 65536"
  shows "describes (concat (fst (SQZ_length data))) data"
    and "snd (SQZ_length data) = nat (image_length (concat (fst (SQZ_length data))) mod 65536)"
proof -
  obtain ch len where l: "sqz_length_loop data ([], []) 0 = (ch, len)" by fastforce
  from sqz_length_loop_describes [OF assms l] obtain cs where
    "chain_string ch = cs" "len = image_length cs" "describes cs data"
    by (auto simp: chain_string_def)
  with l show "describes (concat (fst (SQZ_length data))) data"
    and "snd (SQZ_length data) = nat (image_length (concat (fst (SQZ_length data))) mod 65536)"
    by (simp_all add: SQZ_length_def chain_string_def)
qed

section \<open>Round trips\<close>

text \<open>
  Under a control string that describes the data, the whole image is produced, it has the
  announced length, and expanding it gives the data back.
\<close>

lemma SQZ_decompress_literal:
  "0 \<le> schar c \<Longrightarrow> length xs = nat (schar c) \<Longrightarrow> length xs \<le> room \<Longrightarrow>
   SQZ_decompress (c # xs @ ys) room =
     map_result (\<lambda>out. xs @ out) (SQZ_decompress ys (room - length xs))"
  by (simp add: SQZ_decompress_Cons Let_def)

lemma SQZ_decompress_run:
  "schar c < 0 \<Longrightarrow> nat (- schar c) \<le> room \<Longrightarrow>
   SQZ_decompress (c # x # ys) room =
     map_result (\<lambda>out. replicate (nat (- schar c)) x @ out)
       (SQZ_decompress ys (room - nat (- schar c)))"
  by (simp add: SQZ_decompress_Cons Let_def)

lemma map_result_cong_simp:
  "m = Inr x \<Longrightarrow> map_result f m = Inr (f x)"
  by simp

lemma sqz_fast_block_concat:
  "sqz_fast_block (xs @ ys) input =
     bind_result (sqz_fast_block xs input)
       (\<lambda>(out, rest). map_result (\<lambda>(out', rest'). (out @ out', rest')) (sqz_fast_block ys rest))"
proof (induction xs arbitrary: input)
  case Nil
  then show ?case by (cases "sqz_fast_block ys input") (auto simp: Let_def)
next
  case (Cons c xs)
  have "map_result (\<lambda>(out, rest). (pre @ out, rest)) (sqz_fast_block (xs @ ys) inp) =
        bind_result (map_result (\<lambda>(out, rest). (pre @ out, rest)) (sqz_fast_block xs inp))
          (\<lambda>(out, rest). map_result (\<lambda>(out', rest'). (out @ out', rest')) (sqz_fast_block ys rest))"
    for pre inp
    by (subst Cons.IH) (cases "sqz_fast_block xs inp"; fastforce simp: map_result_def split: sum.splits)
  from this [of "[c]"] this [of "[c, hd input]"] this [of "c # take n input" for n]
  show ?case by (simp add: Let_def)
qed

lemma SQZ_fast_concat:
  "SQZ_fast dcc input = map_result fst (sqz_fast_block (concat dcc) input)"
proof (induction dcc arbitrary: input)
  case (Cons block dcc)
  show ?case
    by (cases "sqz_fast_block block input")
       (auto simp: Cons.IH sqz_fast_block_concat map_result_def split: sum.splits)
qed simp

lemma sqz_fast_block_roundtrip:
  assumes "describes cs data"
  shows "\<exists>out. sqz_fast_block cs data = Inr (out, []) \<and> int (length out) = image_length cs \<and>
           (\<forall>room \<ge> length data. SQZ_decompress out room = Inr data)"
  using assms
proof (induction cs arbitrary: data)
  case (Cons c cs)
  define n where "n = (if schar c < 0 then nat (- schar c) else nat (schar c))"
  from Cons.prems have d: "describes cs (drop n data)" "n \<le> length data"
    by (auto simp: n_def Let_def split: if_splits)
  from Cons.IH [OF d(1)] obtain out where out:
    "sqz_fast_block cs (drop n data) = Inr (out, [])" "int (length out) = image_length cs"
    "\<forall>room \<ge> length data - n. SQZ_decompress out room = Inr (drop n data)" by auto
  show ?case
  proof (cases "schar c < 0")
    case True
    then have run: "data \<noteq> []" "take n data = replicate n (hd data)"
      using Cons.prems by (auto simp: n_def Let_def)
    have "SQZ_decompress (c # hd data # out) room = Inr data" if "length data \<le> room" for room
      using that True out(3) d(2) append_take_drop_id [of n data]
      unfolding run(2) by (simp add: n_def SQZ_decompress_run)
    with True run(1) out d(2) show ?thesis
      by (intro exI [of _ "c # hd data # out"]) (auto simp: n_def Let_def)
  next
    case False
    then have "SQZ_decompress (c # take n data @ out) room = Inr data" if "length data \<le> room" for room
      using that out(3) d(2) SQZ_decompress_literal [of c "take n data" room out]
      by (simp add: n_def)
    with False out d(2) show ?thesis
      by (intro exI [of _ "c # take n data @ out"]) (auto simp: n_def Let_def)
  qed
qed simp

text \<open>
  When the image does not fit into \<open>space\<close>, \<^verbatim>\<open>SQZ_compress\<close> fills the space exactly and
  what it wrote expands to the input it says it consumed.
\<close>

lemma sqz_compress_loop_prefix:
  assumes "describes (concat dcc) data" "0 \<le> space" "space < image_length (concat dcc)"
  shows "\<exists>n out. sqz_compress_loop dcc data space = Inr (n, out) \<and> n \<le> length data \<and>
           int (length out) = space \<and>
           (\<forall>room \<ge> n. SQZ_decompress out room = Inr (take n data))"
  using assms
proof (induction dcc data space rule: sqz_compress_loop.induct)
  case (3 c control dcc data space)
  define n where "n = (if schar c < 0 then nat (- schar c) else nat (schar c))"
  from "3.prems"(1) have d: "n \<le> length data" "describes (control @ concat dcc) (drop n data)"
    by (auto simp: n_def Let_def split: if_splits)
  consider (full) "space \<le> 1" | (run) "1 < space" "schar c < 0"
    | (cut) "1 < space" "0 \<le> schar c" "space - 1 < schar c"
    | (lit) "1 < space" "0 \<le> schar c" "schar c \<le> space - 1" by linarith
  then show ?case
  proof cases
    case full
    have "SQZ_decompress [0] room = Inr []" for room
      by (simp add: SQZ_decompress_Cons schar_def)
    with full "3.prems"(2) show ?thesis by (cases "space = 1") (auto simp: Let_def)
  next
    case run
    have r: "data \<noteq> []" "take n data = replicate n (hd data)"
      using run(2) "3.prems"(1) by (auto simp: n_def Let_def)
    from "3.IH"(1) [OF refl _ refl run(2) r(1)] run "3.prems"(3) d(2) obtain m out where rest:
      "sqz_compress_loop (control # dcc) (drop n data) (space - 2) = Inr (m, out)"
      "m \<le> length (drop n data)" "int (length out) = space - 2"
      "\<forall>room \<ge> m. SQZ_decompress out room = Inr (take m (drop n data))"
      by (auto simp: n_def)
    have "SQZ_decompress (c # hd data # out) room = Inr (take (n + m) data)" if "n + m \<le> room" for room
      using that run rest(4) take_add [of n m data] unfolding r(2)
      by (simp add: n_def SQZ_decompress_run)
    with run r(1) rest d(1) show ?thesis by (auto simp: n_def Let_def)
  next
    case cut
    then have k: "schar (to_schar (space - 1)) = space - 1" "nat (space - 1) \<le> length data"
      using schar_upper [of c] d(1) by (auto intro!: schar_to_schar simp: n_def)
    have "SQZ_decompress (to_schar (space - 1) # take (nat (space - 1)) data) room =
        Inr (take (nat (space - 1)) data)" if "nat (space - 1) \<le> room" for room
      using that cut k SQZ_decompress_literal [of "to_schar (space - 1)" "take (nat (space - 1)) data" room "[]"]
      by simp
    with cut k show ?thesis by (auto simp: Let_def)
  next
    case lit
    from "3.IH"(2) [OF refl _ refl _ refl] lit "3.prems"(3) d obtain m out where rest:
      "sqz_compress_loop (control # dcc) (drop n data) (space - 1 - schar c) = Inr (m, out)"
      "m \<le> length (drop n data)" "int (length out) = space - 1 - schar c"
      "\<forall>room \<ge> m. SQZ_decompress out room = Inr (take m (drop n data))"
      by (auto simp: n_def)
    have "SQZ_decompress (c # take n data @ out) room = Inr (take (n + m) data)" if "n + m \<le> room" for room
      using that lit rest(4) d(1) take_add [of n m data] SQZ_decompress_literal [of c "take n data" room out]
      by (simp add: n_def)
    with lit d(1) rest show ?thesis by (auto simp: n_def Let_def)
  qed
qed simp_all

lemma sqz_compress_length_agrees:
  "sqz_compress_loop dcc data space = Inr (n, out) \<Longrightarrow> sqz_compress_length_loop dcc space = Inr n"
  by (induction dcc data space arbitrary: n out rule: sqz_compress_loop.induct)
     (auto simp: Let_def split: if_splits)

section \<open>Record differences\<close>

definition MAX_DIFFERENCES :: nat where
  "MAX_DIFFERENCES = 1024"

text \<open>
  The records are lists, \<open>room\<close> is \<^verbatim>\<open>end - out\<close>.  \<^verbatim>\<open>STUFF\<close> returns 32000 from
  \<^verbatim>\<open>SQZ_differences\<close> when there is no room; that return is \<open>None\<close>.

  \<open>diff_literal r1 r2 k room\<close> is the inner loop that copies differing bytes, with \<open>k\<close> the
  number of positions up to \<^verbatim>\<open>yellow\<close>.  In its second condition \<^verbatim>\<open>rec1 < yellow\<close> is
  tested first, since \<^verbatim>\<open>rec1 [1]\<close> lies past the compared part when it fails.
\<close>

fun diff_literal ::
  "byte list \<Rightarrow> byte list \<Rightarrow> nat \<Rightarrow> int \<Rightarrow> (byte list \<times> byte list \<times> byte list \<times> int) option" where
  "diff_literal (a # r1) (b # r2) (Suc k) room =
     (if a \<noteq> b \<or> (0 < k \<and> hd r1 \<noteq> hd r2)
      then (if room > 0
            then map_option (\<lambda>(lits, s1, s2, room'). (b # lits, s1, s2, room'))
                   (diff_literal r1 r2 k (room - 1))
            else None)
      else Some ([], a # r1, b # r2, room))"
| "diff_literal r1 r2 k room = Some ([], r1, r2, room)"

fun equal_bytes :: "byte list \<Rightarrow> byte list \<Rightarrow> nat" where
  "equal_bytes (a # r1) (b # r2) = (if a = b then Suc (equal_bytes r1 r2) else 0)"
| "equal_bytes _ _ = 0"

fun stuff_skip :: "nat \<Rightarrow> int \<Rightarrow> (byte list \<times> int) option" where
  "stuff_skip n room =
     (if n > 127
      then (if room > 0
            then map_option (\<lambda>(skips, room'). (to_schar (-127) # skips, room'))
                   (stuff_skip (n - 127) (room - 1))
            else None)
      else if n \<noteq> 0
      then (if room > 0 then Some ([to_schar (- int n)], room - 1) else None)
      else Some ([], room))"

declare stuff_skip.simps [simp del]

function diff_tail :: "byte list \<Rightarrow> int \<Rightarrow> byte list option" where
  "diff_tail r2 room =
     (if r2 = [] then Some []
      else let k = min (length r2) 127 in
           if int k \<le> room - 1
           then map_option (\<lambda>out. to_schar (int k) # take k r2 @ out)
                  (diff_tail (drop k r2) (room - 1 - int k))
           else None)"
  by pat_completeness auto
termination
  by (relation "measure (\<lambda>(r2, room). length r2)") auto

declare diff_tail.simps [simp del]

lemma diff_literal_split:
  assumes "diff_literal r1 r2 k room = Some (lits, s1, s2, room')" "length r1 \<le> length r2"
  shows "\<exists>m \<le> k. m \<le> length r1 \<and> lits = take m r2 \<and> s1 = drop m r1 \<and> s2 = drop m r2"
  using assms
proof (induction r1 r2 k room arbitrary: lits s1 s2 room' rule: diff_literal.induct)
  case (1 a r1 b r2 k room)
  show ?case
  proof (cases "a \<noteq> b \<or> (0 < k \<and> hd r1 \<noteq> hd r2)")
    case True
    with 1 obtain m lits' where "m \<le> k" "m \<le> length r1" "lits = b # lits'" "lits' = take m r2"
      "s1 = drop m r1" "s2 = drop m r2" by (fastforce split: if_splits)
    then show ?thesis by (intro exI [of _ "Suc m"]) simp
  next
    case False
    with 1 show ?thesis by (intro exI [of _ 0]) auto
  qed
qed auto

lemma diff_literal_nonempty:
  assumes "diff_literal r1 r2 k room = Some (lits, s1, s2, room')"
    and "r1 ! 0 \<noteq> r2 ! 0 \<or> r1 ! 1 \<noteq> r2 ! 1" "2 < length r1" "2 < length r2" "1 < k"
  shows "lits \<noteq> []"
  using assms by (cases r1; cases "tl r1"; cases r2; cases "tl r2"; cases k) (auto split: if_splits)

lemma equal_bytes_pos: "r1 ! 0 = r2 ! 0 \<Longrightarrow> r1 \<noteq> [] \<Longrightarrow> r2 \<noteq> [] \<Longrightarrow> 0 < equal_bytes r1 r2"
  by (cases r1; cases r2) simp_all

lemma equal_bytes_le: "equal_bytes r1 r2 \<le> length r1" "equal_bytes r1 r2 \<le> length r2"
  by (induction r1 r2 rule: equal_bytes.induct) auto

lemma equal_bytes_take: "take (equal_bytes r1 r2) r1 = take (equal_bytes r1 r2) r2"
  by (induction r1 r2 rule: equal_bytes.induct) auto

text \<open>
  The main loop; \<open>r1\<close> is the part of the first record the two have in common in length.
  The clause for lists of unequal length is never reached from \<open>SQZ_differences\<close>.
\<close>

function diff_loop :: "byte list \<Rightarrow> byte list \<Rightarrow> int \<Rightarrow> byte list option" where
  "diff_loop r1 r2 room =
     (if length r1 > 2 \<and> length r1 \<le> length r2
      then if r1 ! 0 \<noteq> r2 ! 0 \<or> r1 ! 1 \<noteq> r2 ! 1
           then (case diff_literal r1 r2 (min (length r1) 127) (room - 1) of
                   None \<Rightarrow> None
                 | Some (lits, s1, s2, room') \<Rightarrow>
                     map_option (\<lambda>out. to_schar (int (length lits)) # lits @ out)
                       (diff_loop s1 s2 room'))
           else let n = equal_bytes r1 r2 in
                (case stuff_skip n room of
                   None \<Rightarrow> None
                 | Some (skips, room') \<Rightarrow>
                     map_option (\<lambda>out. skips @ out) (diff_loop (drop n r1) (drop n r2) room'))
      else diff_tail r2 room)"
  by pat_completeness auto

lemma diff_literal_shrinks:
  assumes "diff_literal r1 r2 (min (length r1) 127) room = Some (lits, s1, s2, room')"
    and "2 < length r1" "length r1 \<le> length r2" "r1 ! 0 \<noteq> r2 ! 0 \<or> r1 ! 1 \<noteq> r2 ! 1"
  shows "length s1 < length r1"
proof -
  from diff_literal_split [OF assms(1,3)]
  obtain m where "m \<le> length r1" "lits = take m r2" "s1 = drop m r1" by blast
  moreover have "lits \<noteq> []" using diff_literal_nonempty [OF assms(1,4)] assms(2,3) by auto
  ultimately show ?thesis using assms(2) by auto
qed

termination diff_loop
proof (relation "measure (\<lambda>(r1, r2, room). length r1)", goal_cases)
  case 2
  then show ?case by (auto dest: diff_literal_shrinks)
next
  case (3 r1 r2)
  then have "0 < equal_bytes r1 r2" by (intro equal_bytes_pos) auto
  with 3 show ?case by auto
qed auto

declare diff_loop.simps [simp del]

definition SQZ_differences :: "byte list \<Rightarrow> byte list \<Rightarrow> int \<Rightarrow> byte list option" where
  "SQZ_differences rec1 rec2 len = diff_loop (take (min (length rec1) (length rec2)) rec1) rec2 len"

text \<open>
  \<open>apply_loop data p diffs\<close> is the loop of \<^verbatim>\<open>SQZ_apply_differences\<close> on the record \<open>data\<close>,
  with \<open>p\<close> the offset of the pointer, which a skip may take past the end.  The result is the error
  the loop ends with, if any, the record as it has been changed by then, and where the loop
  stands in both.  A copy beyond the end of the record would make it longer.
\<close>

function apply_loop :: "byte list \<Rightarrow> nat \<Rightarrow> byte list \<Rightarrow> bugcheck option \<times> byte list \<times> nat \<times> byte list" where
  "apply_loop data p diffs =
     (if diffs \<noteq> [] \<and> p < length data
      then let l = schar (hd diffs); diffs1 = tl diffs in
           if l > 0
           then if p + nat l > length data then (Some (BUGCHECK 177), data, p, diffs1)
                else if length diffs1 < nat l
                then (Some OUT_OF_BOUNDS, take p data @ diffs1 @ drop (p + length diffs1) data, p, [])
                else apply_loop (take p data @ take (nat l) diffs1 @ drop (p + nat l) data)
                       (p + nat l) (drop (nat l) diffs1)
           else apply_loop data (p + nat (- l)) diffs1
      else (None, data, p, diffs))"
  by pat_completeness auto
termination
  by (relation "measure (\<lambda>(data, p, diffs). length diffs)") auto

declare apply_loop.simps [simp del]

definition SQZ_apply_differences :: "byte list \<Rightarrow> byte list \<Rightarrow> (byte list \<times> nat) result" where
  "SQZ_apply_differences data diffs =
     (if length diffs > MAX_DIFFERENCES then Inl (BUGCHECK 176)
      else case apply_loop data 0 diffs of
             (Some e, _) \<Rightarrow> Inl e
           | (None, data', p, rest) \<Rightarrow>
               let len = p mod 65536 in
               if len > length data \<or> rest \<noteq> [] then Inl (BUGCHECK 177) else Inr (data', len))"

lemma apply_loop_literal:
  assumes "0 < length lits" "length lits \<le> 127" "length lits \<le> length rest"
  shows "apply_loop (pre @ rest) (length pre) (to_schar (int (length lits)) # lits @ more) =
         apply_loop ((pre @ lits) @ drop (length lits) rest) (length (pre @ lits)) more"
  using assms by (subst apply_loop.simps) (auto simp: schar_to_schar Let_def)

lemma apply_loop_skip1:
  assumes "0 < n" "n \<le> 127" "n \<le> length rest"
  shows "apply_loop (pre @ rest) (length pre) (to_schar (- int n) # more) =
         apply_loop ((pre @ take n rest) @ drop n rest) (length (pre @ take n rest)) more"
  using assms by (subst apply_loop.simps) (auto simp: schar_to_schar Let_def)

lemma apply_loop_skip:
  assumes "stuff_skip n room = Some (skips, room')" "n \<le> length rest"
  shows "apply_loop (pre @ rest) (length pre) (skips @ more) =
         apply_loop ((pre @ take n rest) @ drop n rest) (length (pre @ take n rest)) more"
  using assms
proof (induction n room arbitrary: skips room' pre rest rule: stuff_skip.induct)
  case (1 n room)
  show ?case
  proof (cases "n > 127")
    case True
    with "1.prems" obtain skips' where s:
      "stuff_skip (n - 127) (room - 1) = Some (skips', room')" "skips = to_schar (-127) # skips'"
      "room > 0"
      by (auto simp: stuff_skip.simps [of n] split: if_splits)
    have "apply_loop (pre @ rest) (length pre) (skips @ more) =
        apply_loop ((pre @ take 127 rest) @ drop 127 rest) (length (pre @ take 127 rest)) (skips' @ more)"
      using apply_loop_skip1 [of 127 rest pre "skips' @ more"] True "1.prems"(2) s(2) by simp
    also have "\<dots> = apply_loop (((pre @ take 127 rest) @ take (n - 127) (drop 127 rest)) @
          drop (n - 127) (drop 127 rest))
        (length ((pre @ take 127 rest) @ take (n - 127) (drop 127 rest))) more"
      using "1.prems"(2) by (intro "1.IH" [OF True s(3,1)]) simp
    also have "\<dots> = apply_loop ((pre @ take n rest) @ drop n rest) (length (pre @ take n rest)) more"
      using True take_add [of 127 "n - 127" rest] by simp
    finally show ?thesis .
  next
    case False
    with "1.prems" show ?thesis
      using apply_loop_skip1 [of n rest pre more]
      by (cases "n = 0") (auto simp: stuff_skip.simps [of n] stuff_skip.simps [of 0] split: if_splits)
  qed
qed

lemma apply_loop_tail:
  assumes "diff_tail r2 room = Some out" "length r2 \<le> length rest"
  shows "apply_loop (pre @ rest) (length pre) out =
         (None, pre @ r2 @ drop (length r2) rest, length pre + length r2, [])"
  using assms
proof (induction r2 room arbitrary: out pre rest rule: diff_tail.induct)
  case (1 r2 room)
  show ?case
  proof (cases "r2 = []")
    case True
    with "1.prems" show ?thesis by (simp add: diff_tail.simps apply_loop.simps)
  next
    case False
    define k where "k = min (length r2) 127"
    from "1.prems"(1) False obtain out' where o: "int k \<le> room - 1"
      "diff_tail (drop k r2) (room - 1 - int k) = Some out'" "out = to_schar (int k) # take k r2 @ out'"
      by (auto simp: diff_tail.simps [of r2] k_def Let_def split: if_splits)
    have "apply_loop (pre @ rest) (length pre) out =
        apply_loop ((pre @ take k r2) @ drop k rest) (length (pre @ take k r2)) out'"
      using apply_loop_literal [of "take k r2" rest pre out'] False "1.prems"(2) o(3)
      by (simp add: k_def)
    also have "\<dots> = (None, (pre @ take k r2) @ drop k r2 @ drop (length (drop k r2)) (drop k rest),
        length (pre @ take k r2) + length (drop k r2), [])"
      using "1.prems"(2) by (intro "1.IH" [OF False k_def o(1,2)]) simp
    also have "\<dots> = (None, pre @ r2 @ drop (length r2) rest, length pre + length r2, [])"
      by (simp add: k_def)
    finally show ?thesis .
  qed
qed

lemma apply_loop_diff:
  assumes "diff_loop r1 r2 room = Some out"
    and "length r1 \<le> length r2" "length r2 \<le> length rest" "take (length r1) rest = r1"
  shows "apply_loop (pre @ rest) (length pre) out =
         (None, pre @ r2 @ drop (length r2) rest, length pre + length r2, [])"
  using assms
proof (induction r1 r2 room arbitrary: out pre rest rule: diff_loop.induct)
  case (1 r1 r2 room)
  have shape: "take (length (drop m r1)) (drop m rest) = drop m r1" for m
    using "1.prems"(4) by (metis drop_take length_drop)
  consider (tail) "length r1 \<le> 2"
    | (lit) "2 < length r1" "r1 ! 0 \<noteq> r2 ! 0 \<or> r1 ! 1 \<noteq> r2 ! 1"
    | (skip) "2 < length r1" "\<not> (r1 ! 0 \<noteq> r2 ! 0 \<or> r1 ! 1 \<noteq> r2 ! 1)" by linarith
  then show ?case
  proof cases
    case tail
    with "1.prems" show ?thesis by (intro apply_loop_tail) (simp_all add: diff_loop.simps)
  next
    case lit
    with "1.prems"(1,2) obtain lits s1 s2 room' out' where o:
      "diff_literal r1 r2 (min (length r1) 127) (room - 1) = Some (lits, s1, s2, room')"
      "diff_loop s1 s2 room' = Some out'" "out = to_schar (int (length lits)) # lits @ out'"
      by (auto simp: diff_loop.simps [of r1] split: option.splits)
    from diff_literal_split [OF o(1) "1.prems"(2)] obtain m where m:
      "m \<le> 127" "m \<le> length r1" "lits = take m r2" "s1 = drop m r1" "s2 = drop m r2" by auto
    have "lits \<noteq> []" using diff_literal_nonempty [OF o(1) lit(2)] lit(1) "1.prems"(2) by auto
    with m "1.prems"(2,3) have "apply_loop (pre @ rest) (length pre) out =
        apply_loop ((pre @ take m r2) @ drop m rest) (length (pre @ take m r2)) out'"
      using apply_loop_literal [of lits rest pre out'] o(3) by simp
    also have "\<dots> = (None, (pre @ take m r2) @ drop m r2 @ drop (length (drop m r2)) (drop m rest),
        length (pre @ take m r2) + length (drop m r2), [])"
      using "1.IH"(1) [where rest = "drop m rest" and pre = "pre @ take m r2", OF _ lit(2) o(1) refl refl refl]
        lit(1) o(2) "1.prems"(2,3) m shape [of m] by simp
    also have "\<dots> = (None, pre @ r2 @ drop (length r2) rest, length pre + length r2, [])"
      using m(2) "1.prems"(2) by simp
    finally show ?thesis .
  next
    case skip
    define n where "n = equal_bytes r1 r2"
    have n: "n \<le> length r1" "n \<le> length r2" "take n r1 = take n r2"
      using equal_bytes_le [of r1 r2] equal_bytes_take [of r1 r2] by (simp_all add: n_def)
    from skip "1.prems"(1,2) obtain skips room' out' where o:
      "stuff_skip n room = Some (skips, room')"
      "diff_loop (drop n r1) (drop n r2) room' = Some out'" "out = skips @ out'"
      by (auto simp: diff_loop.simps [of r1] n_def Let_def split: option.splits)
    have tk: "take n rest = take n r2"
      using n "1.prems"(4) by (metis min.absorb1 take_take)
    have "apply_loop (pre @ rest) (length pre) out =
        apply_loop ((pre @ take n r2) @ drop n rest) (length (pre @ take n r2)) out'"
      using apply_loop_skip [OF o(1), of rest pre out'] o(3) n(2) "1.prems"(3) unfolding tk by simp
    also have "\<dots> = (None, (pre @ take n r2) @ drop n r2 @ drop (length (drop n r2)) (drop n rest),
        length (pre @ take n r2) + length (drop n r2), [])"
      using "1.IH"(2) [where rest = "drop n rest" and pre = "pre @ take n r2", OF _ skip(2) n_def o(1) refl]
        skip(1) o(2) "1.prems"(2,3) n shape [of n] by simp
    also have "\<dots> = (None, pre @ r2 @ drop (length r2) rest, length pre + length r2, [])"
      using n(2) by simp
    finally show ?thesis .
  qed
qed

section \<open>The codec contract\<close>

text \<open>
  What a client of a compressor relies on.  \<open>decode\<close> gets the room of its output buffer.
\<close>

locale codec =
  fixes encode :: "'a \<Rightarrow> 'b list"
    and decode :: "'b list \<Rightarrow> nat \<Rightarrow> 'e + 'a"
    and valid :: "'a \<Rightarrow> bool"
    and extent :: "'a \<Rightarrow> nat"
  assumes decode_encode: "valid x \<Longrightarrow> extent x \<le> room \<Longrightarrow> decode (encode x) room = Inr x"
begin

lemma encode_inject:
  assumes "valid x" "valid y" "encode x = encode y"
  shows "x = y"
proof -
  let ?room = "max (extent x) (extent y)"
  have "(Inr x :: 'e + 'a) = decode (encode x) ?room" using assms(1) by (simp add: decode_encode)
  also have "\<dots> = Inr y" using assms(2) by (simp add: assms(3) decode_encode)
  finally show ?thesis by simp
qed

lemma decode_encode_all:
  assumes "\<And>x. x \<in> set xs \<Longrightarrow> valid x \<and> extent x \<le> room"
  shows "map (\<lambda>x. decode (encode x) room) xs = map Inr xs"
  using assms by (auto simp: decode_encode)

end

text \<open>
  How \<^verbatim>\<open>DPM_store\<close> stores a record that fits on a page: the control string, then the whole
  image.
\<close>

definition store_image :: "byte list \<Rightarrow> byte list result" where
  "store_image data = SQZ_fast (fst (SQZ_length data)) data"

lemma store_image_ok:
  assumes "length data < 65536"
  obtains out where "store_image data = Inr out"
    "int (length out) = image_length (concat (fst (SQZ_length data)))"
    "\<And>room. length data \<le> room \<Longrightarrow> SQZ_decompress out room = Inr data"
  using sqz_fast_block_roundtrip [OF SQZ_length_describes(1) [OF assms]]
  by (auto simp: store_image_def SQZ_fast_concat)

definition stored :: "byte list \<Rightarrow> byte list" where
  "stored data = (case store_image data of Inr out \<Rightarrow> out | Inl _ \<Rightarrow> [])"

interpretation record_codec: codec stored SQZ_decompress "\<lambda>data. length data < 65536" length
proof
  fix data :: "byte list" and room
  assume "length data < 65536" "length data \<le> room"
  then show "SQZ_decompress (stored data) room = Inr data"
    by (metis store_image_ok stored_def sum.simps(6))
qed

section \<open>Properties\<close>

lemmas sqz_eval =
  SQZ_length_def sqz_length_loop.simps push_literals.simps push_control_def dcc_size_def
  literal_count_def compressible_run_def Let_def schar_def to_schar_def
  SQZ_compress_def SQZ_compress_length_def SQZ_decompress_def decompress_loop.simps(2)
  SQZ_differences_def diff_loop.simps diff_tail.simps stuff_skip.simps
  SQZ_apply_differences_def apply_loop.simps MAX_DIFFERENCES_def

text \<open>All that decompression has ever written lies in the buffer, however it ends.\<close>

lemma decompress_loop_length:
  "length written \<le> room \<Longrightarrow> length (snd (decompress_loop input written room)) \<le> room"
proof (induction input written room rule: decompress_loop.induct)
  case (2 b input written room)
  then show ?case by (auto simp: decompress_loop.simps(2) Let_def split: list.split)
qed simp

text \<open>No piece of the input is cut short.\<close>

function whole_pieces :: "byte list \<Rightarrow> bool" where
  "whole_pieces [] = True"
| "whole_pieces (b # input) =
     (if schar b < 0 then input \<noteq> [] \<and> whole_pieces (tl input)
      else nat (schar b) \<le> length input \<and> whole_pieces (drop (nat (schar b)) input))"
  by pat_completeness auto
termination by (relation "measure length") auto

declare whole_pieces.simps(2) [simp del]

lemma decompress_loop_errors:
  "fst (decompress_loop input written room) \<in> {None, Some (BUGCHECK 179), Some OUT_OF_BOUNDS}"
  "whole_pieces input \<Longrightarrow> fst (decompress_loop input written room) \<noteq> Some OUT_OF_BOUNDS"
proof (induction input written room rule: decompress_loop.induct)
  case (2 b input written room)
  { case 1
    show ?case using 2(1,3) by (auto simp: decompress_loop.simps(2) Let_def split: list.split) }
  { case 2
    then show ?case using "2.IH"(2,4) by (auto simp: decompress_loop.simps(2) whole_pieces.simps(2) Let_def split: list.split if_splits) }
qed simp_all

lemma apply_loop_length: "length (fst (snd (apply_loop data p diffs))) = length data"
proof (induction data p diffs rule: apply_loop.induct)
  case (1 data p diffs)
  then show ?case by (subst apply_loop.simps) (auto simp: Let_def)
qed

lemma apply_loop_errors: "fst (apply_loop data p diffs) \<in> {None, Some (BUGCHECK 177), Some OUT_OF_BOUNDS}"
proof (induction data p diffs rule: apply_loop.induct)
  case (1 data p diffs)
  then show ?case by (subst apply_loop.simps) (auto simp: Let_def)
qed

text \<open>
  (C25) Storing a record and expanding it gives the record back: for a record of less than
  64K bytes, \<^verbatim>\<open>SQZ_fast\<close> under the control string of \<^verbatim>\<open>SQZ_length\<close> never reads outside
  the record, its output has the length \<^verbatim>\<open>SQZ_length\<close> returned (a \<^verbatim>\<open>USHORT\<close>), and
  \<^verbatim>\<open>SQZ_decompress\<close> into a buffer of the record's size restores the record.
\<close>

theorem SQZ_roundtrip:
  assumes "length data < 65536" "length data \<le> room"
  shows "\<exists>out. SQZ_fast (fst (SQZ_length data)) data = Inr out \<and>
           length out mod 65536 = snd (SQZ_length data) \<and>
           SQZ_decompress out room = Inr data"
proof -
  obtain out where out: "store_image data = Inr out"
    "int (length out) = image_length (concat (fst (SQZ_length data)))"
    "\<And>room. length data \<le> room \<Longrightarrow> SQZ_decompress out room = Inr data"
    using store_image_ok [OF assms(1)] by blast
  from SQZ_length_describes(2) [OF assms(1)] have "length out mod 65536 = snd (SQZ_length data)"
    by (simp flip: out(2) add: nat_mod_as_int)
  with out assms(2) show ?thesis by (auto simp: store_image_def)
qed

theorem SQZ_roundtrip_witness:
  "\<exists>out. SQZ_fast (fst (SQZ_length [7, 7, 7, 7, 1, 2])) [7, 7, 7, 7, 1, 2] = Inr out \<and>
     length out mod 65536 = snd (SQZ_length [7, 7, 7, 7, 1, 2]) \<and>
     SQZ_decompress out 6 = Inr [7, 7, 7, 7, 1, 2]"
  by (rule SQZ_roundtrip) simp_all

text \<open>
  (C26) When the image of a record is longer than the space left on a page,
  \<^verbatim>\<open>SQZ_compress\<close> fills the space exactly, and what it wrote expands to the first \<open>n\<close>
  bytes of the record, where \<open>n\<close> is the count it returns.
\<close>

theorem SQZ_compress_prefix:
  assumes "length data < 65536" "0 \<le> space" "space < image_length (concat (fst (SQZ_length data)))"
  shows "\<exists>n out. SQZ_compress (fst (SQZ_length data)) data space = Inr (n, out) \<and>
           n \<le> length data \<and> int (length out) = space \<and> SQZ_decompress out n = Inr (take n data)"
  using sqz_compress_loop_prefix [OF SQZ_length_describes(1) [OF assms(1)] assms(2,3)] assms(1)
  by (auto simp: SQZ_compress_def)

theorem SQZ_compress_prefix_witness:
  "\<exists>n out. SQZ_compress (fst (SQZ_length [9, 9, 9, 9, 4, 5])) [9, 9, 9, 9, 4, 5] 4 = Inr (n, out) \<and>
     n \<le> length [9 :: byte, 9, 9, 9, 4, 5] \<and> int (length out) = 4 \<and>
     SQZ_decompress out n = Inr (take n [9, 9, 9, 9, 4, 5])"
  by (rule SQZ_compress_prefix) (simp_all add: sqz_eval)

text \<open>
  \<^verbatim>\<open>SQZ_compress_length\<close> predicts \<^verbatim>\<open>SQZ_compress\<close>: whenever the latter returns a
  count of input bytes, the former returns the same count without looking at the input.
\<close>

theorem SQZ_compress_length_equiv:
  assumes "SQZ_compress dcc data space = Inr (n, out)"
  shows "SQZ_compress_length dcc space = Inr n"
  using assms by (auto simp: SQZ_compress_def SQZ_compress_length_def dest: sqz_compress_length_agrees)

theorem SQZ_compress_length_equiv_witness:
  "SQZ_compress_length [[3, 2]] 3 = Inr 2"
  by (rule SQZ_compress_length_equiv [of _ "[1, 2, 3, 4, 5]" _ _ "[2, 1, 2]"]) (simp add: sqz_eval)

text \<open>
  (C27) \<^verbatim>\<open>SQZ_decompress\<close> never writes past its output buffer, whatever bytes it is given and
  however it ends: all that its loop has written by the time it stops, for an error or at the end
  of the input, is at most \<open>room\<close> bytes.  It returns the whole of it, or stops with bugcheck 179
  or, only when the input ends within a piece, reads beyond the input.
\<close>

theorem SQZ_decompress_in_bounds:
  "length (snd (decompress_loop input [] room)) \<le> room \<and>
   (case SQZ_decompress input room of
      Inr out \<Rightarrow> out = snd (decompress_loop input [] room)
    | Inl e \<Rightarrow> e = BUGCHECK 179 \<or> (e = OUT_OF_BOUNDS \<and> \<not> whole_pieces input))"
proof -
  obtain e out where l: "decompress_loop input [] room = (e, out)" by (cases "decompress_loop input [] room")
  have "length out \<le> room" using decompress_loop_length [of "[]" room input] l by simp
  then show ?thesis using decompress_loop_errors [of input "[]" room] by (auto simp: SQZ_decompress_def l split: option.split)
qed

text \<open>
  (C28) A difference record made by \<^verbatim>\<open>SQZ_differences\<close> from one version of a record to
  another, applied by \<^verbatim>\<open>SQZ_apply_differences\<close> to a buffer that holds the first version
  (with room for the second), turns it into the second version, returns its length, and
  leaves the rest of the buffer alone.
\<close>

theorem SQZ_differences_roundtrip:
  assumes "SQZ_differences rec1 rec2 len = Some out" "length out \<le> MAX_DIFFERENCES"
    and "length rec2 \<le> length data" "length data < 65536"
    and "take (min (length rec1) (length rec2)) data = take (min (length rec1) (length rec2)) rec1"
  shows "SQZ_apply_differences data out = Inr (rec2 @ drop (length rec2) data, length rec2)"
proof -
  have "apply_loop data 0 out = (None, rec2 @ drop (length rec2) data, length rec2, [])"
    using apply_loop_diff [OF assms(1) [unfolded SQZ_differences_def], where pre = "[]" and rest = data]
      assms by simp
  with assms show ?thesis by (simp add: SQZ_apply_differences_def Let_def)
qed

theorem SQZ_differences_roundtrip_witness:
  "SQZ_apply_differences [1, 2, 3, 4, 5, 6, 0] [254, 4, 9, 8, 5, 7]
     = Inr ([1, 2, 9, 8, 5, 7] @ drop 6 [1, 2, 3, 4, 5, 6, 0], 6)"
proof -
  have "SQZ_differences [1, 2, 3, 4, 5, 6] [1, 2, 9, 8, 5, 7] 100 = Some [254, 4, 9, 8, 5, 7]"
    by (simp add: sqz_eval)
  from SQZ_differences_roundtrip [OF this, of "[1, 2, 3, 4, 5, 6, 0]"]
  show ?thesis by (simp add: MAX_DIFFERENCES_def)
qed

text \<open>
  (C29) \<^verbatim>\<open>SQZ_apply_differences\<close> never writes outside the record, whatever difference string it is
  given and however it ends: the record its loop leaves, for an error or at the end, has the size
  it had.  The call gives that record and a length within it, or stops with bugcheck 176 or 177, or
  reads beyond a difference string that is cut short.
\<close>

theorem SQZ_apply_differences_in_bounds:
  "length (fst (snd (apply_loop data 0 diffs))) = length data \<and>
   (case SQZ_apply_differences data diffs of
      Inr (data', n) \<Rightarrow> data' = fst (snd (apply_loop data 0 diffs)) \<and> n \<le> length data
    | Inl e \<Rightarrow> e \<in> {BUGCHECK 176, BUGCHECK 177, OUT_OF_BOUNDS})"
  using apply_loop_length [of data 0 diffs] apply_loop_errors [of data 0 diffs]
  by (auto simp: SQZ_apply_differences_def Let_def split: option.split prod.split)

end
