(* ===== verification/Sbm.thy ===== *)
theory Sbm
  imports Prelude
begin

text \<open>
  Sparse bit maps, \<^verbatim>\<open>src/jrd/sbm.c\<close> and \<^verbatim>\<open>sbm.h\<close>: the sets of record numbers that index
  retrievals produce and combine.

  A root vector points to buckets of 32K numbers, a bucket to segments of 1024 bits.  The
  C code uses one structure \<^verbatim>\<open>sbm\<close> for roots and buckets and casts the pointers in
  \<^verbatim>\<open>sbm_segments\<close>; here the record is polymorphic in what its slots hold, so every routine
  that branches on \<^verbatim>\<open>sbm_type\<close> has one definition for buckets and one for roots.  A null
  slot is \<open>None\<close>.  The pool lists on which released segments and buckets wait for reuse are
  not part of the model: an allocated block is a cleared one.
\<close>

section \<open>Blocks\<close>

text \<open>\<^verbatim>\<open>SEGMENT_BITS\<close> is 10, \<^verbatim>\<open>BUCKET_BITS\<close> 15, and a \<^verbatim>\<open>BUNCH\<close> has 32 bits.\<close>

datatype sbm_states = SBM_EMPTY | SBM_SINGULAR | SBM_PLURAL

record bms =
  bms_min :: nat
  bms_max :: nat
  bms_bits :: "32 word list"

record 'seg sbm =
  sbm_state :: sbm_states
  sbm_count :: nat
  sbm_used :: "16 word"
  sbm_high_water :: nat
  sbm_number :: int
  sbm_segments :: "'seg option list"

type_synonym bucket = "bms sbm"
type_synonym bitmap = "bucket sbm"

definition clear_segment :: bms where
  "clear_segment = \<lparr>bms_min = 0, bms_max = 0, bms_bits = replicate 32 0\<rparr>"

definition clear_bucket :: bucket where
  "clear_bucket = \<lparr>sbm_state = SBM_EMPTY, sbm_count = 32, sbm_used = 0, sbm_high_water = 0,
     sbm_number = 0, sbm_segments = replicate 32 None\<rparr>"

text \<open>The shifts and masks that split a number.\<close>

definition bucket_slot :: "int \<Rightarrow> nat" where
  "bucket_slot number = nat (number div 32768 mod 65536)"

definition bucket_relative :: "int \<Rightarrow> int" where
  "bucket_relative number = number mod 32768"

definition segment_slot :: "int \<Rightarrow> nat" where
  "segment_slot number = nat (number div 1024 mod 65536)"

definition segment_relative :: "int \<Rightarrow> nat" where
  "segment_relative number = nat (number mod 1024)"

text \<open>\<^verbatim>\<open>test & (1 << bit)\<close>\<close>

definition bunch_test :: "32 word \<Rightarrow> nat \<Rightarrow> bool" where
  "bunch_test test b = (test AND push_bit b 1 \<noteq> 0)"

section \<open>SBM\_test\<close>

definition SBM_test_bucket :: "bucket \<Rightarrow> int \<Rightarrow> bool" where
  "SBM_test_bucket bm number =
     (case sbm_state bm of
        SBM_EMPTY \<Rightarrow> False
      | SBM_SINGULAR \<Rightarrow> number = sbm_number bm
      | SBM_PLURAL \<Rightarrow>
          (let slot = segment_slot number in
           if slot > sbm_high_water bm then False
           else case sbm_segments bm ! slot of
                  None \<Rightarrow> False
                | Some segment \<Rightarrow>
                    (let relative = segment_relative number;
                         test = bms_bits segment ! (relative div 32 mod 32)
                     in if test = 0 then False else bunch_test test (relative mod 32))))"

definition SBM_test :: "bitmap option \<Rightarrow> int \<Rightarrow> bool" where
  "SBM_test bitmap number =
     (case bitmap of
        None \<Rightarrow> False
      | Some bm \<Rightarrow>
          (case sbm_state bm of
             SBM_EMPTY \<Rightarrow> False
           | SBM_SINGULAR \<Rightarrow> number = sbm_number bm
           | SBM_PLURAL \<Rightarrow>
               (let slot = bucket_slot number in
                if slot > sbm_high_water bm then False
                else case sbm_segments bm ! slot of
                       None \<Rightarrow> False
                     | Some bucket \<Rightarrow> SBM_test_bucket bucket (bucket_relative number))))"

section \<open>SBM\_set\<close>

text \<open>The two halves of the routine that set one bit in a vector of segments.\<close>

definition set_segment_bit :: "bms \<Rightarrow> nat \<Rightarrow> bms" where
  "set_segment_bit segment relative =
     (let bunch = relative div 32 mod 32 in
      segment\<lparr>bms_bits := (bms_bits segment)[bunch := bms_bits segment ! bunch OR push_bit (relative mod 32) 1],
        bms_min := (if relative < bms_min segment then relative else bms_min segment),
        bms_max := (if relative > bms_max segment then relative else bms_max segment)\<rparr>)"

definition set_slot :: "nat \<Rightarrow> 'seg \<Rightarrow> 'seg sbm \<Rightarrow> 'seg sbm" where
  "set_slot slot s vector = vector\<lparr>sbm_segments := (sbm_segments vector)[slot := Some s]\<rparr>"

text \<open>A new block goes into a null slot.\<close>

definition fill_slot :: "nat \<Rightarrow> 'seg \<Rightarrow> 'seg sbm \<Rightarrow> 'seg sbm" where
  "fill_slot slot fresh vector =
     (set_slot slot fresh vector)\<lparr>sbm_used := sbm_used vector + 1,
        sbm_high_water := (if sbm_high_water vector < slot then slot else sbm_high_water vector)\<rparr>"

definition set_in_bucket :: "bucket \<Rightarrow> int \<Rightarrow> bucket" where
  "set_in_bucket vector number =
     (let slot = segment_slot number;
          relative = segment_relative number;
          vector1 = (if sbm_segments vector ! slot = None then fill_slot slot clear_segment vector else vector)
      in set_slot slot (set_segment_bit (the (sbm_segments vector1 ! slot)) relative) vector1)"

definition SBM_set_bucket :: "bucket \<Rightarrow> int \<Rightarrow> bucket" where
  "SBM_set_bucket vector number =
     (if sbm_state vector = SBM_EMPTY
      then vector\<lparr>sbm_state := SBM_SINGULAR, sbm_number := number\<rparr>
      else let vector1 = set_in_bucket vector number in
           if sbm_state vector1 = SBM_PLURAL then vector1
           else set_in_bucket (vector1\<lparr>sbm_state := SBM_PLURAL\<rparr>) (sbm_number vector1))"

text \<open>
  The size the vector is extended to when \<open>slot\<close> is beyond it; \<open>max_tail\<close> is
  \<^verbatim>\<open>SBM_max_tail\<close>, what \<^verbatim>\<open>ALL_tail\<close> returned to \<^verbatim>\<open>SBM_init\<close>.
\<close>

function double_end :: "nat \<Rightarrow> nat \<Rightarrow> nat" where
  "double_end slot end = (if 2 * end \<le> slot \<and> end \<noteq> 0 then double_end slot (2 * end) else 2 * end)"
  by pat_completeness auto
termination
  by (relation "measure (\<lambda>(slot, end). slot - end)") auto

declare double_end.simps [simp del]

definition extend_end :: "nat \<Rightarrow> nat \<Rightarrow> nat \<Rightarrow> nat" where
  "extend_end max_tail slot count =
     (if max_tail \<le> slot then slot + 5 else min (double_end slot count) max_tail)"

definition extend_vector :: "nat \<Rightarrow> nat \<Rightarrow> bitmap \<Rightarrow> bitmap" where
  "extend_vector max_tail slot vector =
     (if sbm_count vector \<le> slot
      then let end = extend_end max_tail slot (sbm_count vector) in
           vector\<lparr>sbm_segments := sbm_segments vector @ replicate (end - length (sbm_segments vector)) None,
             sbm_count := end mod 65536\<rparr>
      else vector)"

definition set_in_root :: "nat \<Rightarrow> bitmap \<Rightarrow> int \<Rightarrow> bitmap" where
  "set_in_root max_tail vector number =
     (let slot = bucket_slot number;
          relative = bucket_relative number;
          vector1 = extend_vector max_tail slot vector;
          vector2 = (if sbm_segments vector1 ! slot = None then fill_slot slot clear_bucket vector1 else vector1)
      in set_slot slot (SBM_set_bucket (the (sbm_segments vector2 ! slot)) relative) vector2)"

definition SBM_set :: "nat \<Rightarrow> bitmap option \<Rightarrow> int \<Rightarrow> bitmap" where
  "SBM_set max_tail bitmap number =
     (case bitmap of
        None \<Rightarrow> \<lparr>sbm_state = SBM_SINGULAR, sbm_count = 5, sbm_used = 0, sbm_high_water = 0,
                  sbm_number = number, sbm_segments = replicate 5 None\<rparr>
      | Some vector \<Rightarrow>
          if sbm_state vector = SBM_EMPTY
          then vector\<lparr>sbm_state := SBM_SINGULAR, sbm_number := number\<rparr>
          else let vector1 = set_in_root max_tail vector number in
               if sbm_state vector1 = SBM_PLURAL then vector1
               else set_in_root max_tail (vector1\<lparr>sbm_state := SBM_PLURAL\<rparr>) (sbm_number vector1))"

section \<open>SBM\_clear, SBM\_reset, SBM\_size\<close>

text \<open>\<^verbatim>\<open>SBM_clear\<close> returns whether the bit was set.\<close>

definition SBM_clear_bucket :: "bucket \<Rightarrow> int \<Rightarrow> bool \<times> bucket" where
  "SBM_clear_bucket bm number =
     (case sbm_state bm of
        SBM_EMPTY \<Rightarrow> (False, bm)
      | SBM_SINGULAR \<Rightarrow>
          if number = sbm_number bm then (True, bm\<lparr>sbm_state := SBM_EMPTY\<rparr>) else (False, bm)
      | SBM_PLURAL \<Rightarrow>
          (let slot = segment_slot number in
           if slot > sbm_high_water bm then (False, bm)
           else case sbm_segments bm ! slot of
                  None \<Rightarrow> (False, bm)
                | Some segment \<Rightarrow>
                    (let relative = segment_relative number;
                         bunch = relative div 32 mod 32;
                         test = bms_bits segment ! bunch
                     in if test = 0 then (False, bm)
                        else if \<not> bunch_test test (relative mod 32) then (False, bm)
                        else (True, set_slot slot
                               (segment\<lparr>bms_bits := (bms_bits segment)
                                  [bunch := test AND NOT (push_bit (relative mod 32) 1)]\<rparr>) bm))))"

definition SBM_clear :: "bitmap option \<Rightarrow> int \<Rightarrow> bool \<times> bitmap option" where
  "SBM_clear bitmap number =
     (case bitmap of
        None \<Rightarrow> (False, None)
      | Some bm \<Rightarrow>
          (case sbm_state bm of
             SBM_EMPTY \<Rightarrow> (False, Some bm)
           | SBM_SINGULAR \<Rightarrow>
               if number = sbm_number bm then (True, Some (bm\<lparr>sbm_state := SBM_EMPTY\<rparr>))
               else (False, Some bm)
           | SBM_PLURAL \<Rightarrow>
               (let slot = bucket_slot number in
                if slot > sbm_high_water bm then (False, Some bm)
                else case sbm_segments bm ! slot of
                       None \<Rightarrow> (False, Some bm)
                     | Some bucket \<Rightarrow>
                         (let (found, bucket') = SBM_clear_bucket bucket (bucket_relative number)
                          in (found, Some (set_slot slot bucket' bm))))))"

definition SBM_reset :: "bitmap option \<Rightarrow> bitmap option" where
  "SBM_reset bitmap =
     (case bitmap of
        None \<Rightarrow> None
      | Some vector \<Rightarrow>
          if sbm_state vector = SBM_EMPTY then Some vector
          else Some (vector\<lparr>sbm_segments := replicate (min (sbm_count vector) (length (sbm_segments vector))) None @
                              drop (sbm_count vector) (sbm_segments vector),
                            sbm_state := SBM_EMPTY, sbm_used := 0, sbm_high_water := 0\<rparr>))"

definition SBM_size :: "bitmap option \<Rightarrow> nat" where
  "SBM_size bitmap =
     (case bitmap of
        None \<Rightarrow> 0
      | Some vector \<Rightarrow>
          if sbm_state vector = SBM_EMPTY then 1
          else 1 + (\<Sum>slot \<leftarrow> take (sbm_count vector) (sbm_segments vector).
                 case slot of
                   None \<Rightarrow> 0
                 | Some bucket \<Rightarrow>
                     length (filter (\<lambda>s. s \<noteq> None) (take 32 (sbm_segments bucket))) + 1))"

section \<open>SBM\_and and SBM\_or\<close>

text \<open>
  Both routines work in place on two bitmaps and return a pointer to one of them, or null
  (\<^verbatim>\<open>SBM_and\<close> only).  The result here is which one, and both bitmaps as they are afterwards.
\<close>

datatype which_map = Null_map | First_map | Second_map

text \<open>A loop over the first \<open>n\<close> slots of two vectors.\<close>

fun zip_slots :: "nat \<Rightarrow> ('s option \<Rightarrow> 's option \<Rightarrow> 's option \<times> 's option) \<Rightarrow>
    's option list \<Rightarrow> 's option list \<Rightarrow> 's option list \<times> 's option list" where
  "zip_slots (Suc n) f (x # xs) (y # ys) =
     (let (x', y') = f x y; (xs', ys') = zip_slots n f xs ys in (x' # xs', y' # ys'))"
| "zip_slots _ f xs ys = (xs, ys)"

definition and_segments :: "bms option \<Rightarrow> bms option \<Rightarrow> bms option \<times> bms option" where
  "and_segments segment1 segment2 =
     (case segment1 of
        None \<Rightarrow> (None, segment2)
      | Some s1 \<Rightarrow>
          (case segment2 of
             None \<Rightarrow> (None, None)
           | Some s2 \<Rightarrow>
               (Some (s1\<lparr>bms_bits := map2 (AND) (bms_bits s1) (bms_bits s2)\<rparr>), Some s2)))"

definition or_segments :: "bms option \<Rightarrow> bms option \<Rightarrow> bms option \<times> bms option" where
  "or_segments segment1 segment2 =
     (case segment2 of
        None \<Rightarrow> (segment1, None)
      | Some s2 \<Rightarrow>
          (case segment1 of
             None \<Rightarrow> (Some s2, None)
           | Some s1 \<Rightarrow>
               (Some (s1\<lparr>bms_bits := map2 (OR) (bms_bits s1) (bms_bits s2)\<rparr>), Some s2)))"

text \<open>Combine the slots of two plural vectors up to the high water mark of \<open>limit\<close>.\<close>

definition zip_vectors ::
  "('s option \<Rightarrow> 's option \<Rightarrow> 's option \<times> 's option) \<Rightarrow> nat \<Rightarrow> 's sbm \<Rightarrow> 's sbm \<Rightarrow> 's sbm \<times> 's sbm" where
  "zip_vectors f limit mp1 mp2 =
     (let (segs1, segs2) = zip_slots (limit + 1) f (sbm_segments mp1) (sbm_segments mp2)
      in (mp1\<lparr>sbm_segments := segs1\<rparr>, mp2\<lparr>sbm_segments := segs2\<rparr>))"

definition SBM_and_bucket :: "bucket \<Rightarrow> bucket \<Rightarrow> which_map \<times> bucket \<times> bucket" where
  "SBM_and_bucket mp1 mp2 =
     (if sbm_state mp1 = SBM_EMPTY \<or> sbm_state mp2 = SBM_EMPTY then (Null_map, mp1, mp2)
      else if sbm_state mp1 = SBM_SINGULAR
      then (if SBM_test_bucket mp2 (sbm_number mp1) then First_map else Null_map, mp1, mp2)
      else if sbm_state mp2 = SBM_SINGULAR
      then (if SBM_test_bucket mp1 (sbm_number mp2) then Second_map else Null_map, mp1, mp2)
      else if sbm_high_water mp1 > sbm_high_water mp2
      then let (m2, m1) = zip_vectors and_segments (sbm_high_water mp2) mp2 mp1 in (Second_map, m1, m2)
      else let (m1, m2) = zip_vectors and_segments (sbm_high_water mp1) mp1 mp2 in (First_map, m1, m2))"

definition and_buckets :: "bucket option \<Rightarrow> bucket option \<Rightarrow> bucket option \<times> bucket option" where
  "and_buckets bucket1 bucket2 =
     (case bucket1 of
        None \<Rightarrow> (None, bucket2)
      | Some b1 \<Rightarrow>
          (case bucket2 of
             None \<Rightarrow> (None, Some b1)
           | Some b2 \<Rightarrow>
               (let (res, b1', b2') = SBM_and_bucket b1 b2 in
                case res of
                  Null_map \<Rightarrow> (None, Some b2')
                | First_map \<Rightarrow> (Some b1', Some b2')
                | Second_map \<Rightarrow> (Some b2', Some b1'))))"

definition SBM_and :: "bitmap option \<Rightarrow> bitmap option \<Rightarrow> which_map \<times> bitmap option \<times> bitmap option" where
  "SBM_and bitmap1 bitmap2 =
     (case (bitmap1, bitmap2) of
        (Some mp1, Some mp2) \<Rightarrow>
          (if sbm_state mp1 = SBM_EMPTY \<or> sbm_state mp2 = SBM_EMPTY then (Null_map, bitmap1, bitmap2)
           else if sbm_state mp1 = SBM_SINGULAR
           then (if SBM_test bitmap2 (sbm_number mp1) then First_map else Null_map, bitmap1, bitmap2)
           else if sbm_state mp2 = SBM_SINGULAR
           then (if SBM_test bitmap1 (sbm_number mp2) then Second_map else Null_map, bitmap1, bitmap2)
           else if sbm_high_water mp1 > sbm_high_water mp2
           then let (m2, m1) = zip_vectors and_buckets (sbm_high_water mp2) mp2 mp1
                in (Second_map, Some m1, Some m2)
           else let (m1, m2) = zip_vectors and_buckets (sbm_high_water mp1) mp1 mp2
                in (First_map, Some m1, Some m2))
      | _ \<Rightarrow> (Null_map, bitmap1, bitmap2))"

definition SBM_or_bucket :: "bucket \<Rightarrow> bucket \<Rightarrow> which_map \<times> bucket \<times> bucket" where
  "SBM_or_bucket mp1 mp2 =
     (if sbm_state mp1 = SBM_EMPTY then (Second_map, mp1, mp2)
      else if sbm_state mp2 = SBM_EMPTY then (First_map, mp1, mp2)
      else if sbm_state mp1 = SBM_SINGULAR
      then (Second_map, mp1, SBM_set_bucket mp2 (sbm_number mp1))
      else if sbm_state mp2 = SBM_SINGULAR
      then (First_map, SBM_set_bucket mp1 (sbm_number mp2), mp2)
      else if sbm_high_water mp1 < sbm_high_water mp2
      then let (m2, m1) = zip_vectors or_segments (sbm_high_water mp1) mp2 mp1 in (Second_map, m1, m2)
      else let (m1, m2) = zip_vectors or_segments (sbm_high_water mp2) mp1 mp2 in (First_map, m1, m2))"

text \<open>
  \<^verbatim>\<open>*bucket1 = *(SBM_or (bucket1, bucket2)); if (*bucket1 == *bucket2) *bucket2 = temp;\<close>
\<close>

definition or_buckets :: "bucket option \<Rightarrow> bucket option \<Rightarrow> bucket option \<times> bucket option" where
  "or_buckets bucket1 bucket2 =
     (case bucket2 of
        None \<Rightarrow> (bucket1, None)
      | Some b2 \<Rightarrow>
          (case bucket1 of
             None \<Rightarrow> (Some b2, None)
           | Some b1 \<Rightarrow>
               (let (res, b1', b2') = SBM_or_bucket b1 b2 in
                if res = Second_map then (Some b2', Some b1') else (Some b1', Some b2'))))"

definition SBM_or :: "nat \<Rightarrow> bitmap option \<Rightarrow> bitmap option \<Rightarrow> which_map \<times> bitmap option \<times> bitmap option" where
  "SBM_or max_tail bitmap1 bitmap2 =
     (case bitmap1 of
        None \<Rightarrow> (Second_map, bitmap1, bitmap2)
      | Some mp1 \<Rightarrow>
          if sbm_state mp1 = SBM_EMPTY then (Second_map, bitmap1, bitmap2)
          else case bitmap2 of
            None \<Rightarrow> (First_map, bitmap1, bitmap2)
          | Some mp2 \<Rightarrow>
              if sbm_state mp2 = SBM_EMPTY then (First_map, bitmap1, bitmap2)
              else if sbm_state mp1 = SBM_SINGULAR
              then (Second_map, bitmap1, Some (SBM_set max_tail bitmap2 (sbm_number mp1)))
              else if sbm_state mp2 = SBM_SINGULAR
              then (First_map, Some (SBM_set max_tail bitmap1 (sbm_number mp2)), bitmap2)
              else if sbm_high_water mp1 < sbm_high_water mp2
              then let (m2, m1) = zip_vectors or_buckets (sbm_high_water mp1) mp2 mp1
                   in (Second_map, Some m1, Some m2)
              else let (m1, m2) = zip_vectors or_buckets (sbm_high_water mp2) mp1 mp2
                   in (First_map, Some m1, Some m2))"

text \<open>The bitmap the returned pointer leads to.\<close>

definition picked :: "which_map \<times> 'm option \<times> 'm option \<Rightarrow> 'm option" where
  "picked r = (case r of (Null_map, _, _) \<Rightarrow> None | (First_map, m1, _) \<Rightarrow> m1 | (Second_map, _, m2) \<Rightarrow> m2)"

section \<open>SBM\_next\<close>

text \<open>
  The modes are \<^verbatim>\<open>RSE_get_forward\<close> and \<^verbatim>\<open>RSE_get_backward\<close>; \<^verbatim>\<open>RSE_get_current\<close> is handled
  under \<^verbatim>\<open>PC_ENGINE\<close> only.  A result \<open>Some n\<close> is the return of \<^verbatim>\<open>TRUE\<close> with \<open>n\<close> stored
  through \<^verbatim>\<open>number\<close>.  The forward search releases segments and buckets in which it found
  nothing, so it returns the bitmap as well.  Every caller passes a number of at least \<open>-1\<close>.
\<close>

fun scan_bits_up :: "32 word \<Rightarrow> nat \<Rightarrow> nat \<Rightarrow> nat option" where
  "scan_bits_up test b 0 = None"
| "scan_bits_up test b (Suc n) =
     (if bunch_test test b then Some b else scan_bits_up test (Suc b) n)"

text \<open>The bunches from the one the search starts in; \<open>bunch\<close> is its index.\<close>

fun scan_bunches_up :: "32 word list \<Rightarrow> nat \<Rightarrow> nat \<Rightarrow> nat option" where
  "scan_bunches_up [] bunch b = None"
| "scan_bunches_up (test # bits) bunch b =
     (case (if test \<noteq> 0 then scan_bits_up test b (32 - b) else None) of
        Some i \<Rightarrow> Some (bunch * 32 + i)
      | None \<Rightarrow> scan_bunches_up bits (Suc bunch) 0)"

fun scan_bits_down :: "32 word \<Rightarrow> nat \<Rightarrow> nat option" where
  "scan_bits_down test 0 = (if bunch_test test 0 then Some 0 else None)"
| "scan_bits_down test (Suc b) =
     (if bunch_test test (Suc b) then Some (Suc b) else scan_bits_down test b)"

fun scan_bunches_down :: "32 word list \<Rightarrow> nat \<Rightarrow> nat \<Rightarrow> nat option" where
  "scan_bunches_down bits bunch b =
     (case (if bits ! bunch \<noteq> 0 then scan_bits_down (bits ! bunch) b else None) of
        Some i \<Rightarrow> Some (bunch * 32 + i)
      | None \<Rightarrow> (case bunch of 0 \<Rightarrow> None | Suc bunch' \<Rightarrow> scan_bunches_down bits bunch' 31))"

declare scan_bunches_down.simps [simp del]

text \<open>\<^verbatim>\<open>for (; slot > 0; --slot) if (bitmap->sbm_segments [slot]) break;\<close>\<close>

fun lower_water :: "'s option list \<Rightarrow> nat \<Rightarrow> nat" where
  "lower_water segs 0 = 0"
| "lower_water segs (Suc slot) = (if segs ! Suc slot \<noteq> None then Suc slot else lower_water segs slot)"

definition release_slot :: "nat \<Rightarrow> 's sbm \<Rightarrow> 's sbm" where
  "release_slot slot bm =
     (let segs = (sbm_segments bm)[slot := None] in
      bm\<lparr>sbm_segments := segs, sbm_used := sbm_used bm - 1,
        sbm_high_water := (if slot = sbm_high_water bm then lower_water segs slot else sbm_high_water bm)\<rparr>)"

lemma length_release_slot [simp]: "length (sbm_segments (release_slot slot bm)) = length (sbm_segments bm)"
  by (simp add: release_slot_def Let_def)

text \<open>
  After the release of the last slot the high water mark drops below the loop variable, so
  the loop ends there.
\<close>

function bucket_next_up :: "bucket \<Rightarrow> nat \<Rightarrow> nat \<Rightarrow> nat \<Rightarrow> bool \<Rightarrow> int option \<times> bucket" where
  "bucket_next_up bm slot bunch b gc =
     (if slot \<le> sbm_high_water bm \<and> slot < length (sbm_segments bm)
      then (case sbm_segments bm ! slot of
              None \<Rightarrow> bucket_next_up bm (Suc slot) 0 0 True
            | Some segment \<Rightarrow>
                (case scan_bunches_up (drop bunch (bms_bits segment)) bunch b of
                   Some i \<Rightarrow> (Some (int slot * 1024 + int i), bm)
                 | None \<Rightarrow>
                     if gc
                     then let bm1 = release_slot slot bm in
                          if slot = sbm_high_water bm then (None, bm1)
                          else bucket_next_up bm1 (Suc slot) 0 0 True
                     else bucket_next_up bm (Suc slot) 0 0 True))
      else (None, bm))"
  by pat_completeness auto
termination
  by (relation "measure (\<lambda>(bm, slot, bunch, b, gc). length (sbm_segments bm) - slot)") (auto simp: Let_def)

declare bucket_next_up.simps [simp del]

fun bucket_next_down :: "bms option list \<Rightarrow> nat \<Rightarrow> nat \<Rightarrow> nat \<Rightarrow> int option" where
  "bucket_next_down segs slot bunch b =
     (case (case segs ! slot of None \<Rightarrow> None | Some segment \<Rightarrow> scan_bunches_down (bms_bits segment) bunch b) of
        Some i \<Rightarrow> Some (int slot * 1024 + int i)
      | None \<Rightarrow> (case slot of 0 \<Rightarrow> None | Suc slot' \<Rightarrow> bucket_next_down segs slot' 31 31))"

declare bucket_next_down.simps [simp del]

datatype rse_get_mode = RSE_get_forward | RSE_get_backward

definition next_singular :: "int \<Rightarrow> int \<Rightarrow> rse_get_mode \<Rightarrow> int option" where
  "next_singular value number mode =
     (if mode = RSE_get_forward \<and> number \<ge> value then None
      else if mode = RSE_get_backward \<and> number \<le> value \<and> number \<noteq> -1 then None
      else Some value)"

definition SBM_next_bucket :: "bucket \<Rightarrow> int \<Rightarrow> rse_get_mode \<Rightarrow> int option \<times> bucket" where
  "SBM_next_bucket bm number mode =
     (case sbm_state bm of
        SBM_EMPTY \<Rightarrow> (None, bm)
      | SBM_SINGULAR \<Rightarrow> (next_singular (sbm_number bm) number mode, bm)
      | SBM_PLURAL \<Rightarrow>
          (let number1 = (if number = -1
                          then (case mode of
                                  RSE_get_forward \<Rightarrow> 0
                                | RSE_get_backward \<Rightarrow> int (sbm_high_water bm) * 1024 + 1024 - 1)
                          else number);
               slot = nat (number1 div 1024);
               relative = nat (number1 mod 1024);
               bunch = relative div 32 mod 32;
               b = relative mod 32
           in case mode of
                RSE_get_forward \<Rightarrow> bucket_next_up bm slot bunch b (bunch = 0 \<and> b = 0)
              | RSE_get_backward \<Rightarrow> (bucket_next_down (sbm_segments bm) slot bunch b, bm)))"

function root_next_up :: "bitmap \<Rightarrow> nat \<Rightarrow> int \<Rightarrow> bool \<Rightarrow> int option \<times> bitmap" where
  "root_next_up bm slot relative gc =
     (if slot \<le> sbm_high_water bm \<and> slot < length (sbm_segments bm)
      then (case sbm_segments bm ! slot of
              None \<Rightarrow> root_next_up bm (Suc slot) (-1) True
            | Some bucket \<Rightarrow>
                (case SBM_next_bucket bucket relative RSE_get_forward of
                   (Some r, bucket') \<Rightarrow> (Some (int slot * 32768 + r), set_slot slot bucket' bm)
                 | (None, bucket') \<Rightarrow>
                     if gc
                     then let bm1 = release_slot slot bm in
                          if slot = sbm_high_water bm then (None, bm1)
                          else root_next_up bm1 (Suc slot) (-1) True
                     else root_next_up (set_slot slot bucket' bm) (Suc slot) (-1) True))
      else (None, bm))"
  by pat_completeness auto
termination
  by (relation "measure (\<lambda>(bm, slot, relative, gc). length (sbm_segments bm) - slot)")
     (auto simp: Let_def set_slot_def)

declare root_next_up.simps [simp del]

fun root_next_down :: "bitmap \<Rightarrow> nat \<Rightarrow> int \<Rightarrow> int option" where
  "root_next_down bm slot relative =
     (if slot > sbm_high_water bm then None
      else case (case sbm_segments bm ! slot of
                   None \<Rightarrow> None
                 | Some bucket \<Rightarrow> fst (SBM_next_bucket bucket relative RSE_get_backward)) of
             Some r \<Rightarrow> Some (int slot * 32768 + r)
           | None \<Rightarrow> (case slot of 0 \<Rightarrow> None | Suc slot' \<Rightarrow> root_next_down bm slot' (-1)))"

declare root_next_down.simps [simp del]

definition SBM_next :: "bitmap option \<Rightarrow> int \<Rightarrow> rse_get_mode \<Rightarrow> int option \<times> bitmap option" where
  "SBM_next bitmap number mode =
     (case bitmap of
        None \<Rightarrow> (None, None)
      | Some bm \<Rightarrow>
          (case sbm_state bm of
             SBM_EMPTY \<Rightarrow> (None, Some bm)
           | SBM_SINGULAR \<Rightarrow> (next_singular (sbm_number bm) number mode, Some bm)
           | SBM_PLURAL \<Rightarrow>
               (case mode of
                  RSE_get_forward \<Rightarrow>
                    (let number1 = number + 1;
                         relative = bucket_relative number1;
                         relative1 = (if relative = 0 then -1 else relative)
                     in map_prod id Some
                          (root_next_up bm (nat (number1 div 32768)) relative1 (relative1 = -1)))
                | RSE_get_backward \<Rightarrow>
                    (if number = 0 then (None, Some bm)
                     else if number = -1 then (root_next_down bm (sbm_high_water bm) (-1), Some bm)
                     else let number1 = (if number > 0 then number - 1 else number) in
                          (root_next_down bm (nat (number1 div 32768)) (bucket_relative number1), Some bm)))))"

section \<open>The set a bitmap stands for\<close>

definition segment_set :: "bms \<Rightarrow> int set" where
  "segment_set s = {n. 0 \<le> n \<and> n < 1024 \<and> bit (bms_bits s ! nat (n div 32)) (nat (n mod 32))}"

text \<open>
  A vector of blocks of width \<open>w\<close>, each standing for a set of numbers below \<open>w\<close>.
\<close>

definition slots_set :: "int \<Rightarrow> ('s \<Rightarrow> int set) \<Rightarrow> 's option list \<Rightarrow> int set" where
  "slots_set w c segs =
     {n. 0 \<le> n \<and> nat (n div w) < length segs \<and>
         (\<exists>s. segs ! nat (n div w) = Some s \<and> n mod w \<in> c s)}"

definition vector_set :: "int \<Rightarrow> ('s \<Rightarrow> int set) \<Rightarrow> 's sbm \<Rightarrow> int set" where
  "vector_set w c bm =
     (case sbm_state bm of
        SBM_EMPTY \<Rightarrow> {}
      | SBM_SINGULAR \<Rightarrow> {sbm_number bm}
      | SBM_PLURAL \<Rightarrow> slots_set w c (sbm_segments bm))"

definition bucket_set :: "bucket \<Rightarrow> int set" where
  "bucket_set = vector_set 1024 segment_set"

definition root_set :: "bitmap \<Rightarrow> int set" where
  "root_set = vector_set 32768 bucket_set"

definition sbm_set :: "bitmap option \<Rightarrow> int set" where
  "sbm_set bitmap = (case bitmap of None \<Rightarrow> {} | Some bm \<Rightarrow> root_set bm)"

text \<open>
  Well-formedness.  Only a plural vector has blocks, none lies above the high water mark,
  and a singular value is in range.  \<^verbatim>\<open>sbm_used\<close> takes no part: \<^verbatim>\<open>SBM_and\<close> and
  \<^verbatim>\<open>SBM_or\<close> do not maintain it.
\<close>

definition segment_ok :: "bms \<Rightarrow> bool" where
  "segment_ok s \<longleftrightarrow> length (bms_bits s) = 32"

definition slots_ok :: "('s \<Rightarrow> bool) \<Rightarrow> 's sbm \<Rightarrow> bool" where
  "slots_ok ok bm \<longleftrightarrow>
     sbm_high_water bm < length (sbm_segments bm) \<and>
     (\<forall>i < length (sbm_segments bm). \<forall>s. sbm_segments bm ! i = Some s \<longrightarrow>
        ok s \<and> i \<le> sbm_high_water bm)"

definition vector_ok :: "int \<Rightarrow> ('s \<Rightarrow> bool) \<Rightarrow> 's sbm \<Rightarrow> bool" where
  "vector_ok limit ok bm \<longleftrightarrow>
     slots_ok ok bm \<and>
     (sbm_state bm \<noteq> SBM_PLURAL \<longrightarrow> (\<forall>i < length (sbm_segments bm). sbm_segments bm ! i = None)) \<and>
     (sbm_state bm = SBM_SINGULAR \<longrightarrow> 0 \<le> sbm_number bm \<and> sbm_number bm < limit)"

definition bucket_ok :: "bucket \<Rightarrow> bool" where
  "bucket_ok b \<longleftrightarrow> vector_ok 32768 segment_ok b \<and> length (sbm_segments b) = 32"

text \<open>
  Record numbers up to the slot at which \<^verbatim>\<open>slot + 5\<close> still fits the \<^verbatim>\<open>USHORT\<close>
  \<^verbatim>\<open>sbm_count\<close>.
\<close>

definition number_limit :: int where
  "number_limit = 65531 * 32768"

definition root_ok :: "bitmap \<Rightarrow> bool" where
  "root_ok m \<longleftrightarrow> vector_ok number_limit bucket_ok m \<and> sbm_count m = length (sbm_segments m) \<and>
     length (sbm_segments m) < 65536"

definition sbm_ok :: "bitmap option \<Rightarrow> bool" where
  "sbm_ok bitmap = (case bitmap of None \<Rightarrow> True | Some bm \<Rightarrow> root_ok bm)"

definition valid_number :: "int \<Rightarrow> bool" where
  "valid_number n \<longleftrightarrow> 0 \<le> n \<and> n < number_limit"

named_theorems sbm_defs

lemmas [sbm_defs] = slots_set_def vector_set_def bucket_set_def root_set_def sbm_set_def
  slots_ok_def vector_ok_def bucket_ok_def root_ok_def sbm_ok_def valid_number_def number_limit_def Let_def

subsection \<open>Bits and slots\<close>

lemma bunch_test_bit [simp]: "bunch_test w b \<longleftrightarrow> bit w b"
  by (simp add: bunch_test_def bit_iff_and_push_bit_not_eq_0)

lemma segment_slot_eq [simp]:
  "0 \<le> n \<Longrightarrow> n < 32768 \<Longrightarrow> segment_slot n = nat (n div 1024)"
  by (simp add: segment_slot_def)

lemma bucket_slot_eq [simp]:
  "0 \<le> n \<Longrightarrow> n < 65536 * 32768 \<Longrightarrow> bucket_slot n = nat (n div 32768)"
  by (simp add: bucket_slot_def)

lemma segment_relative_bunch:
  "segment_relative n div 32 mod 32 = nat (n mod 1024 div 32)"
  "segment_relative n mod 32 = nat (n mod 1024 mod 32)"
  "segment_relative n div 32 < 32"
  by (simp_all add: segment_relative_def nat_div_distrib nat_mod_distrib) 

lemma mem_slots_set:
  "n \<in> slots_set w c segs \<longleftrightarrow>
     0 \<le> n \<and> nat (n div w) < length segs \<and> (\<exists>s. segs ! nat (n div w) = Some s \<and> n mod w \<in> c s)"
  by (simp add: slots_set_def)

lemma slots_set_update:
  "slot < length segs \<Longrightarrow>
   n \<in> slots_set w c (segs[slot := x]) \<longleftrightarrow>
     (if nat (n div w) = slot then 0 \<le> n \<and> (\<exists>s. x = Some s \<and> n mod w \<in> c s)
      else n \<in> slots_set w c segs)"
  by (auto simp: slots_set_def)

lemma slots_set_append_None [simp]: "slots_set w c (segs @ replicate k None) = slots_set w c segs"
proof -
  have "(segs @ replicate k None) ! i = Some s \<longleftrightarrow> i < length segs \<and> segs ! i = Some s"
    if "i < length segs + k" for i s
    using that by (cases "i < length segs") (auto simp: nth_append)
  then show ?thesis by (auto simp: slots_set_def)
qed

lemma slots_set_None [simp]: "(\<forall>i < length segs. segs ! i = None) \<Longrightarrow> slots_set w c segs = {}"
  by (auto simp: slots_set_def)

lemma segment_set_clear [simp]: "segment_set clear_segment = {}"
proof -
  have "\<not> bit (replicate 32 (0 :: 32 word) ! nat (n div 32)) k" if "0 \<le> n" "n < 1024" for n k
    using that by (subst nth_replicate) auto
  then show ?thesis by (auto simp: segment_set_def clear_segment_def)
qed

lemma segment_ok_clear [simp]: "segment_ok clear_segment"
  by (simp add: segment_ok_def clear_segment_def)

lemma bucket_ok_clear [simp]: "bucket_ok clear_bucket"
  by (simp add: bucket_ok_def vector_ok_def slots_ok_def clear_bucket_def)

lemma bucket_set_clear [simp]: "bucket_set clear_bucket = {}"
  by (simp add: bucket_set_def vector_set_def clear_bucket_def)

lemma bucket_set_range: "bucket_ok b \<Longrightarrow> n \<in> bucket_set b \<Longrightarrow> 0 \<le> n \<and> n < 32768"
  by (auto simp: sbm_defs split: sbm_states.splits)

subsection \<open>Test\<close>

lemma segment_test:
  "0 \<le> n \<Longrightarrow>
   bms_bits s ! (segment_relative n div 32 mod 32) \<noteq> 0 \<and>
   bit (bms_bits s ! (segment_relative n div 32 mod 32)) (segment_relative n mod 32) \<longleftrightarrow>
     n mod 1024 \<in> segment_set s"
  by (auto simp: segment_relative_bunch segment_set_def)

lemma SBM_test_bucket_set:
  assumes "bucket_ok b" "0 \<le> n" "n < 32768"
  shows "SBM_test_bucket b n \<longleftrightarrow> n \<in> bucket_set b"
proof (cases "sbm_state b")
  case SBM_PLURAL
  let ?slot = "nat (n div 1024)"
  have slot: "?slot < length (sbm_segments b)" using assms by (simp add: bucket_ok_def)
  with assms(1) SBM_PLURAL have "?slot \<le> sbm_high_water b" if "sbm_segments b ! ?slot = Some s" for s
    using that by (auto simp: bucket_ok_def vector_ok_def slots_ok_def)
  with SBM_PLURAL slot assms(2,3) show ?thesis
    by (auto simp: SBM_test_bucket_def bucket_set_def vector_set_def mem_slots_set Let_def
        simp flip: segment_test [OF assms(2)] split: option.splits)
qed (auto simp: SBM_test_bucket_def bucket_set_def vector_set_def)

lemma SBM_test_root_set:
  assumes "root_ok m" "valid_number n"
  shows "SBM_test (Some m) n \<longleftrightarrow> n \<in> root_set m"
proof (cases "sbm_state m")
  case SBM_PLURAL
  let ?slot = "nat (n div 32768)"
  have n: "0 \<le> n" "n < 65536 * 32768" using assms(2) by (auto simp: valid_number_def number_limit_def)
  have ok: "?slot \<le> sbm_high_water m" "bucket_ok b"
    if "sbm_segments m ! ?slot = Some b" "?slot < length (sbm_segments m)" for b
    using that assms(1) by (auto simp: root_ok_def vector_ok_def slots_ok_def)
  have "sbm_high_water m < length (sbm_segments m)" using assms(1) by (simp add: root_ok_def vector_ok_def slots_ok_def)
  with SBM_PLURAL n ok show ?thesis
    by (auto simp: SBM_test_def root_set_def vector_set_def mem_slots_set Let_def bucket_relative_def
        SBM_test_bucket_set split: option.splits)
qed (auto simp: SBM_test_def root_set_def vector_set_def)

subsection \<open>Set\<close>

lemma div_mod_cell:
  fixes m n :: int
  assumes "0 \<le> m" "0 \<le> n" "0 < w"
  shows "nat (m div w) = nat (n div w) \<and> m mod w = n mod w \<longleftrightarrow> m = n"
  using assms by (metis div_mult_mod_eq nat_eq_iff2 nat_0_le pos_imp_zdiv_nonneg_iff)

lemma bit_or_exp: "j < 32 \<Longrightarrow> bit (a OR 2 ^ j :: 32 word) i \<longleftrightarrow> bit a i \<or> i = j"
  by (auto simp: bit_simps)

lemma set_segment_bit_set:
  assumes "segment_ok s" "0 \<le> n"
  shows "segment_set (set_segment_bit s (segment_relative n)) = insert (n mod 1024) (segment_set s)"
proof -
  let ?r = "n mod 1024"
  have "bit ((bms_bits s)[nat (?r div 32) := bms_bits s ! nat (?r div 32) OR push_bit (nat (?r mod 32)) 1]
        ! nat (m div 32)) (nat (m mod 32)) \<longleftrightarrow>
      m = ?r \<or> bit (bms_bits s ! nat (m div 32)) (nat (m mod 32))"
    if "0 \<le> m" "m < 1024" for m
  proof -
    have len: "nat (?r div 32) < length (bms_bits s)" using assms by (simp add: segment_ok_def)
    have cell: "nat (m div 32) = nat (?r div 32) \<and> nat (m mod 32) = nat (?r mod 32) \<longleftrightarrow> m = ?r"
      using that div_mod_cell [of m ?r 32] by (simp add: eq_nat_nat_iff)
    show ?thesis
    proof (cases "nat (m div 32) = nat (?r div 32)")
      case True
      have j: "nat (?r mod 32) < 32" by (simp add: nat_less_iff)
      show ?thesis using True cell len by (simp add: bit_or_exp [OF j]) blast
    next
      case False
      with cell show ?thesis by auto
    qed
  qed
  then show ?thesis
    by (auto simp: segment_set_def set_segment_bit_def segment_relative_bunch Let_def)
qed

lemma set_segment_bit_ok [simp]: "segment_ok (set_segment_bit s r) = segment_ok s"
  by (simp add: segment_ok_def set_segment_bit_def Let_def)

text \<open>
  Storing into a slot, filling it first when it is null: what both levels of
  \<^verbatim>\<open>SBM_set\<close> do to their vector.
\<close>

definition put_slot :: "'s \<Rightarrow> ('s \<Rightarrow> 's) \<Rightarrow> nat \<Rightarrow> 's sbm \<Rightarrow> 's sbm" where
  "put_slot fresh f slot bm =
     (let bm1 = (if sbm_segments bm ! slot = None then fill_slot slot fresh bm else bm)
      in set_slot slot (f (the (sbm_segments bm1 ! slot))) bm1)"

lemma put_slot_frame [simp]:
  "sbm_state (put_slot fresh f slot bm) = sbm_state bm"
  "sbm_number (put_slot fresh f slot bm) = sbm_number bm"
  "sbm_count (put_slot fresh f slot bm) = sbm_count bm"
  "length (sbm_segments (put_slot fresh f slot bm)) = length (sbm_segments bm)"
  by (simp_all add: put_slot_def fill_slot_def set_slot_def Let_def)

lemma put_slot_segments:
  "slot < length (sbm_segments bm) \<Longrightarrow>
   sbm_segments (put_slot fresh f slot bm) =
     (sbm_segments bm)[slot := Some (f (case sbm_segments bm ! slot of None \<Rightarrow> fresh | Some s \<Rightarrow> s))]"
  by (auto simp: put_slot_def fill_slot_def set_slot_def Let_def split: option.splits)

lemma put_slot_ok:
  assumes "slots_ok ok bm" "slot < length (sbm_segments bm)"
    and "ok fresh" "\<And>s. ok s \<Longrightarrow> ok (f s)"
  shows "slots_ok ok (put_slot fresh f slot bm)"
proof -
  have "slot \<le> sbm_high_water (put_slot fresh f slot bm)"
    "sbm_high_water bm \<le> sbm_high_water (put_slot fresh f slot bm)"
    "sbm_high_water (put_slot fresh f slot bm) < length (sbm_segments bm)"
    using assms(1,2) by (auto simp: put_slot_def fill_slot_def set_slot_def slots_ok_def Let_def)
  moreover have "ok (f (case sbm_segments bm ! slot of None \<Rightarrow> fresh | Some s \<Rightarrow> s))"
    using assms by (auto simp: slots_ok_def split: option.splits)
  ultimately show ?thesis
    using assms(1) unfolding slots_ok_def put_slot_frame put_slot_segments [OF assms(2)]
    by (auto simp: nth_list_update intro: order_trans)
qed

lemma put_slot_set:
  assumes "slots_ok ok bm" "nat (n div w) < length (sbm_segments bm)" "0 \<le> n" "0 < w"
    and "ok fresh" "c fresh = {}" "\<And>s. ok s \<Longrightarrow> c (f s) = insert (n mod w) (c s)"
  shows "slots_set w c (sbm_segments (put_slot fresh f (nat (n div w)) bm)) =
         insert n (slots_set w c (sbm_segments bm))"
proof (rule set_eqI)
  fix m
  show "m \<in> slots_set w c (sbm_segments (put_slot fresh f (nat (n div w)) bm)) \<longleftrightarrow>
      m \<in> insert n (slots_set w c (sbm_segments bm))"
  proof (cases "0 \<le> m \<and> nat (m div w) = nat (n div w)")
    case True
    then have "m mod w = n mod w \<longleftrightarrow> m = n" using div_mod_cell [of m n w] assms(3,4) by auto
    with True assms(1,2,5-) show ?thesis
      by (cases "sbm_segments bm ! nat (n div w)")
         (auto simp: put_slot_segments slots_set_update mem_slots_set slots_ok_def)
  next
    case False
    with assms(2,3) show ?thesis by (auto simp: put_slot_segments slots_set_update mem_slots_set)
  qed
qed

lemma set_in_bucket_put:
  "set_in_bucket bm n = put_slot clear_segment (\<lambda>s. set_segment_bit s (segment_relative n)) (segment_slot n) bm"
  by (simp add: set_in_bucket_def put_slot_def Let_def)

lemma set_in_bucket_spec:
  assumes "slots_ok segment_ok b" "length (sbm_segments b) = 32" "0 \<le> n" "n < 32768"
  shows "slots_ok segment_ok (set_in_bucket b n)"
    and "slots_set 1024 segment_set (sbm_segments (set_in_bucket b n)) =
         insert n (slots_set 1024 segment_set (sbm_segments b))"
proof -
  have slot: "nat (n div 1024) < length (sbm_segments b)" using assms by simp
  with assms show "slots_ok segment_ok (set_in_bucket b n)"
    unfolding set_in_bucket_put by (intro put_slot_ok) auto
  from assms slot show "slots_set 1024 segment_set (sbm_segments (set_in_bucket b n)) =
         insert n (slots_set 1024 segment_set (sbm_segments b))"
    unfolding set_in_bucket_put
    by (simp, intro put_slot_set [where ok = segment_ok]) (auto simp: set_segment_bit_set)
qed

lemma set_in_bucket_frame [simp]:
  "sbm_state (set_in_bucket b n) = sbm_state b" "sbm_number (set_in_bucket b n) = sbm_number b"
  "length (sbm_segments (set_in_bucket b n)) = length (sbm_segments b)"
  by (simp_all add: set_in_bucket_put)

lemma slots_ok_state [simp]: "slots_ok ok (bm\<lparr>sbm_state := st\<rparr>) = slots_ok ok bm"
  by (simp add: slots_ok_def)

lemma SBM_set_bucket_spec:
  assumes "bucket_ok b" "0 \<le> n" "n < 32768"
  shows "bucket_ok (SBM_set_bucket b n) \<and> bucket_set (SBM_set_bucket b n) = insert n (bucket_set b)"
proof -
  have b: "slots_ok segment_ok b" "length (sbm_segments b) = 32"
    using assms(1) by (auto simp: bucket_ok_def vector_ok_def)
  note one = set_in_bucket_spec [OF b assms(2,3)]
  show ?thesis
  proof (cases "sbm_state b")
    case SBM_EMPTY
    with assms show ?thesis
      by (auto simp: SBM_set_bucket_def bucket_ok_def vector_ok_def slots_ok_def bucket_set_def vector_set_def)
  next
    case SBM_SINGULAR
    let ?b1 = "set_in_bucket b n\<lparr>sbm_state := SBM_PLURAL\<rparr>"
    have "0 \<le> sbm_number b" "sbm_number b < 32768" "slots_ok segment_ok ?b1" "length (sbm_segments ?b1) = 32"
      using assms(1) SBM_SINGULAR one b by (auto simp: bucket_ok_def vector_ok_def)
    note two = set_in_bucket_spec [OF this(3,4,1,2)]
    have "slots_set 1024 segment_set (sbm_segments b) = {}"
      using assms(1) SBM_SINGULAR by (auto simp: bucket_ok_def vector_ok_def)
    with SBM_SINGULAR one two b show ?thesis
      by (auto simp: SBM_set_bucket_def bucket_ok_def vector_ok_def bucket_set_def vector_set_def Let_def)
  next
    case SBM_PLURAL
    with one b show ?thesis
      by (auto simp: SBM_set_bucket_def bucket_ok_def vector_ok_def bucket_set_def vector_set_def Let_def)
  qed
qed

text \<open>The root vector is long enough after \<open>extend_vector\<close>.\<close>

lemma double_end_greater: "0 < count \<Longrightarrow> slot < double_end slot count"
  by (induction slot count rule: double_end.induct) (subst double_end.simps, auto)

lemma extend_end_bounds:
  assumes "0 < count" "slot < 65531" "max_tail < 65536"
  shows "slot < extend_end max_tail slot count \<and> extend_end max_tail slot count < 65536"
  using assms double_end_greater [of count slot] by (auto simp: extend_end_def)

lemma extend_vector_spec:
  assumes "slots_ok ok bm" "sbm_count bm = length (sbm_segments bm)" "length (sbm_segments bm) < 65536"
    and "slot < 65531" "max_tail < 65536"
  defines "bm' \<equiv> extend_vector max_tail slot bm"
  shows "slots_ok ok bm'" "sbm_count bm' = length (sbm_segments bm')" "slot < length (sbm_segments bm')"
    and "length (sbm_segments bm') < 65536" "sbm_state bm' = sbm_state bm" "sbm_number bm' = sbm_number bm"
    and "slots_set w c (sbm_segments bm') = slots_set w c (sbm_segments bm)"
proof -
  define e where "e = extend_end max_tail slot (length (sbm_segments bm))"
  have "0 < sbm_count bm" using assms(1,2) by (auto simp: slots_ok_def)
  then have e: "slot < e" "e < 65536"
    using extend_end_bounds [of "sbm_count bm" slot max_tail] assms(2,4,5) by (simp_all add: e_def)
  have nth: "(segs @ replicate k None) ! i = Some s \<Longrightarrow> i < length segs + k \<Longrightarrow> i < length segs \<and> segs ! i = Some s"
    for segs :: "'a option list" and k i s by (cases "i < length segs") (auto simp: nth_append)
  show "slots_ok ok bm'"
    using assms(1) by (auto simp: bm'_def extend_vector_def slots_ok_def Let_def dest: nth)
  show "sbm_count bm' = length (sbm_segments bm')" "slot < length (sbm_segments bm')"
    "length (sbm_segments bm') < 65536" "sbm_state bm' = sbm_state bm" "sbm_number bm' = sbm_number bm"
    using assms(2,3) e by (auto simp: bm'_def extend_vector_def Let_def e_def [symmetric])
  show "slots_set w c (sbm_segments bm') = slots_set w c (sbm_segments bm)"
    by (simp add: bm'_def extend_vector_def Let_def)
qed

lemma set_in_root_put:
  "set_in_root max_tail bm n =
     put_slot clear_bucket (\<lambda>b. SBM_set_bucket b (bucket_relative n)) (bucket_slot n)
       (extend_vector max_tail (bucket_slot n) bm)"
  by (simp add: set_in_root_def put_slot_def Let_def)

lemma set_in_root_spec:
  assumes "slots_ok bucket_ok m" "sbm_count m = length (sbm_segments m)" "length (sbm_segments m) < 65536"
    and "valid_number n" "max_tail < 65536"
  defines "m' \<equiv> set_in_root max_tail m n"
  shows "slots_ok bucket_ok m'" "sbm_count m' = length (sbm_segments m')" "length (sbm_segments m') < 65536"
    and "sbm_state m' = sbm_state m" "sbm_number m' = sbm_number m"
    and "slots_set 32768 bucket_set (sbm_segments m') = insert n (slots_set 32768 bucket_set (sbm_segments m))"
proof -
  have n: "0 \<le> n" "bucket_slot n = nat (n div 32768)" "bucket_slot n < 65531"
    using assms(4) by (auto simp: valid_number_def number_limit_def)
  note ext = extend_vector_spec [OF assms(1-3) n(3) assms(5)]
  have set1: "bucket_ok (SBM_set_bucket b (bucket_relative n)) \<and>
      bucket_set (SBM_set_bucket b (bucket_relative n)) = insert (n mod 32768) (bucket_set b)"
    if "bucket_ok b" for b
    using SBM_set_bucket_spec [OF that] by (simp add: bucket_relative_def)
  show "slots_ok bucket_ok m'"
    unfolding m'_def set_in_root_put using ext(1,3) set1 by (intro put_slot_ok) auto
  show "sbm_count m' = length (sbm_segments m')" "length (sbm_segments m') < 65536"
    "sbm_state m' = sbm_state m" "sbm_number m' = sbm_number m"
    unfolding m'_def set_in_root_put using ext by simp_all
  show "slots_set 32768 bucket_set (sbm_segments m') = insert n (slots_set 32768 bucket_set (sbm_segments m))"
    unfolding m'_def set_in_root_put n(2)
    using ext(1,3,7) n set1 by (subst put_slot_set [where ok = bucket_ok]) auto
qed

lemma SBM_set_spec:
  assumes "sbm_ok bm" "valid_number n" "max_tail < 65536"
  shows "root_ok (SBM_set max_tail bm n) \<and> root_set (SBM_set max_tail bm n) = insert n (sbm_set bm)"
proof (cases bm)
  case None
  with assms(2) show ?thesis
    by (auto simp: SBM_set_def root_ok_def vector_ok_def slots_ok_def valid_number_def root_set_def
        vector_set_def sbm_set_def)
next
  case (Some m)
  have m: "root_ok m" "slots_ok bucket_ok m" "sbm_count m = length (sbm_segments m)" "length (sbm_segments m) < 65536"
    using assms(1) Some by (auto simp: sbm_ok_def root_ok_def vector_ok_def)
  note one = set_in_root_spec [OF m(2-4) assms(2,3)]
  show ?thesis
  proof (cases "sbm_state m")
    case SBM_EMPTY
    with m assms(2) Some show ?thesis
      by (auto simp: SBM_set_def root_ok_def vector_ok_def slots_ok_def valid_number_def root_set_def
        vector_set_def sbm_set_def)
  next
    case SBM_SINGULAR
    let ?m1 = "set_in_root max_tail m n\<lparr>sbm_state := SBM_PLURAL\<rparr>"
    have "valid_number (sbm_number m)" "slots_set 32768 bucket_set (sbm_segments m) = {}"
      using m(1) SBM_SINGULAR by (auto simp: root_ok_def vector_ok_def valid_number_def)
    moreover note two = set_in_root_spec [of ?m1 "sbm_number m" max_tail]
    ultimately show ?thesis
      using one SBM_SINGULAR assms(3) Some
      by (auto simp: SBM_set_def root_ok_def vector_ok_def root_set_def vector_set_def sbm_set_def Let_def)
  next
    case SBM_PLURAL
    with one Some show ?thesis
      by (auto simp: SBM_set_def root_ok_def vector_ok_def root_set_def vector_set_def sbm_set_def Let_def)
  qed
qed

subsection \<open>Clear and reset\<close>

lemma set_slot_simps [simp]:
  "sbm_segments (set_slot slot x bm) = (sbm_segments bm)[slot := Some x]"
  "sbm_state (set_slot slot x bm) = sbm_state bm"
  "sbm_number (set_slot slot x bm) = sbm_number bm"
  "sbm_count (set_slot slot x bm) = sbm_count bm"
  "sbm_high_water (set_slot slot x bm) = sbm_high_water bm"
  by (simp_all add: set_slot_def)

lemma set_slot_ok:
  assumes "slots_ok ok bm" "slot \<le> sbm_high_water bm" "ok x"
  shows "slots_ok ok (set_slot slot x bm)"
  using assms by (auto simp: slots_ok_def nth_list_update)

lemma slots_okD:
  assumes "slots_ok ok bm" "sbm_segments bm ! i = Some s" "i < length (sbm_segments bm)"
  shows "ok s" "i \<le> sbm_high_water bm"
  using assms unfolding slots_ok_def by blast+

lemma slots_set_remove:
  assumes "nat (n div w) < length segs" "segs ! nat (n div w) = Some x" "0 \<le> n" "0 < w"
    and "c y = c x - {n mod w}"
  shows "slots_set w c (segs[nat (n div w) := Some y]) = slots_set w c segs - {n}"
proof (rule set_eqI)
  fix m
  show "m \<in> slots_set w c (segs[nat (n div w) := Some y]) \<longleftrightarrow> m \<in> slots_set w c segs - {n}"
  proof (cases "0 \<le> m \<and> nat (m div w) = nat (n div w)")
    case True
    then have cell: "m mod w = n mod w \<longleftrightarrow> m = n" using div_mod_cell [of m n w] assms(3,4) by auto
    have "m \<in> slots_set w c segs \<longleftrightarrow> m mod w \<in> c x" using True assms(1,2) by (simp add: mem_slots_set)
    moreover have "m \<in> slots_set w c (segs[nat (n div w) := Some y]) \<longleftrightarrow> m mod w \<in> c y"
      using True assms(1) by (simp add: slots_set_update)
    ultimately show ?thesis using cell assms(5) by simp
  next
    case False
    then have "m \<noteq> n" using assms(3) by blast
    then show ?thesis using False by (cases "0 \<le> m") (simp_all add: slots_set_update [OF assms(1)] mem_slots_set)
  qed
qed

lemma bit_and_not_exp: "bit (a AND NOT (2 ^ j) :: 32 word) i \<longleftrightarrow> bit a i \<and> i \<noteq> j"
  by (auto simp: bit_simps dest: bit_imp_le_length)

lemma segment_set_clear_bit:
  assumes "segment_ok s" "0 \<le> n"
  defines "bunch \<equiv> segment_relative n div 32 mod 32"
  shows "segment_set (s\<lparr>bms_bits := (bms_bits s)
           [bunch := bms_bits s ! bunch AND NOT (push_bit (segment_relative n mod 32) 1)]\<rparr>) =
         segment_set s - {n mod 1024}"
proof -
  let ?r = "n mod 1024"
  have "bit ((bms_bits s)[nat (?r div 32) := bms_bits s ! nat (?r div 32) AND NOT (2 ^ nat (?r mod 32))]
        ! nat (m div 32)) (nat (m mod 32)) \<longleftrightarrow>
      m \<noteq> ?r \<and> bit (bms_bits s ! nat (m div 32)) (nat (m mod 32))"
    if "0 \<le> m" "m < 1024" for m
  proof -
    have len: "nat (?r div 32) < length (bms_bits s)" using assms by (simp add: segment_ok_def)
    have cell: "nat (m div 32) = nat (?r div 32) \<and> nat (m mod 32) = nat (?r mod 32) \<longleftrightarrow> m = ?r"
      using that div_mod_cell [of m ?r 32] by (simp add: eq_nat_nat_iff)
    show ?thesis
    proof (cases "nat (m div 32) = nat (?r div 32)")
      case True
      show ?thesis using True cell len by (simp add: bit_and_not_exp) blast
    next
      case False
      with cell show ?thesis by auto
    qed
  qed
  then show ?thesis
    by (auto simp: segment_set_def bunch_def segment_relative_bunch)
qed

lemma SBM_clear_bucket_spec:
  assumes "bucket_ok b" "0 \<le> n" "n < 32768"
  shows "fst (SBM_clear_bucket b n) = (n \<in> bucket_set b) \<and>
         bucket_ok (snd (SBM_clear_bucket b n)) \<and>
         bucket_set (snd (SBM_clear_bucket b n)) = bucket_set b - {n}"
proof (cases "sbm_state b")
  case SBM_EMPTY
  with assms show ?thesis by (auto simp: SBM_clear_bucket_def bucket_set_def vector_set_def)
next
  case SBM_SINGULAR
  with assms show ?thesis
    by (auto simp: SBM_clear_bucket_def bucket_set_def vector_set_def bucket_ok_def vector_ok_def)
next
  case SBM_PLURAL
  let ?slot = "nat (n div 1024)"
  have slot: "?slot < length (sbm_segments b)" using assms by (simp add: bucket_ok_def)
  show ?thesis
  proof (cases "SBM_test_bucket b n")
    case True
    then obtain s where s: "sbm_segments b ! ?slot = Some s" "?slot \<le> sbm_high_water b"
      using SBM_PLURAL assms(2,3)
      by (auto simp: SBM_test_bucket_def Let_def split: option.splits if_splits)
    have ok: "slots_ok segment_ok b" "length (sbm_segments b) = 32"
      using assms(1) by (simp_all add: bucket_ok_def vector_ok_def)
    have seg: "segment_ok s" using ok(1) slot s(1) by (auto simp: slots_ok_def)
    define s' where "s' = s\<lparr>bms_bits := (bms_bits s)[segment_relative n div 32 mod 32 :=
      bms_bits s ! (segment_relative n div 32 mod 32) AND NOT (push_bit (segment_relative n mod 32) 1)]\<rparr>"
    have s': "segment_ok s'" "segment_set s' = segment_set s - {n mod 1024}"
      using seg segment_set_clear_bit [OF seg assms(2)] by (simp_all add: s'_def segment_ok_def)
    have "SBM_clear_bucket b n = (True, set_slot ?slot s' b)"
      using True s SBM_PLURAL assms(2,3)
      by (auto simp: SBM_clear_bucket_def SBM_test_bucket_def s'_def Let_def split: if_splits)
    moreover have "bucket_ok (set_slot ?slot s' b)"
      using set_slot_ok [OF ok(1) s(2) s'(1)] ok(2) SBM_PLURAL by (simp add: bucket_ok_def vector_ok_def)
    moreover have "bucket_set (set_slot ?slot s' b) = bucket_set b - {n}"
      using slots_set_remove [OF slot s(1) assms(2), of segment_set s'] s'(2) SBM_PLURAL
      by (simp add: bucket_set_def vector_set_def)
    ultimately show ?thesis using True assms by (simp add: SBM_test_bucket_set)
  next
    case False
    then have "SBM_clear_bucket b n = (False, b)"
      using SBM_PLURAL
      by (auto simp: SBM_clear_bucket_def SBM_test_bucket_def Let_def split: option.splits if_splits)
    with False assms show ?thesis by (auto simp: SBM_test_bucket_set)
  qed
qed

lemma SBM_clear_spec:
  assumes "sbm_ok bm" "valid_number n"
  shows "fst (SBM_clear bm n) = (n \<in> sbm_set bm) \<and> sbm_ok (snd (SBM_clear bm n)) \<and>
         sbm_set (snd (SBM_clear bm n)) = sbm_set bm - {n}"
proof (cases bm)
  case None
  then show ?thesis by (simp add: SBM_clear_def sbm_set_def sbm_ok_def)
next
  case (Some m)
  have n: "0 \<le> n" "bucket_slot n = nat (n div 32768)"
    using assms(2) by (auto simp: valid_number_def number_limit_def)
  have m: "root_ok m" "slots_ok bucket_ok m" using assms(1) Some by (auto simp: sbm_ok_def root_ok_def vector_ok_def)
  let ?slot = "nat (n div 32768)"
  consider (other) "sbm_state m \<noteq> SBM_PLURAL"
    | (out) "sbm_state m = SBM_PLURAL" "?slot > sbm_high_water m \<or> sbm_segments m ! ?slot = None"
    | (hit) b where "sbm_state m = SBM_PLURAL" "?slot \<le> sbm_high_water m" "sbm_segments m ! ?slot = Some b"
    by fastforce
  then show ?thesis
  proof cases
    case other
    with Some m(1) show ?thesis
      by (cases "sbm_state m") (auto simp: SBM_clear_def sbm_set_def sbm_ok_def root_set_def vector_set_def
         root_ok_def vector_ok_def)
  next
    case out
    then have "n \<notin> root_set m"
      using m by (auto simp: root_set_def vector_set_def mem_slots_set slots_ok_def not_less)
    moreover have "SBM_clear bm n = (False, Some m)"
      using out Some n by (auto simp: SBM_clear_def Let_def split: option.splits)
    ultimately show ?thesis using Some m(1) by (simp add: sbm_set_def sbm_ok_def)
  next
    case hit
    have slot: "?slot < length (sbm_segments m)" using hit m(2) by (auto simp: slots_ok_def)
    note b = slots_okD(1) [OF m(2) hit(3) slot]
    obtain found b' where c: "SBM_clear_bucket b (n mod 32768) = (found, b')" by fastforce
    from SBM_clear_bucket_spec [OF b, of "n mod 32768"] c have b':
      "found = (n mod 32768 \<in> bucket_set b)" "bucket_ok b'" "bucket_set b' = bucket_set b - {n mod 32768}"
      by auto
    have "SBM_clear bm n = (found, Some (set_slot ?slot b' m))"
      using hit Some n c by (simp add: SBM_clear_def bucket_relative_def)
    moreover have "found = (n \<in> root_set m)"
      using hit slot n b' by (simp add: root_set_def vector_set_def mem_slots_set)
    ultimately show ?thesis
      using slots_set_remove [OF slot hit(3) n(1), of bucket_set b'] set_slot_ok [OF m(2) hit(2) b'(2)]
        b' hit(1) m(1) Some
      by (auto simp: sbm_ok_def sbm_set_def root_ok_def vector_ok_def root_set_def vector_set_def)
  qed
qed

lemma SBM_reset_spec:
  assumes "sbm_ok bm"
  shows "sbm_ok (SBM_reset bm) \<and> sbm_set (SBM_reset bm) = {}"
  using assms
  by (auto simp: SBM_reset_def sbm_ok_def sbm_set_def root_ok_def vector_ok_def slots_ok_def
      root_set_def vector_set_def split: option.splits)

subsection \<open>And and or\<close>

text \<open>What a slot holds; a null slot stands for the empty set.\<close>

definition slot_content :: "('s \<Rightarrow> int set) \<Rightarrow> 's option \<Rightarrow> int set" where
  "slot_content c x = (case x of None \<Rightarrow> {} | Some s \<Rightarrow> c s)"

definition slot_ok :: "('s \<Rightarrow> bool) \<Rightarrow> 's option \<Rightarrow> bool" where
  "slot_ok ok x = (case x of None \<Rightarrow> True | Some s \<Rightarrow> ok s)"

lemma slot_simps [simp]:
  "slot_content c None = {}" "slot_content c (Some s) = c s" "slot_ok ok None" "slot_ok ok (Some s) = ok s"
  by (simp_all add: slot_content_def slot_ok_def)

lemma slots_set_content:
  "n \<in> slots_set w c segs \<longleftrightarrow>
     0 \<le> n \<and> nat (n div w) < length segs \<and> n mod w \<in> slot_content c (segs ! nat (n div w))"
  by (cases "segs ! nat (n div w)") (auto simp: slots_set_def)

lemma slots_ok_content:
  "slots_ok ok bm \<longleftrightarrow>
     sbm_high_water bm < length (sbm_segments bm) \<and>
     (\<forall>i < length (sbm_segments bm). slot_ok ok (sbm_segments bm ! i) \<and>
        (sbm_high_water bm < i \<longrightarrow> sbm_segments bm ! i = None))"
  unfolding slots_ok_def slot_ok_def by (auto split: option.splits) (metis not_le option.exhaust)+

lemma fst_zip_slots_simps:
  "fst (zip_slots (Suc n) f (x # xs) (y # ys)) = fst (f x y) # fst (zip_slots n f xs ys)"
  "zip_slots 0 f xs ys = (xs, ys)" "zip_slots n f [] ys = ([], ys)" "zip_slots n f xs [] = (xs, [])"
  by (simp_all add: split_beta)

lemma length_fst_zip_slots [simp]: "length (fst (zip_slots n f xs ys)) = length xs"
proof (induction xs arbitrary: n ys)
  case (Cons x xs)
  then show ?case by (cases n; cases ys; simp only: fst_zip_slots_simps; simp)
qed simp

lemma nth_fst_zip_slots [simp]:
  "i < length xs \<Longrightarrow> fst (zip_slots n f xs ys) ! i =
     (if i < n \<and> i < length ys then fst (f (xs ! i) (ys ! i)) else xs ! i)"
proof (induction xs arbitrary: n ys i)
  case (Cons x xs)
  then show ?case by (cases n; cases ys; simp only: fst_zip_slots_simps; cases i; simp)
qed simp

lemma fst_zip_vectors [simp]:
  "sbm_segments (fst (zip_vectors f n m1 m2)) = fst (zip_slots (n + 1) f (sbm_segments m1) (sbm_segments m2))"
  "sbm_state (fst (zip_vectors f n m1 m2)) = sbm_state m1"
  "sbm_number (fst (zip_vectors f n m1 m2)) = sbm_number m1"
  "sbm_count (fst (zip_vectors f n m1 m2)) = sbm_count m1"
  "sbm_high_water (fst (zip_vectors f n m1 m2)) = sbm_high_water m1"
  by (simp_all add: zip_vectors_def split_beta)

text \<open>
  The contract between a loop over two vectors and the routine it applies to each pair of
  slots: the first component of the routine's result stands for the intersection (or the
  union) of its arguments.  The loop then computes the intersection (the union) of the
  vectors.  The contract is met by segments within a bucket and by buckets within a root.
\<close>

locale slot_meet =
  fixes ok :: "'s \<Rightarrow> bool" and content :: "'s \<Rightarrow> int set"
    and meet :: "'s option \<Rightarrow> 's option \<Rightarrow> 's option \<times> 's option"
  assumes meet_ok: "slot_ok ok x \<Longrightarrow> slot_ok ok y \<Longrightarrow> slot_ok ok (fst (meet x y))"
    and meet_content: "slot_ok ok x \<Longrightarrow> slot_ok ok y \<Longrightarrow>
      slot_content content (fst (meet x y)) = slot_content content x \<inter> slot_content content y"
    and meet_None: "fst (meet None y) = None"
begin

lemma zip_meet_ok:
  assumes "slots_ok ok m1" "slots_ok ok m2"
  shows "slots_ok ok (fst (zip_vectors meet k m1 m2))"
  using assms meet_ok meet_None by (auto simp: slots_ok_content)

lemma zip_meet_set:
  assumes "slots_ok ok m1" "slots_ok ok m2" "sbm_high_water m1 \<le> sbm_high_water m2"
  shows "slots_set w content (sbm_segments (fst (zip_vectors meet (sbm_high_water m1) m1 m2))) =
    slots_set w content (sbm_segments m1) \<inter> slots_set w content (sbm_segments m2)"
proof (rule set_eqI)
  fix n
  let ?i = "nat (n div w)"
  show "n \<in> slots_set w content (sbm_segments (fst (zip_vectors meet (sbm_high_water m1) m1 m2))) \<longleftrightarrow>
    n \<in> slots_set w content (sbm_segments m1) \<inter> slots_set w content (sbm_segments m2)"
  proof (cases "?i < length (sbm_segments m1) \<and> ?i \<le> sbm_high_water m1")
    case True
    with assms have "?i < length (sbm_segments m2)" by (auto simp: slots_ok_content)
    with True assms meet_content [of "sbm_segments m1 ! ?i" "sbm_segments m2 ! ?i"] show ?thesis
      by (auto simp: slots_set_content slots_ok_content less_Suc_eq_le)
  next
    case False
    with assms(1) show ?thesis by (auto simp: slots_set_content slots_ok_content less_Suc_eq_le)
  qed
qed

end

locale slot_join =
  fixes ok :: "'s \<Rightarrow> bool" and content :: "'s \<Rightarrow> int set"
    and join :: "'s option \<Rightarrow> 's option \<Rightarrow> 's option \<times> 's option"
  assumes join_ok: "slot_ok ok x \<Longrightarrow> slot_ok ok y \<Longrightarrow> slot_ok ok (fst (join x y))"
    and join_content: "slot_ok ok x \<Longrightarrow> slot_ok ok y \<Longrightarrow>
      slot_content content (fst (join x y)) = slot_content content x \<union> slot_content content y"
begin

lemma zip_join_ok:
  assumes "slots_ok ok m1" "slots_ok ok m2" "sbm_high_water m2 \<le> sbm_high_water m1"
  shows "slots_ok ok (fst (zip_vectors join (sbm_high_water m2) m1 m2))"
  using assms join_ok by (auto simp: slots_ok_content)

lemma zip_join_set:
  assumes "slots_ok ok m1" "slots_ok ok m2" "sbm_high_water m2 \<le> sbm_high_water m1"
  shows "slots_set w content (sbm_segments (fst (zip_vectors join (sbm_high_water m2) m1 m2))) =
    slots_set w content (sbm_segments m1) \<union> slots_set w content (sbm_segments m2)"
proof (rule set_eqI)
  fix n
  let ?i = "nat (n div w)"
  show "n \<in> slots_set w content (sbm_segments (fst (zip_vectors join (sbm_high_water m2) m1 m2))) \<longleftrightarrow>
    n \<in> slots_set w content (sbm_segments m1) \<union> slots_set w content (sbm_segments m2)"
  proof (cases "?i \<le> sbm_high_water m2")
    case True
    with assms have "?i < length (sbm_segments m2)" "?i < length (sbm_segments m1)"
      by (auto simp: slots_ok_content)
    with True assms join_content [of "sbm_segments m1 ! ?i" "sbm_segments m2 ! ?i"] show ?thesis
      by (auto simp: slots_set_content slots_ok_content less_Suc_eq_le)
  next
    case False
    with assms(2) show ?thesis by (auto simp: slots_set_content slots_ok_content less_Suc_eq_le)
  qed
qed

end

lemma map2_segment_set:
  assumes "segment_ok s1" "segment_ok s2"
  shows "segment_set (s1\<lparr>bms_bits := map2 (AND) (bms_bits s1) (bms_bits s2)\<rparr>) = segment_set s1 \<inter> segment_set s2"
    and "segment_set (s1\<lparr>bms_bits := map2 (OR) (bms_bits s1) (bms_bits s2)\<rparr>) = segment_set s1 \<union> segment_set s2"
  using assms by (auto simp: segment_set_def segment_ok_def bit_and_iff bit_or_iff)

interpretation segment_meet: slot_meet segment_ok segment_set and_segments
proof
  fix x y
  show "fst (and_segments None y) = None" by (simp add: and_segments_def)
  assume "slot_ok segment_ok x" "slot_ok segment_ok y"
  then show "slot_ok segment_ok (fst (and_segments x y))"
    "slot_content segment_set (fst (and_segments x y)) = slot_content segment_set x \<inter> slot_content segment_set y"
    by (cases x; cases y; simp add: and_segments_def map2_segment_set; simp add: segment_ok_def)+
qed

interpretation segment_join: slot_join segment_ok segment_set or_segments
proof
  fix x y
  assume "slot_ok segment_ok x" "slot_ok segment_ok y"
  then show "slot_ok segment_ok (fst (or_segments x y))"
    "slot_content segment_set (fst (or_segments x y)) = slot_content segment_set x \<union> slot_content segment_set y"
    by (cases x; cases y; simp add: or_segments_def map2_segment_set; simp add: segment_ok_def)+
qed

lemma SBM_and_bucket_spec:
  assumes "bucket_ok b1" "bucket_ok b2" "SBM_and_bucket b1 b2 = (res, b1', b2')"
  shows "case res of
           Null_map \<Rightarrow> bucket_set b1 \<inter> bucket_set b2 = {}
         | First_map \<Rightarrow> bucket_ok b1' \<and> bucket_set b1' = bucket_set b1 \<inter> bucket_set b2
         | Second_map \<Rightarrow> bucket_ok b2' \<and> bucket_set b2' = bucket_set b1 \<inter> bucket_set b2"
proof -
  have ok: "slots_ok segment_ok b1" "slots_ok segment_ok b2" "length (sbm_segments b1) = 32" "length (sbm_segments b2) = 32"
    using assms(1,2) by (simp_all add: bucket_ok_def vector_ok_def)
  consider (empty) "sbm_state b1 = SBM_EMPTY \<or> sbm_state b2 = SBM_EMPTY"
    | (one) "sbm_state b1 = SBM_SINGULAR" "sbm_state b2 \<noteq> SBM_EMPTY"
    | (two) "sbm_state b1 = SBM_PLURAL" "sbm_state b2 = SBM_SINGULAR"
    | (both) "sbm_state b1 = SBM_PLURAL" "sbm_state b2 = SBM_PLURAL"
    by (cases "sbm_state b1"; cases "sbm_state b2"; simp)
  then show ?thesis
  proof cases
    case empty
    with assms(3) show ?thesis by (auto simp: SBM_and_bucket_def bucket_set_def vector_set_def)
  next
    case one
    then have "bucket_set b1 = {sbm_number b1}" "0 \<le> sbm_number b1" "sbm_number b1 < 32768"
      using assms(1) by (auto simp: bucket_set_def vector_set_def bucket_ok_def vector_ok_def)
    with one assms SBM_test_bucket_set [OF assms(2), of "sbm_number b1"] show ?thesis
      by (auto simp: SBM_and_bucket_def split: if_splits)
  next
    case two
    then have "bucket_set b2 = {sbm_number b2}" "0 \<le> sbm_number b2" "sbm_number b2 < 32768"
      using assms(2) by (auto simp: bucket_set_def vector_set_def bucket_ok_def vector_ok_def)
    with two assms SBM_test_bucket_set [OF assms(1), of "sbm_number b2"] show ?thesis
      by (auto simp: SBM_and_bucket_def split: if_splits)
  next
    case both
    note meet = segment_meet.zip_meet_ok segment_meet.zip_meet_set [of _ _ 1024]
    show ?thesis
    proof (cases "sbm_high_water b1 > sbm_high_water b2")
      case True
      with assms(3) both have "res = Second_map" "b2' = fst (zip_vectors and_segments (sbm_high_water b2) b2 b1)"
        by (auto simp: SBM_and_bucket_def split: prod.splits)
      with True both ok meet(1) [OF ok(2,1)] meet(2) [OF ok(2,1)] show ?thesis
        by (auto simp: bucket_ok_def vector_ok_def bucket_set_def vector_set_def)
    next
      case False
      with assms(3) both have "res = First_map" "b1' = fst (zip_vectors and_segments (sbm_high_water b1) b1 b2)"
        by (auto simp: SBM_and_bucket_def split: prod.splits)
      with False both ok meet(1) [OF ok(1,2)] meet(2) [OF ok(1,2)] show ?thesis
        by (auto simp: bucket_ok_def vector_ok_def bucket_set_def vector_set_def)
    qed
  qed
qed

interpretation bucket_meet: slot_meet bucket_ok bucket_set and_buckets
proof
  fix x y
  show "fst (and_buckets None y) = None" by (simp add: and_buckets_def)
  assume ok: "slot_ok bucket_ok x" "slot_ok bucket_ok y"
  have "slot_ok bucket_ok (fst (and_buckets x y)) \<and>
    slot_content bucket_set (fst (and_buckets x y)) = slot_content bucket_set x \<inter> slot_content bucket_set y"
  proof (cases "x = None \<or> y = None")
    case True
    then show ?thesis by (cases x; cases y; simp add: and_buckets_def)
  next
    case False
    then obtain b1 b2 where b: "x = Some b1" "y = Some b2" by auto
    obtain res b1' b2' where r: "SBM_and_bucket b1 b2 = (res, b1', b2')" by (metis prod_cases3)
    from SBM_and_bucket_spec [OF _ _ r] ok b show ?thesis
      by (cases res) (simp_all add: and_buckets_def r)
  qed
  then show "slot_ok bucket_ok (fst (and_buckets x y))"
    "slot_content bucket_set (fst (and_buckets x y)) = slot_content bucket_set x \<inter> slot_content bucket_set y"
    by simp_all
qed

lemma SBM_or_bucket_spec:
  assumes "bucket_ok b1" "bucket_ok b2" "SBM_or_bucket b1 b2 = (res, b1', b2')"
  shows "if res = Second_map then bucket_ok b2' \<and> bucket_set b2' = bucket_set b1 \<union> bucket_set b2
         else bucket_ok b1' \<and> bucket_set b1' = bucket_set b1 \<union> bucket_set b2"
proof -
  have ok: "slots_ok segment_ok b1" "slots_ok segment_ok b2" "length (sbm_segments b1) = 32" "length (sbm_segments b2) = 32"
    using assms(1,2) by (simp_all add: bucket_ok_def vector_ok_def)
  consider (empty) "sbm_state b1 = SBM_EMPTY \<or> sbm_state b2 = SBM_EMPTY"
    | (one) "sbm_state b1 = SBM_SINGULAR" "sbm_state b2 \<noteq> SBM_EMPTY"
    | (two) "sbm_state b1 = SBM_PLURAL" "sbm_state b2 = SBM_SINGULAR"
    | (both) "sbm_state b1 = SBM_PLURAL" "sbm_state b2 = SBM_PLURAL"
    by (cases "sbm_state b1"; cases "sbm_state b2"; simp)
  then show ?thesis
  proof cases
    case empty
    with assms show ?thesis by (auto simp: SBM_or_bucket_def bucket_set_def vector_set_def split: if_splits)
  next
    case one
    then have "bucket_set b1 = {sbm_number b1}" "0 \<le> sbm_number b1" "sbm_number b1 < 32768"
      using assms(1) by (auto simp: bucket_set_def vector_set_def bucket_ok_def vector_ok_def)
    with one assms SBM_set_bucket_spec [OF assms(2), of "sbm_number b1"] show ?thesis
      by (auto simp: SBM_or_bucket_def split: if_splits)
  next
    case two
    then have "bucket_set b2 = {sbm_number b2}" "0 \<le> sbm_number b2" "sbm_number b2 < 32768"
      using assms(2) by (auto simp: bucket_set_def vector_set_def bucket_ok_def vector_ok_def)
    with two assms SBM_set_bucket_spec [OF assms(1), of "sbm_number b2"] show ?thesis
      by (auto simp: SBM_or_bucket_def split: if_splits)
  next
    case both
    note join = segment_join.zip_join_ok segment_join.zip_join_set [of _ _ 1024]
    show ?thesis
    proof (cases "sbm_high_water b1 < sbm_high_water b2")
      case True
      with assms(3) both have "res = Second_map" "b2' = fst (zip_vectors or_segments (sbm_high_water b1) b2 b1)"
        by (auto simp: SBM_or_bucket_def split: prod.splits)
      with True both ok join(1) [OF ok(2,1)] join(2) [OF ok(2,1)] show ?thesis
        by (auto simp: bucket_ok_def vector_ok_def bucket_set_def vector_set_def)
    next
      case False
      with assms(3) both have "res = First_map" "b1' = fst (zip_vectors or_segments (sbm_high_water b2) b1 b2)"
        by (auto simp: SBM_or_bucket_def split: prod.splits)
      with False both ok join(1) [OF ok(1,2)] join(2) [OF ok(1,2)] show ?thesis
        by (auto simp: bucket_ok_def vector_ok_def bucket_set_def vector_set_def)
    qed
  qed
qed

interpretation bucket_join: slot_join bucket_ok bucket_set or_buckets
proof
  fix x y
  assume ok: "slot_ok bucket_ok x" "slot_ok bucket_ok y"
  have "slot_ok bucket_ok (fst (or_buckets x y)) \<and>
    slot_content bucket_set (fst (or_buckets x y)) = slot_content bucket_set x \<union> slot_content bucket_set y"
  proof (cases "x = None \<or> y = None")
    case True
    with ok show ?thesis by (cases x; cases y; simp add: or_buckets_def)
  next
    case False
    then obtain b1 b2 where b: "x = Some b1" "y = Some b2" by auto
    obtain res b1' b2' where r: "SBM_or_bucket b1 b2 = (res, b1', b2')" by (metis prod_cases3)
    from SBM_or_bucket_spec [OF _ _ r] ok b show ?thesis
      by (simp add: or_buckets_def r split: if_splits)
  qed
  then show "slot_ok bucket_ok (fst (or_buckets x y))"
    "slot_content bucket_set (fst (or_buckets x y)) = slot_content bucket_set x \<union> slot_content bucket_set y"
    by simp_all
qed

lemma root_okD:
  assumes "root_ok m"
  shows "slots_ok bucket_ok m" "sbm_count m = length (sbm_segments m)" "length (sbm_segments m) < 65536"
    and "sbm_state m = SBM_SINGULAR \<Longrightarrow> valid_number (sbm_number m) \<and> root_set m = {sbm_number m}"
  using assms by (auto simp: root_ok_def vector_ok_def valid_number_def root_set_def vector_set_def)

lemma zip_root_ok:
  assumes "root_ok m1" "slots_ok bucket_ok (fst (zip_vectors f k m1 m2))" "sbm_state m1 = SBM_PLURAL"
  shows "root_ok (fst (zip_vectors f k m1 m2))"
  using assms by (auto simp: root_ok_def vector_ok_def)

lemma SBM_and_spec:
  assumes "sbm_ok bm1" "sbm_ok bm2"
  shows "sbm_ok (picked (SBM_and bm1 bm2)) \<and> sbm_set (picked (SBM_and bm1 bm2)) = sbm_set bm1 \<inter> sbm_set bm2"
proof (cases "bm1 = None \<or> bm2 = None")
  case True
  then show ?thesis by (cases bm1; cases bm2; simp add: SBM_and_def picked_def sbm_ok_def sbm_set_def)
next
  case False
  then obtain m1 m2 where m: "bm1 = Some m1" "bm2 = Some m2" by auto
  then have ok: "root_ok m1" "root_ok m2" using assms by (simp_all add: sbm_ok_def)
  note slots = root_okD(1) [OF ok(1)] root_okD(1) [OF ok(2)]
  consider (empty) "sbm_state m1 = SBM_EMPTY \<or> sbm_state m2 = SBM_EMPTY"
    | (one) "sbm_state m1 = SBM_SINGULAR" "sbm_state m2 \<noteq> SBM_EMPTY"
    | (two) "sbm_state m1 = SBM_PLURAL" "sbm_state m2 = SBM_SINGULAR"
    | (both) "sbm_state m1 = SBM_PLURAL" "sbm_state m2 = SBM_PLURAL"
    by (cases "sbm_state m1"; cases "sbm_state m2"; simp)
  then show ?thesis
  proof cases
    case empty
    with m show ?thesis by (auto simp: SBM_and_def picked_def sbm_ok_def sbm_set_def root_set_def vector_set_def)
  next
    case one
    with m root_okD(4) [OF ok(1)] SBM_test_root_set [OF ok(2), of "sbm_number m1"] ok show ?thesis
      by (auto simp: SBM_and_def picked_def sbm_ok_def sbm_set_def)
  next
    case two
    with m root_okD(4) [OF ok(2)] SBM_test_root_set [OF ok(1), of "sbm_number m2"] ok show ?thesis
      by (auto simp: SBM_and_def picked_def sbm_ok_def sbm_set_def)
  next
    case both
    note meet = bucket_meet.zip_meet_ok bucket_meet.zip_meet_set [of _ _ 32768]
    show ?thesis
    proof (cases "sbm_high_water m1 > sbm_high_water m2")
      case True
      with m both have "picked (SBM_and bm1 bm2) = Some (fst (zip_vectors and_buckets (sbm_high_water m2) m2 m1))"
        by (auto simp: SBM_and_def picked_def split: prod.splits)
      with True both meet(1) [OF slots(2,1)] meet(2) [OF slots(2,1)] zip_root_ok [OF ok(2)] m show ?thesis
        by (auto simp: sbm_ok_def sbm_set_def root_set_def vector_set_def)
    next
      case False
      with m both have "picked (SBM_and bm1 bm2) = Some (fst (zip_vectors and_buckets (sbm_high_water m1) m1 m2))"
        by (auto simp: SBM_and_def picked_def split: prod.splits)
      with False both meet(1) [OF slots(1,2)] meet(2) [OF slots(1,2)] zip_root_ok [OF ok(1)] m show ?thesis
        by (auto simp: sbm_ok_def sbm_set_def root_set_def vector_set_def)
    qed
  qed
qed

lemma SBM_or_spec:
  assumes "sbm_ok bm1" "sbm_ok bm2" "max_tail < 65536"
  shows "sbm_ok (picked (SBM_or max_tail bm1 bm2)) \<and>
         sbm_set (picked (SBM_or max_tail bm1 bm2)) = sbm_set bm1 \<union> sbm_set bm2"
proof (cases "bm1 = None \<or> bm2 = None")
  case True
  with assms show ?thesis
    by (cases bm1; cases bm2; auto simp: SBM_or_def picked_def sbm_ok_def sbm_set_def root_set_def vector_set_def)
next
  case False
  then obtain m1 m2 where m: "bm1 = Some m1" "bm2 = Some m2" by auto
  then have ok: "root_ok m1" "root_ok m2" using assms by (simp_all add: sbm_ok_def)
  note slots = root_okD(1) [OF ok(1)] root_okD(1) [OF ok(2)]
  consider (empty) "sbm_state m1 = SBM_EMPTY \<or> sbm_state m2 = SBM_EMPTY"
    | (one) "sbm_state m1 = SBM_SINGULAR" "sbm_state m2 \<noteq> SBM_EMPTY"
    | (two) "sbm_state m1 = SBM_PLURAL" "sbm_state m2 = SBM_SINGULAR"
    | (both) "sbm_state m1 = SBM_PLURAL" "sbm_state m2 = SBM_PLURAL"
    by (cases "sbm_state m1"; cases "sbm_state m2"; simp)
  then show ?thesis
  proof cases
    case empty
    with m ok show ?thesis by (auto simp: SBM_or_def picked_def sbm_ok_def sbm_set_def root_set_def vector_set_def)
  next
    case one
    with m root_okD(4) [OF ok(1)] SBM_set_spec [OF assms(2) _ assms(3), of "sbm_number m1"] show ?thesis
      by (auto simp: SBM_or_def picked_def sbm_ok_def sbm_set_def)
  next
    case two
    with m root_okD(4) [OF ok(2)] SBM_set_spec [OF assms(1) _ assms(3), of "sbm_number m2"] show ?thesis
      by (auto simp: SBM_or_def picked_def sbm_ok_def sbm_set_def)
  next
    case both
    note join = bucket_join.zip_join_ok bucket_join.zip_join_set [of _ _ 32768]
    show ?thesis
    proof (cases "sbm_high_water m1 < sbm_high_water m2")
      case True
      with m both have "picked (SBM_or max_tail bm1 bm2) = Some (fst (zip_vectors or_buckets (sbm_high_water m1) m2 m1))"
        by (auto simp: SBM_or_def picked_def split: prod.splits)
      with True both join(1) [OF slots(2,1)] join(2) [OF slots(2,1)] zip_root_ok [OF ok(2)] m show ?thesis
        by (auto simp: sbm_ok_def sbm_set_def root_set_def vector_set_def)
    next
      case False
      with m both have "picked (SBM_or max_tail bm1 bm2) = Some (fst (zip_vectors or_buckets (sbm_high_water m2) m1 m2))"
        by (auto simp: SBM_or_def picked_def split: prod.splits)
      with False both join(1) [OF slots(1,2)] join(2) [OF slots(1,2)] zip_root_ok [OF ok(1)] m show ?thesis
        by (auto simp: sbm_ok_def sbm_set_def root_set_def vector_set_def)
    qed
  qed
qed

end
