(* ===== verification/Sbm_Next.thy ===== *)
theory Sbm_Next
  imports Sbm
begin

text \<open>
  The search for the next bit of a sparse bit map, \<^verbatim>\<open>SBM_next\<close> of \<^verbatim>\<open>src/jrd/sbm.c\<close>:
  the search through a bunch, a segment, a bucket and the root each return the next
  element of the set they stand for, and the segments and buckets the forward search
  releases on its way were empty.
\<close>

section \<open>Next and previous elements\<close>

definition is_next :: "int set \<Rightarrow> int \<Rightarrow> int option \<Rightarrow> bool" where
  "is_next S lo r \<longleftrightarrow>
     (case r of
        None \<Rightarrow> \<forall>j \<in> S. j < lo
      | Some i \<Rightarrow> i \<in> S \<and> lo \<le> i \<and> (\<forall>j \<in> S. j < i \<longrightarrow> j < lo))"

definition is_prev :: "int set \<Rightarrow> int \<Rightarrow> int option \<Rightarrow> bool" where
  "is_prev S hi r \<longleftrightarrow>
     (case r of
        None \<Rightarrow> \<forall>j \<in> S. hi < j
      | Some i \<Rightarrow> i \<in> S \<and> i \<le> hi \<and> (\<forall>j \<in> S. i < j \<longrightarrow> hi < j))"

lemma is_next_skip:
  "is_next S hi r \<Longrightarrow> lo \<le> hi \<Longrightarrow> (\<And>j. j \<in> S \<Longrightarrow> lo \<le> j \<Longrightarrow> hi \<le> j) \<Longrightarrow> is_next S lo r"
  unfolding is_next_def by (cases r) force+

lemma is_prev_skip:
  "is_prev S lo r \<Longrightarrow> lo \<le> hi \<Longrightarrow> (\<And>j. j \<in> S \<Longrightarrow> j \<le> hi \<Longrightarrow> j \<le> lo) \<Longrightarrow> is_prev S hi r"
  unfolding is_prev_def by (cases r) force+

lemma is_next_nonneg: "(\<And>j. j \<in> S \<Longrightarrow> 0 \<le> j) \<Longrightarrow> is_next S (-1) r = is_next S 0 r"
  unfolding is_next_def by (cases r) (auto, force+)

section \<open>Within a segment\<close>

lemma mem_segment_set:
  assumes "i < 32"
  shows "int (k * 32 + i) \<in> segment_set s \<longleftrightarrow> k < 32 \<and> bit (bms_bits s ! k) i"
proof -
  have "int (k * 32 + i) div 32 = int k" "int (k * 32 + i) mod 32 = int i"
    using assms by simp_all
  then show ?thesis using assms by (auto simp: segment_set_def)
qed

lemma segment_setE:
  assumes "j \<in> segment_set s"
  obtains k i where "j = int (k * 32 + i)" "k < 32" "i < 32" "bit (bms_bits s ! k) i"
proof -
  have j: "0 \<le> j" "j < 1024" "bit (bms_bits s ! nat (j div 32)) (nat (j mod 32))"
    using assms by (auto simp: segment_set_def)
  have "j = int (nat (j div 32) * 32 + nat (j mod 32))" "nat (j div 32) < 32" "nat (j mod 32) < 32"
    using j(1,2) by (auto simp: nat_less_iff pos_imp_zdiv_nonneg_iff)
  with j(3) that show thesis by blast
qed

lemma scan_bits_up_spec:
  "case scan_bits_up test b n of
     None \<Rightarrow> \<forall>j. b \<le> j \<and> j < b + n \<longrightarrow> \<not> bit test j
   | Some i \<Rightarrow> b \<le> i \<and> i < b + n \<and> bit test i \<and> (\<forall>j. b \<le> j \<and> j < i \<longrightarrow> \<not> bit test j)"
proof (induction n arbitrary: b)
  case (Suc n)
  have le: "b \<le> j \<longleftrightarrow> j = b \<or> Suc b \<le> j" for j by auto
  show ?case using Suc.IH [of "Suc b"] by (auto simp: le split: option.splits)
qed auto

lemma scan_bits_down_spec:
  "case scan_bits_down test b of
     None \<Rightarrow> \<forall>j \<le> b. \<not> bit test j
   | Some i \<Rightarrow> i \<le> b \<and> bit test i \<and> (\<forall>j. i < j \<and> j \<le> b \<longrightarrow> \<not> bit test j)"
proof (induction b)
  case (Suc b)
  then show ?case by (auto simp: le_Suc_eq split: option.splits)
qed auto

lemma bunch_order:
  fixes i j :: nat
  assumes "i < 32" "j < 32"
  shows "int (k * 32 + i) \<le> int (l * 32 + j) \<longleftrightarrow> k < l \<or> k = l \<and> i \<le> j"
    and "int (k * 32 + i) < int (l * 32 + j) \<longleftrightarrow> k < l \<or> k = l \<and> i < j"
  using assms by auto

lemma scan_bunches_up_spec:
  assumes "segment_ok s" "b < 32"
  shows "is_next (segment_set s) (int (k * 32 + b))
           (map_option int (scan_bunches_up (drop k (bms_bits s)) k b))"
  using assms(2)
proof (induction "32 - k" arbitrary: k b)
  case 0
  then have "drop k (bms_bits s) = []" using assms(1) by (simp add: segment_ok_def)
  moreover have "j < int (k * 32 + b)" if "j \<in> segment_set s" for j
    using that 0 by (auto simp: segment_set_def)
  ultimately show ?case by (simp add: is_next_def)
next
  case (Suc d)
  then have k: "k < 32" by simp
  let ?test = "bms_bits s ! k"
  define r where "r = (if ?test \<noteq> 0 then scan_bits_up ?test b (32 - b) else None)"
  have r: "case r of None \<Rightarrow> \<forall>j. b \<le> j \<and> j < 32 \<longrightarrow> \<not> bit ?test j
      | Some i \<Rightarrow> b \<le> i \<and> i < 32 \<and> bit ?test i \<and> (\<forall>j. b \<le> j \<and> j < i \<longrightarrow> \<not> bit ?test j)"
    using scan_bits_up_spec [where test = ?test and b = b and n = "32 - b"] Suc.prems
    by (auto simp: r_def split: option.splits)
  have drop: "drop k (bms_bits s) = ?test # drop (Suc k) (bms_bits s)"
    using k assms(1) by (simp add: segment_ok_def Cons_nth_drop_Suc)
  show ?case
  proof (cases r)
    case (Some i)
    have "scan_bunches_up (drop k (bms_bits s)) k b = Some (k * 32 + i)"
      using Some by (simp add: drop r_def [symmetric])
    moreover have "int (k * 32 + i) \<in> segment_set s" using r Some k mem_segment_set [of i k s] by simp
    moreover have "j < int (k * 32 + b)" if "j \<in> segment_set s" "j < int (k * 32 + i)" for j
      using that(1)
    proof (rule segment_setE)
      fix l m assume lm: "j = int (l * 32 + m)" "m < 32" "bit (bms_bits s ! l) m"
      have "l < k \<or> l = k \<and> m < i" using that(2) lm(1,2) r Some bunch_order(2) [of m i l k] by simp
      then have "l < k \<or> l = k \<and> m < b" using lm(3) r Some by (auto simp: not_less)
      then show ?thesis using lm(1,2) Suc.prems bunch_order(2) [of m b l k] by blast
    qed
    ultimately show ?thesis using r Some by (simp add: is_next_def)
  next
    case None
    have "scan_bunches_up (drop k (bms_bits s)) k b = scan_bunches_up (drop (Suc k) (bms_bits s)) (Suc k) 0"
      using None by (simp add: drop r_def [symmetric])
    moreover have "is_next (segment_set s) (int (Suc k * 32 + 0))
        (map_option int (scan_bunches_up (drop (Suc k) (bms_bits s)) (Suc k) 0))"
      using Suc.hyps(2) by (intro Suc.hyps(1)) simp_all
    moreover have "int (Suc k * 32 + 0) \<le> j" if "j \<in> segment_set s" "int (k * 32 + b) \<le> j" for j
      using that(1)
    proof (rule segment_setE)
      fix l m assume lm: "j = int (l * 32 + m)" "m < 32" "bit (bms_bits s ! l) m"
      have "k < l \<or> k = l \<and> b \<le> m" using that(2) lm(1,2) Suc.prems bunch_order(1) [of b m k l] by simp
      then have "k < l" using lm(2,3) r None by auto
      then show ?thesis using lm(1) by simp
    qed
    ultimately show ?thesis using Suc.prems by (auto intro: is_next_skip)
  qed
qed

lemma scan_bunches_down_spec:
  assumes "segment_ok s" "k < 32" "b < 32"
  shows "is_prev (segment_set s) (int (k * 32 + b)) (map_option int (scan_bunches_down (bms_bits s) k b))"
  using assms(2,3)
proof (induction k arbitrary: b rule: less_induct)
  case (less k)
  let ?test = "bms_bits s ! k"
  define r where "r = (if ?test \<noteq> 0 then scan_bits_down ?test b else None)"
  have r: "case r of None \<Rightarrow> \<forall>j \<le> b. \<not> bit ?test j
      | Some i \<Rightarrow> i \<le> b \<and> bit ?test i \<and> (\<forall>j. i < j \<and> j \<le> b \<longrightarrow> \<not> bit ?test j)"
    using scan_bits_down_spec [where test = ?test and b = b] by (simp add: r_def)
  show ?case
  proof (cases r)
    case (Some i)
    have "scan_bunches_down (bms_bits s) k b = Some (k * 32 + i)"
      using Some by (subst scan_bunches_down.simps) (simp add: r_def [symmetric])
    moreover have "int (k * 32 + i) \<in> segment_set s"
      using r Some less.prems mem_segment_set [of i k s] by simp
    moreover have "int (k * 32 + b) < j" if "j \<in> segment_set s" "int (k * 32 + i) < j" for j
      using that(1)
    proof (rule segment_setE)
      fix l m assume lm: "j = int (l * 32 + m)" "m < 32" "bit (bms_bits s ! l) m"
      have "k < l \<or> k = l \<and> i < m"
        using that(2) lm(1,2) r Some less.prems bunch_order(2) [of i m k l] by simp
      then have "k < l \<or> k = l \<and> b < m" using lm(3) r Some by (auto simp: not_less)
      then show ?thesis using lm(1,2) less.prems bunch_order(2) [of b m k l] by blast
    qed
    ultimately show ?thesis using r Some by (simp add: is_prev_def)
  next
    case None
    have below: "l < k" if "int (l * 32 + m) \<in> segment_set s" "m < 32" "int (l * 32 + m) \<le> int (k * 32 + b)" for l m
    proof -
      have "bit (bms_bits s ! l) m" using that(1,2) mem_segment_set by blast
      moreover have "l < k \<or> l = k \<and> m \<le> b" using that(2,3) less.prems bunch_order(1) [of m b l k] by blast
      ultimately show ?thesis using r None by auto
    qed
    show ?thesis
    proof (cases k)
      case 0
      then have "scan_bunches_down (bms_bits s) k b = None"
        using None by (subst scan_bunches_down.simps) (auto simp: r_def)
      moreover have "int (k * 32 + b) < j" if "j \<in> segment_set s" for j
        using that
      proof (rule segment_setE)
        fix l m assume "j = int (l * 32 + m)" "m < 32"
        with that below [of l m] 0 show ?thesis by (cases "int (k * 32 + b) < j") auto
      qed
      ultimately show ?thesis by (simp add: is_prev_def)
    next
      case (Suc k')
      then have "scan_bunches_down (bms_bits s) k b = scan_bunches_down (bms_bits s) k' 31"
        using None by (subst scan_bunches_down.simps) (auto simp: r_def)
      moreover have "is_prev (segment_set s) (int (k' * 32 + 31)) (map_option int (scan_bunches_down (bms_bits s) k' 31))"
        using Suc less.prems by (intro less.IH) simp_all
      moreover have "j \<le> int (k' * 32 + 31)" if "j \<in> segment_set s" "j \<le> int (k * 32 + b)" for j
        using that(1)
      proof (rule segment_setE)
        fix l m assume "j = int (l * 32 + m)" "m < 32"
        with that below [of l m] Suc show ?thesis by auto
      qed
      ultimately show ?thesis using Suc by (auto intro: is_prev_skip)
    qed
  qed
qed

section \<open>Across slots\<close>

lemma slots_setE:
  assumes "j \<in> slots_set w c segs" "0 < w"
  obtains l m s where "j = int l * w + m" "l < length segs" "segs ! l = Some s" "m \<in> c s" "0 \<le> m" "m < w"
proof -
  obtain s where s: "0 \<le> j" "nat (j div w) < length segs" "segs ! nat (j div w) = Some s" "j mod w \<in> c s"
    using assms(1) by (auto simp: mem_slots_set)
  have "0 \<le> j div w" using s(1) assms(2) by (simp add: pos_imp_zdiv_nonneg_iff)
  then have "j = int (nat (j div w)) * w + j mod w" by simp
  with s assms(2) that show thesis by (metis pos_mod_bound pos_mod_sign)
qed

lemma slots_setI:
  assumes "l < length segs" "segs ! l = Some s" "m \<in> c s" "0 \<le> m" "m < w"
  shows "int l * w + m \<in> slots_set w c segs"
  using assms by (simp add: mem_slots_set)

lemma slot_order:
  fixes m m' w :: int
  assumes "0 \<le> m" "m < w" "0 \<le> m'" "m' < w"
  shows "int l * w + m \<le> int l' * w + m' \<longleftrightarrow> l < l' \<or> l = l' \<and> m \<le> m'"
proof (cases l l' rule: linorder_cases)
  case less
  then have "(int l + 1) * w \<le> int l' * w" using assms by (intro mult_right_mono) auto
  with less assms show ?thesis by (simp add: algebra_simps)
next
  case greater
  then have "(int l' + 1) * w \<le> int l * w" using assms by (intro mult_right_mono) auto
  with greater assms show ?thesis by (simp add: algebra_simps)
qed simp

lemma slots_next_found:
  assumes "is_next (c s) rel (Some i)" "segs ! slot = Some s" "slot < length segs"
    and "0 \<le> rel" "rel < w" "\<And>m. m \<in> c s \<Longrightarrow> 0 \<le> m \<and> m < w"
  shows "is_next (slots_set w c segs) (int slot * w + rel) (Some (int slot * w + i))"
proof -
  have i: "i \<in> c s" "rel \<le> i" "0 \<le> i" "i < w" "\<And>j. j \<in> c s \<Longrightarrow> j < i \<Longrightarrow> j < rel"
    using assms(1,6) by (auto simp: is_next_def)
  have "j < int slot * w + rel" if "j \<in> slots_set w c segs" "j < int slot * w + i" for j
    using that(1)
  proof (rule slots_setE)
    show "0 < w" using assms by linarith
    fix l m t assume lm: "j = int l * w + m" "segs ! l = Some t" "m \<in> c t" "0 \<le> m" "m < w"
    have "l < slot \<or> l = slot \<and> m < i"
      using that(2) lm slot_order [of i w m slot l] i(3,4) by (auto simp: not_le [symmetric])
    then have "l < slot \<or> l = slot \<and> m < rel" using lm(2,3) i(5) assms(2) by auto
    then show ?thesis using lm slot_order [of rel w m slot l] assms(4,5) by (auto simp: not_le [symmetric])
  qed
  with i assms slots_setI [of slot segs s i c w] show ?thesis by (auto simp: is_next_def)
qed

lemma slots_none_above:
  assumes "slot_content c (segs ! slot) \<inter> {rel..} = {}" "0 \<le> rel" "rel < w"
    and "j \<in> slots_set w c segs" "int slot * w + rel \<le> j"
  shows "int (Suc slot) * w \<le> j"
  using assms(4)
proof (rule slots_setE)
  show "0 < w" using assms by linarith
  fix l m t assume lm: "j = int l * w + m" "segs ! l = Some t" "m \<in> c t" "0 \<le> m" "m < w"
  have "slot < l \<or> slot = l \<and> rel \<le> m" using assms(5) lm slot_order [of rel w m slot l] assms(2,3) by blast
  then have "slot < l" using lm assms(1) by auto
  then have "int (Suc slot) * w + 0 \<le> j"
    unfolding lm(1) using lm(4,5) slot_order [of 0 w m "Suc slot" l] by auto
  then show ?thesis by simp
qed

lemma slots_next_skip:
  assumes "is_next (slots_set w c segs) (int (Suc slot) * w) r"
    and "slot_content c (segs ! slot) \<inter> {rel..} = {}" "0 \<le> rel" "rel < w"
  shows "is_next (slots_set w c segs) (int slot * w + rel) r"
  using assms(1)
proof (rule is_next_skip)
  show "int slot * w + rel \<le> int (Suc slot) * w" using assms(4) by (simp add: algebra_simps)
  show "int (Suc slot) * w \<le> j" if "j \<in> slots_set w c segs" "int slot * w + rel \<le> j" for j
    using slots_none_above [OF assms(2-4) that] .
qed

lemma slots_next_end:
  assumes "slots_ok ok bm" "sbm_high_water bm < slot" "0 < w" "0 \<le> rel"
  shows "is_next (slots_set w c (sbm_segments bm)) (int slot * w + rel) None"
proof -
  have "j < int slot * w + rel" if "j \<in> slots_set w c (sbm_segments bm)" for j
    using that assms(3)
  proof (rule slots_setE)
    fix l m t assume lm: "j = int l * w + m" "l < length (sbm_segments bm)" "sbm_segments bm ! l = Some t" "0 \<le> m" "m < w"
    then have "l < slot" using slots_okD(2) [OF assms(1) lm(3,2)] assms(2) by simp
    then have "\<not> int slot * w + 0 \<le> j" unfolding lm(1) using lm(4,5) slot_order [of 0 w m slot l] by auto
    then show ?thesis using assms(4) by simp
  qed
  then show ?thesis by (simp add: is_next_def)
qed

section \<open>The forward search\<close>

lemma lower_water_spec:
  "lower_water segs slot \<le> slot \<and> (\<forall>i. lower_water segs slot < i \<and> i \<le> slot \<longrightarrow> segs ! i = None)"
  by (induction segs slot rule: lower_water.induct) (auto simp: le_Suc_eq)

lemma release_slot_frame [simp]:
  "sbm_state (release_slot slot bm) = sbm_state bm" "sbm_number (release_slot slot bm) = sbm_number bm"
  "sbm_count (release_slot slot bm) = sbm_count bm"
  "sbm_segments (release_slot slot bm) = (sbm_segments bm)[slot := None]"
  by (simp_all add: release_slot_def Let_def)

lemma release_slot_ok:
  assumes "slots_ok ok bm" "slot < length (sbm_segments bm)"
  shows "slots_ok ok (release_slot slot bm)"
proof -
  let ?segs = "(sbm_segments bm)[slot := None]"
  have hw: "sbm_high_water (release_slot slot bm) =
      (if slot = sbm_high_water bm then lower_water ?segs slot else sbm_high_water bm)"
    by (simp add: release_slot_def Let_def)
  have "ok s \<and> i \<le> sbm_high_water (release_slot slot bm)"
    if "i < length (sbm_segments bm)" "?segs ! i = Some s" for i s
  proof -
    have i: "i \<noteq> slot" "sbm_segments bm ! i = Some s" using that assms(2) by (auto simp: nth_list_update split: if_splits)
    have "i \<le> lower_water ?segs slot" if "slot = sbm_high_water bm"
      using slots_okD(2) [OF assms(1) i(2) \<open>i < _\<close>] \<open>?segs ! i = Some s\<close> lower_water_spec [of ?segs slot] that
      by (metis not_le option.distinct(1))
    then show ?thesis using slots_okD [OF assms(1) i(2) \<open>i < _\<close>] by (simp add: hw)
  qed
  moreover have "sbm_high_water (release_slot slot bm) < length (sbm_segments bm)"
    using assms lower_water_spec [of ?segs slot] by (auto simp: hw slots_ok_def)
  ultimately show ?thesis by (simp add: slots_ok_def)
qed

lemma slots_set_same:
  assumes "slot < length segs" "slot_content c x = slot_content c (segs ! slot)"
  shows "slots_set w c (segs[slot := x]) = slots_set w c segs"
proof (rule set_eqI)
  fix n
  show "n \<in> slots_set w c (segs[slot := x]) \<longleftrightarrow> n \<in> slots_set w c segs"
    using assms by (cases "slot = nat (n div w)") (auto simp: slots_set_content)
qed

text \<open>
  A search may rearrange a vector as long as it stands for the same set.  A search that
  returns \<open>r\<close> and the vector \<open>bm'\<close> is right if it keeps the vector and \<open>r\<close> is the next
  element.
\<close>

definition keeps :: "('s \<Rightarrow> bool) \<Rightarrow> int \<Rightarrow> ('s \<Rightarrow> int set) \<Rightarrow> 's sbm \<Rightarrow> 's sbm \<Rightarrow> bool" where
  "keeps ok w c bm bm' \<longleftrightarrow>
     slots_ok ok bm' \<and> slots_set w c (sbm_segments bm') = slots_set w c (sbm_segments bm) \<and>
     length (sbm_segments bm') = length (sbm_segments bm) \<and> sbm_state bm' = sbm_state bm \<and>
     sbm_number bm' = sbm_number bm \<and> sbm_count bm' = sbm_count bm"

definition search_ok ::
  "('s \<Rightarrow> bool) \<Rightarrow> int \<Rightarrow> ('s \<Rightarrow> int set) \<Rightarrow> 's sbm \<Rightarrow> int \<Rightarrow> int option \<times> 's sbm \<Rightarrow> bool" where
  "search_ok ok w c bm lo res \<longleftrightarrow>
     is_next (slots_set w c (sbm_segments bm)) lo (fst res) \<and> keeps ok w c bm (snd res)"

lemma keeps_refl: "slots_ok ok bm \<Longrightarrow> keeps ok w c bm bm"
  by (simp add: keeps_def)

lemma keeps_release:
  assumes "slots_ok ok bm" "slot < length (sbm_segments bm)" "slot_content c (sbm_segments bm ! slot) = {}"
  shows "keeps ok w c bm (release_slot slot bm)"
  using release_slot_ok [OF assms(1,2)] slots_set_same [OF assms(2), of c None] assms(3) by (simp add: keeps_def)

lemma keeps_set_slot:
  assumes "slots_ok ok bm" "slot < length (sbm_segments bm)" "sbm_segments bm ! slot = Some s" "ok s'" "c s' = c s"
  shows "keeps ok w c bm (set_slot slot s' bm)"
  using set_slot_ok [OF assms(1) slots_okD(2) [OF assms(1,3,2)] assms(4)]
    slots_set_same [OF assms(2), of c "Some s'"] assms(3,5) by (simp add: keeps_def)

lemma search_end:
  assumes "slots_ok ok bm" "sbm_high_water bm < slot" "0 < w" "0 \<le> rel"
  shows "search_ok ok w c bm (int slot * w + rel) (None, bm)"
  using slots_next_end [OF assms] keeps_refl [OF assms(1)] by (simp add: search_ok_def)

lemma search_skip:
  assumes "slot_content c (sbm_segments bm ! slot) \<inter> {rel..} = {}" "0 \<le> rel" "rel < w"
    and "keeps ok w c bm m" "search_ok ok w c m (int (Suc slot) * w) res"
  shows "search_ok ok w c bm (int slot * w + rel) res"
proof -
  have "is_next (slots_set w c (sbm_segments bm)) (int (Suc slot) * w) (fst res)" "keeps ok w c bm (snd res)"
    using assms(4,5) by (simp_all add: search_ok_def keeps_def)
  with slots_next_skip [OF _ assms(1-3)] show ?thesis by (simp add: search_ok_def)
qed

text \<open>The last slot was found empty and released.\<close>

lemma search_release_last:
  assumes "slots_ok ok bm" "slot < length (sbm_segments bm)" "sbm_high_water bm \<le> slot"
    and "slot_content c (sbm_segments bm ! slot) = {}" "0 < w"
  shows "search_ok ok w c bm (int slot * w) (None, release_slot slot bm)"
proof -
  have "is_next (slots_set w c (sbm_segments bm)) (int (Suc slot) * w + 0) None"
    using assms by (intro slots_next_end) auto
  then have "is_next (slots_set w c (sbm_segments bm)) (int slot * w + 0) None"
    using assms(4,5) by (intro slots_next_skip [of w c _ slot]) simp_all
  with keeps_release [OF assms(1,2,4)] show ?thesis by (simp add: search_ok_def)
qed

lemma bucket_next_up_spec:
  assumes "slots_ok segment_ok bm" "bunch < 32" "b < 32" "gc \<longrightarrow> bunch = 0 \<and> b = 0"
  shows "search_ok segment_ok 1024 segment_set bm (int slot * 1024 + int (bunch * 32 + b))
           (bucket_next_up bm slot bunch b gc)"
  using assms
proof (induction "length (sbm_segments bm) - slot" arbitrary: bm slot bunch b gc rule: less_induct)
  case less
  let ?rel = "int (bunch * 32 + b)"
  have rel: "0 \<le> ?rel" "?rel < 1024" using less.prems(2,3) by simp_all
  note unfold = bucket_next_up.simps [of bm slot bunch b gc]
  show ?case
  proof (cases "slot \<le> sbm_high_water bm \<and> slot < length (sbm_segments bm)")
    case False
    then have "sbm_high_water bm < slot" using less.prems(1) by (auto simp: slots_ok_def)
    from search_end [OF less.prems(1) this _ rel(1), of 1024] False show ?thesis by (auto simp: unfold)
  next
    case True
    note slot = conjunct2 [OF True]
    have loop: "search_ok segment_ok 1024 segment_set bm (int slot * 1024 + ?rel) (bucket_next_up m (Suc slot) 0 0 True)"
      if "slot_content segment_set (sbm_segments bm ! slot) \<inter> {?rel..} = {}" "keeps segment_ok 1024 segment_set bm m" for m
      using search_skip [OF that(1) rel that(2)] less.hyps [of m "Suc slot" 0 0 True] that(2) slot
      by (simp add: keeps_def)
    show ?thesis
    proof (cases "sbm_segments bm ! slot")
      case None
      with loop [of bm] less.prems(1) True show ?thesis by (simp add: unfold keeps_refl)
    next
      case (Some s)
      note ok = slots_okD(1) [OF less.prems(1) Some slot]
      note scan = scan_bunches_up_spec [OF ok less.prems(3), of bunch]
      show ?thesis
      proof (cases "scan_bunches_up (drop bunch (bms_bits s)) bunch b")
        case (Some i)
        have "is_next (slots_set 1024 segment_set (sbm_segments bm)) (int slot * 1024 + ?rel) (Some (int slot * 1024 + int i))"
          using scan Some rel slot \<open>sbm_segments bm ! slot = Some s\<close>
          by (intro slots_next_found) (auto simp: segment_set_def)
        with less.prems(1) True Some \<open>sbm_segments bm ! slot = Some s\<close> show ?thesis
          by (simp add: unfold search_ok_def keeps_refl)
      next
        case None
        then have none: "slot_content segment_set (sbm_segments bm ! slot) \<inter> {?rel..} = {}"
          using scan Some by (auto simp: is_next_def)
        show ?thesis
        proof (cases gc)
          case False
          with loop [of bm] less.prems(1) True Some None none show ?thesis
            unfolding unfold by (simp add: keeps_refl)
        next
          case gc: True
          then have empty: "slot_content segment_set (sbm_segments bm ! slot) = {}"
            using none Some less.prems(4) by (auto simp: segment_set_def)
          from search_release_last [OF less.prems(1) slot _ empty, of 1024] loop [OF none keeps_release [OF less.prems(1) slot empty]]
          show ?thesis using gc True Some None less.prems(4) unfolding unfold by (auto simp: Let_def)
        qed
      qed
    qed
  qed
qed

lemma bucket_okD:
  assumes "bucket_ok b"
  shows "slots_ok segment_ok b" "length (sbm_segments b) = 32"
    and "sbm_state b = SBM_SINGULAR \<Longrightarrow> bucket_set b = {sbm_number b}"
    and "sbm_state b = SBM_PLURAL \<Longrightarrow> bucket_set b = slots_set 1024 segment_set (sbm_segments b)"
  using assms by (auto simp: bucket_ok_def vector_ok_def bucket_set_def vector_set_def)

lemma keeps_bucket:
  assumes "keeps segment_ok 1024 segment_set b b'" "bucket_ok b" "sbm_state b = SBM_PLURAL"
  shows "bucket_ok b'" "bucket_set b' = bucket_set b"
  using assms by (simp_all add: keeps_def bucket_ok_def vector_ok_def bucket_set_def vector_set_def)

lemma keeps_root:
  assumes "keeps bucket_ok 32768 bucket_set m m'" "root_ok m" "sbm_state m = SBM_PLURAL"
  shows "root_ok m'" "root_set m' = root_set m"
  using assms by (simp_all add: keeps_def root_ok_def vector_ok_def root_set_def vector_set_def)

text \<open>
  Forward, a singular bucket is compared with \<open>>=\<close>: the number passed must not be its
  value.  The root passes the number after the current one, or \<open>-1\<close>.
\<close>

lemma SBM_next_bucket_up:
  assumes "bucket_ok b" "n = -1 \<or> 0 \<le> n \<and> n < 32768"
    and "sbm_state b = SBM_SINGULAR \<longrightarrow> n \<noteq> sbm_number b"
    and "SBM_next_bucket b n RSE_get_forward = (r, b')"
  shows "is_next (bucket_set b) (if n = -1 then 0 else n) r \<and> bucket_ok b' \<and> bucket_set b' = bucket_set b"
proof (cases "sbm_state b")
  case SBM_EMPTY
  with assms show ?thesis by (auto simp: SBM_next_bucket_def is_next_def bucket_set_def vector_set_def)
next
  case SBM_SINGULAR
  moreover have "0 \<le> sbm_number b" using SBM_SINGULAR assms(1) by (simp add: bucket_ok_def vector_ok_def)
  ultimately show ?thesis
    using assms bucket_okD(3) [OF assms(1)]
    by (auto simp: SBM_next_bucket_def next_singular_def is_next_def split: if_splits)
next
  case SBM_PLURAL
  define n' where "n' = (if n = -1 then 0 else n)"
  define rel where "rel = nat (n' mod 1024)"
  have n: "0 \<le> n'" using assms(2) by (auto simp: n'_def)
  have "rel < 1024" by (simp add: rel_def nat_less_iff)
  then have rel: "rel div 32 mod 32 * 32 + rel mod 32 = rel" by simp
  have "int (nat (n' div 1024)) * 1024 + int rel = n'"
    using n by (simp add: rel_def pos_imp_zdiv_nonneg_iff)
  then have "search_ok segment_ok 1024 segment_set b n'
      (bucket_next_up b (nat (n' div 1024)) (rel div 32 mod 32) (rel mod 32) (rel div 32 mod 32 = 0 \<and> rel mod 32 = 0))"
    using bucket_next_up_spec [OF bucket_okD(1) [OF assms(1)], of "rel div 32 mod 32" "rel mod 32"
        "rel div 32 mod 32 = 0 \<and> rel mod 32 = 0" "nat (n' div 1024)"] unfolding rel by simp
  moreover have "SBM_next_bucket b n RSE_get_forward =
      bucket_next_up b (nat (n' div 1024)) (rel div 32 mod 32) (rel mod 32) (rel div 32 mod 32 = 0 \<and> rel mod 32 = 0)"
    using SBM_PLURAL unfolding SBM_next_bucket_def Let_def rel_def n'_def by simp
  ultimately have "search_ok segment_ok 1024 segment_set b n' (r, b')" using assms(4) by simp
  then show ?thesis
    using keeps_bucket [OF _ assms(1) SBM_PLURAL] bucket_okD(4) [OF assms(1) SBM_PLURAL]
    by (simp add: search_ok_def n'_def)
qed

lemma root_next_up_spec:
  assumes "slots_ok bucket_ok m" "rel = -1 \<or> 0 < rel \<and> rel < 32768" "gc \<longleftrightarrow> rel = -1"
    and "rel \<noteq> -1 \<longrightarrow> (\<forall>b. slot < length (sbm_segments m) \<longrightarrow> sbm_segments m ! slot = Some b \<longrightarrow>
           sbm_state b = SBM_SINGULAR \<longrightarrow> rel \<noteq> sbm_number b)"
  shows "search_ok bucket_ok 32768 bucket_set m (int slot * 32768 + (if rel = -1 then 0 else rel))
           (root_next_up m slot rel gc)"
  using assms
proof (induction "length (sbm_segments m) - slot" arbitrary: m slot rel gc rule: less_induct)
  case less
  let ?rel = "if rel = -1 then 0 else rel"
  have rel: "0 \<le> ?rel" "?rel < 32768" using less.prems(2) by auto
  note unfold = root_next_up.simps [of m slot rel gc]
  show ?case
  proof (cases "slot \<le> sbm_high_water m \<and> slot < length (sbm_segments m)")
    case False
    then have "sbm_high_water m < slot" using less.prems(1) by (auto simp: slots_ok_def)
    from search_end [OF less.prems(1) this _ rel(1), of 32768] False show ?thesis by (auto simp: unfold)
  next
    case True
    note slot = conjunct2 [OF True]
    have loop: "search_ok bucket_ok 32768 bucket_set m (int slot * 32768 + ?rel) (root_next_up m' (Suc slot) (-1) True)"
      if "slot_content bucket_set (sbm_segments m ! slot) \<inter> {?rel..} = {}" "keeps bucket_ok 32768 bucket_set m m'" for m'
      using search_skip [OF that(1) rel that(2)] less.hyps [of m' "Suc slot" "-1" True] that(2) slot
      by (simp add: keeps_def)
    show ?thesis
    proof (cases "sbm_segments m ! slot")
      case None
      with loop [of m] less.prems(1) True show ?thesis by (simp add: unfold keeps_refl)
    next
      case (Some b)
      note ok = slots_okD(1) [OF less.prems(1) Some slot]
      obtain r b' where n: "SBM_next_bucket b rel RSE_get_forward = (r, b')" by fastforce
      have "sbm_state b = SBM_SINGULAR \<longrightarrow> rel \<noteq> sbm_number b"
        using less.prems(4) Some slot ok by (cases "rel = -1") (auto simp: bucket_ok_def vector_ok_def)
      with SBM_next_bucket_up [OF ok _ _ n] less.prems(2)
      have scan: "is_next (bucket_set b) ?rel r" "bucket_ok b'" "bucket_set b' = bucket_set b" by auto
      have keeps: "keeps bucket_ok 32768 bucket_set m (set_slot slot b' m)"
        using keeps_set_slot [where c = bucket_set, OF less.prems(1) slot Some scan(2,3)] .
      show ?thesis
      proof (cases r)
        case (Some i)
        have "is_next (slots_set 32768 bucket_set (sbm_segments m)) (int slot * 32768 + ?rel) (Some (int slot * 32768 + i))"
          using scan Some rel slot \<open>sbm_segments m ! slot = Some b\<close> bucket_set_range [OF ok]
          by (intro slots_next_found) auto
        with keeps True Some n \<open>sbm_segments m ! slot = Some b\<close> show ?thesis
          by (simp add: unfold search_ok_def)
      next
        case None
        then have none: "slot_content bucket_set (sbm_segments m ! slot) \<inter> {?rel..} = {}"
          using scan Some by (auto simp: is_next_def)
        show ?thesis
        proof (cases gc)
          case False
          with loop [OF none keeps] True Some None n show ?thesis unfolding unfold by simp
        next
          case gc: True
          then have empty: "slot_content bucket_set (sbm_segments m ! slot) = {}"
            using none Some less.prems(3) bucket_set_range [OF ok] by auto
          from search_release_last [OF less.prems(1) slot _ empty, of 32768] loop [OF none keeps_release [OF less.prems(1) slot empty]]
          show ?thesis using gc True Some None n less.prems(3) unfolding unfold by (auto simp: Let_def)
        qed
      qed
    qed
  qed
qed

lemma sbm_set_bounds:
  assumes "sbm_ok bm" "j \<in> sbm_set bm"
  shows "0 \<le> j \<and> j < 2147483648"
proof (cases bm)
  case None
  with assms(2) show ?thesis by (simp add: sbm_set_def)
next
  case (Some m)
  then have ok: "root_ok m" using assms(1) by (simp add: sbm_ok_def)
  show ?thesis
  proof (cases "sbm_state m")
    case SBM_EMPTY
    with Some assms(2) show ?thesis by (simp add: sbm_set_def root_set_def vector_set_def)
  next
    case SBM_SINGULAR
    with root_okD(4) [OF ok] Some assms(2) show ?thesis by (auto simp: sbm_set_def valid_number_def number_limit_def)
  next
    case SBM_PLURAL
    then have j: "0 \<le> j" "nat (j div 32768) < length (sbm_segments m)"
      using Some assms(2) by (auto simp: sbm_set_def root_set_def vector_set_def mem_slots_set)
    then have "j div 32768 < 65536" using root_okD(3) [OF ok] by linarith
    then show ?thesis using j(1) by simp
  qed
qed

lemma pred_div_mod:
  fixes n w :: int
  assumes "0 < w" "n mod w \<noteq> 0"
  shows "(n - 1) div w = n div w" "(n - 1) mod w = n mod w - 1"
proof -
  have "0 \<le> n mod w - 1" "n mod w - 1 < w"
    using assms(2) pos_mod_sign [OF assms(1), of n] pos_mod_bound [OF assms(1), of n] by linarith+
  moreover have "n - 1 = w * (n div w) + (n mod w - 1)" by simp
  ultimately show "(n - 1) div w = n div w" "(n - 1) mod w = n mod w - 1"
    using int_div_pos_eq int_mod_pos_eq by metis+
qed

text \<open>
  The number is the only one its bucket has ever held: the bucket is singular.  The root moves on
  to the number next to the one it is given before it asks the bucket, and a singular bucket
  refuses its value when it is equal to the number it is asked with.
\<close>

definition alone :: "bitmap option \<Rightarrow> int \<Rightarrow> bool" where
  "alone bm n \<longleftrightarrow>
     (case bm of None \<Rightarrow> False
      | Some m \<Rightarrow> sbm_state m = SBM_PLURAL \<and> nat (n div 32768) < length (sbm_segments m) \<and>
          (case sbm_segments m ! nat (n div 32768) of None \<Rightarrow> False
           | Some b \<Rightarrow> sbm_state b = SBM_SINGULAR \<and> sbm_number b = n mod 32768))"

lemma alone_bucket:
  assumes "sbm_ok bm" "alone bm n" "0 \<le> k" "k div 32768 = n div 32768"
  shows "k \<in> sbm_set bm \<longleftrightarrow> k = n"
proof -
  obtain m b where m: "bm = Some m" "sbm_state m = SBM_PLURAL" "nat (n div 32768) < length (sbm_segments m)"
    "sbm_segments m ! nat (n div 32768) = Some b" "sbm_state b = SBM_SINGULAR" "sbm_number b = n mod 32768"
    using assms(2) by (auto simp: alone_def split: option.splits)
  have "root_ok m" using assms(1) m(1) by (simp add: sbm_ok_def)
  then have "bucket_set b = {n mod 32768}" using bucket_okD(3) [OF slots_okD(1) [OF root_okD(1) m(4,3)]] m(5,6) by simp
  then have "k \<in> sbm_set bm \<longleftrightarrow> k mod 32768 = n mod 32768"
    using m assms(3,4) by (simp add: sbm_set_def root_set_def vector_set_def mem_slots_set)
  then show ?thesis using assms(4) by (metis div_mult_mod_eq)
qed

lemma alone_member: "sbm_ok bm \<Longrightarrow> alone bm n \<Longrightarrow> 0 \<le> n \<Longrightarrow> n \<in> sbm_set bm"
  using alone_bucket by blast

lemma SBM_next_up:
  assumes "sbm_ok bm" "-1 \<le> n" "(n + 1) mod 32768 = 0 \<or> \<not> alone bm (n + 1)" "SBM_next bm n RSE_get_forward = (r, bm')"
  shows "is_next (sbm_set bm) (n + 1) r \<and> sbm_ok bm' \<and> sbm_set bm' = sbm_set bm"
proof (cases "\<exists>m. bm = Some m \<and> sbm_state m = SBM_PLURAL")
  case False
  then consider "bm = None" | m where "bm = Some m" "sbm_state m = SBM_EMPTY"
    | m where "bm = Some m" "sbm_state m = SBM_SINGULAR"
    using sbm_states.exhaust by blast
  then show ?thesis
  proof cases
    case 1
    with assms(4) show ?thesis by (auto simp: SBM_next_def is_next_def sbm_set_def sbm_ok_def)
  next
    case 2
    with assms(1,4) show ?thesis by (auto simp: SBM_next_def is_next_def sbm_set_def root_set_def vector_set_def)
  next
    case 3
    then have "sbm_set bm = {sbm_number m}" "0 \<le> sbm_number m"
      using assms(1) root_okD(4) [of m] by (auto simp: sbm_ok_def sbm_set_def valid_number_def)
    with 3 assms show ?thesis by (auto simp: SBM_next_def next_singular_def is_next_def split: if_splits)
  qed
next
  case True
  then obtain m where m: "bm = Some m" "sbm_state m = SBM_PLURAL" "root_ok m" using assms(1) by (auto simp: sbm_ok_def)
  note ok = root_okD(1) [OF m(3)]
  have set: "sbm_set bm = slots_set 32768 bucket_set (sbm_segments m)"
    using m by (simp add: sbm_set_def root_set_def vector_set_def)
  let ?slot = "nat ((n + 1) div 32768)" and ?rel = "(n + 1) mod 32768"
  have n: "0 \<le> n + 1" using assms(2) by simp
  have single: "?rel \<noteq> sbm_number b"
    if "?rel \<noteq> 0" "?slot < length (sbm_segments m)" "sbm_segments m ! ?slot = Some b" "sbm_state b = SBM_SINGULAR" for b
    using assms(3) that m(1,2) by (auto simp: alone_def)
  define rel1 where "rel1 = (if ?rel = 0 then -1 else ?rel)"
  have rel1: "rel1 = -1 \<or> 0 < rel1 \<and> rel1 < 32768"
    using pos_mod_sign [of 32768 "n + 1"] pos_mod_bound [of 32768 "n + 1"] by (auto simp: rel1_def)
  have "search_ok bucket_ok 32768 bucket_set m (int ?slot * 32768 + (if rel1 = -1 then 0 else rel1))
      (root_next_up m ?slot rel1 (rel1 = -1))"
    by (rule root_next_up_spec [OF ok rel1]) (use single in \<open>auto simp: rel1_def\<close>)
  moreover have "(if rel1 = -1 then 0 else rel1) = ?rel"
    using pos_mod_sign [of 32768 "n + 1"] by (auto simp: rel1_def)
  moreover have "int ?slot * 32768 + ?rel = n + 1"
    using n by (simp add: pos_imp_zdiv_nonneg_iff)
  moreover have "(r, bm') = map_prod id Some (root_next_up m ?slot rel1 (rel1 = -1))"
    using assms(4) m by (simp add: SBM_next_def bucket_relative_def Let_def rel1_def)
  ultimately obtain m' where "bm' = Some m'" "search_ok bucket_ok 32768 bucket_set m (n + 1) (r, m')"
    by (cases "root_next_up m ?slot rel1 (rel1 = -1)") simp
  then show ?thesis
    using keeps_root [OF _ m(3,2)] set m(1) by (simp add: search_ok_def sbm_ok_def sbm_set_def)
qed

lemma SBM_next_up_spec:
  assumes "sbm_ok bm" "n = -1 \<or> n \<in> sbm_set bm" "SBM_next bm n RSE_get_forward = (r, bm')"
  shows "is_next (sbm_set bm) (n + 1) r \<and> sbm_ok bm' \<and> sbm_set bm' = sbm_set bm"
proof (rule SBM_next_up [OF assms(1) _ _ assms(3)])
  show "-1 \<le> n" using assms(2) sbm_set_bounds [OF assms(1)] by force
  have "\<not> alone bm (n + 1)" if "(n + 1) mod 32768 \<noteq> 0"
  proof
    assume a: "alone bm (n + 1)"
    have "n \<in> sbm_set bm" using assms(2) that by auto
    moreover have "n div 32768 = (n + 1) div 32768" using pred_div_mod [of 32768 "n + 1"] that by simp
    ultimately show False using alone_bucket [OF assms(1) a, of n] sbm_set_bounds [OF assms(1)] by auto
  qed
  then show "(n + 1) mod 32768 = 0 \<or> \<not> alone bm (n + 1)" by blast
qed

section \<open>The backward search\<close>

lemma slots_prev_found:
  assumes "is_prev (c s) rel (Some i)" "segs ! slot = Some s" "slot < length segs"
    and "0 \<le> rel" "rel < w" "\<And>m. m \<in> c s \<Longrightarrow> 0 \<le> m \<and> m < w"
  shows "is_prev (slots_set w c segs) (int slot * w + rel) (Some (int slot * w + i))"
proof -
  have i: "i \<in> c s" "i \<le> rel" "0 \<le> i" "i < w" "\<And>j. j \<in> c s \<Longrightarrow> i < j \<Longrightarrow> rel < j"
    using assms(1,6) by (auto simp: is_prev_def)
  have "int slot * w + rel < j" if "j \<in> slots_set w c segs" "int slot * w + i < j" for j
    using that(1)
  proof (rule slots_setE)
    show "0 < w" using assms by linarith
    fix l m t assume lm: "j = int l * w + m" "segs ! l = Some t" "m \<in> c t" "0 \<le> m" "m < w"
    have "slot < l \<or> l = slot \<and> i < m"
      using that(2) lm slot_order [of m w i l slot] i(3,4) by (auto simp: not_le [symmetric])
    then have "slot < l \<or> l = slot \<and> rel < m" using lm(2,3) i(5) assms(2) by auto
    then show ?thesis using lm slot_order [of m w rel l slot] assms(4,5) by (auto simp: not_le [symmetric])
  qed
  with i assms slots_setI [of slot segs s i c w] show ?thesis by (auto simp: is_prev_def)
qed

lemma slots_none_below:
  assumes "slot_content c (segs ! slot) \<inter> {..rel} = {}" "0 \<le> rel" "rel < w"
    and "j \<in> slots_set w c segs" "j \<le> int slot * w + rel"
  shows "j < int slot * w"
  using assms(4)
proof (rule slots_setE)
  show "0 < w" using assms by linarith
  fix l m t assume lm: "j = int l * w + m" "segs ! l = Some t" "m \<in> c t" "0 \<le> m" "m < w"
  have "l < slot \<or> l = slot \<and> m \<le> rel" using assms(5) lm slot_order [of m w rel l slot] assms(2,3) by blast
  then have "l < slot" using lm assms(1) by auto
  then have "\<not> int slot * w + 0 \<le> j" unfolding lm(1) using lm(4,5) slot_order [of 0 w m slot l] by auto
  then show ?thesis by simp
qed

lemma slots_prev_skip:
  assumes "case slot of 0 \<Rightarrow> r = None | Suc k \<Rightarrow> is_prev (slots_set w c segs) (int k * w + (w - 1)) r"
    and "slot_content c (segs ! slot) \<inter> {..rel} = {}" "0 \<le> rel" "rel < w"
  shows "is_prev (slots_set w c segs) (int slot * w + rel) r"
proof (cases slot)
  case 0
  have "rel < j" if "j \<in> slots_set w c segs" for j
    using that slots_none_below [OF assms(2-4) that] 0 by (cases "rel < j") (auto simp: mem_slots_set)
  with 0 assms(1) show ?thesis by (auto simp: is_prev_def)
next
  case (Suc k)
  have eq: "int k * w + (w - 1) = int slot * w - 1" using Suc by (simp add: algebra_simps)
  from assms(1) Suc have "is_prev (slots_set w c segs) (int slot * w - 1) r" by (simp only: eq nat.case)
  then show ?thesis using slots_none_below [OF assms(2-4)] assms(3) by (auto intro: is_prev_skip)
qed

lemma bucket_next_down_spec:
  assumes "slots_ok segment_ok bm" "slot < length (sbm_segments bm)" "bunch < 32" "b < 32"
  shows "is_prev (slots_set 1024 segment_set (sbm_segments bm)) (int slot * 1024 + int (bunch * 32 + b))
           (bucket_next_down (sbm_segments bm) slot bunch b)"
  using assms(2-)
proof (induction slot arbitrary: bunch b rule: less_induct)
  case (less slot)
  let ?rel = "int (bunch * 32 + b)" and ?set = "slots_set 1024 segment_set (sbm_segments bm)"
  have rel: "0 \<le> ?rel" "?rel < 1024" using less.prems(2,3) by simp_all
  define r where "r = (case sbm_segments bm ! slot of None \<Rightarrow> None
    | Some s \<Rightarrow> scan_bunches_down (bms_bits s) bunch b)"
  have prev: "is_prev (slot_content segment_set (sbm_segments bm ! slot)) ?rel (map_option int r)"
  proof (cases "sbm_segments bm ! slot")
    case None
    then show ?thesis by (simp add: r_def is_prev_def)
  next
    case (Some s)
    then show ?thesis
      using scan_bunches_down_spec [OF slots_okD(1) [OF assms(1) Some less.prems(1)] less.prems(2,3)]
      by (simp add: r_def)
  qed
  show ?case
  proof (cases r)
    case (Some i)
    then obtain s where s: "sbm_segments bm ! slot = Some s" by (auto simp: r_def split: option.splits)
    have "bucket_next_down (sbm_segments bm) slot bunch b = Some (int slot * 1024 + int i)"
      using Some by (subst bucket_next_down.simps) (simp add: r_def [symmetric])
    moreover have "is_prev (segment_set s) ?rel (Some (int i))" using prev Some s by simp
    moreover have "0 \<le> m \<and> m < 1024" if "m \<in> segment_set s" for m using that by (simp add: segment_set_def)
    ultimately show ?thesis using slots_prev_found [OF _ s less.prems(1) rel, of segment_set] by presburger
  next
    case None
    then have none: "slot_content segment_set (sbm_segments bm ! slot) \<inter> {..?rel} = {}"
      using prev by (auto simp: is_prev_def)
    have down: "bucket_next_down (sbm_segments bm) slot bunch b =
        (case slot of 0 \<Rightarrow> None | Suc k \<Rightarrow> bucket_next_down (sbm_segments bm) k 31 31)"
      using None by (subst bucket_next_down.simps) (simp add: r_def [symmetric])
    have "is_prev ?set (int k * 1024 + (1024 - 1)) (bucket_next_down (sbm_segments bm) k 31 31)"
      if "slot = Suc k" for k
      using less.IH [of k 31 31] that less.prems(1) by simp
    then show ?thesis unfolding down by (intro slots_prev_skip [OF _ none rel]) (simp split: nat.split)
  qed
qed

text \<open>The values a search may start from: \<open>-1\<close> is the end of the bucket.\<close>

lemma SBM_next_bucket_down:
  assumes "bucket_ok b" "n = -1 \<or> 0 \<le> n \<and> n < 32768"
    and "sbm_state b = SBM_SINGULAR \<longrightarrow> n \<noteq> sbm_number b"
  shows "is_prev (bucket_set b) (if n = -1 then 32767 else n) (fst (SBM_next_bucket b n RSE_get_backward))"
proof (cases "sbm_state b")
  case SBM_EMPTY
  with assms show ?thesis by (auto simp: SBM_next_bucket_def is_prev_def bucket_set_def vector_set_def)
next
  case SBM_SINGULAR
  moreover have "0 \<le> sbm_number b" "sbm_number b < 32768"
    using SBM_SINGULAR assms(1) by (simp_all add: bucket_ok_def vector_ok_def)
  ultimately show ?thesis
    using assms bucket_okD(3) [OF assms(1)]
    by (auto simp: SBM_next_bucket_def next_singular_def is_prev_def)
next
  case SBM_PLURAL
  define n' where "n' = (if n = -1 then int (sbm_high_water b) * 1024 + 1024 - 1 else n)"
  define rel where "rel = nat (n' mod 1024)"
  note ok = bucket_okD(1,2) [OF assms(1)]
  have hw: "sbm_high_water b < 32" using ok by (simp add: slots_ok_def)
  have n: "0 \<le> n'" "n' < 32768" using assms(2) hw by (auto simp: n'_def)
  have "rel < 1024" by (simp add: rel_def nat_less_iff)
  then have rel: "rel div 32 mod 32 * 32 + rel mod 32 = rel" by simp
  have slot: "nat (n' div 1024) < length (sbm_segments b)" using n ok(2) by (simp add: nat_less_iff)
  have "int (nat (n' div 1024)) * 1024 + int rel = n'"
    using n by (simp add: rel_def pos_imp_zdiv_nonneg_iff)
  then have "is_prev (bucket_set b) n'
      (bucket_next_down (sbm_segments b) (nat (n' div 1024)) (rel div 32 mod 32) (rel mod 32))"
    using bucket_next_down_spec [OF ok(1) slot, of "rel div 32 mod 32" "rel mod 32"]
    unfolding rel bucket_okD(4) [OF assms(1) SBM_PLURAL] by simp
  moreover have "fst (SBM_next_bucket b n RSE_get_backward) =
      bucket_next_down (sbm_segments b) (nat (n' div 1024)) (rel div 32 mod 32) (rel mod 32)"
    using SBM_PLURAL unfolding SBM_next_bucket_def Let_def rel_def n'_def by simp
  moreover have "j \<le> n'" if "n = -1" "j \<in> bucket_set b" for j
    using slots_next_end [OF ok(1), of "Suc (sbm_high_water b)" 1024 0 segment_set] that
      bucket_okD(4) [OF assms(1) SBM_PLURAL] by (force simp: is_next_def n'_def)
  ultimately show ?thesis
    using n by (cases "n = -1") (auto simp: n'_def intro: is_prev_skip)
qed

lemma root_next_down_spec:
  assumes "slots_ok bucket_ok m" "slot \<le> sbm_high_water m" "rel = -1 \<or> 0 \<le> rel \<and> rel < 32768"
    and "\<And>b. sbm_segments m ! slot = Some b \<Longrightarrow> sbm_state b = SBM_SINGULAR \<Longrightarrow> rel \<noteq> sbm_number b"
  shows "is_prev (slots_set 32768 bucket_set (sbm_segments m)) (int slot * 32768 + (if rel = -1 then 32767 else rel))
           (root_next_down m slot rel)"
  using assms(2-)
proof (induction slot arbitrary: rel rule: less_induct)
  case (less slot)
  let ?rel = "if rel = -1 then 32767 else rel" and ?set = "slots_set 32768 bucket_set (sbm_segments m)"
  have rel: "0 \<le> ?rel" "?rel < 32768" using less.prems(2) by auto
  have slot: "slot < length (sbm_segments m)" using assms(1) less.prems(1) by (simp add: slots_ok_def)
  define r where "r = (case sbm_segments m ! slot of None \<Rightarrow> None
    | Some b \<Rightarrow> fst (SBM_next_bucket b rel RSE_get_backward))"
  have prev: "is_prev (slot_content bucket_set (sbm_segments m ! slot)) ?rel r"
  proof (cases "sbm_segments m ! slot")
    case None
    then show ?thesis by (simp add: r_def is_prev_def)
  next
    case (Some b)
    then show ?thesis
      using SBM_next_bucket_down [OF slots_okD(1) [OF assms(1) Some slot] less.prems(2)] less.prems(3) [OF Some]
      by (simp add: r_def)
  qed
  show ?case
  proof (cases r)
    case (Some i)
    then obtain b where b: "sbm_segments m ! slot = Some b" by (auto simp: r_def split: option.splits)
    have "root_next_down m slot rel = Some (int slot * 32768 + i)"
      using Some less.prems(1) by (subst root_next_down.simps) (simp add: r_def [symmetric])
    moreover have "is_prev (bucket_set b) ?rel (Some i)" using prev Some b by simp
    ultimately show ?thesis
      using slots_prev_found [OF _ b slot rel, of bucket_set i] bucket_set_range [OF slots_okD(1) [OF assms(1) b slot]]
      by simp
  next
    case None
    then have none: "slot_content bucket_set (sbm_segments m ! slot) \<inter> {..?rel} = {}"
      using prev by (auto simp: is_prev_def)
    have down: "root_next_down m slot rel = (case slot of 0 \<Rightarrow> None | Suc k \<Rightarrow> root_next_down m k (-1))"
      using None less.prems(1) by (subst root_next_down.simps) (simp add: r_def [symmetric])
    have "is_prev ?set (int k * 32768 + (32768 - 1)) (root_next_down m k (-1))" if "slot = Suc k" for k
    proof -
      have "- 1 \<noteq> sbm_number b" if "sbm_segments m ! k = Some b" "sbm_state b = SBM_SINGULAR" for b
        using slots_okD(1) [OF assms(1) that(1)] slot \<open>slot = Suc k\<close> that(2) by (auto simp: bucket_ok_def vector_ok_def)
      then show ?thesis using less.IH [of k "-1"] that less.prems(1) by simp
    qed
    then show ?thesis unfolding down by (intro slots_prev_skip [OF _ none rel]) (simp split: nat.split)
  qed
qed

text \<open>
  A bucket above the high water mark ends the backward search at once: the search starts at a
  number, or in the bucket of a number, that is in the set, or below one.
\<close>

lemma SBM_next_down:
  assumes "sbm_ok bm" "0 \<le> n" "\<not> alone bm (n - 1)" "j \<in> sbm_set bm" "(n - 1) div 32768 \<le> j div 32768"
  shows "is_prev (sbm_set bm) (n - 1) (fst (SBM_next bm n RSE_get_backward))"
proof (cases "n = 0 \<or> (\<forall>m. bm = Some m \<longrightarrow> sbm_state m \<noteq> SBM_PLURAL)")
  case True
  have "- 1 < k" if "k \<in> sbm_set bm" for k using sbm_set_bounds [OF assms(1) that] by simp
  moreover have "sbm_set bm = {} \<or> (\<exists>m. bm = Some m \<and> sbm_state m = SBM_SINGULAR \<and> sbm_set bm = {sbm_number m}) \<or>
      (\<exists>m. bm = Some m \<and> sbm_state m = SBM_PLURAL)"
    by (cases bm; cases "sbm_state (the bm)") (auto simp: sbm_set_def root_set_def vector_set_def)
  ultimately show ?thesis using True assms(2,4)
    by (elim disjE exE conjE) (auto simp: SBM_next_def next_singular_def is_prev_def split: option.splits if_splits)
next
  case False
  then obtain m where m: "bm = Some m" "sbm_state m = SBM_PLURAL" "0 < n" using assms(2) by auto
  then have ok: "root_ok m" using assms(1) by (simp add: sbm_ok_def)
  note slots = root_okD(1) [OF ok]
  have set: "sbm_set bm = slots_set 32768 bucket_set (sbm_segments m)" using m by (simp add: sbm_set_def root_set_def vector_set_def)
  let ?slot = "nat ((n - 1) div 32768)" and ?rel = "(n - 1) mod 32768"
  obtain b where b: "nat (j div 32768) < length (sbm_segments m)" "sbm_segments m ! nat (j div 32768) = Some b"
    using assms(4) unfolding set by (auto simp: mem_slots_set)
  have slot: "?slot \<le> sbm_high_water m" using slots_okD(2) [OF slots b(2,1)] assms(5) by simp
  then have "?slot < length (sbm_segments m)" using slots by (simp add: slots_ok_def)
  then have "sbm_state b \<noteq> SBM_SINGULAR \<or> ?rel \<noteq> sbm_number b" if "sbm_segments m ! ?slot = Some b" for b
    using assms(3) that m by (auto simp: alone_def)
  moreover have "0 \<le> ?rel" "?rel < 32768" by simp_all
  ultimately have "is_prev (sbm_set bm) (int ?slot * 32768 + ?rel) (root_next_down m ?slot ?rel)"
    using root_next_down_spec [OF slots slot, of ?rel] unfolding set by (auto split: if_splits)
  moreover have "int ?slot * 32768 + ?rel = n - 1" using m(3) by (simp add: pos_imp_zdiv_nonneg_iff)
  ultimately show ?thesis using m by (simp add: SBM_next_def bucket_relative_def Let_def)
qed

lemma SBM_next_down_spec:
  assumes "sbm_ok bm" "n = -1 \<or> n \<in> sbm_set bm \<and> n mod 32768 \<noteq> 0"
  shows "is_prev (sbm_set bm) (if n = -1 then 2147483647 else n - 1) (fst (SBM_next bm n RSE_get_backward))"
proof (cases bm)
  case None
  then show ?thesis by (simp add: SBM_next_def sbm_set_def is_prev_def)
next
  case (Some m)
  then have ok: "root_ok m" using assms(1) by (simp add: sbm_ok_def)
  note slots = root_okD(1) [OF ok]
  show ?thesis
  proof (cases "sbm_state m")
    case SBM_EMPTY
    with Some show ?thesis by (simp add: SBM_next_def sbm_set_def root_set_def vector_set_def is_prev_def)
  next
    case SBM_SINGULAR
    with root_okD(4) [OF ok] Some assms(2) show ?thesis
      by (auto simp: SBM_next_def next_singular_def sbm_set_def is_prev_def valid_number_def number_limit_def)
  next
    case SBM_PLURAL
    have set: "sbm_set bm = slots_set 32768 bucket_set (sbm_segments m)"
      using Some SBM_PLURAL by (simp add: sbm_set_def root_set_def vector_set_def)
    show ?thesis
    proof (cases "n = -1")
      case True
      let ?hw = "sbm_high_water m"
      have "- 1 \<noteq> sbm_number b" if "sbm_segments m ! ?hw = Some b" "sbm_state b = SBM_SINGULAR" for b
        using slots_okD(1) [OF slots that(1)] slots that(2) by (auto simp: bucket_ok_def vector_ok_def slots_ok_def)
      then have prev: "is_prev (sbm_set bm) (int ?hw * 32768 + 32767) (root_next_down m ?hw (-1))"
        using root_next_down_spec [OF slots order_refl, of "-1"] unfolding set by simp
      have top: "j < int (Suc ?hw) * 32768" if "j \<in> sbm_set bm" for j
        using slots_next_end [OF slots, of "Suc ?hw" 32768 0 bucket_set] that set by (simp add: is_next_def)
      have "int ?hw < 65535" using slots root_okD(3) [OF ok] by (simp add: slots_ok_def)
      then have "is_prev (sbm_set bm) 2147483647 (root_next_down m ?hw (-1))"
        using top by (intro is_prev_skip [OF prev]) force+
      then show ?thesis using True Some SBM_PLURAL by (simp add: SBM_next_def)
    next
      case False
      then have n: "n \<in> slots_set 32768 bucket_set (sbm_segments m)" "n mod 32768 \<noteq> 0" using assms(2) set by auto
      then obtain b where b: "0 \<le> n" "nat (n div 32768) < length (sbm_segments m)"
        "sbm_segments m ! nat (n div 32768) = Some b" "n mod 32768 \<in> bucket_set b"
        by (auto simp: mem_slots_set)
      note pred = pred_div_mod [of 32768 n, OF _ n(2)]
      have "sbm_state b = SBM_SINGULAR \<Longrightarrow> n mod 32768 - 1 \<noteq> sbm_number b"
        using b(4) bucket_okD(3) [OF slots_okD(1) [OF slots b(3,2)]] by auto
      moreover have "0 < n mod 32768" using n(2) pos_mod_sign [of 32768 n] by linarith
      moreover have "n mod 32768 < 32768" by simp
      ultimately have "is_prev (sbm_set bm) (int (nat (n div 32768)) * 32768 + (n mod 32768 - 1))
          (root_next_down m (nat (n div 32768)) (n mod 32768 - 1))"
        using root_next_down_spec [OF slots slots_okD(2) [OF slots b(3,2)], of "n mod 32768 - 1"] b(3) unfolding set by auto
      moreover have "int (nat (n div 32768)) * 32768 + (n mod 32768 - 1) = n - 1"
        using b(1) by (simp add: pos_imp_zdiv_nonneg_iff)
      ultimately have "is_prev (sbm_set bm) (n - 1) (root_next_down m (nat (n div 32768)) (n mod 32768 - 1))"
        by (simp only:)
      moreover have "n \<noteq> 0" using n(2) by auto
      ultimately show ?thesis
        using False Some SBM_PLURAL pred b(1) by (simp add: SBM_next_def bucket_relative_def)
    qed
  qed
qed

section \<open>SBM\_equal\<close>

text \<open>
  The loop of \<^verbatim>\<open>SBM_equal\<close>, which ends because each round moves to a larger bit.  A \<open>None\<close>
  result would be a loop that does not end.  Both searches leave \<open>-1\<close> in the number when
  they fail from there, so comparing the two options is the comparison of the return values
  and of the bits.
\<close>

partial_function (option) equal_loop ::
  "bitmap option \<Rightarrow> bitmap option \<Rightarrow> int \<Rightarrow> int \<Rightarrow> (bool \<times> bitmap option \<times> bitmap option) option" where
  "equal_loop bitmap1 bitmap2 bit1 bit2 =
     (case SBM_next bitmap1 bit1 RSE_get_forward of (res1, bm1) \<Rightarrow>
      case SBM_next bitmap2 bit2 RSE_get_forward of (res2, bm2) \<Rightarrow>
        (case res1 of
           None \<Rightarrow> Some (res2 = None, bm1, bm2)
         | Some n1 \<Rightarrow>
             (case res2 of
                None \<Rightarrow> Some (False, bm1, bm2)
              | Some n2 \<Rightarrow> if n1 \<noteq> n2 then Some (False, bm1, bm2) else equal_loop bm1 bm2 n1 n2)))"

definition SBM_equal ::
  "bitmap option \<Rightarrow> bitmap option \<Rightarrow> (bool \<times> bitmap option \<times> bitmap option) option" where
  "SBM_equal bitmap1 bitmap2 =
     (if fst (SBM_next bitmap1 (-1) RSE_get_backward) \<noteq> fst (SBM_next bitmap2 (-1) RSE_get_backward)
      then Some (False, bitmap1, bitmap2)
      else equal_loop bitmap1 bitmap2 (-1) (-1))"

text \<open>The elements above \<open>n\<close>.\<close>

lemma is_next_above:
  assumes "is_next S (n + 1) (Some i)"
  shows "{j \<in> S. n < j} = insert i {j \<in> S. i < j}"
  using assms by (force simp: is_next_def)

lemma is_next_above_eq:
  assumes "is_next S (n + 1) (Some i)" "is_next T (n + 1) r" "{j \<in> S. n < j} = {j \<in> T. n < j}"
  shows "r = Some i"
proof -
  have i: "i \<in> T" "n < i" using assms(1,3) by (auto simp: is_next_def)
  then obtain k where k: "r = Some k" "k \<in> T" "n < k" using assms(2) by (cases r) (auto simp: is_next_def)
  moreover have "k \<in> S" using k assms(3) by blast
  ultimately show ?thesis using i assms(1,2) by (force simp: is_next_def)
qed

lemma equal_loop_spec:
  assumes "sbm_ok bm1" "sbm_ok bm2" "n = -1 \<or> n \<in> sbm_set bm1 \<and> n \<in> sbm_set bm2"
  shows "\<exists>bm1' bm2'. equal_loop bm1 bm2 n n =
           Some ({j \<in> sbm_set bm1. n < j} = {j \<in> sbm_set bm2. n < j}, bm1', bm2') \<and>
           sbm_ok bm1' \<and> sbm_ok bm2' \<and> sbm_set bm1' = sbm_set bm1 \<and> sbm_set bm2' = sbm_set bm2"
  using assms
proof (induction "nat (2147483648 - n)" arbitrary: bm1 bm2 n rule: less_induct)
  case less
  obtain r1 bm1' where n1: "SBM_next bm1 n RSE_get_forward = (r1, bm1')" by fastforce
  obtain r2 bm2' where n2: "SBM_next bm2 n RSE_get_forward = (r2, bm2')" by fastforce
  have s1: "is_next (sbm_set bm1) (n + 1) r1" "sbm_ok bm1'" "sbm_set bm1' = sbm_set bm1"
    using SBM_next_up_spec [OF less.prems(1) _ n1] less.prems(3) by auto
  have s2: "is_next (sbm_set bm2) (n + 1) r2" "sbm_ok bm2'" "sbm_set bm2' = sbm_set bm2"
    using SBM_next_up_spec [OF less.prems(2) _ n2] less.prems(3) by auto
  note unfold = equal_loop.simps [of bm1 bm2 n n, unfolded n1 n2 prod.case]
  show ?case
  proof (cases r1)
    case None
    then have "{j \<in> sbm_set bm1. n < j} = {}" using s1(1) by (force simp: is_next_def)
    moreover have "r2 = None \<longleftrightarrow> {j \<in> sbm_set bm2. n < j} = {}"
      using s2(1) by (cases r2) (force simp: is_next_def)+
    ultimately show ?thesis using None s1 s2 by (simp add: unfold) blast
  next
    case (Some i)
    show ?thesis
    proof (cases "r2 = Some i")
      case False
      then have "{j \<in> sbm_set bm1. n < j} \<noteq> {j \<in> sbm_set bm2. n < j}"
        using is_next_above_eq [OF s1(1) [unfolded Some] s2(1)] by blast
      then show ?thesis using False Some s1 s2 by (cases r2) (simp_all add: unfold)
    next
      case True
      have i: "i \<in> sbm_set bm1" "i \<in> sbm_set bm2" "n < i" using s1(1) s2(1) Some True by (auto simp: is_next_def)
      have "i < 2147483648" using sbm_set_bounds [OF less.prems(1) i(1)] by simp
      then have "nat (2147483648 - i) < nat (2147483648 - n)" using i(3) by linarith
      from less.hyps [OF this s1(2) s2(2)] i(1,2) s1(3) s2(3)
      obtain bm1'' bm2'' where e: "equal_loop bm1' bm2' i i =
          Some ({j \<in> sbm_set bm1. i < j} = {j \<in> sbm_set bm2. i < j}, bm1'', bm2'')"
        "sbm_ok bm1''" "sbm_ok bm2''" "sbm_set bm1'' = sbm_set bm1" "sbm_set bm2'' = sbm_set bm2" by auto
      have "{j \<in> sbm_set bm1. i < j} = {j \<in> sbm_set bm2. i < j} \<longleftrightarrow>
          {j \<in> sbm_set bm1. n < j} = {j \<in> sbm_set bm2. n < j}"
        unfolding is_next_above [OF s1(1) [unfolded Some]] is_next_above [OF s2(1) [unfolded True]]
        by (auto dest: insert_ident)
      with e show ?thesis using Some True by (simp add: unfold)
    qed
  qed
qed

section \<open>The bitmap as a set of numbers\<close>

text \<open>
  What the record source code relies on: numbers are put into a set, taken out and asked
  for.  \<open>tail\<close> is the allocation limit the insertion is given.
\<close>

locale number_set =
  fixes ok :: "'m \<Rightarrow> bool" and elems :: "'m \<Rightarrow> int set" and valid :: "int \<Rightarrow> bool"
    and tail_ok :: "'p \<Rightarrow> bool" and empty :: 'm
    and test :: "'m \<Rightarrow> int \<Rightarrow> bool" and insert_number :: "'p \<Rightarrow> 'm \<Rightarrow> int \<Rightarrow> 'm"
    and delete_number :: "'m \<Rightarrow> int \<Rightarrow> bool \<times> 'm"
  assumes empty_ok: "ok empty" and empty_elems: "elems empty = {}"
    and test_elems: "ok m \<Longrightarrow> valid n \<Longrightarrow> test m n \<longleftrightarrow> n \<in> elems m"
    and insert_ok: "ok m \<Longrightarrow> valid n \<Longrightarrow> tail_ok p \<Longrightarrow> ok (insert_number p m n)"
    and insert_elems: "ok m \<Longrightarrow> valid n \<Longrightarrow> tail_ok p \<Longrightarrow> elems (insert_number p m n) = insert n (elems m)"
    and delete_ok: "ok m \<Longrightarrow> valid n \<Longrightarrow> ok (snd (delete_number m n))"
    and delete_elems: "ok m \<Longrightarrow> valid n \<Longrightarrow> elems (snd (delete_number m n)) = elems m - {n}"
    and delete_found: "ok m \<Longrightarrow> valid n \<Longrightarrow> fst (delete_number m n) \<longleftrightarrow> n \<in> elems m"
begin

lemma test_insert:
  "ok m \<Longrightarrow> valid n \<Longrightarrow> valid k \<Longrightarrow> tail_ok p \<Longrightarrow> test (insert_number p m n) k \<longleftrightarrow> k = n \<or> test m k"
  by (simp add: test_elems insert_ok insert_elems)

lemma test_delete:
  "ok m \<Longrightarrow> valid n \<Longrightarrow> valid k \<Longrightarrow>
   (fst (delete_number m n) \<longleftrightarrow> test m n) \<and> (test (snd (delete_number m n)) k \<longleftrightarrow> k \<noteq> n \<and> test m k)"
  by (auto simp: test_elems delete_ok delete_elems delete_found)

lemma insert_all:
  assumes "ok m" "tail_ok p" "\<forall>n \<in> set ns. valid n"
  shows "ok (fold (\<lambda>n m. insert_number p m n) ns m) \<and>
         elems (fold (\<lambda>n m. insert_number p m n) ns m) = elems m \<union> set ns"
  using assms by (induction ns arbitrary: m) (auto simp: insert_ok insert_elems)

lemma build:
  assumes "tail_ok p" "\<forall>n \<in> set ns. valid n"
  shows "ok (fold (\<lambda>n m. insert_number p m n) ns empty)"
    and "elems (fold (\<lambda>n m. insert_number p m n) ns empty) = set ns"
  using insert_all [OF empty_ok assms] empty_elems by auto

end

interpretation sbm: number_set sbm_ok sbm_set valid_number "\<lambda>tail. tail < 65536" None SBM_test
  "\<lambda>tail bm n. Some (SBM_set tail bm n)" SBM_clear
proof
  show "SBM_test m n \<longleftrightarrow> n \<in> sbm_set m" if "sbm_ok m" "valid_number n" for m n
  proof (cases m)
    case None
    then show ?thesis by (simp add: SBM_test_def sbm_set_def)
  next
    case (Some b)
    then show ?thesis using SBM_test_root_set [of b n] that by (simp add: sbm_ok_def sbm_set_def)
  qed
  show "sbm_ok (Some (SBM_set p m n))" "sbm_set (Some (SBM_set p m n)) = insert n (sbm_set m)"
    if "sbm_ok m" "valid_number n" "p < 65536" for m n p
    using SBM_set_spec [OF that] by (simp_all add: sbm_ok_def sbm_set_def)
qed (simp_all add: SBM_clear_spec, simp_all add: sbm_ok_def sbm_set_def)

text \<open>A bitmap built by setting bits, as the index scan does.\<close>

definition bitmap_of :: "nat \<Rightarrow> int list \<Rightarrow> bitmap option" where
  "bitmap_of max_tail ns = fold (\<lambda>n bm. Some (SBM_set max_tail bm n)) ns None"

lemma bitmap_of_spec:
  assumes "max_tail < 65536" "\<forall>n \<in> set ns. valid_number n"
  shows "sbm_ok (bitmap_of max_tail ns)" "sbm_set (bitmap_of max_tail ns) = set ns"
  using sbm.build [OF assms] by (simp_all add: bitmap_of_def)

lemma bitmap_sample:
  "sbm_ok (bitmap_of 100 [5, 70000, 6])" "sbm_set (bitmap_of 100 [5, 70000, 6]) = {5, 6, 70000}"
  "sbm_ok (bitmap_of 100 [6, 7])" "sbm_set (bitmap_of 100 [6, 7]) = {6, 7}"
  by (auto simp: bitmap_of_spec valid_number_def number_limit_def)

text \<open>
  (C30) A bitmap built by any sequence of \<^verbatim>\<open>SBM_set\<close> calls from the null bitmap answers
  \<^verbatim>\<open>SBM_test\<close> with true for exactly the numbers set, whatever buckets and segments were
  allocated and however often the root vector was extended, for all record numbers below
  the limit at which \<^verbatim>\<open>sbm_count\<close> overflows.
\<close>

theorem SBM_set_test:
  assumes "max_tail < 65536" "\<forall>n \<in> set ns. valid_number n" "valid_number k"
  shows "SBM_test (bitmap_of max_tail ns) k \<longleftrightarrow> k \<in> set ns"
  using sbm.test_elems [of "bitmap_of max_tail ns" k] bitmap_of_spec [OF assms(1,2)] assms(3) by simp

theorem SBM_set_test_witness:
  "SBM_test (bitmap_of 100 [5, 70000, 6]) 70000 \<and> \<not> SBM_test (bitmap_of 100 [5, 70000, 6]) 7"
  using SBM_set_test [of 100 "[5, 70000, 6]" 70000] SBM_set_test [of 100 "[5, 70000, 6]" 7]
  by (simp_all add: valid_number_def number_limit_def)

text \<open>
  \<^verbatim>\<open>SBM_clear\<close> reports whether the bit was set, and afterwards that bit is clear and
  every other bit as before; the bitmap stays well formed.
\<close>

theorem SBM_clear_test:
  assumes "sbm_ok bm" "valid_number n" "valid_number k"
  shows "fst (SBM_clear bm n) = SBM_test bm n \<and> sbm_ok (snd (SBM_clear bm n)) \<and>
         (SBM_test (snd (SBM_clear bm n)) k \<longleftrightarrow> k \<noteq> n \<and> SBM_test bm k)"
  using sbm.test_delete [OF assms] sbm.delete_ok [OF assms(1,2)] by simp

theorem SBM_clear_test_witness:
  "\<not> SBM_test (snd (SBM_clear (bitmap_of 100 [5, 70000, 6]) 70000)) 70000"
  using SBM_clear_test [of "bitmap_of 100 [5, 70000, 6]" 70000 70000]
  by (simp add: bitmap_sample valid_number_def number_limit_def)

text \<open>
  (C31) The bitmap \<^verbatim>\<open>SBM_and\<close> returns (null, or one of its arguments changed in place)
  is well formed and contains exactly the numbers in both arguments.
\<close>

theorem SBM_and_correct:
  assumes "sbm_ok bm1" "sbm_ok bm2" "valid_number k"
  shows "sbm_ok (picked (SBM_and bm1 bm2)) \<and>
         (SBM_test (picked (SBM_and bm1 bm2)) k \<longleftrightarrow> SBM_test bm1 k \<and> SBM_test bm2 k)"
  using SBM_and_spec [OF assms(1,2)] assms by (simp add: sbm.test_elems)

theorem SBM_and_correct_witness:
  "SBM_test (picked (SBM_and (bitmap_of 100 [5, 70000, 6]) (bitmap_of 100 [6, 7]))) 6"
  using SBM_and_correct [of "bitmap_of 100 [5, 70000, 6]" "bitmap_of 100 [6, 7]" 6]
  by (simp add: bitmap_sample valid_number_def number_limit_def sbm.test_elems)

text \<open>
  (C32) The bitmap \<^verbatim>\<open>SBM_or\<close> returns is well formed and contains exactly the numbers in
  either argument.
\<close>

theorem SBM_or_correct:
  assumes "sbm_ok bm1" "sbm_ok bm2" "max_tail < 65536" "valid_number k"
  shows "sbm_ok (picked (SBM_or max_tail bm1 bm2)) \<and>
         (SBM_test (picked (SBM_or max_tail bm1 bm2)) k \<longleftrightarrow> SBM_test bm1 k \<or> SBM_test bm2 k)"
  using SBM_or_spec [OF assms(1-3)] assms by (simp add: sbm.test_elems)

theorem SBM_or_correct_witness:
  "SBM_test (picked (SBM_or 100 (bitmap_of 100 [5, 70000, 6]) (bitmap_of 100 [6, 7]))) 7"
  using SBM_or_correct [of "bitmap_of 100 [5, 70000, 6]" "bitmap_of 100 [6, 7]" 100 7]
  by (simp add: bitmap_sample valid_number_def number_limit_def sbm.test_elems)

text \<open>
  (C33) The forward \<^verbatim>\<open>SBM_next\<close>, from \<open>-1\<close> or any position at which the next number is not alone in
  a singular bucket (a member is one), returns the least larger member, or false when there is
  none; releasing empty segments and buckets on the way does not change the set.  A number at the
  start of its bucket is found even when it is alone.
\<close>

theorem SBM_next_forward:
  assumes "sbm_ok bm" "-1 \<le> n" "(n + 1) mod 32768 = 0 \<or> \<not> alone bm (n + 1)" "SBM_next bm n RSE_get_forward = (r, bm')"
  shows "(case r of
            None \<Rightarrow> \<forall>j \<in> sbm_set bm. j \<le> n
          | Some i \<Rightarrow> i \<in> sbm_set bm \<and> n < i \<and> (\<forall>j \<in> sbm_set bm. n < j \<longrightarrow> i \<le> j)) \<and>
         sbm_ok bm' \<and> sbm_set bm' = sbm_set bm"
  using SBM_next_up [OF assms] by (cases r) (force simp: is_next_def)+

theorem SBM_next_forward_witness:
  "\<exists>i bm'. SBM_next (bitmap_of 100 [5, 70000, 6]) 6 RSE_get_forward = (Some i, bm') \<and> i = 70000"
proof -
  obtain r bm' where r: "SBM_next (bitmap_of 100 [5, 70000, 6]) 6 RSE_get_forward = (r, bm')" by fastforce
  have "\<not> alone (bitmap_of 100 [5, 70000, 6]) 7" using alone_member [OF bitmap_sample(1), of 7] by (auto simp: bitmap_sample)
  with SBM_next_forward [OF _ _ _ r] have "r = Some 70000"
    by (cases r) (auto simp: bitmap_sample)
  with r show ?thesis by simp
qed

text \<open>
  (C34) The backward \<^verbatim>\<open>SBM_next\<close> from \<open>-1\<close> returns the largest member.  From any other position it
  returns the greatest smaller member, or false when there is none, provided that the number
  before the position is not alone in a singular bucket, and that its bucket or a later one has a
  member: from a position in a bucket above all members the search gives up at once.
\<close>

theorem SBM_next_backward:
  assumes "sbm_ok bm" "n = -1 \<or>
      0 \<le> n \<and> \<not> alone bm (n - 1) \<and> (\<exists>j \<in> sbm_set bm. (n - 1) div 32768 \<le> j div 32768)"
  shows "case fst (SBM_next bm n RSE_get_backward) of
           None \<Rightarrow> \<forall>j \<in> sbm_set bm. n \<noteq> -1 \<and> n \<le> j
         | Some i \<Rightarrow> i \<in> sbm_set bm \<and> (n = -1 \<or> i < n) \<and> (\<forall>j \<in> sbm_set bm. n = -1 \<or> j < n \<longrightarrow> j \<le> i)"
proof -
  have top: "j \<le> 2147483647" if "j \<in> sbm_set bm" for j using sbm_set_bounds [OF assms(1) that] by simp
  have "is_prev (sbm_set bm) (if n = -1 then 2147483647 else n - 1) (fst (SBM_next bm n RSE_get_backward))"
    using assms(2) SBM_next_down_spec [OF assms(1), of "-1"] SBM_next_down [OF assms(1), of n] by auto
  then show ?thesis
    using top by (cases "fst (SBM_next bm n RSE_get_backward)"; cases "n = -1") (force simp: is_prev_def)+
qed

theorem SBM_next_backward_witness:
  "fst (SBM_next (bitmap_of 100 [5, 70000, 6]) (-1) RSE_get_backward) = Some 70000"
  using SBM_next_backward [of "bitmap_of 100 [5, 70000, 6]" "-1"]
  by (auto simp: bitmap_sample split: option.splits)

text \<open>
  (C35) A member that is alone in a singular bucket is missed from the positions next to it: by
  the backward search from the position behind it, wherever in the bucket it is, and by the
  forward search from the position before it, unless it is the first of its bucket.
\<close>

theorem SBM_next_misses:
  assumes "sbm_ok bm" "alone bm k" "0 \<le> k"
  shows "k \<in> sbm_set bm \<and> fst (SBM_next bm (k + 1) RSE_get_backward) \<noteq> Some k \<and>
    (k mod 32768 \<noteq> 0 \<longrightarrow> fst (SBM_next bm (k - 1) RSE_get_forward) \<noteq> Some k)"
proof (intro conjI impI)
  show "k \<in> sbm_set bm" using alone_bucket [OF assms(1,2,3)] by simp
  obtain m b where m: "bm = Some m" "sbm_state m = SBM_PLURAL" "nat (k div 32768) < length (sbm_segments m)"
    "sbm_segments m ! nat (k div 32768) = Some b" "sbm_state b = SBM_SINGULAR" "sbm_number b = k mod 32768"
    using assms(2) by (auto simp: alone_def split: option.splits)
  let ?slot = "nat (k div 32768)" and ?rel = "k mod 32768"
  have slots: "slots_ok bucket_ok m" using assms(1) m(1) root_okD(1) by (simp add: sbm_ok_def)
  note hw = slots_okD(2) [OF slots m(4,3)]
  have k: "k = int ?slot * 32768 + ?rel" "0 \<le> ?rel" "?rel < 32768" using assms(3) by (simp_all add: pos_imp_zdiv_nonneg_iff)
  have refuse: "SBM_next_bucket b ?rel mode = (None, b)" if "mode = RSE_get_forward \<or> mode = RSE_get_backward" for mode
    using m(5,6) that k(2) by (auto simp: SBM_next_bucket_def next_singular_def)
  have single: "- 1 \<noteq> sbm_number b'" if "sbm_segments m ! i = Some b'" "i < length (sbm_segments m)" "sbm_state b' = SBM_SINGULAR" for i b'
    using slots_okD(1) [OF slots that(1,2)] that(3) by (auto simp: bucket_ok_def vector_ok_def)
  have "root_next_down m ?slot ?rel = (case ?slot of 0 \<Rightarrow> None | Suc i \<Rightarrow> root_next_down m i (-1))"
    using hw m(4) refuse by (subst root_next_down.simps) simp
  moreover have "root_next_down m i (-1) \<noteq> Some k" if "?slot = Suc i" for i
  proof -
    have "is_prev (slots_set 32768 bucket_set (sbm_segments m)) (int i * 32768 + 32767) (root_next_down m i (-1))"
      using root_next_down_spec [OF slots, of i "-1"] single [of i] hw m(3) that by auto
    moreover have "int i * 32768 + 32767 < k" using k that by linarith
    ultimately show ?thesis by (auto simp: is_prev_def)
  qed
  ultimately show "fst (SBM_next bm (k + 1) RSE_get_backward) \<noteq> Some k"
    using m(1,2) assms(3) by (simp add: SBM_next_def bucket_relative_def split: nat.split)
  assume rel: "?rel \<noteq> 0"
  have same: "set_slot ?slot b m = m" using m(4) by (simp add: set_slot_def list_update_same_conv m(3))
  have "root_next_up m ?slot ?rel False = root_next_up m (Suc ?slot) (-1) True"
    using hw m(3,4) refuse same by (subst root_next_up.simps) simp
  moreover have "is_next (slots_set 32768 bucket_set (sbm_segments m)) (int (Suc ?slot) * 32768) (fst (root_next_up m (Suc ?slot) (-1) True))"
    using root_next_up_spec [OF slots, of "-1" True "Suc ?slot"] by (simp add: search_ok_def)
  moreover have "k < int (Suc ?slot) * 32768"
  proof -
    have "j = int i * 32768 + r \<Longrightarrow> r < 32768 \<Longrightarrow> j < int (Suc i) * 32768" for i j r by simp
    from this [OF k(1,3)] show ?thesis .
  qed
  ultimately have "fst (root_next_up m ?slot ?rel False) \<noteq> Some k" by (auto simp: is_next_def)
  moreover have "?rel \<noteq> -1" using k(2) by linarith
  ultimately show "fst (SBM_next bm (k - 1) RSE_get_forward) \<noteq> Some k"
    using m(1,2) rel by (simp add: SBM_next_def bucket_relative_def Let_def)
qed

theorem SBM_next_misses_witness:
  "fst (SBM_next (bitmap_of 100 [101, 40000]) 100 RSE_get_forward) \<noteq> Some 101 \<and>
   fst (SBM_next (bitmap_of 100 [101, 40000]) 102 RSE_get_backward) \<noteq> Some 101"
proof -
  have "alone (bitmap_of 100 [101, 40000]) 101"
    by (simp add: alone_def bitmap_of_def SBM_set_def set_in_root_def extend_vector_def bucket_slot_def bucket_relative_def
        fill_slot_def set_slot_def SBM_set_bucket_def clear_bucket_def Let_def eval_nat_numeral)
  moreover have "sbm_ok (bitmap_of 100 [101, 40000])" by (simp add: bitmap_of_spec valid_number_def number_limit_def)
  ultimately show ?thesis using SBM_next_misses [of "bitmap_of 100 [101, 40000]" 101] by simp
qed

text \<open>
  \<^verbatim>\<open>SBM_equal\<close> returns, says whether the two bitmaps hold the same numbers, and leaves
  both with the numbers they had.
\<close>

theorem SBM_equal_correct:
  assumes "sbm_ok bm1" "sbm_ok bm2"
  shows "\<exists>bm1' bm2'. SBM_equal bm1 bm2 = Some (sbm_set bm1 = sbm_set bm2, bm1', bm2') \<and>
           sbm_ok bm1' \<and> sbm_ok bm2' \<and> sbm_set bm1' = sbm_set bm1 \<and> sbm_set bm2' = sbm_set bm2"
proof -
  have all: "{j \<in> sbm_set bm. -1 < j} = sbm_set bm" if "sbm_ok bm" for bm
    using sbm_set_bounds [OF that] by force
  have prev: "is_prev (sbm_set bm) 2147483647 (fst (SBM_next bm (-1) RSE_get_backward))" if "sbm_ok bm" for bm
    using SBM_next_down_spec [OF that, of "-1"] by simp
  have "sbm_set bm1 \<noteq> sbm_set bm2"
    if "fst (SBM_next bm1 (-1) RSE_get_backward) \<noteq> fst (SBM_next bm2 (-1) RSE_get_backward)"
  proof
    assume eq: "sbm_set bm1 = sbm_set bm2"
    have "is_prev S h r \<Longrightarrow> is_prev S h r' \<Longrightarrow> r = r'" for S h r r'
      by (cases r; cases r') (force simp: is_prev_def)+
    with prev [OF assms(1)] prev [OF assms(2)] eq that show False by auto
  qed
  with equal_loop_spec [OF assms, of "-1"] all [OF assms(1)] all [OF assms(2)] assms show ?thesis
    by (auto simp: SBM_equal_def)
qed

theorem SBM_equal_correct_witness:
  "\<exists>bm1' bm2'. SBM_equal (bitmap_of 100 [5, 70000, 6]) (bitmap_of 100 [6, 7]) = Some (False, bm1', bm2')"
proof -
  have "(5::int) \<notin> {6, 7}" by simp
  then have "{5, 6, 70000} \<noteq> {6, 7::int}" by blast
  with SBM_equal_correct [of "bitmap_of 100 [5, 70000, 6]" "bitmap_of 100 [6, 7]"] show ?thesis
    by (auto simp: bitmap_sample)
qed

end
