(* ===== verification/Like.thy ===== *)
theory Like
  imports Prelude "HOL-Library.Sublist"
begin

text \<open>
  String predicates, \<^verbatim>\<open>src/jrd/evl_like.c\<close> and the \<^verbatim>\<open>contains\<close> routines of
  \<^verbatim>\<open>src/jrd/evl.c\<close>.  The source of \<^verbatim>\<open>evl_like.c\<close> is compiled twice, for \<^verbatim>\<open>UCHAR\<close> and
  for \<^verbatim>\<open>WCHAR\<close> strings; a character is its numeric value here, so one model serves both.
  A (pointer, length) pair is a list.
\<close>

section \<open>LIKE and MATCHES\<close>

abbreviation SQL_MATCH_ONE :: nat where "SQL_MATCH_ONE \<equiv> 95"
abbreviation SQL_MATCH_ANY :: nat where "SQL_MATCH_ANY \<equiv> 37"
abbreviation GDML_MATCH_ONE :: nat where "GDML_MATCH_ONE \<equiv> 63"
abbreviation GDML_MATCH_ANY :: nat where "GDML_MATCH_ANY \<equiv> 42"

datatype like_error = like_escape_invalid

text \<open>
  The head of the loop: the next pattern character, what is left of the pattern, and the
  value of \<^verbatim>\<open>escape\<close>.  \<open>escape_char = 0\<close> means that no escape character is given.
\<close>

definition like_char :: "nat \<Rightarrow> nat \<Rightarrow> nat list \<Rightarrow> like_error + (nat \<times> nat list \<times> bool)" where
  "like_char escape_char c p2 =
     (if escape_char \<noteq> 0 \<and> c = escape_char
      then case p2 of
             [] \<Rightarrow> Inl like_escape_invalid
           | d # p2' \<Rightarrow>
               if d = escape_char \<or> d = SQL_MATCH_ANY \<or> d = SQL_MATCH_ONE then Inr (d, p2', True)
               else Inl like_escape_invalid
      else Inr (c, p2, False))"

lemma like_char_shorter: "like_char escape_char c p2 = Inr (d, p, e) \<Longrightarrow> length p \<le> length p2"
  by (auto simp: like_char_def split: if_splits list.splits)

text \<open>\<open>like_any\<close> is the loop \<^verbatim>\<open>while (l1) if (LIKENAME (...)) return TRUE;\<close>\<close>

function LIKENAME :: "nat \<Rightarrow> nat list \<Rightarrow> nat list \<Rightarrow> like_error + bool"
  and like_any :: "nat \<Rightarrow> nat list \<Rightarrow> nat list \<Rightarrow> like_error + bool" where
  "LIKENAME escape_char p1 [] = Inr (p1 = [])"
| "LIKENAME escape_char p1 (c0 # p2) =
     (case like_char escape_char c0 p2 of
        Inl e \<Rightarrow> Inl e
      | Inr (c, p2', escape) \<Rightarrow>
          if \<not> escape \<and> c = SQL_MATCH_ANY
          then let p2'' = dropWhile (\<lambda>d. d = SQL_MATCH_ANY) p2' in
               if p2'' = [] then Inr True else like_any escape_char p1 p2''
          else case p1 of
                 [] \<Rightarrow> Inr False
               | x # p1' \<Rightarrow>
                   if (escape \<or> c \<noteq> SQL_MATCH_ONE) \<and> c \<noteq> x then Inr False
                   else LIKENAME escape_char p1' p2')"
| "like_any escape_char [] p2 = Inr False"
| "like_any escape_char (x # p1) p2 =
     (case LIKENAME escape_char (x # p1) p2 of
        Inl e \<Rightarrow> Inl e
      | Inr found \<Rightarrow> if found then Inr True else like_any escape_char p1 p2)"
  by pat_completeness auto
termination
proof (relation "measures [\<lambda>x. case x of Inl (_, _, p2) \<Rightarrow> length p2 | Inr (_, _, p2) \<Rightarrow> length p2,
    \<lambda>x. case x of Inl (_, p1, _) \<Rightarrow> length p1 | Inr (_, p1, _) \<Rightarrow> length p1,
    \<lambda>x. case x of Inl _ \<Rightarrow> 0 | Inr _ \<Rightarrow> 1]"; (auto dest: like_char_shorter)?)
  fix escape_char c0 p2 d p p1
  assume "like_char escape_char c0 p2 = Inr (d, p, False)"
  then have "length p \<le> length p2" by (rule like_char_shorter)
  then show "length (dropWhile (\<lambda>d. d = SQL_MATCH_ANY) p) < Suc (length p2)"
    using length_dropWhile_le [of "\<lambda>d. d = SQL_MATCH_ANY" p] by simp
qed

text \<open>\<^verbatim>\<open>MATCHESNAME\<close> has the same loop without an escape character.\<close>

function MATCHESNAME :: "nat list \<Rightarrow> nat list \<Rightarrow> bool"
  and matches_any :: "nat list \<Rightarrow> nat list \<Rightarrow> bool" where
  "MATCHESNAME p1 [] = (p1 = [])"
| "MATCHESNAME p1 (c # p2) =
     (if c = GDML_MATCH_ANY
      then let p2' = dropWhile (\<lambda>d. d = GDML_MATCH_ANY) p2 in
           if p2' = [] then True else matches_any p1 p2'
      else case p1 of
             [] \<Rightarrow> False
           | x # p1' \<Rightarrow> if c \<noteq> GDML_MATCH_ONE \<and> c \<noteq> x then False else MATCHESNAME p1' p2)"
| "matches_any [] p2 = False"
| "matches_any (x # p1) p2 = (if MATCHESNAME (x # p1) p2 then True else matches_any p1 p2)"
  by pat_completeness auto
termination
  by (relation "measures [\<lambda>x. case x of Inl (_, p2) \<Rightarrow> length p2 | Inr (_, p2) \<Rightarrow> length p2,
    \<lambda>x. case x of Inl (p1, _) \<Rightarrow> length p1 | Inr (p1, _) \<Rightarrow> length p1,
    \<lambda>x. case x of Inl _ \<Rightarrow> 0 | Inr _ \<Rightarrow> 1]")
     (auto simp: less_Suc_eq_le intro: length_dropWhile_le)

section \<open>What the patterns mean\<close>

datatype token = Lit nat | One | Any

fun token_match :: "token list \<Rightarrow> nat list \<Rightarrow> bool" where
  "token_match [] s = (s = [])"
| "token_match (Lit c # ts) s = (case s of [] \<Rightarrow> False | x # s' \<Rightarrow> x = c \<and> token_match ts s')"
| "token_match (One # ts) s = (case s of [] \<Rightarrow> False | x # s' \<Rightarrow> token_match ts s')"
| "token_match (Any # ts) s = (\<exists>k \<le> length s. token_match ts (drop k s))"

text \<open>
  The tokens of a \<^verbatim>\<open>LIKE\<close> pattern.  An escape character is followed by one of the three
  characters it may escape; any other pattern has no meaning.
\<close>

fun like_tokens :: "nat \<Rightarrow> nat list \<Rightarrow> token list option" where
  "like_tokens esc [] = Some []"
| "like_tokens esc (c # p) =
     (if esc \<noteq> 0 \<and> c = esc
      then case p of
             [] \<Rightarrow> None
           | d # p' \<Rightarrow> if d \<in> {esc, SQL_MATCH_ANY, SQL_MATCH_ONE}
                        then map_option (Cons (Lit d)) (like_tokens esc p') else None
      else map_option (Cons (if c = SQL_MATCH_ANY then Any else if c = SQL_MATCH_ONE then One else Lit c))
             (like_tokens esc p))"

definition matches_tokens :: "nat list \<Rightarrow> token list" where
  "matches_tokens p = map (\<lambda>c. if c = GDML_MATCH_ANY then Any else if c = GDML_MATCH_ONE then One else Lit c) p"

subsection \<open>Runs of wild cards\<close>

lemma token_match_Any_Nil [simp]: "token_match (Any # ts) [] = token_match ts []"
  by simp

lemma token_match_Any_Cons:
  "token_match (Any # ts) (x # s) \<longleftrightarrow> token_match ts (x # s) \<or> token_match (Any # ts) s"
proof
  assume "token_match (Any # ts) (x # s)"
  then obtain k where k: "k \<le> Suc (length s)" "token_match ts (drop k (x # s))" by auto
  then show "token_match ts (x # s) \<or> token_match (Any # ts) s" by (cases k) auto
next
  assume "token_match ts (x # s) \<or> token_match (Any # ts) s"
  then show "token_match (Any # ts) (x # s)"
  proof
    assume "token_match ts (x # s)"
    then show ?thesis by (auto intro!: exI [of _ 0])
  next
    assume "token_match (Any # ts) s"
    then obtain k where "k \<le> length s" "token_match ts (drop k s)" by auto
    then show ?thesis by (auto intro!: exI [of _ "Suc k"])
  qed
qed

lemma token_match_Any_Any [simp]: "token_match (Any # Any # ts) s = token_match (Any # ts) s"
proof (induction s)
  case (Cons x s)
  then show ?case
    using token_match_Any_Cons [of "Any # ts" x s] token_match_Any_Cons [of ts x s] by blast
qed simp

lemma token_match_Any_end: "token_match [Any] s"
  by (auto intro: exI [of _ "length s"])

text \<open>The two ways to skip a run of wild cards agree.\<close>

lemma like_tokens_dropWhile:
  assumes "esc \<noteq> SQL_MATCH_ANY"
  defines "q p \<equiv> dropWhile (\<lambda>d. d = SQL_MATCH_ANY) p"
  shows "like_tokens esc (q p) = None \<longleftrightarrow> like_tokens esc p = None"
    and "(\<exists>ts. like_tokens esc (q p) = Some ts \<and> token_match (Any # ts) s) \<longleftrightarrow>
         (\<exists>ts. like_tokens esc p = Some ts \<and> token_match (Any # ts) s)"
proof -
  have "(like_tokens esc (q p) = None \<longleftrightarrow> like_tokens esc p = None) \<and>
    ((\<exists>ts. like_tokens esc (q p) = Some ts \<and> token_match (Any # ts) s) \<longleftrightarrow>
     (\<exists>ts. like_tokens esc p = Some ts \<and> token_match (Any # ts) s))"
  proof (induction p)
    case (Cons c p)
    show ?case
    proof (cases "c = SQL_MATCH_ANY")
      case True
      then have "like_tokens esc (c # p) = map_option (Cons Any) (like_tokens esc p)" "q (c # p) = q p"
        using assms(1) by (auto simp: q_def)
      then show ?thesis using Cons.IH by (auto simp del: token_match.simps)
    qed (simp add: q_def)
  qed (simp add: q_def)
  then show "like_tokens esc (q p) = None \<longleftrightarrow> like_tokens esc p = None"
    and "(\<exists>ts. like_tokens esc (q p) = Some ts \<and> token_match (Any # ts) s) \<longleftrightarrow>
         (\<exists>ts. like_tokens esc p = Some ts \<and> token_match (Any # ts) s)" by blast+
qed

lemma like_tokens_nonempty:
  assumes "like_tokens esc p = Some ts" "p \<noteq> []" "hd p \<noteq> SQL_MATCH_ANY"
  shows "\<not> token_match ts []"
  using assms by (cases p) (auto split: if_splits list.splits)

lemma LIKENAME_spec:
  "(LIKENAME esc s p = Inr True \<longleftrightarrow> (\<exists>ts. like_tokens esc p = Some ts \<and> token_match ts s)) \<and>
   (\<forall>e. LIKENAME esc s p = Inl e \<longrightarrow> like_tokens esc p = None)"
  "p \<noteq> [] \<Longrightarrow> hd p \<noteq> SQL_MATCH_ANY \<Longrightarrow>
   (like_any esc s p = Inr True \<longleftrightarrow> (\<exists>ts. like_tokens esc p = Some ts \<and> token_match (Any # ts) s)) \<and>
   (\<forall>e. like_any esc s p = Inl e \<longrightarrow> like_tokens esc p = None)"
proof (induction esc s p and esc s p rule: LIKENAME_like_any.induct)
  case (2 esc s c0 p)
  show ?case
  proof (cases "like_char esc c0 p")
    case (Inl e)
    then have "like_tokens esc (c0 # p) = None" by (auto simp: like_char_def split: if_splits list.splits)
    then show ?thesis using Inl by simp
  next
    case (Inr r)
    then obtain c p' escape where r: "like_char esc c0 p = Inr (c, p', escape)" by (cases r) auto
    show ?thesis
    proof (cases "\<not> escape \<and> c = SQL_MATCH_ANY")
      case True
      then have eq: "c0 = SQL_MATCH_ANY" "p' = p" "esc \<noteq> SQL_MATCH_ANY"
        using r by (auto simp: like_char_def split: if_splits list.splits)
      let ?q = "dropWhile (\<lambda>d. d = SQL_MATCH_ANY) p"
      have toks: "like_tokens esc (c0 # p) = map_option (Cons Any) (like_tokens esc p)" using eq by auto
      show ?thesis
      proof (cases "?q = []")
        case True
        then have "(\<exists>ts. like_tokens esc p = Some ts \<and> token_match (Any # ts) s)"
          using like_tokens_dropWhile(2) [OF eq(3), of p s] token_match_Any_end [of s] unfolding True
          by (simp del: token_match.simps)
        moreover have "LIKENAME esc s (c0 # p) = Inr True" using True r eq \<open>\<not> escape \<and> _\<close> by simp
        ultimately show ?thesis unfolding toks
          by (cases "like_tokens esc p") (simp_all del: token_match.simps LIKENAME.simps)
      next
        case False
        then have "hd ?q \<noteq> SQL_MATCH_ANY" by (rule hd_dropWhile)
        from "2.IH"(1) [OF r refl refl True, of ?q] False this eq
        have "(like_any esc s ?q = Inr True \<longleftrightarrow> (\<exists>ts. like_tokens esc ?q = Some ts \<and> token_match (Any # ts) s)) \<and>
          (\<forall>e. like_any esc s ?q = Inl e \<longrightarrow> like_tokens esc ?q = None)" by simp
        moreover have "LIKENAME esc s (c0 # p) = like_any esc s ?q" using False r eq \<open>\<not> escape \<and> _\<close> by auto
        ultimately show ?thesis
          unfolding toks like_tokens_dropWhile [OF eq(3)]
          by (cases "like_tokens esc p") (simp_all del: token_match.simps LIKENAME.simps)
      qed
    next
      case False
      have toks: "like_tokens esc (c0 # p) =
          map_option (Cons (if \<not> escape \<and> c = SQL_MATCH_ONE then One else Lit c)) (like_tokens esc p')"
      proof (cases "esc \<noteq> 0 \<and> c0 = esc")
        case True
        then obtain d where "p = d # p'" "c = d" "escape" "d = esc \<or> d = SQL_MATCH_ANY \<or> d = SQL_MATCH_ONE"
          using r by (cases p) (simp_all add: like_char_def split: if_splits)
        then show ?thesis using True by simp
      next
        case esc: False
        then have "c = c0" "p' = p" "\<not> escape" using r by (simp_all add: like_char_def split: if_splits)
        moreover have "like_tokens esc (c0 # p) = map_option
            (Cons (if c0 = SQL_MATCH_ANY then Any else if c0 = SQL_MATCH_ONE then One else Lit c0)) (like_tokens esc p)"
          by (simp only: like_tokens.simps esc if_False)
        ultimately show ?thesis using False by simp
      qed
      show ?thesis
      proof (cases s)
        case Nil
        have "LIKENAME esc s (c0 # p) = Inr False" using r False Nil by auto
        then show ?thesis unfolding toks by (auto simp: Nil split: if_splits)
      next
        case (Cons x s')
        show ?thesis
        proof (cases "(escape \<or> c \<noteq> SQL_MATCH_ONE) \<and> c \<noteq> x")
          case True
          have "LIKENAME esc s (c0 # p) = Inr False" using r False Cons True by auto
          then show ?thesis using True unfolding toks by (auto simp: Cons split: if_splits)
        next
          case ok: False
          have "LIKENAME esc s (c0 # p) = LIKENAME esc s' p'" using r False Cons ok by auto
          moreover note "2.IH"(2) [OF r refl refl False Cons ok]
          moreover have "token_match ((if \<not> escape \<and> c = SQL_MATCH_ONE then One else Lit c) # ts) s \<longleftrightarrow>
              token_match ts s'" for ts using Cons ok by auto
          ultimately show ?thesis
            unfolding toks by (cases "like_tokens esc p'") (simp_all del: token_match.simps LIKENAME.simps)
        qed
      qed
    qed
  qed
next
  case (3 esc p)
  then show ?case using like_tokens_nonempty by auto
next
  case (4 esc x s p)
  note IH1 = "4.IH"(1)
  show ?case
  proof (cases "LIKENAME esc (x # s) p")
    case (Inl e)
    with IH1 show ?thesis by simp
  next
    case (Inr found)
    show ?thesis
    proof (cases found)
      case True
      with Inr IH1 show ?thesis
        by (cases "like_tokens esc p") (simp_all add: token_match_Any_Cons del: token_match.simps)
    next
      case False
      from "4.IH"(2) [OF Inr False "4.prems"] IH1 Inr False show ?thesis
        by (cases "like_tokens esc p") (simp_all add: token_match_Any_Cons del: token_match.simps)
    qed
  qed
qed simp

lemma matches_tokens_dropWhile:
  "token_match (Any # matches_tokens (dropWhile (\<lambda>d. d = GDML_MATCH_ANY) p)) s =
   token_match (Any # matches_tokens p) s"
proof (induction p)
  case (Cons c p)
  have "matches_tokens (GDML_MATCH_ANY # p) = Any # matches_tokens p" by (simp add: matches_tokens_def)
  then show ?case using Cons.IH by (cases "c = GDML_MATCH_ANY") (simp_all del: token_match.simps)
qed simp

lemma matches_tokens_nonempty:
  assumes "p \<noteq> []" "hd p \<noteq> GDML_MATCH_ANY"
  shows "\<not> token_match (matches_tokens p) []"
  using assms by (cases p) (auto simp: matches_tokens_def)

lemma MATCHESNAME_spec:
  "MATCHESNAME s p = token_match (matches_tokens p) s"
  "p \<noteq> [] \<Longrightarrow> hd p \<noteq> GDML_MATCH_ANY \<Longrightarrow> matches_any s p = token_match (Any # matches_tokens p) s"
proof (induction s p and s p rule: MATCHESNAME_matches_any.induct)
  case (2 s c p)
  let ?q = "dropWhile (\<lambda>d. d = GDML_MATCH_ANY) p"
  show ?case
  proof (cases "c = GDML_MATCH_ANY")
    case True
    then have toks: "matches_tokens (c # p) = Any # matches_tokens p" by (simp add: matches_tokens_def)
    show ?thesis
    proof (cases "?q = []")
      case q: True
      have "token_match (Any # matches_tokens ?q) s"
        unfolding q using token_match_Any_end by (simp add: matches_tokens_def)
      moreover have "MATCHESNAME s (c # p)" using True q by simp
      ultimately show ?thesis by (simp only: toks matches_tokens_dropWhile)
    next
      case False
      then have "hd ?q \<noteq> GDML_MATCH_ANY" by (rule hd_dropWhile)
      from "2.IH"(1) [OF True refl False False this]
      have "matches_any s ?q = token_match (Any # matches_tokens p) s" by (simp only: matches_tokens_dropWhile)
      moreover have "MATCHESNAME s (c # p) = matches_any s ?q" using True False by auto
      ultimately show ?thesis by (simp only: toks)
    qed
  next
    case False
    then have toks: "matches_tokens (c # p) = (if c = GDML_MATCH_ONE then One else Lit c) # matches_tokens p"
      by (simp add: matches_tokens_def)
    show ?thesis
    proof (cases s)
      case Nil
      then show ?thesis using False toks by simp
    next
      case (Cons x s')
      show ?thesis
      proof (cases "c \<noteq> GDML_MATCH_ONE \<and> c \<noteq> x")
        case True
        then show ?thesis using False Cons toks by auto
      next
        case ok: False
        have "MATCHESNAME s (c # p) = MATCHESNAME s' p" using False Cons ok by auto
        moreover note "2.IH"(2) [OF False Cons ok]
        moreover have "token_match (matches_tokens (c # p)) s = token_match (matches_tokens p) s'"
          using Cons ok toks by auto
        ultimately show ?thesis by simp
      qed
    qed
  qed
next
  case (3 p)
  then show ?case using matches_tokens_nonempty by simp
next
  case (4 x s p)
  then show ?case by (auto simp: token_match_Any_Cons simp del: token_match.simps)
qed (simp add: matches_tokens_def)

section \<open>CONTAINING\<close>

text \<open>
  \<^verbatim>\<open>EVL_nc_contains\<close> and \<^verbatim>\<open>EVL_wc_contains\<close> differ in the size \<open>sz\<close> of a character, 1 or 2
  bytes; \<open>to_upper\<close> is \<^verbatim>\<open>texttype_fn_to_upper\<close> of the text type.  The byte count is copied
  into the \<^verbatim>\<open>SSHORT\<close> \<^verbatim>\<open>l\<close>.
\<close>

definition sshort :: "nat \<Rightarrow> int" where
  "sshort n = (if n mod 65536 < 32768 then int (n mod 65536) else int (n mod 65536) - 65536)"

fun contains_at :: "(nat \<Rightarrow> nat) \<Rightarrow> int \<Rightarrow> int \<Rightarrow> nat list \<Rightarrow> nat list \<Rightarrow> bool" where
  "contains_at to_upper sz l q1 q2 =
     (if l - sz < 0 then True
      else case q1 of
             [] \<Rightarrow> False
           | c1 # q1' \<Rightarrow>
               (case q2 of
                  [] \<Rightarrow> False
                | c2 # q2' \<Rightarrow>
                    if to_upper c1 = to_upper c2 then contains_at to_upper sz (l - sz) q1' q2' else False))"

declare contains_at.simps [simp del]

fun contains :: "(nat \<Rightarrow> nat) \<Rightarrow> nat \<Rightarrow> nat list \<Rightarrow> nat list \<Rightarrow> bool" where
  "contains to_upper sz p1 p2 =
     (if length p1 \<ge> length p2
      then if contains_at to_upper (int sz) (sshort (sz * length p2)) p1 p2 then True
           else case p1 of [] \<Rightarrow> False | _ # p1' \<Rightarrow> contains to_upper sz p1' p2
      else False)"

declare contains.simps [simp del]

definition EVL_nc_contains :: "(nat \<Rightarrow> nat) \<Rightarrow> nat list \<Rightarrow> nat list \<Rightarrow> bool" where
  "EVL_nc_contains to_upper = contains to_upper 1"

definition EVL_wc_contains :: "(nat \<Rightarrow> nat) \<Rightarrow> nat list \<Rightarrow> nat list \<Rightarrow> bool" where
  "EVL_wc_contains to_upper = contains to_upper 2"

lemma contains_at_spec:
  assumes "0 < sz" "length q2 \<le> length q1"
  shows "contains_at to_upper (int sz) (int (sz * length q2)) q1 q2 \<longleftrightarrow>
         prefix (map to_upper q2) (map to_upper q1)"
  using assms(2)
proof (induction q2 arbitrary: q1)
  case Nil
  then show ?case using assms(1) by (subst contains_at.simps) simp
next
  case (Cons c2 q2)
  then obtain c1 q1' where q1: "q1 = c1 # q1'" "length q2 \<le> length q1'" by (cases q1) auto
  have "int (sz * length (c2 # q2)) - int sz = int (sz * length q2)" by (simp add: algebra_simps)
  moreover have "\<not> int (sz * length q2) < 0" by linarith
  ultimately show ?case
    using Cons.IH [OF q1(2)] q1(1) by (subst contains_at.simps) (auto simp del: of_nat_mult)
qed

lemma contains_spec:
  assumes "0 < sz" "sz * length p2 < 32768"
  shows "contains to_upper sz p1 p2 \<longleftrightarrow> sublist (map to_upper p2) (map to_upper p1)"
proof -
  have l: "sshort (sz * length p2) = int (sz * length p2)" using assms(2) by (simp add: sshort_def)
  show ?thesis
  proof (induction p1)
    case Nil
    show ?case using contains_at_spec [OF assms(1), of p2 "[]"] l by (subst contains.simps) auto
  next
    case (Cons c p1)
    show ?case
    proof (cases "length p2 \<le> length (c # p1)")
      case True
      then show ?thesis
        using contains_at_spec [OF assms(1) True] l Cons.IH by (subst contains.simps) (simp add: sublist_Cons_right)
    next
      case False
      then have "\<not> sublist (map to_upper p2) (map to_upper (c # p1))"
        by (auto dest: sublist_length_le)
      then show ?thesis using False by (subst contains.simps) simp
    qed
  qed
qed

section \<open>Properties\<close>

text \<open>
  (C40) \<^verbatim>\<open>LIKE\<close>: the routine returns true exactly if the pattern is well formed and
  matches the string, where \<open>%\<close> stands for any sequence of characters, \<open>_\<close> for any one, and an
  escaped character for itself; it posts the error \<^verbatim>\<open>like_escape_invalid\<close> only if the
  pattern is malformed.  The search always terminates.  The lengths are \<^verbatim>\<open>SSHORT\<close> in the code and
  those of lists here: the property is about strings and patterns of up to 32767 bytes.
\<close>

theorem LIKE_correct:
  "(LIKENAME escape_char s p = Inr True \<longleftrightarrow>
      (\<exists>ts. like_tokens escape_char p = Some ts \<and> token_match ts s)) \<and>
   (LIKENAME escape_char s p = Inl like_escape_invalid \<longrightarrow> like_tokens escape_char p = None)"
  using LIKENAME_spec(1) [of escape_char s p] by blast

theorem LIKE_correct_witness:
  "LIKENAME 64 [97, 37, 98] [97, 64, 37, 95] = Inr True \<and> LIKENAME 64 [97] [97, 64, 98] = Inl like_escape_invalid \<and>
   like_tokens 64 [97, 64, 98] = None"
  using LIKE_correct [of 64 "[97, 37, 98]" "[97, 64, 37, 95]"] LIKE_correct [of 64 "[97]" "[97, 64, 98]"]
  by (simp add: like_char_def)

text \<open>
  \<^verbatim>\<open>MATCHES\<close>: the routine returns true exactly if the pattern, with \<open>*\<close> for any
  sequence and \<open>?\<close> for any one character, matches the string.
\<close>

theorem MATCHES_correct: "MATCHESNAME s p \<longleftrightarrow> token_match (matches_tokens p) s"
  by (rule MATCHESNAME_spec(1))

text \<open>
  \<^verbatim>\<open>CONTAINING\<close>: for search strings whose byte length fits a \<^verbatim>\<open>SSHORT\<close>, the routines
  return true exactly if the search string is a contiguous part of the string after both
  are mapped to upper case by the text type.
\<close>

theorem CONTAINING_correct:
  assumes "length p2 < 32768"
  shows "(EVL_nc_contains to_upper p1 p2 \<longleftrightarrow> sublist (map to_upper p2) (map to_upper p1)) \<and>
         (2 * length p2 < 32768 \<longrightarrow> EVL_wc_contains to_upper p1 p2 \<longleftrightarrow> sublist (map to_upper p2) (map to_upper p1))"
  using assms by (simp add: EVL_nc_contains_def EVL_wc_contains_def contains_spec)

theorem CONTAINING_correct_witness:
  "length [98::nat] < 32768 \<and> EVL_nc_contains (\<lambda>c. if c = 98 then 66 else c) [97, 66] [98]"
  using CONTAINING_correct [of "[98]" "\<lambda>c. if c = 98 then 66 else c" "[97, 66]"] by (simp add: sublist_Cons_right)

end
