(* ===== verification/Lock.thy ===== *)
theory Lock
  imports Prelude
begin

text \<open>
  The lock manager, \<^verbatim>\<open>src/lock/lock.c\<close> and \<^verbatim>\<open>lock.h\<close>: the table shared by all processes
  attached to a database, in which owners queue requests on locks.

  The table is one record; the blocks of the mapped file are maps from offsets (\<^verbatim>\<open>PTR\<close>) to
  records, and a self-relative queue is the list of the blocks on it, in order.  Every
  routine below runs between \<^verbatim>\<open>acquire\<close> and \<^verbatim>\<open>release\<close> of the table's mutex, so it is a
  function on the table; a wait for a request ends one such function, and what happens
  when the process wakes up is another one.  The model is the UNIX classic configuration:
  a signal to a blocking owner is sent and delivered later.  The history ring written by
  \<^verbatim>\<open>post_history\<close>, the tracing and the clock are left out.
\<close>

section \<open>Lock states\<close>

abbreviation LCK_none :: nat where "LCK_none \<equiv> 0"
abbreviation LCK_null :: nat where "LCK_null \<equiv> 1"
abbreviation LCK_SR :: nat where "LCK_SR \<equiv> 2"
abbreviation LCK_PR :: nat where "LCK_PR \<equiv> 3"
abbreviation LCK_SW :: nat where "LCK_SW \<equiv> 4"
abbreviation LCK_PW :: nat where "LCK_PW \<equiv> 5"
abbreviation LCK_EX :: nat where "LCK_EX \<equiv> 6"
abbreviation LCK_max :: nat where "LCK_max \<equiv> 7"
abbreviation LCK_MAX_SERIES :: nat where "LCK_MAX_SERIES \<equiv> 7"

definition compatibility :: "nat list" where
  "compatibility =
    [1, 1, 1, 1, 1, 1, 1,
     1, 1, 1, 1, 1, 1, 1,
     1, 1, 1, 1, 1, 1, 0,
     1, 1, 1, 1, 0, 0, 0,
     1, 1, 1, 0, 1, 0, 0,
     1, 1, 1, 0, 0, 0, 0,
     1, 1, 0, 0, 0, 0, 0]"

definition COMPATIBLE :: "nat \<Rightarrow> nat \<Rightarrow> bool" where
  "COMPATIBLE st1 st2 = (compatibility ! (st1 * LCK_max + st2) \<noteq> 0)"

section \<open>Blocks\<close>

type_synonym ptr = nat

text \<open>\<^verbatim>\<open>struct lrq\<close>, its flags as one field each; a null AST routine is 0.\<close>

record lrq =
  lrq_in_use :: bool
  lrq_blocking :: bool
  lrq_pending :: bool
  lrq_rejected :: bool
  lrq_deadlock :: bool
  lrq_repost :: bool
  lrq_scanned :: bool
  lrq_requested :: nat
  lrq_state :: nat
  lrq_owner :: ptr
  lrq_lock :: ptr
  lrq_data :: int
  lrq_ast_routine :: nat
  lrq_ast_argument :: nat

text \<open>
  \<^verbatim>\<open>struct lbl\<close>.  \<^verbatim>\<open>lbl_size\<close>, \<^verbatim>\<open>lbl_length\<close> and \<^verbatim>\<open>lbl_series\<close> are \<^verbatim>\<open>UCHAR\<close>: what is stored in them is
  reduced modulo 256.  \<open>lbl_key\<close> holds the bytes copied into the block, all of them, and
  \<open>lbl_length\<close> the length that was recorded for them.
\<close>

record lbl =
  lbl_in_use :: bool
  lbl_state :: nat
  lbl_size :: nat
  lbl_requests :: "ptr list"
  lbl_data :: int
  lbl_parent :: ptr
  lbl_series :: nat
  lbl_pending_lrq_count :: nat
  lbl_counts :: "nat \<Rightarrow> nat"
  lbl_key :: "byte list"

definition lbl_length :: "lbl \<Rightarrow> nat" where
  "lbl_length k = length (lbl_key k) mod 256"

text \<open>\<^verbatim>\<open>struct own\<close>; \<^verbatim>\<open>own_semaphore\<close> is set while the owner is in \<^verbatim>\<open>wait_for_request\<close>.\<close>

record own =
  own_count :: nat
  own_owner_id :: nat
  own_owner_type :: nat
  own_requests :: "ptr list"
  own_blocks :: "ptr list"
  own_pending_request :: ptr
  own_semaphore :: bool
  own_scanned :: bool
  own_wakeup :: bool
  own_signal :: bool
  own_signaled :: bool

datatype statistic = lhb_enqs | lhb_converts | lhb_downgrades | lhb_deqs | lhb_read_data | lhb_write_data
  | lhb_query_data | lhb_waits | lhb_denies | lhb_timeouts | lhb_blocks | lhb_wakeups | lhb_scans
  | lhb_deadlocks | lhb_operations nat

text \<open>\<^verbatim>\<open>struct lhb\<close> and the blocks it leads to; \<open>LOCK_ordering\<close> is the global of that name.\<close>

record lhb =
  lhb_lrqs :: "ptr \<Rightarrow> lrq"
  lhb_lbls :: "ptr \<Rightarrow> lbl"
  lhb_owns :: "ptr \<Rightarrow> own"
  lhb_owners :: "ptr list"
  lhb_free_owners :: "ptr list"
  lhb_free_locks :: "ptr list"
  lhb_free_requests :: "ptr list"
  lhb_length :: nat
  lhb_used :: nat
  lhb_hash_slots :: nat
  lhb_hash :: "nat \<Rightarrow> ptr list"
  lhb_data :: "nat \<Rightarrow> ptr list"
  lhb_statistics :: "statistic \<Rightarrow> nat"
  LOCK_ordering :: bool

definition upd_lrq :: "ptr \<Rightarrow> (lrq \<Rightarrow> lrq) \<Rightarrow> lhb \<Rightarrow> lhb" where
  "upd_lrq r f t = t\<lparr>lhb_lrqs := (lhb_lrqs t)(r := f (lhb_lrqs t r))\<rparr>"

definition upd_lbl :: "ptr \<Rightarrow> (lbl \<Rightarrow> lbl) \<Rightarrow> lhb \<Rightarrow> lhb" where
  "upd_lbl l f t = t\<lparr>lhb_lbls := (lhb_lbls t)(l := f (lhb_lbls t l))\<rparr>"

definition upd_own :: "ptr \<Rightarrow> (own \<Rightarrow> own) \<Rightarrow> lhb \<Rightarrow> lhb" where
  "upd_own p f t = t\<lparr>lhb_owns := (lhb_owns t)(p := f (lhb_owns t p))\<rparr>"

definition bump :: "statistic \<Rightarrow> lhb \<Rightarrow> lhb" where
  "bump s t = t\<lparr>lhb_statistics := (lhb_statistics t)(s := lhb_statistics t s + 1)\<rparr>"

text \<open>The counts are \<^verbatim>\<open>USHORT\<close>.\<close>

definition inc16 :: "nat \<Rightarrow> nat" where
  "inc16 n = (n + 1) mod 65536"

definition dec16 :: "nat \<Rightarrow> nat" where
  "dec16 n = (n + 65535) mod 65536"

definition count_up :: "nat \<Rightarrow> lbl \<Rightarrow> lbl" where
  "count_up s k = k\<lparr>lbl_counts := (lbl_counts k)(s := inc16 (lbl_counts k s))\<rparr>"

definition count_down :: "nat \<Rightarrow> lbl \<Rightarrow> lbl" where
  "count_down s k = k\<lparr>lbl_counts := (lbl_counts k)(s := dec16 (lbl_counts k s))\<rparr>"

section \<open>Errors\<close>

datatype lock_bug = invalid_lock_id ptr | invalid_lock ptr

datatype lock_status = gds_deadlock | gds_lock_timeout | gds_lock_conflict | lock_manager_out_of_room

definition get_request :: "ptr \<Rightarrow> lhb \<Rightarrow> lock_bug + lrq" where
  "get_request offset t =
     (if \<not> lrq_in_use (lhb_lrqs t offset) then Inl (invalid_lock_id offset)
      else if \<not> lbl_in_use (lhb_lbls t (lrq_lock (lhb_lrqs t offset))) then Inl (invalid_lock offset)
      else Inr (lhb_lrqs t offset))"

section \<open>Granting\<close>

definition state_of_counts :: "(nat \<Rightarrow> nat) \<Rightarrow> nat" where
  "state_of_counts c =
     (if c LCK_EX \<noteq> 0 then LCK_EX
      else if c LCK_PW \<noteq> 0 then LCK_PW
      else if c LCK_SW \<noteq> 0 then LCK_SW
      else if c LCK_PR \<noteq> 0 then LCK_PR
      else if c LCK_SR \<noteq> 0 then LCK_SR
      else if c LCK_null \<noteq> 0 then LCK_null
      else LCK_none)"

definition lock_state :: "lbl \<Rightarrow> nat" where
  "lock_state lock = state_of_counts (lbl_counts lock)"

definition post_wakeup :: "ptr \<Rightarrow> lhb \<Rightarrow> lhb" where
  "post_wakeup owner t =
     (if own_semaphore (lhb_owns t owner)
      then upd_own owner (\<lambda>ow. ow\<lparr>own_wakeup := True\<rparr>) (bump lhb_wakeups t)
      else t)"

text \<open>The lock data queue of a series, ascending by data among the locks of one parent.\<close>

fun data_insert :: "(ptr \<Rightarrow> lbl) \<Rightarrow> ptr \<Rightarrow> ptr list \<Rightarrow> ptr list" where
  "data_insert lbls lock [] = [lock]"
| "data_insert lbls lock (lock2 # que) =
     (if lbl_parent (lbls lock2) \<noteq> lbl_parent (lbls lock) then lock2 # data_insert lbls lock que
      else if lbl_data (lbls lock) \<le> lbl_data (lbls lock2) then lock # lock2 # que
      else lock2 # data_insert lbls lock que)"

definition insert_data_que :: "ptr \<Rightarrow> lhb \<Rightarrow> lhb" where
  "insert_data_que lock t =
     (let k = lhb_lbls t lock in
      if lbl_series k < LCK_MAX_SERIES \<and> lbl_parent k \<noteq> 0 \<and> lbl_data k \<noteq> 0
      then t\<lparr>lhb_data := (lhb_data t)(lbl_series k := data_insert (lhb_lbls t) lock (lhb_data t (lbl_series k)))\<rparr>
      else t)"

text \<open>\<^verbatim>\<open>remove_que (&lock->lbl_lhb_data)\<close>: a no-op on a block that is on no queue.\<close>

definition remove_data_que :: "ptr \<Rightarrow> lhb \<Rightarrow> lhb" where
  "remove_data_que lock t = t\<lparr>lhb_data := (\<lambda>s. remove1 lock (lhb_data t s))\<rparr>"

definition set_lock_data :: "ptr \<Rightarrow> int \<Rightarrow> lhb \<Rightarrow> lhb" where
  "set_lock_data lock data t =
     (let t1 = upd_lbl lock (\<lambda>k. k\<lparr>lbl_data := data\<rparr>) (remove_data_que lock t)
      in if data \<noteq> 0 then insert_data_que lock t1 else t1)"

definition grant :: "ptr \<Rightarrow> ptr \<Rightarrow> lhb \<Rightarrow> lhb" where
  "grant request lock t =
     (let req = lhb_lrqs t request;
          t1 = upd_lbl lock (count_up (lrq_requested req)) t;
          t2 = upd_lrq request (\<lambda>q. q\<lparr>lrq_state := lrq_requested q\<rparr>) t1;
          t3 = (if lrq_data req \<noteq> 0
                then upd_lrq request (\<lambda>q. q\<lparr>lrq_data := 0\<rparr>) (set_lock_data lock (lrq_data req) t2)
                else t2);
          t4 = upd_lbl lock (\<lambda>k. k\<lparr>lbl_state := lock_state k\<rparr>) t3;
          t5 = (if lrq_pending req
                then upd_lbl lock (\<lambda>k. k\<lparr>lbl_pending_lrq_count := dec16 (lbl_pending_lrq_count k)\<rparr>)
                       (upd_lrq request (\<lambda>q. q\<lparr>lrq_pending := False\<rparr>) t4)
                else t4)
      in post_wakeup (lrq_owner req) t5)"

text \<open>The loop of \<^verbatim>\<open>post_pending\<close> over the requests of the lock.\<close>

fun post_pending_loop :: "ptr \<Rightarrow> ptr list \<Rightarrow> lhb \<Rightarrow> lhb" where
  "post_pending_loop lock [] t = t"
| "post_pending_loop lock (request # que) t =
     (let req = lhb_lrqs t request in
      if \<not> lrq_pending req then post_pending_loop lock que t
      else if lrq_state req \<noteq> LCK_none
      then let t1 = upd_lbl lock (count_down (lrq_state req)) t;
               temp_state = lock_state (lhb_lbls t1 lock)
           in if COMPATIBLE (lrq_requested req) temp_state
              then post_pending_loop lock que (grant request lock t1)
              else let t2 = post_wakeup (lrq_owner req) (upd_lbl lock (count_up (lrq_state req)) t1)
                   in if LOCK_ordering t then t2 else post_pending_loop lock que t2
      else if COMPATIBLE (lrq_requested req) (lbl_state (lhb_lbls t lock))
      then post_pending_loop lock que (grant request lock t)
      else let t2 = post_wakeup (lrq_owner req) t
           in if LOCK_ordering t then t2 else post_pending_loop lock que t2)"

definition post_pending :: "ptr \<Rightarrow> lhb \<Rightarrow> lhb" where
  "post_pending lock t =
     (if lbl_pending_lrq_count (lhb_lbls t lock) = 0 then t
      else post_pending_loop lock (lbl_requests (lhb_lbls t lock)) t)"

section \<open>Releasing\<close>

definition free_lock :: "ptr \<Rightarrow> lhb \<Rightarrow> lhb" where
  "free_lock lock t =
     (let t1 = remove_data_que lock (t\<lparr>lhb_hash := (\<lambda>s. remove1 lock (lhb_hash t s))\<rparr>)
      in (upd_lbl lock (\<lambda>k. k\<lparr>lbl_in_use := False\<rparr>) t1)\<lparr>lhb_free_locks := lhb_free_locks t @ [lock]\<rparr>)"

text \<open>The disconnection of the request, up to the test whether the lock is still wanted.\<close>

definition unlink_request :: "ptr \<Rightarrow> lhb \<Rightarrow> lhb" where
  "unlink_request request t =
     (let req = lhb_lrqs t request;
          lock = lrq_lock req;
          t1 = upd_lbl lock (\<lambda>k. k\<lparr>lbl_requests := remove1 request (lbl_requests k)\<rparr>) t;
          t2 = upd_own (lrq_owner req) (\<lambda>ow. ow\<lparr>own_requests := remove1 request (own_requests ow)\<rparr>) t1;
          t3 = (upd_lrq request (\<lambda>q. q\<lparr>lrq_in_use := False\<rparr>) t2)
                 \<lparr>lhb_free_requests := lhb_free_requests t @ [request]\<rparr>;
          t4 = (if lrq_blocking req
                then upd_lrq request (\<lambda>q. q\<lparr>lrq_blocking := False\<rparr>)
                       (upd_own (lrq_owner req) (\<lambda>ow. ow\<lparr>own_blocks := remove1 request (own_blocks ow)\<rparr>) t3)
                else t3)
      in if lrq_pending req
         then upd_lbl lock (\<lambda>k. k\<lparr>lbl_pending_lrq_count := dec16 (lbl_pending_lrq_count k)\<rparr>)
                (upd_lrq request (\<lambda>q. q\<lparr>lrq_pending := False\<rparr>) t4)
         else t4)"

definition release_request :: "ptr \<Rightarrow> lhb \<Rightarrow> lhb" where
  "release_request request t =
     (let lock = lrq_lock (lhb_lrqs t request);
          state = lrq_state (lhb_lrqs t request);
          t1 = unlink_request request t
      in if lbl_requests (lhb_lbls t1 lock) = [] then free_lock lock t1
         else if state \<noteq> LCK_none
         then let t2 = upd_lbl lock (count_down state) t1 in
              if lbl_counts (lhb_lbls t2 lock) state = 0
              then post_pending lock (upd_lbl lock (\<lambda>k. k\<lparr>lbl_state := lock_state k\<rparr>) t2)
              else post_pending lock t2
         else post_pending lock t1)"

definition dequeue :: "ptr \<Rightarrow> lhb \<Rightarrow> lock_bug + lhb" where
  "dequeue request t =
     bind_result (get_request request t)
       (\<lambda>_. Inr (release_request request (upd_lrq request (\<lambda>q. q\<lparr>lrq_ast_routine := 0\<rparr>) t)))"

section \<open>Waiting\<close>

text \<open>
  \<^verbatim>\<open>signal_owner\<close> for an owner in another process, the signal being sent; a signal that is
  still unseen is not sent again.  Left out are an owner in the same process, whose routines
  \<^verbatim>\<open>blocking_action2\<close> calls at once; an owner that waits for the mutex of the table (\<^verbatim>\<open>OWN_hung\<close>),
  which is not signalled; and a signal that cannot be sent, when the lock manager process is asked
  to send it and the routine succeeds.
\<close>

definition signal_owner :: "ptr \<Rightarrow> lhb \<Rightarrow> lhb" where
  "signal_owner blocking_owner t =
     (if own_signaled (lhb_owns t blocking_owner) then t
      else upd_own blocking_owner (\<lambda>ow. ow\<lparr>own_signaled := True, own_signal := False\<rparr>) t)"

text \<open>
  The loop of \<^verbatim>\<open>post_blockage\<close>.  The flag \<^verbatim>\<open>LRQ_blocking_seen\<close> is 256 and \<^verbatim>\<open>lrq_flags\<close> a
  \<^verbatim>\<open>UCHAR\<close>, so the flag is never set and its test never true.  Since \<open>signal_owner\<close> succeeds here,
  the branch that purges an owner that cannot be signalled is never taken.
\<close>

fun post_blockage_loop :: "ptr \<Rightarrow> ptr list \<Rightarrow> bool \<Rightarrow> lhb \<Rightarrow> lhb" where
  "post_blockage_loop request [] force t = t"
| "post_blockage_loop request (block # que) force t =
     (let req = lhb_lrqs t request; blk = lhb_lrqs t block; blocking_owner = lrq_owner blk in
      if block = request \<or> COMPATIBLE (lrq_requested req) (lrq_state blk) \<or> lrq_ast_routine blk = 0
      then post_blockage_loop request que force t
      else let t1 = (if lrq_blocking blk then t
                     else upd_lrq block (\<lambda>q. q\<lparr>lrq_blocking := True\<rparr>)
                            (upd_own blocking_owner (\<lambda>ow. ow\<lparr>own_blocks := own_blocks ow @ [block]\<rparr>) t));
               t2 = (if force then upd_own blocking_owner (\<lambda>ow. ow\<lparr>own_signaled := False\<rparr>) t1 else t1);
               t3 = (if blocking_owner \<noteq> lrq_owner req then signal_owner blocking_owner t2 else t2)
           in if lrq_state blk = LCK_EX then t3 else post_blockage_loop request que force t3)"

definition post_blockage :: "ptr \<Rightarrow> ptr \<Rightarrow> bool \<Rightarrow> lhb \<Rightarrow> lhb" where
  "post_blockage request lock force t =
     post_blockage_loop request (lbl_requests (lhb_lbls t lock)) force t"

text \<open>\<^verbatim>\<open>wait_for_request\<close> up to its first \<^verbatim>\<open>release\<close>.\<close>

definition mark_pending :: "ptr \<Rightarrow> lhb \<Rightarrow> lhb" where
  "mark_pending request t =
     (let req = lhb_lrqs t request;
          lock = lrq_lock req;
          t1 = upd_lrq request (\<lambda>q. q\<lparr>lrq_rejected := False, lrq_pending := True\<rparr>) (bump lhb_waits t);
          t2 = upd_lbl lock (\<lambda>k. k\<lparr>lbl_pending_lrq_count := inc16 (lbl_pending_lrq_count k)\<rparr>) t1
      in if LOCK_ordering t \<and> lrq_state req = LCK_none
         then upd_lbl lock (\<lambda>k. k\<lparr>lbl_requests := remove1 request (lbl_requests k) @ [request]\<rparr>) t2
         else t2)"

definition wait_begin :: "ptr \<Rightarrow> lhb \<Rightarrow> lhb" where
  "wait_begin request t =
     (let req = lhb_lrqs t request;
          t1 = mark_pending request t;
          t2 = upd_own (lrq_owner req) (\<lambda>ow. ow\<lparr>own_pending_request := request, own_scanned := False,
                 own_wakeup := False, own_semaphore := True\<rparr>) t1
      in post_blockage request (lrq_lock req) False t2)"

text \<open>The request of a waiting owner is given up: the timeout, and the choice of a victim.\<close>

definition reject_request :: "ptr \<Rightarrow> lhb \<Rightarrow> lhb" where
  "reject_request request t =
     upd_lbl (lrq_lock (lhb_lrqs t request)) (\<lambda>k. k\<lparr>lbl_pending_lrq_count := dec16 (lbl_pending_lrq_count k)\<rparr>)
       (upd_lrq request (\<lambda>q. q\<lparr>lrq_rejected := True, lrq_pending := False\<rparr>) t)"

definition wait_timeout :: "ptr \<Rightarrow> lhb \<Rightarrow> lhb" where
  "wait_timeout request t =
     reject_request request (upd_own (lrq_owner (lhb_lrqs t request)) (\<lambda>ow. ow\<lparr>own_wakeup := False\<rparr>) t)"

text \<open>The end of \<^verbatim>\<open>wait_for_request\<close>, after the request was resolved.\<close>

definition wait_end :: "ptr \<Rightarrow> lhb \<Rightarrow> lhb" where
  "wait_end request t =
     upd_own (lrq_owner (lhb_lrqs t request)) (\<lambda>ow. ow\<lparr>own_pending_request := 0, own_semaphore := False\<rparr>) t"

section \<open>Requests\<close>

text \<open>
  What a request for a lock comes to in one hold of the table: granted, denied with a
  status, or waiting.
\<close>

datatype outcome = Granted | Denied lock_status | Waiting

definition wait_status :: "int \<Rightarrow> lock_status" where
  "wait_status lck_wait =
     (if lck_wait > 0 then gds_deadlock else if lck_wait < 0 then gds_lock_timeout else gds_lock_conflict)"

definition count_deny :: "int \<Rightarrow> lhb \<Rightarrow> lhb" where
  "count_deny lck_wait t = (let t1 = bump lhb_denies t in if lck_wait < 0 then bump lhb_timeouts t1 else t1)"

text \<open>The end of \<^verbatim>\<open>grant_or_que\<close>: the request is not to be granted.\<close>

definition deny_request :: "ptr \<Rightarrow> int \<Rightarrow> lhb \<Rightarrow> lhb" where
  "deny_request request lck_wait t = release_request request (count_deny lck_wait t)"

definition grant_or_que :: "ptr \<Rightarrow> ptr \<Rightarrow> int \<Rightarrow> lhb \<Rightarrow> outcome \<times> lhb" where
  "grant_or_que request lock lck_wait t =
     (let t1 = upd_lrq request (\<lambda>q. q\<lparr>lrq_lock := lock\<rparr>) t;
          req = lhb_lrqs t1 request;
          k = lhb_lbls t1 lock
      in if COMPATIBLE (lrq_requested req) (lbl_state k) \<and>
            (\<not> LOCK_ordering t \<or> lrq_requested req = LCK_null \<or> lbl_pending_lrq_count k = 0)
         then (Granted, post_pending lock (grant request lock t1))
         else if lck_wait \<noteq> 0 then (Waiting, wait_begin request t1)
         else (Denied (wait_status lck_wait), deny_request request lck_wait t1))"

text \<open>What \<^verbatim>\<open>grant_or_que\<close> does once the wait is over.\<close>

definition enq_resume :: "ptr \<Rightarrow> int \<Rightarrow> lhb \<Rightarrow> outcome \<times> lhb" where
  "enq_resume request lck_wait t =
     (let t1 = wait_end request t in
      if lrq_rejected (lhb_lrqs t1 request)
      then (Denied (wait_status lck_wait), deny_request request lck_wait t1)
      else (Granted, t1))"

subsection \<open>Lookup\<close>

text \<open>Every fourth byte of the key starts over at the first byte of \<^verbatim>\<open>hash_value\<close>.\<close>

fun hash_bytes :: "nat \<Rightarrow> byte list \<Rightarrow> byte list \<Rightarrow> byte list" where
  "hash_bytes l [] h = h"
| "hash_bytes l (b # value) h = hash_bytes (Suc l) value (h[l mod 4 := b])"

definition hash_value :: "byte list \<Rightarrow> nat" where
  "hash_value value =
     (let h = hash_bytes 0 value [0, 0, 0, 0]
      in unat (h ! 0) + 256 * unat (h ! 1) + 65536 * unat (h ! 2) + 16777216 * unat (h ! 3))"

definition hash_slot :: "byte list \<Rightarrow> lhb \<Rightarrow> nat" where
  "hash_slot value t = hash_value value mod lhb_hash_slots t mod 65536"

definition find_lock :: "ptr \<Rightarrow> nat \<Rightarrow> byte list \<Rightarrow> lhb \<Rightarrow> ptr option" where
  "find_lock parent series value t =
     List.find (\<lambda>lock. let k = lhb_lbls t lock in
         \<not> (lbl_series k \<noteq> series \<or> lbl_length k \<noteq> length value \<or> lbl_parent k \<noteq> parent) \<and>
         take (length value) (lbl_key k) = value)
       (lhb_hash t (hash_slot value t))"

subsection \<open>Allocation\<close>

text \<open>
  Block sizes of a 32-bit build.  \<open>remap\<close> stands for \<^verbatim>\<open>ISC_remap_file\<close>: the length of the
  mapping that was obtained when one of the given length was asked for, if any.
\<close>

definition lrq_bytes :: nat where "lrq_bytes = 48"
definition lbl_bytes :: nat where "lbl_bytes = 56"

definition alloc :: "(nat \<Rightarrow> nat option) \<Rightarrow> nat \<Rightarrow> lhb \<Rightarrow> (ptr \<times> lhb) option" where
  "alloc remap bytes t =
     (let block = lhb_used t; used = lhb_used t + (bytes + 3) div 4 * 4 in
      if used > lhb_length t
      then case remap (lhb_length t + 32768) of
             None \<Rightarrow> None
           | Some mapped \<Rightarrow> Some (block, t\<lparr>lhb_length := mapped, lhb_used := used\<rparr>)
      else Some (block, t\<lparr>lhb_used := used\<rparr>))"

definition alloc_request :: "(nat \<Rightarrow> nat option) \<Rightarrow> lhb \<Rightarrow> (ptr \<times> lhb) option" where
  "alloc_request remap t =
     (case lhb_free_requests t of
        [] \<Rightarrow> alloc remap lrq_bytes t
      | request # que \<Rightarrow> Some (request, t\<lparr>lhb_free_requests := que\<rparr>))"

definition alloc_lock :: "(nat \<Rightarrow> nat option) \<Rightarrow> nat \<Rightarrow> lhb \<Rightarrow> (ptr \<times> lhb) option" where
  "alloc_lock remap len t =
     (let bytes = (len + 3) div 4 * 4 mod 65536 in
      case List.find (\<lambda>lock. lbl_size (lhb_lbls t lock) = bytes) (lhb_free_locks t) of
        Some lock \<Rightarrow>
          Some (lock, upd_lbl lock (\<lambda>k. k\<lparr>lbl_in_use := True\<rparr>)
                        (t\<lparr>lhb_free_locks := remove1 lock (lhb_free_locks t)\<rparr>))
      | None \<Rightarrow>
          map_option (\<lambda>(lock, t1). (lock, upd_lbl lock (\<lambda>k. k\<lparr>lbl_size := bytes mod 256, lbl_in_use := True\<rparr>) t1))
            (alloc remap (lbl_bytes + bytes) t))"

definition operation_slot :: "nat \<Rightarrow> nat" where
  "operation_slot series = (if series < LCK_MAX_SERIES then series else 0)"

subsection \<open>LOCK\_enq\<close>

definition init_request :: "ptr \<Rightarrow> nat \<Rightarrow> nat \<Rightarrow> nat \<Rightarrow> ptr \<Rightarrow> lhb \<Rightarrow> lhb" where
  "init_request request type ast_routine ast_argument owner t =
     upd_own owner (\<lambda>ow. ow\<lparr>own_requests := own_requests ow @ [request]\<rparr>)
       (upd_lrq request (\<lambda>q. q\<lparr>lrq_in_use := True, lrq_blocking := False, lrq_pending := False,
          lrq_rejected := False, lrq_deadlock := False, lrq_repost := False, lrq_scanned := False,
          lrq_requested := type, lrq_state := LCK_none, lrq_data := 0, lrq_owner := owner,
          lrq_ast_routine := ast_routine, lrq_ast_argument := ast_argument\<rparr>) t)"

text \<open>A new lock block is set up, hashed and granted.\<close>

definition new_lock :: "ptr \<Rightarrow> ptr \<Rightarrow> ptr \<Rightarrow> nat \<Rightarrow> byte list \<Rightarrow> nat \<Rightarrow> int \<Rightarrow> lhb \<Rightarrow> lhb" where
  "new_lock lock request parent series value type data t =
     (let t1 = upd_lbl lock (\<lambda>k. k\<lparr>lbl_state := type, lbl_parent := parent, lbl_series := series mod 256, lbl_data := data\<rparr>) t;
          t2 = (if data \<noteq> 0 then insert_data_que lock t1 else t1);
          t3 = bump (lhb_operations (operation_slot series)) t2;
          t4 = upd_lbl lock (\<lambda>k. k\<lparr>lbl_pending_lrq_count := 0, lbl_counts := (\<lambda>_. 0), lbl_key := value,
                 lbl_requests := [request]\<rparr>) t3;
          slot = hash_slot value t4;
          t5 = t4\<lparr>lhb_hash := (lhb_hash t4)(slot := lhb_hash t4 slot @ [lock])\<rparr>
      in grant request lock (upd_lrq request (\<lambda>q. q\<lparr>lrq_lock := lock\<rparr>) t5))"

datatype enq_result = No_owner | Enq ptr outcome

definition enq_request ::
  "(nat \<Rightarrow> nat option) \<Rightarrow> ptr \<Rightarrow> nat \<Rightarrow> byte list \<Rightarrow> nat \<Rightarrow> nat \<Rightarrow> nat \<Rightarrow> int \<Rightarrow> int \<Rightarrow> ptr \<Rightarrow> lhb \<Rightarrow> enq_result \<times> lhb" where
  "enq_request remap parent series value type ast_routine ast_argument data lck_wait owner t =
     (case alloc_request remap t of
        None \<Rightarrow> (Enq 0 (Denied lock_manager_out_of_room), t)
      | Some (request, t1) \<Rightarrow>
          (let t2 = init_request request type ast_routine ast_argument owner t1 in
           case find_lock parent series value t2 of
             Some lock \<Rightarrow>
               (let t3 = bump (lhb_operations (operation_slot series)) t2;
                    t4 = upd_lbl lock (\<lambda>k. k\<lparr>lbl_requests := lbl_requests k @ [request]\<rparr>) t3;
                    (res, t5) = grant_or_que request lock lck_wait (upd_lrq request (\<lambda>q. q\<lparr>lrq_data := data\<rparr>) t4)
                in (Enq request res, t5))
           | None \<Rightarrow>
               (case alloc_lock remap (length value) t2 of
                  None \<Rightarrow>
                    (let t3 = upd_own owner (\<lambda>ow. ow\<lparr>own_requests := remove1 request (own_requests ow)\<rparr>) t2
                     in (Enq 0 (Denied lock_manager_out_of_room),
                         (upd_lrq request (\<lambda>q. q\<lparr>lrq_in_use := False\<rparr>) t3)
                           \<lparr>lhb_free_requests := lhb_free_requests t3 @ [request]\<rparr>))
                | Some (lock, t3) \<Rightarrow> (Enq request Granted, new_lock lock request parent series value type data t3))))"

definition LOCK_enq ::
  "(nat \<Rightarrow> nat option) \<Rightarrow> ptr \<Rightarrow> ptr \<Rightarrow> nat \<Rightarrow> byte list \<Rightarrow> nat \<Rightarrow> nat \<Rightarrow> nat \<Rightarrow> int \<Rightarrow> int \<Rightarrow> ptr \<Rightarrow> lhb
     \<Rightarrow> lock_bug + (enq_result \<times> lhb)" where
  "LOCK_enq remap prior_request parent_request series value type ast_routine ast_argument data lck_wait owner t =
     (if owner = 0 \<or> own_count (lhb_owns t owner) = 0 then Inr (No_owner, t)
      else bind_result (if prior_request \<noteq> 0 then dequeue prior_request (bump lhb_enqs t) else Inr (bump lhb_enqs t))
        (\<lambda>t1. bind_result (if parent_request \<noteq> 0 then map_result lrq_lock (get_request parent_request t1) else Inr 0)
          (\<lambda>parent. Inr (enq_request remap parent series value type ast_routine ast_argument data lck_wait owner t1))))"

subsection \<open>LOCK\_convert, LOCK\_downgrade, LOCK\_deq\<close>

definition set_ast :: "nat \<Rightarrow> nat \<Rightarrow> lrq \<Rightarrow> lrq" where
  "set_ast ast_routine ast_argument q = q\<lparr>lrq_ast_routine := ast_routine, lrq_ast_argument := ast_argument\<rparr>"

text \<open>The conversion is refused; the request stays in the state it had.\<close>

definition deny_convert :: "ptr \<Rightarrow> int \<Rightarrow> lhb \<Rightarrow> lhb" where
  "deny_convert request lck_wait t =
     count_deny lck_wait (upd_lrq request (\<lambda>q. q\<lparr>lrq_requested := lrq_state q\<rparr>) t)"

definition convert :: "ptr \<Rightarrow> nat \<Rightarrow> int \<Rightarrow> nat \<Rightarrow> nat \<Rightarrow> lhb \<Rightarrow> lock_bug + (outcome \<times> lhb)" where
  "convert request type lck_wait ast_routine ast_argument t =
     bind_result (get_request request t)
       (\<lambda>req. let lock = lrq_lock req;
                  t1 = upd_lrq request (\<lambda>q. q\<lparr>lrq_requested := type\<rparr>) t;
                  t2 = upd_lbl lock (count_down (lrq_state req)) t1;
                  temp = lock_state (lhb_lbls t2 lock)
              in Inr (if COMPATIBLE type temp
                      then (Granted, post_pending lock (grant request lock (upd_lrq request (set_ast ast_routine ast_argument) t2)))
                      else let t3 = upd_lbl lock (count_up (lrq_state req)) t2
                           in if lck_wait \<noteq> 0 then (Waiting, wait_begin request t3)
                              else (Denied (wait_status lck_wait), deny_convert request lck_wait t3)))"

text \<open>What \<^verbatim>\<open>convert\<close> does once the wait is over.\<close>

definition convert_resume :: "ptr \<Rightarrow> int \<Rightarrow> nat \<Rightarrow> nat \<Rightarrow> lhb \<Rightarrow> outcome \<times> lhb" where
  "convert_resume request lck_wait ast_routine ast_argument t =
     (let t1 = wait_end request t; req = lhb_lrqs t1 request in
      if lrq_rejected req
      then (Denied (wait_status lck_wait), deny_convert request lck_wait (post_pending (lrq_lock req) t1))
      else (Granted, upd_lrq request (set_ast ast_routine ast_argument) t1))"

definition LOCK_convert :: "ptr \<Rightarrow> nat \<Rightarrow> int \<Rightarrow> nat \<Rightarrow> nat \<Rightarrow> lhb \<Rightarrow> lock_bug + (outcome option \<times> lhb)" where
  "LOCK_convert request type lck_wait ast_routine ast_argument t =
     bind_result (get_request request t)
       (\<lambda>req. if own_count (lhb_owns t (lrq_owner req)) = 0 then Inr (None, t)
              else map_result (map_prod Some id)
                (convert request type lck_wait ast_routine ast_argument
                  (bump (lhb_operations (operation_slot (lbl_series (lhb_lbls t (lrq_lock req))))) (bump lhb_converts t))))"

definition LOCK_deq :: "ptr \<Rightarrow> lhb \<Rightarrow> lock_bug + (bool \<times> lhb)" where
  "LOCK_deq request t =
     bind_result (get_request request t)
       (\<lambda>req. if own_count (lhb_owns t (lrq_owner req)) = 0 then Inr (False, t)
              else map_result (Pair True)
                (dequeue request
                  (bump (lhb_operations (operation_slot (lbl_series (lhb_lbls t (lrq_lock req))))) (bump lhb_deqs t))))"

text \<open>The highest state requested by another request waiting for the lock.\<close>

fun pending_state :: "(ptr \<Rightarrow> lrq) \<Rightarrow> ptr \<Rightarrow> ptr list \<Rightarrow> nat \<Rightarrow> nat" where
  "pending_state lrqs request [] st = st"
| "pending_state lrqs request (pending # que) st =
     (if lrq_pending (lrqs pending) \<and> pending \<noteq> request
      then let st1 = max (lrq_requested (lrqs pending)) st
           in if st1 = LCK_EX then st1 else pending_state lrqs request que st1
      else pending_state lrqs request que st)"

fun downgrade_state :: "nat \<Rightarrow> nat \<Rightarrow> nat" where
  "downgrade_state pending 0 = 0"
| "downgrade_state pending (Suc state) =
     (if COMPATIBLE pending (Suc state) then Suc state else downgrade_state pending state)"

definition LOCK_downgrade :: "ptr \<Rightarrow> lhb \<Rightarrow> lock_bug + (nat \<times> lhb)" where
  "LOCK_downgrade request t =
     bind_result (get_request request t)
       (\<lambda>req. if own_count (lhb_owns t (lrq_owner req)) = 0 then Inr (0, t)
              else let t1 = bump lhb_downgrades t;
                       pending = pending_state (lhb_lrqs t1) request (lbl_requests (lhb_lbls t1 (lrq_lock req))) LCK_none;
                       state = downgrade_state pending (lrq_state req)
                   in if state = LCK_none \<or> state = LCK_null
                      then map_result (Pair LCK_none) (dequeue request t1)
                      else map_result (\<lambda>(_, t2). (state, t2))
                             (convert request state 0 (lrq_ast_routine req) (lrq_ast_argument req) t1))"

end
