(* ===== verification/Lock_Inv.thy ===== *)
theory Lock_Inv
  imports Lock
begin

text \<open>
  The invariant of the lock table: the requests of a lock hold pairwise compatible states,
  the counts and the state kept in the lock block are those of its requests, and the
  queues agree with the blocks.  Every operation of \<^verbatim>\<open>src/lock/lock.c\<close> preserves it.
\<close>

section \<open>Lock modes\<close>

text \<open>
  What the lock manager relies on when it compares a request with the highest state held
  instead of with every request: a mode compatible with the highest held mode is
  compatible with all that are held together with it.
\<close>

locale lock_modes =
  fixes compat :: "nat \<Rightarrow> nat \<Rightarrow> bool" and top :: nat
  assumes compat_sym: "x \<le> top \<Longrightarrow> y \<le> top \<Longrightarrow> compat x y = compat y x"
    and compat_bottom: "x \<le> top \<Longrightarrow> compat x 0"
    and compat_below: "x \<le> top \<Longrightarrow> m \<le> top \<Longrightarrow> s \<le> m \<Longrightarrow> compat m s \<Longrightarrow> compat x m \<Longrightarrow> compat x s"
begin

definition held :: "'r set \<Rightarrow> ('r \<Rightarrow> nat) \<Rightarrow> bool" where
  "held R st \<longleftrightarrow> (\<forall>r \<in> R. st r \<le> top \<and> (\<forall>r' \<in> R. r \<noteq> r' \<longrightarrow> compat (st r) (st r')))"

lemma held_subset: "held R st \<Longrightarrow> S \<subseteq> R \<Longrightarrow> held S st"
  unfolding held_def by blast

lemma held_cong: "(\<And>r. r \<in> R \<Longrightarrow> st r = st' r) \<Longrightarrow> held R st = held R st'"
  unfolding held_def by auto

lemma held_grant:
  assumes "held (R - {r}) st" "x \<le> top" "m \<le> top" "compat x m"
    and "\<forall>q \<in> R - {r}. st q \<le> m" "m = 0 \<or> (\<exists>q \<in> R - {r}. st q = m)"
  shows "held R (st(r := x))"
proof -
  have "compat x (st q)" if "q \<in> R - {r}" for q
  proof (cases "m = 0 \<or> st q = m")
    case True
    then show ?thesis using assms(2,4,5) that compat_bottom by auto
  next
    case False
    then obtain w where "w \<in> R - {r}" "st w = m" "w \<noteq> q" using assms(6) by auto
    then have "compat m (st q)" using assms(1) that unfolding held_def by auto
    then show ?thesis using compat_below assms(2-5) that by blast
  qed
  moreover have "compat (st q) x" if "q \<in> R - {r}" for q
    using calculation [OF that] compat_sym assms(1,2) that unfolding held_def by blast
  ultimately show ?thesis using assms(1,2) unfolding held_def by auto
qed

end

lemma less_7_cases: "(x::nat) \<le> 6 \<longleftrightarrow> x \<in> {0, 1, 2, 3, 4, 5, 6}"
  by auto

interpretation ib: lock_modes COMPATIBLE LCK_EX
proof
  show "COMPATIBLE x y = COMPATIBLE y x" if "x \<le> LCK_EX" "y \<le> LCK_EX" for x y
    using that unfolding less_7_cases
    by (elim insertE emptyE; simp add: COMPATIBLE_def compatibility_def)
  show "COMPATIBLE x 0" if "x \<le> LCK_EX" for x
    using that unfolding less_7_cases by (elim insertE emptyE; simp add: COMPATIBLE_def compatibility_def)
  show "COMPATIBLE x s" if "x \<le> LCK_EX" "m \<le> LCK_EX" "s \<le> m" "COMPATIBLE m s" "COMPATIBLE x m" for x m s
  proof -
    have "s \<le> LCK_EX" using that(2,3) by simp
    with that show ?thesis unfolding less_7_cases
      by (elim insertE emptyE; simp add: COMPATIBLE_def compatibility_def)
  qed
qed

section \<open>Counts\<close>

definition counts_ok :: "(nat \<Rightarrow> nat) \<Rightarrow> 'r set \<Rightarrow> ('r \<Rightarrow> nat) \<Rightarrow> bool" where
  "counts_ok c R st \<longleftrightarrow> (\<forall>s. 1 \<le> s \<and> s \<le> LCK_EX \<longrightarrow> c s = card {r \<in> R. st r = s})"

lemma inc16_eq [simp]: "n < 65535 \<Longrightarrow> inc16 n = n + 1"
  by (simp add: inc16_def)

lemma dec16_eq [simp]: "0 < n \<Longrightarrow> n < 65536 \<Longrightarrow> dec16 n = n - 1"
  unfolding dec16_def by (cases n) simp_all

lemma inc16_dec16 [simp]: "n < 65536 \<Longrightarrow> inc16 (dec16 n) = n"
  unfolding inc16_def dec16_def by (cases n) (simp_all add: mod_Suc)

lemma inc16_bound [simp]: "inc16 n < 65536" and dec16_bound [simp]: "dec16 n < 65536"
  by (simp_all add: inc16_def dec16_def)

lemma state_of_counts_spec:
  assumes "counts_ok c R st" "finite R" "\<forall>r \<in> R. st r \<le> LCK_EX"
  shows "\<forall>r \<in> R. st r \<le> state_of_counts c"
    and "state_of_counts c = 0 \<or> (\<exists>r \<in> R. st r = state_of_counts c)"
    and "state_of_counts c \<le> LCK_EX"
proof -
  have zero: "c s = 0 \<longleftrightarrow> (\<forall>r \<in> R. st r \<noteq> s)" if "1 \<le> s" "s \<le> LCK_EX" for s
    using that assms(1,2) by (auto simp: counts_ok_def card_eq_0_iff)
  show "state_of_counts c \<le> LCK_EX" by (simp add: state_of_counts_def)
  show "state_of_counts c = 0 \<or> (\<exists>r \<in> R. st r = state_of_counts c)"
    using zero [of 1] zero [of 2] zero [of 3] zero [of 4] zero [of 5] zero [of 6]
    by (auto simp: state_of_counts_def)
  show "\<forall>r \<in> R. st r \<le> state_of_counts c"
  proof
    fix r assume r: "r \<in> R"
    show "st r \<le> state_of_counts c"
    proof (rule ccontr)
      assume "\<not> st r \<le> state_of_counts c"
      moreover have "st r \<in> {0, 1, 2, 3, 4, 5, 6}" using assms(3) r less_7_cases by blast
      ultimately show False
        using r zero [of "st r"] by (auto simp: state_of_counts_def split: if_splits)
    qed
  qed
qed

lemma counts_ok_remove:
  assumes "counts_ok c R st" "finite R" "r \<in> R" "card R < 65536"
  shows "counts_ok (c(st r := dec16 (c (st r)))) (R - {r}) st"
  unfolding counts_ok_def
proof (intro allI impI)
  fix s assume s: "1 \<le> s \<and> s \<le> LCK_EX"
  then have c: "c s = card {q \<in> R. st q = s}" using assms(1) by (simp add: counts_ok_def)
  show "(c(st r := dec16 (c (st r)))) s = card {q \<in> R - {r}. st q = s}"
  proof (cases "s = st r")
    case True
    then have "{q \<in> R - {r}. st q = s} = {q \<in> R. st q = s} - {r}" "r \<in> {q \<in> R. st q = s}" using assms(3) by auto
    then have card: "card {q \<in> R - {r}. st q = s} = c s - 1" "0 < c s"
      using assms(2) c by (auto simp: card_gt_0_iff)
    moreover have "c s < 65536" using c assms(2,4) card_mono [of R "{q \<in> R. st q = s}"] by auto
    ultimately show ?thesis using True by simp
  next
    case False
    then have "{q \<in> R - {r}. st q = s} = {q \<in> R. st q = s}" by auto
    with False c show ?thesis by simp
  qed
qed

lemma counts_ok_add:
  assumes "counts_ok c (R - {r}) st" "finite R" "r \<in> R" "card R < 65536"
  shows "counts_ok (c(x := inc16 (c x))) R (st(r := x))"
  unfolding counts_ok_def
proof (intro allI impI)
  fix s assume s: "1 \<le> s \<and> s \<le> LCK_EX"
  then have c: "c s = card {q \<in> R - {r}. st q = s}" using assms(1) by (simp add: counts_ok_def)
  show "(c(x := inc16 (c x))) s = card {q \<in> R. (st(r := x)) q = s}"
  proof (cases "s = x")
    case True
    then have "{q \<in> R. (st(r := x)) q = s} = insert r {q \<in> R - {r}. st q = s}" using assms(3) by auto
    then have card: "card {q \<in> R. (st(r := x)) q = s} = c s + 1" using assms(2) c by simp
    have "c s \<le> card (R - {r})" using c assms(2) by (auto intro: card_mono)
    then have "c s < 65535" using assms(2-4) by simp
    with True card show ?thesis by simp
  next
    case False
    then have "{q \<in> R. (st(r := x)) q = s} = {q \<in> R - {r}. st q = s}" by auto
    with False c show ?thesis by simp
  qed
qed

lemma counts_ok_drop:
  assumes "counts_ok c R st" "st r = 0"
  shows "counts_ok c (R - {r}) st"
  unfolding counts_ok_def
proof (intro allI impI)
  fix s assume s: "1 \<le> s \<and> s \<le> LCK_EX"
  then have "{q \<in> R - {r}. st q = s} = {q \<in> R. st q = s}" using assms(2) by auto
  with s assms(1) show "c s = card {q \<in> R - {r}. st q = s}" by (simp add: counts_ok_def)
qed

lemma counts_ok_cong:
  assumes "\<And>r. r \<in> R \<Longrightarrow> st r = st' r"
  shows "counts_ok c R st = counts_ok c R st'"
proof -
  have "{r \<in> R. st r = s} = {r \<in> R. st' r = s}" for s using assms by auto
  then show ?thesis by (simp add: counts_ok_def)
qed

section \<open>One lock\<close>

abbreviation queue :: "lhb \<Rightarrow> ptr \<Rightarrow> ptr list" where
  "queue t l \<equiv> lbl_requests (lhb_lbls t l)"

abbreviation state_in :: "lhb \<Rightarrow> ptr \<Rightarrow> nat" where
  "state_in t r \<equiv> lrq_state (lhb_lrqs t r)"

text \<open>
  \<open>lock_shape\<close> is what holds of a lock block and its requests while one of them is being
  regranted; \<open>lock_ok\<close> what holds between operations, and \<open>lock_open\<close> what holds when the
  state of request \<open>r\<close> has been taken out of the counts.
\<close>

definition lock_shape :: "lhb \<Rightarrow> ptr \<Rightarrow> bool" where
  "lock_shape t l \<longleftrightarrow>
     distinct (queue t l) \<and> length (queue t l) < 65536 \<and>
     (\<forall>r \<in> set (queue t l). lrq_in_use (lhb_lrqs t r) \<and> lrq_lock (lhb_lrqs t r) = l \<and>
        state_in t r \<le> LCK_EX \<and> lrq_requested (lhb_lrqs t r) \<le> LCK_EX) \<and>
     (\<forall>s. lbl_counts (lhb_lbls t l) s < 65536) \<and>
     lbl_pending_lrq_count (lhb_lbls t l) = card {r \<in> set (queue t l). lrq_pending (lhb_lrqs t r)}"

definition lock_ok :: "lhb \<Rightarrow> ptr \<Rightarrow> bool" where
  "lock_ok t l \<longleftrightarrow>
     lock_shape t l \<and> counts_ok (lbl_counts (lhb_lbls t l)) (set (queue t l)) (state_in t) \<and>
     lbl_state (lhb_lbls t l) = lock_state (lhb_lbls t l) \<and> ib.held (set (queue t l)) (state_in t)"

definition lock_open :: "lhb \<Rightarrow> ptr \<Rightarrow> ptr \<Rightarrow> bool" where
  "lock_open t l r \<longleftrightarrow>
     lock_shape t l \<and> r \<in> set (queue t l) \<and>
     counts_ok (lbl_counts (lhb_lbls t l)) (set (queue t l) - {r}) (state_in t) \<and>
     ib.held (set (queue t l) - {r}) (state_in t)"

text \<open>
  The resource a lock block stands for: its parent, its series and as much of its key as its
  \<^verbatim>\<open>lbl_length\<close> says.
\<close>

definition used_key :: "lbl \<Rightarrow> byte list" where
  "used_key k = take (lbl_length k) (lbl_key k)"

definition resource :: "lbl \<Rightarrow> ptr \<times> nat \<times> byte list" where
  "resource k = (lbl_parent k, lbl_series k, used_key k)"

lemma used_key_eq: "used_key k = v \<longleftrightarrow> lbl_length k = length v \<and> take (length v) (lbl_key k) = v"
  by (auto simp: used_key_def lbl_length_def min_def)

lemma used_key_short: "length (lbl_key k) < 256 \<Longrightarrow> used_key k = lbl_key k"
  by (simp add: used_key_def lbl_length_def)

lemma used_key_upd [simp]:
  "used_key (k\<lparr>lbl_in_use := b\<rparr>) = used_key k" "used_key (k\<lparr>lbl_state := n\<rparr>) = used_key k"
  "used_key (k\<lparr>lbl_requests := que\<rparr>) = used_key k" "used_key (k\<lparr>lbl_data := d\<rparr>) = used_key k"
  "used_key (k\<lparr>lbl_pending_lrq_count := n\<rparr>) = used_key k" "used_key (k\<lparr>lbl_counts := c\<rparr>) = used_key k"
  by (simp_all add: used_key_def lbl_length_def)

text \<open>The part of a request the invariant of a lock looks at.\<close>

definition core :: "lrq \<Rightarrow> bool \<times> bool \<times> nat \<times> nat \<times> ptr" where
  "core q = (lrq_in_use q, lrq_pending q, lrq_requested q, lrq_state q, lrq_lock q)"

lemma lock_ok_cong:
  assumes "lhb_lbls t' l = lhb_lbls t l" "\<And>r. r \<in> set (queue t l) \<Longrightarrow> core (lhb_lrqs t' r) = core (lhb_lrqs t r)"
  shows "lock_ok t' l = lock_ok t l"
proof -
  have eq: "lrq_in_use (lhb_lrqs t' r) = lrq_in_use (lhb_lrqs t r)" "lrq_pending (lhb_lrqs t' r) = lrq_pending (lhb_lrqs t r)"
    "lrq_requested (lhb_lrqs t' r) = lrq_requested (lhb_lrqs t r)" "state_in t' r = state_in t r"
    "lrq_lock (lhb_lrqs t' r) = lrq_lock (lhb_lrqs t r)" if "r \<in> set (queue t l)" for r
    using assms(2) [OF that] by (simp_all add: core_def)
  have "{r \<in> set (queue t l). lrq_pending (lhb_lrqs t' r)} = {r \<in> set (queue t l). lrq_pending (lhb_lrqs t r)}"
    using eq(2) by auto
  moreover have "counts_ok c (set (queue t l)) (state_in t') = counts_ok c (set (queue t l)) (state_in t)" for c
    using eq(4) by (intro counts_ok_cong) auto
  moreover have "ib.held (set (queue t l)) (state_in t') = ib.held (set (queue t l)) (state_in t)"
    using eq(4) by (intro ib.held_cong) auto
  ultimately show ?thesis
    unfolding lock_ok_def lock_shape_def assms(1) using eq by auto
qed

subsection \<open>Projections of the updates\<close>

lemma upd_simps [simp]:
  "lhb_lrqs (upd_lrq r f t) = (lhb_lrqs t)(r := f (lhb_lrqs t r))"
  "lhb_lbls (upd_lrq r f t) = lhb_lbls t"
  "lhb_owns (upd_lrq r f t) = lhb_owns t"
  "lhb_lrqs (upd_lbl l g t) = lhb_lrqs t"
  "lhb_lbls (upd_lbl l g t) = (lhb_lbls t)(l := g (lhb_lbls t l))"
  "lhb_owns (upd_lbl l g t) = lhb_owns t"
  "lhb_lrqs (upd_own p h t) = lhb_lrqs t"
  "lhb_lbls (upd_own p h t) = lhb_lbls t"
  "lhb_owns (upd_own p h t) = (lhb_owns t)(p := h (lhb_owns t p))"
  "lhb_lrqs (bump s t) = lhb_lrqs t" "lhb_lbls (bump s t) = lhb_lbls t" "lhb_owns (bump s t) = lhb_owns t"
  by (simp_all add: upd_lrq_def upd_lbl_def upd_own_def bump_def)

text \<open>
  The fields that only allocation, hashing and the free lists change.
\<close>

definition rest :: "lhb \<Rightarrow> ptr list \<times> ptr list \<times> ptr list \<times> nat \<times> nat \<times> (nat \<Rightarrow> ptr list) \<times> bool" where
  "rest t = (lhb_owners t, lhb_free_locks t, lhb_free_requests t, lhb_used t, lhb_hash_slots t, lhb_hash t,
     LOCK_ordering t)"

lemma rest_simps [simp]:
  "rest (upd_lrq r f t) = rest t" "rest (upd_lbl l g t) = rest t" "rest (upd_own p h t) = rest t" "rest (bump s t) = rest t"
  by (simp_all add: rest_def upd_lrq_def upd_lbl_def upd_own_def bump_def)

lemma count_simps [simp]:
  "lbl_counts (count_up s k) = (lbl_counts k)(s := inc16 (lbl_counts k s))"
  "lbl_counts (count_down s k) = (lbl_counts k)(s := dec16 (lbl_counts k s))"
  "lbl_in_use (count_up s k) = lbl_in_use k" "lbl_in_use (count_down s k) = lbl_in_use k"
  "lbl_state (count_up s k) = lbl_state k" "lbl_state (count_down s k) = lbl_state k"
  "lbl_requests (count_up s k) = lbl_requests k" "lbl_requests (count_down s k) = lbl_requests k"
  "lbl_pending_lrq_count (count_up s k) = lbl_pending_lrq_count k"
  "lbl_pending_lrq_count (count_down s k) = lbl_pending_lrq_count k"
  "resource (count_up s k) = resource k" "resource (count_down s k) = resource k"
  by (simp_all add: count_up_def count_down_def resource_def)

lemma count_down_up: "lbl_counts k s < 65536 \<Longrightarrow> count_up s (count_down s k) = k"
  by (simp add: count_up_def count_down_def)

lemma post_wakeup_simps [simp]:
  "lhb_lrqs (post_wakeup p t) = lhb_lrqs t" "lhb_lbls (post_wakeup p t) = lhb_lbls t" "rest (post_wakeup p t) = rest t"
  "own_requests (lhb_owns (post_wakeup p t) q) = own_requests (lhb_owns t q)"
  "lhb_data (post_wakeup p t) = lhb_data t"
  by (simp_all add: post_wakeup_def, simp_all add: upd_own_def bump_def)

lemma set_lock_data_simps [simp]:
  "lhb_lrqs (set_lock_data l d t) = lhb_lrqs t"
  "lhb_lbls (set_lock_data l d t) = (lhb_lbls t)(l := (lhb_lbls t l)\<lparr>lbl_data := d\<rparr>)"
  "lhb_owns (set_lock_data l d t) = lhb_owns t"
  "rest (set_lock_data l d t) = rest t"
  by (simp_all add: set_lock_data_def insert_data_que_def remove_data_que_def upd_lbl_def rest_def Let_def)

text \<open>What \<open>grant\<close> does to the request and to the lock.\<close>

definition granted_request :: "lrq \<Rightarrow> lrq" where
  "granted_request q = q\<lparr>lrq_state := lrq_requested q, lrq_data := 0, lrq_pending := False\<rparr>"

definition granted_lock :: "lrq \<Rightarrow> lbl \<Rightarrow> lbl" where
  "granted_lock q k =
     (let c = (lbl_counts k)(lrq_requested q := inc16 (lbl_counts k (lrq_requested q))) in
      k\<lparr>lbl_counts := c, lbl_state := state_of_counts c,
        lbl_data := (if lrq_data q \<noteq> 0 then lrq_data q else lbl_data k),
        lbl_pending_lrq_count := (if lrq_pending q then dec16 (lbl_pending_lrq_count k) else lbl_pending_lrq_count k)\<rparr>)"

lemma grant_simps:
  "lhb_lrqs (grant r l t) = (lhb_lrqs t)(r := granted_request (lhb_lrqs t r))"
  "lhb_lbls (grant r l t) = (lhb_lbls t)(l := granted_lock (lhb_lrqs t r) (lhb_lbls t l))"
  "own_requests (lhb_owns (grant r l t) p) = own_requests (lhb_owns t p)"
  "rest (grant r l t) = rest t"
  by (auto simp: grant_def granted_request_def granted_lock_def Let_def lock_state_def count_up_def)

subsection \<open>Granting\<close>

lemma lock_openI_state0:
  assumes "lock_ok t l" "r \<in> set (queue t l)" "state_in t r = 0"
  shows "lock_open t l r"
  using assms counts_ok_drop [of _ _ "state_in t" r] ib.held_subset [of "set (queue t l)" "state_in t" "set (queue t l) - {r}"]
  by (auto simp: lock_ok_def lock_open_def)

lemma lock_openI_count_down:
  assumes "lock_ok t l" "r \<in> set (queue t l)"
  shows "lock_open (upd_lbl l (count_down (state_in t r)) t) l r"
proof -
  have q: "distinct (queue t l)" "length (queue t l) < 65536"
    "counts_ok (lbl_counts (lhb_lbls t l)) (set (queue t l)) (state_in t)" "ib.held (set (queue t l)) (state_in t)"
    using assms(1) by (auto simp: lock_ok_def lock_shape_def)
  have card: "card (set (queue t l)) < 65536" using q(1,2) by (simp add: distinct_card)
  from counts_ok_remove [OF q(3) _ assms(2) card] ib.held_subset [OF q(4)] assms show ?thesis
    by (auto simp: lock_open_def lock_ok_def lock_shape_def)
qed

lemma grant_lock_ok:
  assumes "lock_open t l r" "COMPATIBLE (lrq_requested (lhb_lrqs t r)) (lock_state (lhb_lbls t l))"
  shows "lock_ok (grant r l t) l"
proof -
  let ?R = "set (queue t l)" and ?k = "lhb_lbls t l" and ?q = "lhb_lrqs t r"
  have o: "lock_shape t l" "r \<in> ?R" "counts_ok (lbl_counts ?k) (?R - {r}) (state_in t)" "ib.held (?R - {r}) (state_in t)"
    using assms(1) by (auto simp: lock_open_def)
  have s: "distinct (queue t l)" "length (queue t l) < 65536" "lrq_requested ?q \<le> LCK_EX" "\<forall>p \<in> ?R. state_in t p \<le> LCK_EX"
    "lbl_pending_lrq_count ?k = card {p \<in> ?R. lrq_pending (lhb_lrqs t p)}"
    using o(1,2) by (auto simp: lock_shape_def)
  have card: "card ?R < 65536" using s(1,2) by (simp add: distinct_card)
  have st: "state_in (grant r l t) = (state_in t)(r := lrq_requested ?q)"
    by (auto simp: grant_simps granted_request_def)
  have queue: "queue (grant r l t) l = queue t l" by (simp add: grant_simps granted_lock_def Let_def)
  have pend: "{p \<in> ?R. lrq_pending (lhb_lrqs (grant r l t) p)} = {p \<in> ?R. lrq_pending (lhb_lrqs t p)} - {r}"
    by (auto simp: grant_simps granted_request_def)
  have "card {p \<in> ?R. lrq_pending (lhb_lrqs t p)} \<le> card ?R" by (rule card_mono) auto
  then have bound: "card {p \<in> ?R. lrq_pending (lhb_lrqs t p)} < 65536" using card by simp
  have "lbl_pending_lrq_count (lhb_lbls (grant r l t) l) = card {p \<in> ?R. lrq_pending (lhb_lrqs (grant r l t) p)}"
  proof (cases "lrq_pending ?q")
    case True
    then have mem: "r \<in> {p \<in> ?R. lrq_pending (lhb_lrqs t p)}" using o(2) by simp
    then have "card {p \<in> ?R. lrq_pending (lhb_lrqs t p)} > 0" by (auto simp: card_gt_0_iff)
    then show ?thesis unfolding pend using True s(5) bound mem
      by (simp add: grant_simps granted_lock_def Let_def card_Diff_singleton)
  next
    case False
    then have "{p \<in> ?R. lrq_pending (lhb_lrqs t p)} - {r} = {p \<in> ?R. lrq_pending (lhb_lrqs t p)}" by auto
    then show ?thesis unfolding pend using False s(5) by (simp add: grant_simps granted_lock_def Let_def)
  qed
  moreover have "lbl_counts (lhb_lbls (grant r l t) l) s < 65536" for s
    using o(1) by (simp add: lock_shape_def grant_simps granted_lock_def Let_def)
  ultimately have "lock_shape (grant r l t) l"
    using o(1) s(3) unfolding lock_shape_def queue by (simp add: grant_simps(1) granted_request_def)
  moreover have "counts_ok (lbl_counts (lhb_lbls (grant r l t) l)) ?R (state_in (grant r l t))"
    unfolding st using counts_ok_add [OF o(3) _ o(2) card, of "lrq_requested ?q"]
    by (simp add: grant_simps granted_lock_def Let_def)
  moreover have "ib.held ?R (state_in (grant r l t))"
    unfolding st
  proof (rule ib.held_grant [OF o(4) s(3)])
    note spec = state_of_counts_spec [OF o(3)]
    show "lock_state ?k \<le> LCK_EX" using spec(3) s(4) by (simp add: lock_state_def)
    show "\<forall>q \<in> ?R - {r}. state_in t q \<le> lock_state ?k" using spec(1) s(4) by (simp add: lock_state_def)
    show "lock_state ?k = 0 \<or> (\<exists>q \<in> ?R - {r}. state_in t q = lock_state ?k)" using spec(2) s(4) by (simp add: lock_state_def)
  qed (use assms(2) in simp)
  moreover have "lbl_state (lhb_lbls (grant r l t) l) = lock_state (lhb_lbls (grant r l t) l)"
    by (simp add: grant_simps granted_lock_def lock_state_def Let_def)
  ultimately show ?thesis by (simp add: lock_ok_def queue)
qed

lemma recount:
  assumes "lock_shape t l"
  shows "lhb_lbls (upd_lbl l (count_up s) (upd_lbl l (count_down s) t)) = lhb_lbls t"
    and "lhb_lrqs (upd_lbl l (count_up s) (upd_lbl l (count_down s) t)) = lhb_lrqs t"
  using assms count_down_up [of "lhb_lbls t l" s] by (auto simp: lock_shape_def)

text \<open>
  What an operation that only grants requests of lock \<open>l\<close> leaves as it is.
\<close>

definition grants_only :: "ptr \<Rightarrow> lhb \<Rightarrow> lhb \<Rightarrow> bool" where
  "grants_only l t t' \<longleftrightarrow>
     rest t' = rest t \<and> (\<forall>p. own_requests (lhb_owns t' p) = own_requests (lhb_owns t p)) \<and>
     (\<forall>k. k \<noteq> l \<longrightarrow> lhb_lbls t' k = lhb_lbls t k) \<and>
     set (queue t' l) = set (queue t l) \<and> lbl_in_use (lhb_lbls t' l) = lbl_in_use (lhb_lbls t l) \<and>
     resource (lhb_lbls t' l) = resource (lhb_lbls t l) \<and>
     (\<forall>r. r \<notin> set (queue t l) \<longrightarrow> lhb_lrqs t' r = lhb_lrqs t r) \<and>
     (\<forall>r. lrq_in_use (lhb_lrqs t' r) = lrq_in_use (lhb_lrqs t r) \<and> lrq_lock (lhb_lrqs t' r) = lrq_lock (lhb_lrqs t r) \<and>
          lrq_owner (lhb_lrqs t' r) = lrq_owner (lhb_lrqs t r))"

lemma grants_only_refl [simp]: "grants_only l t t"
  by (simp add: grants_only_def)

lemma grants_only_trans: "grants_only l t t' \<Longrightarrow> grants_only l t' t'' \<Longrightarrow> grants_only l t t''"
  by (simp add: grants_only_def)

lemma grants_only_grant: "r \<in> set (queue t l) \<Longrightarrow> grants_only l t (grant r l t)"
  by (auto simp: grants_only_def grant_simps granted_lock_def granted_request_def resource_def Let_def)

lemma grants_only_count [simp]:
  "grants_only l t (upd_lbl l (count_down s) t)" "grants_only l t (upd_lbl l (count_up s) t)"
  by (simp_all add: grants_only_def)

lemma grants_only_post_wakeup [simp]: "grants_only l t (post_wakeup p t)"
  by (simp add: grants_only_def)

subsection \<open>post\_pending\<close>

lemma post_pending_loop_ok:
  assumes "lock_ok t l" "set que \<subseteq> set (queue t l)"
  shows "lock_ok (post_pending_loop l que t) l \<and> grants_only l t (post_pending_loop l que t)"
  using assms
proof (induction que arbitrary: t)
  case (Cons r que)
  let ?req = "lhb_lrqs t r"
  have r: "r \<in> set (queue t l)" "set que \<subseteq> set (queue t l)" using Cons.prems(2) by auto
  have step: ?case
    if "post_pending_loop l (r # que) t = post_pending_loop l que t'" "lock_ok t' l" "grants_only l t t'" for t'
  proof -
    have "set que \<subseteq> set (queue t' l)" using r(2) that(3) by (simp add: grants_only_def)
    from Cons.IH [OF that(2) this] show ?thesis using that by (auto intro: grants_only_trans)
  qed
  have wake: "lock_ok (post_wakeup p t') l" if "lock_ok t' l" for t' p
    using that lock_ok_cong [of "post_wakeup p t'" l t'] by simp
  have quiet: ?case if "post_pending_loop l (r # que) t = (if LOCK_ordering t then t' else post_pending_loop l que t')"
    "lock_ok t' l" "grants_only l t t'" for t'
    using that step [of t'] by (cases "LOCK_ordering t") simp_all
  consider (skip) "\<not> lrq_pending ?req" | (conv) "lrq_pending ?req" "state_in t r \<noteq> 0" | (new) "lrq_pending ?req" "state_in t r = 0"
    by blast
  then show ?case
  proof cases
    case skip
    then show ?thesis using step [of t] Cons.prems(1) by simp
  next
    case conv
    let ?t1 = "upd_lbl l (count_down (state_in t r)) t"
    note op = lock_openI_count_down [OF Cons.prems(1) r(1)]
    show ?thesis
    proof (cases "COMPATIBLE (lrq_requested ?req) (lock_state (lhb_lbls ?t1 l))")
      case True
      have "grants_only l t (grant r l ?t1)"
        using grants_only_trans [OF _ grants_only_grant [of r ?t1 l]] r(1) by simp
      then show ?thesis using step [of "grant r l ?t1"] grant_lock_ok [OF op] True conv by (simp add: Let_def)
    next
      case False
      let ?t2 = "upd_lbl l (count_up (state_in t r)) ?t1"
      have "lock_ok ?t2 l"
        using Cons.prems(1) recount [of t l "state_in t r"] lock_ok_cong [of ?t2 l t] by (simp add: lock_ok_def)
      moreover have "grants_only l t ?t2" using grants_only_trans [OF grants_only_count(1) grants_only_count(2)] .
      ultimately show ?thesis
        using quiet [of "post_wakeup (lrq_owner ?req) ?t2"] wake grants_only_trans [OF _ grants_only_post_wakeup] False conv
        by (simp add: Let_def)
    qed
  next
    case new
    show ?thesis
    proof (cases "COMPATIBLE (lrq_requested ?req) (lbl_state (lhb_lbls t l))")
      case True
      then show ?thesis
        using step [of "grant r l t"] grants_only_grant [OF r(1)] new
          grant_lock_ok [OF lock_openI_state0 [OF Cons.prems(1) r(1)]] Cons.prems(1)
        by (simp add: lock_ok_def Let_def)
    next
      case False
      then show ?thesis
        using quiet [of "post_wakeup (lrq_owner ?req) t"] wake Cons.prems(1) new by (simp add: Let_def)
    qed
  qed
qed simp

lemma post_pending_ok:
  assumes "lock_ok t l"
  shows "lock_ok (post_pending l t) l" "grants_only l t (post_pending l t)"
  using post_pending_loop_ok [OF assms, of "queue t l"] assms by (simp_all add: post_pending_def)

end
