(* ===== verification/Lock_Table.thy ===== *)
theory Lock_Table
  imports Lock_Inv
begin

text \<open>
  The invariant of the whole lock table and its preservation by every operation, and the
  states a table can reach when the processes attached to it interleave their operations.
\<close>

section \<open>The invariant\<close>

text \<open>
  Every block in use is on the queues it belongs on; no resource has two lock blocks.
\<close>

definition requests_linked :: "lhb \<Rightarrow> bool" where
  "requests_linked t \<longleftrightarrow>
     (\<forall>r. lrq_in_use (lhb_lrqs t r) \<longrightarrow>
        r < lhb_used t \<and> lbl_in_use (lhb_lbls t (lrq_lock (lhb_lrqs t r))) \<and>
        r \<in> set (queue t (lrq_lock (lhb_lrqs t r))) \<and>
        r \<in> set (own_requests (lhb_owns t (lrq_owner (lhb_lrqs t r)))))"

definition requests_owned :: "lhb \<Rightarrow> bool" where
  "requests_owned t \<longleftrightarrow>
     (\<forall>p. distinct (own_requests (lhb_owns t p)) \<and>
        (\<forall>r \<in> set (own_requests (lhb_owns t p)). lrq_in_use (lhb_lrqs t r) \<and> lrq_owner (lhb_lrqs t r) = p))"

definition free_lists_ok :: "lhb \<Rightarrow> bool" where
  "free_lists_ok t \<longleftrightarrow>
     distinct (lhb_free_requests t) \<and>
     (\<forall>r \<in> set (lhb_free_requests t). \<not> lrq_in_use (lhb_lrqs t r) \<and> r < lhb_used t) \<and>
     distinct (lhb_free_locks t) \<and>
     (\<forall>l \<in> set (lhb_free_locks t). \<not> lbl_in_use (lhb_lbls t l) \<and> l < lhb_used t)"

definition locks_hashed :: "lhb \<Rightarrow> bool" where
  "locks_hashed t \<longleftrightarrow>
     (\<forall>l. lbl_in_use (lhb_lbls t l) \<longrightarrow>
        l < lhb_used t \<and> l \<in> set (lhb_hash t (hash_slot (used_key (lhb_lbls t l)) t))) \<and>
     (\<forall>s. distinct (lhb_hash t s) \<and>
        (\<forall>l \<in> set (lhb_hash t s). lbl_in_use (lhb_lbls t l) \<and> hash_slot (used_key (lhb_lbls t l)) t = s))"

definition locks_unique :: "lhb \<Rightarrow> bool" where
  "locks_unique t \<longleftrightarrow>
     (\<forall>l l'. lbl_in_use (lhb_lbls t l) \<longrightarrow> lbl_in_use (lhb_lbls t l') \<longrightarrow>
        resource (lhb_lbls t l) = resource (lhb_lbls t l') \<longrightarrow> l = l')"

definition structure_ok :: "lhb \<Rightarrow> bool" where
  "structure_ok t \<longleftrightarrow>
     requests_linked t \<and> requests_owned t \<and> free_lists_ok t \<and> locks_hashed t \<and> locks_unique t"

definition locks_ok :: "lhb \<Rightarrow> bool" where
  "locks_ok t \<longleftrightarrow> (\<forall>l. lbl_in_use (lhb_lbls t l) \<longrightarrow> lock_ok t l)"

definition table_ok :: "lhb \<Rightarrow> bool" where
  "table_ok t \<longleftrightarrow> structure_ok t \<and> locks_ok t"

text \<open>
  The structure depends on these parts of the table only.
\<close>

lemma structure_ok_cong:
  assumes "rest t' = rest t"
    and "\<And>r. lrq_in_use (lhb_lrqs t' r) = lrq_in_use (lhb_lrqs t r)"
    and "\<And>r. lrq_in_use (lhb_lrqs t r) \<Longrightarrow> lrq_lock (lhb_lrqs t' r) = lrq_lock (lhb_lrqs t r)"
    and "\<And>r. lrq_in_use (lhb_lrqs t r) \<Longrightarrow> lrq_owner (lhb_lrqs t' r) = lrq_owner (lhb_lrqs t r)"
    and "\<And>l. lbl_in_use (lhb_lbls t' l) = lbl_in_use (lhb_lbls t l)"
    and "\<And>l. set (queue t' l) = set (queue t l)"
    and "\<And>l. lbl_in_use (lhb_lbls t l) \<Longrightarrow> resource (lhb_lbls t' l) = resource (lhb_lbls t l)"
    and "\<And>p. own_requests (lhb_owns t' p) = own_requests (lhb_owns t p)"
    and "structure_ok t"
  shows "structure_ok t'"
proof -
  have rest: "lhb_free_locks t' = lhb_free_locks t" "lhb_free_requests t' = lhb_free_requests t" "lhb_used t' = lhb_used t"
    "lhb_hash t' = lhb_hash t" "hash_slot v t' = hash_slot v t" for v
    using assms(1) by (simp_all add: rest_def hash_slot_def)
  have key: "used_key (lhb_lbls t' l) = used_key (lhb_lbls t l)" if "lbl_in_use (lhb_lbls t l)" for l
    using assms(7) [OF that] by (simp add: resource_def)
  have "requests_linked t'"
    using assms(9) assms(3,4) unfolding structure_ok_def requests_linked_def rest assms(2,5,6,8) by simp
  moreover have "requests_owned t'"
    using assms(9) assms(4) unfolding structure_ok_def requests_owned_def assms(2,8) by simp
  moreover have "free_lists_ok t'"
    using assms(9) unfolding structure_ok_def free_lists_ok_def rest assms(2,5) by simp
  moreover have "locks_hashed t'"
    using assms(9) key unfolding structure_ok_def locks_hashed_def rest assms(5) by simp
  moreover have "locks_unique t'"
    using assms(9) assms(7) unfolding structure_ok_def locks_unique_def assms(5) by simp
  ultimately show ?thesis by (simp add: structure_ok_def)
qed

lemma table_okD:
  assumes "table_ok t" "lrq_in_use (lhb_lrqs t r)"
  shows "lbl_in_use (lhb_lbls t (lrq_lock (lhb_lrqs t r)))" "lock_ok t (lrq_lock (lhb_lrqs t r))"
    and "r \<in> set (queue t (lrq_lock (lhb_lrqs t r)))"
  using assms by (auto simp: table_ok_def structure_ok_def requests_linked_def locks_ok_def)

lemma queue_other:
  assumes "locks_ok t" "lbl_in_use (lhb_lbls t l)" "r \<in> set (queue t l)"
  shows "lrq_lock (lhb_lrqs t r) = l" "lrq_in_use (lhb_lrqs t r)"
  using assms by (auto simp: locks_ok_def lock_ok_def lock_shape_def)

lemma table_ok_regrant:
  assumes "structure_ok t" "\<And>k. lbl_in_use (lhb_lbls t k) \<Longrightarrow> k \<noteq> l \<Longrightarrow> lock_ok t k" "lock_shape t l"
    and "grants_only l t t'" "lock_ok t' l"
  shows "table_ok t'"
proof -
  have g: "rest t' = rest t" "\<And>p. own_requests (lhb_owns t' p) = own_requests (lhb_owns t p)"
    "\<And>k. k \<noteq> l \<Longrightarrow> lhb_lbls t' k = lhb_lbls t k" "set (queue t' l) = set (queue t l)"
    "lbl_in_use (lhb_lbls t' l) = lbl_in_use (lhb_lbls t l)" "resource (lhb_lbls t' l) = resource (lhb_lbls t l)"
    "\<And>r. r \<notin> set (queue t l) \<Longrightarrow> lhb_lrqs t' r = lhb_lrqs t r"
    "\<And>r. lrq_in_use (lhb_lrqs t' r) = lrq_in_use (lhb_lrqs t r)" "\<And>r. lrq_lock (lhb_lrqs t' r) = lrq_lock (lhb_lrqs t r)"
    "\<And>r. lrq_owner (lhb_lrqs t' r) = lrq_owner (lhb_lrqs t r)"
    using assms(4) unfolding grants_only_def by blast+
  have in_use: "lbl_in_use (lhb_lbls t' k) = lbl_in_use (lhb_lbls t k)" for k using g(3,5) by (cases "k = l") simp_all
  have que: "set (queue t' k) = set (queue t k)" for k using g(3,4) by (cases "k = l") simp_all
  have res: "resource (lhb_lbls t' k) = resource (lhb_lbls t k)" for k using g(3,6) by (cases "k = l") simp_all
  have "structure_ok t'"
    by (rule structure_ok_cong [OF g(1) g(8) g(9) g(10) in_use que res g(2) assms(1)])
  moreover have "lock_ok t' k" if "lbl_in_use (lhb_lbls t k)" for k
  proof (cases "k = l")
    case False
    have "lock_ok t' k = lock_ok t k"
    proof (rule lock_ok_cong)
      show "lhb_lbls t' k = lhb_lbls t k" using g(3) False .
      fix r assume "r \<in> set (queue t k)"
      then have "r \<notin> set (queue t l)"
        using assms(2) [OF that False] assms(3) False by (auto simp: lock_ok_def lock_shape_def)
      then show "core (lhb_lrqs t' r) = core (lhb_lrqs t r)" using g(7) by simp
    qed
    then show ?thesis using assms(2) [OF that False] by simp
  qed (use assms(5) in simp)
  ultimately show ?thesis using in_use by (simp add: table_ok_def locks_ok_def)
qed

lemma table_ok_grants:
  assumes "table_ok t" "grants_only l t t'" "lock_ok t' l" "lbl_in_use (lhb_lbls t l)"
  shows "table_ok t'"
proof (rule table_ok_regrant [OF _ _ _ assms(2,3)])
  show "structure_ok t" using assms(1) by (simp add: table_ok_def)
  show "lock_ok t k" if "lbl_in_use (lhb_lbls t k)" for k using assms(1) that by (simp add: table_ok_def locks_ok_def)
  then show "lock_shape t l" using assms(4) by (simp add: lock_ok_def)
qed

section \<open>Releasing a request\<close>

lemma unlink_simps:
  fixes t r
  defines "q \<equiv> lhb_lrqs t r" and "l \<equiv> lrq_lock (lhb_lrqs t r)"
  shows "lhb_lrqs (unlink_request r t) =
      (lhb_lrqs t)(r := q\<lparr>lrq_in_use := False, lrq_blocking := False, lrq_pending := False\<rparr>)"
    and "lhb_lbls (unlink_request r t) =
      (lhb_lbls t)(l := (lhb_lbls t l)\<lparr>lbl_requests := remove1 r (queue t l),
        lbl_pending_lrq_count := (if lrq_pending q then dec16 (lbl_pending_lrq_count (lhb_lbls t l))
          else lbl_pending_lrq_count (lhb_lbls t l))\<rparr>)"
    and "own_requests (lhb_owns (unlink_request r t) p) =
      (if p = lrq_owner q then remove1 r (own_requests (lhb_owns t p)) else own_requests (lhb_owns t p))"
    and "rest (unlink_request r t) = rest (t\<lparr>lhb_free_requests := lhb_free_requests t @ [r]\<rparr>)"
  by (auto simp: unlink_request_def q_def l_def Let_def rest_def upd_lrq_def upd_lbl_def upd_own_def)

lemma state_of_counts_cong:
  assumes "\<And>s. 1 \<le> s \<Longrightarrow> s \<le> LCK_EX \<Longrightarrow> (c s = 0) = (c' s = 0)"
  shows "state_of_counts c = state_of_counts c'"
  using assms [of 1] assms [of 2] assms [of 3] assms [of 4] assms [of 5] assms [of 6]
  by (simp add: state_of_counts_def)

text \<open>
  The counts of the lock after the request is gone: when the count of its state does not
  drop to zero, the state of the lock is still right.
\<close>

definition uncount :: "nat \<Rightarrow> ptr \<Rightarrow> lhb \<Rightarrow> lhb" where
  "uncount state l t =
     (if state \<noteq> LCK_none
      then let t2 = upd_lbl l (count_down state) t in
           if lbl_counts (lhb_lbls t2 l) state = 0 then upd_lbl l (\<lambda>k. k\<lparr>lbl_state := lock_state k\<rparr>) t2 else t2
      else t)"

lemma release_request_uncount:
  "release_request r t =
     (let l = lrq_lock (lhb_lrqs t r); t1 = unlink_request r t
      in if queue t1 l = [] then free_lock l t1 else post_pending l (uncount (state_in t r) l t1))"
  by (simp add: release_request_def uncount_def Let_def)

lemma uncount_lock_ok:
  assumes "lock_ok t l" "r \<in> set (queue t l)" "l = lrq_lock (lhb_lrqs t r)"
  shows "lock_ok (uncount (state_in t r) l (unlink_request r t)) l"
proof -
  let ?t1 = "unlink_request r t" and ?R = "set (queue t l)" and ?k = "lhb_lbls t l" and ?s = "state_in t r"
  let ?t2 = "uncount ?s l ?t1"
  have a: "distinct (queue t l)" "length (queue t l) < 65536" "counts_ok (lbl_counts ?k) ?R (state_in t)"
    "ib.held ?R (state_in t)" "lbl_state ?k = state_of_counts (lbl_counts ?k)" "?s \<le> LCK_EX"
    "lbl_pending_lrq_count ?k = card {p \<in> ?R. lrq_pending (lhb_lrqs t p)}" "\<And>s. lbl_counts ?k s < 65536"
    using assms(1,2) by (auto simp: lock_ok_def lock_shape_def lock_state_def)
  have card: "card ?R < 65536" using a(1,2) by (simp add: distinct_card)
  have lrqs: "lhb_lrqs ?t2 = lhb_lrqs ?t1" by (simp add: uncount_def Let_def)
  have queue: "queue ?t2 l = remove1 r (queue t l)" "set (queue ?t2 l) = ?R - {r}"
    using assms(3) a(1) by (simp_all add: uncount_def unlink_simps(2) Let_def)
  define c where "c = (if ?s \<noteq> 0 then (lbl_counts ?k)(?s := dec16 (lbl_counts ?k ?s)) else lbl_counts ?k)"
  have counts: "lbl_counts (lhb_lbls ?t2 l) = c"
    using assms(3) by (simp add: uncount_def unlink_simps(2) c_def Let_def)
  have c_ok: "counts_ok c (?R - {r}) (state_in t)"
    using counts_ok_remove [OF a(3) _ assms(2) card] counts_ok_drop [OF a(3)] by (auto simp: c_def)
  have st: "state_in ?t2 p = state_in t p" if "p \<in> ?R - {r}" for p
    unfolding lrqs using that by (simp add: unlink_simps(1))
  have pend: "{p \<in> ?R - {r}. lrq_pending (lhb_lrqs ?t2 p)} = {p \<in> ?R. lrq_pending (lhb_lrqs t p)} - {r}"
    unfolding lrqs by (auto simp: unlink_simps(1))
  have "lbl_pending_lrq_count (lhb_lbls ?t2 l) = card {p \<in> ?R - {r}. lrq_pending (lhb_lrqs ?t2 p)}"
  proof (cases "lrq_pending (lhb_lrqs t r)")
    case True
    then have mem: "r \<in> {p \<in> ?R. lrq_pending (lhb_lrqs t p)}" using assms(2) by simp
    have "card {p \<in> ?R. lrq_pending (lhb_lrqs t p)} \<le> card ?R" by (rule card_mono) auto
    moreover have "0 < card {p \<in> ?R. lrq_pending (lhb_lrqs t p)}" using mem by (auto simp: card_gt_0_iff)
    ultimately show ?thesis
      unfolding pend using True a(7) mem card assms(3)
      by (simp add: uncount_def unlink_simps(2) Let_def card_Diff_singleton)
  next
    case False
    then have "{p \<in> ?R. lrq_pending (lhb_lrqs t p)} - {r} = {p \<in> ?R. lrq_pending (lhb_lrqs t p)}" by auto
    then show ?thesis unfolding pend using False a(7) assms(3) by (simp add: uncount_def unlink_simps(2) Let_def)
  qed
  moreover have "length (queue ?t2 l) < 65536" unfolding queue(1) using a(2) by (simp add: length_remove1 assms(2))
  moreover have "c s < 65536" for s using a(8) by (simp add: c_def)
  ultimately have "lock_shape ?t2 l"
    using assms(1) queue a(1) unfolding lock_ok_def lock_shape_def counts
    by (simp add: lrqs unlink_simps(1))
  moreover have "counts_ok c (?R - {r}) (state_in ?t2)"
    using c_ok counts_ok_cong [of "?R - {r}" "state_in ?t2" "state_in t", OF st] by simp
  moreover have "ib.held (?R - {r}) (state_in ?t2)"
    using ib.held_subset [OF a(4), of "?R - {r}"] ib.held_cong [of "?R - {r}" "state_in ?t2" "state_in t", OF st] by auto
  moreover have "lbl_state (lhb_lbls ?t2 l) = state_of_counts c"
  proof (cases "?s = 0 \<or> c ?s = 0")
    case True
    then show ?thesis using assms(3) a(5) by (auto simp: uncount_def unlink_simps(2) c_def lock_state_def Let_def)
  next
    case False
    have "c ?s \<noteq> 0 \<and> lbl_counts ?k ?s \<noteq> 0"
      using False a(3) assms(2) a(6) by (auto simp: counts_ok_def card_eq_0_iff)
    then have "state_of_counts c = state_of_counts (lbl_counts ?k)"
      by (intro state_of_counts_cong) (auto simp: c_def)
    moreover have "lbl_state (lhb_lbls ?t2 l) = lbl_state ?k"
      using False assms(3) by (auto simp: uncount_def unlink_simps(2) c_def Let_def)
    ultimately show ?thesis using a(5) by simp
  qed
  ultimately show ?thesis by (simp add: lock_ok_def lock_state_def counts queue(2))
qed

lemma hash_slot_rest: "rest t' = rest t \<Longrightarrow> hash_slot v t' = hash_slot v t"
  by (simp add: rest_def hash_slot_def)

lemma unlink_structure:
  assumes "table_ok t" "lrq_in_use (lhb_lrqs t r)"
  shows "structure_ok (unlink_request r t)"
proof -
  let ?t1 = "unlink_request r t" and ?l = "lrq_lock (lhb_lrqs t r)"
  have s: "requests_linked t" "requests_owned t" "free_lists_ok t" "locks_hashed t" "locks_unique t"
    using assms(1) by (simp_all add: table_ok_def structure_ok_def)
  have rest: "lhb_used ?t1 = lhb_used t" "lhb_free_requests ?t1 = lhb_free_requests t @ [r]"
    "lhb_free_locks ?t1 = lhb_free_locks t" "lhb_hash ?t1 = lhb_hash t" "hash_slot v ?t1 = hash_slot v t" for v
    using unlink_simps(4) [of r t] by (simp_all add: rest_def hash_slot_def)
  have in_use: "lrq_in_use (lhb_lrqs ?t1 p) \<longleftrightarrow> lrq_in_use (lhb_lrqs t p) \<and> p \<noteq> r" for p
    by (simp add: unlink_simps(1))
  have lrq: "lrq_lock (lhb_lrqs ?t1 p) = lrq_lock (lhb_lrqs t p)" "lrq_owner (lhb_lrqs ?t1 p) = lrq_owner (lhb_lrqs t p)" for p
    by (simp_all add: unlink_simps(1))
  have lbl: "lbl_in_use (lhb_lbls ?t1 k) = lbl_in_use (lhb_lbls t k)" "resource (lhb_lbls ?t1 k) = resource (lhb_lbls t k)"
    "used_key (lhb_lbls ?t1 k) = used_key (lhb_lbls t k)" for k
    by (simp_all add: unlink_simps(2) resource_def)
  have que: "p \<in> set (queue ?t1 k)" if "p \<in> set (queue t k)" "p \<noteq> r" for p k
    using that by (auto simp: unlink_simps(2) in_set_remove1)
  have own: "distinct (own_requests (lhb_owns ?t1 p))"
    "set (own_requests (lhb_owns ?t1 p)) = set (own_requests (lhb_owns t p)) - {r}" for p
  proof -
    have "distinct (own_requests (lhb_owns t p))" "r \<in> set (own_requests (lhb_owns t p)) \<Longrightarrow> p = lrq_owner (lhb_lrqs t r)"
      using s(2) by (auto simp: requests_owned_def)
    then show "distinct (own_requests (lhb_owns ?t1 p))"
      "set (own_requests (lhb_owns ?t1 p)) = set (own_requests (lhb_owns t p)) - {r}"
      by (auto simp: unlink_simps(3))
  qed
  have "requests_linked ?t1"
    using s(1) que own(2) unfolding requests_linked_def in_use lrq lbl rest by simp
  moreover have "requests_owned ?t1"
    using s(2) own unfolding requests_owned_def in_use lrq by auto
  moreover have "free_lists_ok ?t1"
    using s(1,3) assms(2) unfolding free_lists_ok_def requests_linked_def in_use lbl rest by auto
  moreover have "locks_hashed ?t1" using s(4) unfolding locks_hashed_def lbl rest .
  moreover have "locks_unique ?t1" using s(5) unfolding locks_unique_def lbl .
  ultimately show ?thesis by (simp add: structure_ok_def)
qed

lemma unlink_other_locks:
  assumes "table_ok t" "lrq_in_use (lhb_lrqs t r)" "lbl_in_use (lhb_lbls t k)" "k \<noteq> lrq_lock (lhb_lrqs t r)"
  shows "lock_ok (unlink_request r t) k"
proof -
  have l: "locks_ok t" using assms(1) by (simp add: table_ok_def)
  have "lock_ok (unlink_request r t) k = lock_ok t k"
  proof (rule lock_ok_cong)
    show "lhb_lbls (unlink_request r t) k = lhb_lbls t k" using assms(4) by (simp add: unlink_simps(2))
    fix p assume "p \<in> set (queue t k)"
    then have "p \<noteq> r" using queue_other(1) [OF l assms(3)] assms(4) by blast
    then show "core (lhb_lrqs (unlink_request r t) p) = core (lhb_lrqs t p)" by (simp add: unlink_simps(1))
  qed
  then show ?thesis using l assms(3) by (simp add: locks_ok_def)
qed

lemma free_lock_simps:
  "lhb_lrqs (free_lock l t) = lhb_lrqs t"
  "lhb_lbls (free_lock l t) = (lhb_lbls t)(l := (lhb_lbls t l)\<lparr>lbl_in_use := False\<rparr>)"
  "lhb_owns (free_lock l t) = lhb_owns t" "lhb_used (free_lock l t) = lhb_used t"
  "lhb_free_locks (free_lock l t) = lhb_free_locks t @ [l]" "lhb_free_requests (free_lock l t) = lhb_free_requests t"
  "lhb_hash (free_lock l t) = (\<lambda>s. remove1 l (lhb_hash t s))" "hash_slot v (free_lock l t) = hash_slot v t"
  "LOCK_ordering (free_lock l t) = LOCK_ordering t"
  by (simp_all add: free_lock_def remove_data_que_def upd_lbl_def hash_slot_def Let_def)

lemma free_lock_ok:
  assumes "structure_ok t" "queue t l = []" "lbl_in_use (lhb_lbls t l)"
    and "\<And>k. lbl_in_use (lhb_lbls t k) \<Longrightarrow> k \<noteq> l \<Longrightarrow> lock_ok t k"
  shows "table_ok (free_lock l t)"
proof -
  have s: "requests_linked t" "requests_owned t" "free_lists_ok t" "locks_hashed t" "locks_unique t"
    using assms(1) by (simp_all add: structure_ok_def)
  have none: "lrq_lock (lhb_lrqs t r) \<noteq> l" if "lrq_in_use (lhb_lrqs t r)" for r
    using s(1) assms(2) that by (auto simp: requests_linked_def)
  have in_use: "lbl_in_use (lhb_lbls (free_lock l t) k) \<longleftrightarrow> lbl_in_use (lhb_lbls t k) \<and> k \<noteq> l" for k
    by (simp add: free_lock_simps)
  have lbl: "resource (lhb_lbls (free_lock l t) k) = resource (lhb_lbls t k)"
    "used_key (lhb_lbls (free_lock l t) k) = used_key (lhb_lbls t k)" "queue (free_lock l t) k = queue t k" for k
    by (simp_all add: free_lock_simps resource_def)
  have hash: "distinct (lhb_hash t h)" for h using s(4) by (simp add: locks_hashed_def)
  have "requests_linked (free_lock l t)"
    using s(1) none unfolding requests_linked_def in_use lbl free_lock_simps(1,3,4) by simp
  moreover have "requests_owned (free_lock l t)"
    using s(2) unfolding requests_owned_def free_lock_simps(1,3) .
  moreover have "free_lists_ok (free_lock l t)"
    using s(3,4) assms(3) unfolding free_lists_ok_def locks_hashed_def in_use free_lock_simps(1,4,5,6) by auto
  moreover have "locks_hashed (free_lock l t)"
    using s(4) hash unfolding locks_hashed_def in_use lbl free_lock_simps(4,7,8) by (auto simp: in_set_remove1)
  moreover have "locks_unique (free_lock l t)"
    using s(5) unfolding locks_unique_def in_use lbl by blast
  moreover have "lock_ok (free_lock l t) k = lock_ok t k" if "k \<noteq> l" for k
    by (rule lock_ok_cong) (simp_all add: free_lock_simps that)
  ultimately show ?thesis using assms(4) by (simp add: table_ok_def structure_ok_def locks_ok_def in_use)
qed

lemma uncount_simps:
  "lhb_lrqs (uncount s l t) = lhb_lrqs t" "k \<noteq> l \<Longrightarrow> lhb_lbls (uncount s l t) k = lhb_lbls t k"
  "lbl_in_use (lhb_lbls (uncount s l t) k) = lbl_in_use (lhb_lbls t k)" "queue (uncount s l t) k = queue t k"
  "resource (lhb_lbls (uncount s l t) k) = resource (lhb_lbls t k)"
  "lhb_owns (uncount s l t) = lhb_owns t" "rest (uncount s l t) = rest t"
  by (simp_all add: uncount_def resource_def count_down_def Let_def)

theorem release_request_ok:
  assumes "table_ok t" "lrq_in_use (lhb_lrqs t r)"
  shows "table_ok (release_request r t)"
proof -
  let ?l = "lrq_lock (lhb_lrqs t r)" and ?t1 = "unlink_request r t"
  note d = table_okD [OF assms]
  note s = unlink_structure [OF assms] and other = unlink_other_locks [OF assms]
  have in_use: "lbl_in_use (lhb_lbls ?t1 k) = lbl_in_use (lhb_lbls t k)" for k by (simp add: unlink_simps(2))
  show ?thesis
  proof (cases "queue ?t1 ?l = []")
    case True
    have "table_ok (free_lock ?l ?t1)" using s True in_use d(1) other by (intro free_lock_ok) auto
    then show ?thesis using True by (simp add: release_request_uncount Let_def)
  next
    case False
    let ?t2 = "uncount (state_in t r) ?l ?t1"
    have ok: "lock_ok ?t2 ?l" using uncount_lock_ok [OF d(2,3)] by simp
    have "structure_ok ?t2"
      by (rule structure_ok_cong [OF _ _ _ _ _ _ _ _ s]) (simp_all add: uncount_simps)
    moreover have "lock_ok ?t2 k" if "lbl_in_use (lhb_lbls ?t2 k)" for k
    proof (cases "k = ?l")
      case False
      have "lock_ok ?t2 k = lock_ok ?t1 k" by (rule lock_ok_cong) (simp_all add: uncount_simps False)
      then show ?thesis using other that False in_use by (simp add: uncount_simps(3))
    qed (use ok in simp)
    ultimately have "table_ok ?t2" by (simp add: table_ok_def locks_ok_def)
    moreover have "lbl_in_use (lhb_lbls ?t2 ?l)" using d(1) in_use by (simp add: uncount_simps)
    ultimately have "table_ok (post_pending ?l ?t2)"
      using table_ok_grants post_pending_ok [OF ok] by blast
    then show ?thesis using False by (simp add: release_request_uncount Let_def)
  qed
qed

section \<open>Waiting and rejecting\<close>

text \<open>Changes the invariant does not look at.\<close>

definition light :: "lhb \<Rightarrow> lhb \<Rightarrow> bool" where
  "light t t' \<longleftrightarrow>
     rest t' = rest t \<and> lhb_lbls t' = lhb_lbls t \<and>
     (\<forall>r. core (lhb_lrqs t' r) = core (lhb_lrqs t r) \<and> lrq_owner (lhb_lrqs t' r) = lrq_owner (lhb_lrqs t r)) \<and>
     (\<forall>p. own_requests (lhb_owns t' p) = own_requests (lhb_owns t p))"

lemma light_refl [simp]: "light t t"
  by (simp add: light_def)

lemma light_trans: "light t t' \<Longrightarrow> light t' t'' \<Longrightarrow> light t t''"
  by (simp add: light_def)

lemma light_table_ok:
  assumes "light t t'" "table_ok t"
  shows "table_ok t'"
proof -
  have c: "rest t' = rest t" "lhb_lbls t' = lhb_lbls t" "\<And>r. core (lhb_lrqs t' r) = core (lhb_lrqs t r)"
    "\<And>r. lrq_owner (lhb_lrqs t' r) = lrq_owner (lhb_lrqs t r)" "\<And>p. own_requests (lhb_owns t' p) = own_requests (lhb_owns t p)"
    using assms(1) by (simp_all add: light_def)
  have core: "lrq_in_use (lhb_lrqs t' r) = lrq_in_use (lhb_lrqs t r)" "lrq_lock (lhb_lrqs t' r) = lrq_lock (lhb_lrqs t r)" for r
    using c(3) [of r] by (simp_all add: core_def)
  have "structure_ok t'"
    using assms(2) unfolding table_ok_def
    by (elim conjE, intro structure_ok_cong [of t' t, OF c(1) core(1) core(2) c(4) _ _ _ c(5)]) (simp_all add: c(2))
  moreover have "lock_ok t' l = lock_ok t l" for l by (rule lock_ok_cong) (simp_all add: c)
  ultimately show ?thesis using assms(2) by (simp add: table_ok_def locks_ok_def c(2))
qed

lemma light_updates [simp]:
  "light t (bump s t)" "light t (post_wakeup p t)"
  "light t (upd_own p (\<lambda>ow. ow\<lparr>own_pending_request := n, own_scanned := b1, own_wakeup := b2, own_semaphore := b3\<rparr>) t)"
  "light t (upd_own p (\<lambda>ow. ow\<lparr>own_wakeup := b2\<rparr>) t)" "light t (upd_own p (\<lambda>ow. ow\<lparr>own_signaled := b4\<rparr>) t)"
  "light t (upd_own p (\<lambda>ow. ow\<lparr>own_scanned := b1\<rparr>) t)"
  "light t (upd_own p (\<lambda>ow. ow\<lparr>own_blocks := bs\<rparr>) t)" "light t (upd_own p (\<lambda>ow. ow\<lparr>own_blocks := f (own_blocks ow)\<rparr>) t)"
  "light t (upd_own p (\<lambda>ow. ow\<lparr>own_pending_request := n\<rparr>) t)"
  "light t (upd_own p (\<lambda>ow. ow\<lparr>own_pending_request := n, own_scanned := b1\<rparr>) t)"
  "light t (upd_lrq r (\<lambda>q. q\<lparr>lrq_blocking := b1\<rparr>) t)" "light t (upd_lrq r (set_ast a1 a2) t)"
  "light t (upd_lrq r (\<lambda>q. q\<lparr>lrq_data := d\<rparr>) t)" "light t (upd_lrq r (\<lambda>q. q\<lparr>lrq_ast_routine := a1\<rparr>) t)"
  "light t (upd_lrq r (\<lambda>q. q\<lparr>lrq_rejected := b1\<rparr>) t)"
  by (simp_all add: light_def core_def set_ast_def)

lemma light_count_deny [simp]: "light t (count_deny w t)"
  by (simp add: count_deny_def light_def Let_def)

lemma light_wait_end [simp]: "light t (wait_end r t)"
  by (simp add: wait_end_def light_def)

lemma light_signal_owner [simp]: "light t (signal_owner p t)"
  by (simp add: signal_owner_def light_def)

lemma light_post_blockage_loop: "light t (post_blockage_loop r que force t)"
proof (induction que arbitrary: t)
  case (Cons b que)
  let ?req = "lhb_lrqs t r" and ?blk = "lhb_lrqs t b"
  let ?t1 = "if lrq_blocking ?blk then t else upd_lrq b (\<lambda>q. q\<lparr>lrq_blocking := True\<rparr>)
      (upd_own (lrq_owner ?blk) (\<lambda>ow. ow\<lparr>own_blocks := own_blocks ow @ [b]\<rparr>) t)"
  let ?t2 = "if force then upd_own (lrq_owner ?blk) (\<lambda>ow. ow\<lparr>own_signaled := False\<rparr>) ?t1 else ?t1"
  let ?t3 = "if lrq_owner ?blk \<noteq> lrq_owner ?req then signal_owner (lrq_owner ?blk) ?t2 else ?t2"
  have "light t ?t1" by (simp add: light_def core_def)
  then have "light t ?t2" using light_trans [OF _ light_updates(5)] by simp
  then have t3: "light t ?t3" using light_trans [OF _ light_signal_owner] by simp
  then have "light t (post_blockage_loop r que force ?t3)" using Cons.IH light_trans by blast
  with t3 show ?case using Cons.IH [of t] by (simp add: Let_def)
qed simp

lemma light_post_blockage [simp]: "light t (post_blockage r l force t)"
  by (simp add: post_blockage_def light_post_blockage_loop)

text \<open>A request starts to wait.\<close>

lemma mark_pending_simps:
  fixes t r
  defines "l \<equiv> lrq_lock (lhb_lrqs t r)"
  shows "lhb_lrqs (mark_pending r t) = (lhb_lrqs t)(r := (lhb_lrqs t r)\<lparr>lrq_rejected := False, lrq_pending := True\<rparr>)"
    and "lhb_lbls (mark_pending r t) =
      (lhb_lbls t)(l := (lhb_lbls t l)\<lparr>lbl_pending_lrq_count := inc16 (lbl_pending_lrq_count (lhb_lbls t l)),
        lbl_requests := (if LOCK_ordering t \<and> state_in t r = 0 then remove1 r (queue t l) @ [r] else queue t l)\<rparr>)"
    and "lhb_owns (mark_pending r t) = lhb_owns t" "rest (mark_pending r t) = rest t"
  by (auto simp: mark_pending_def l_def Let_def)

lemma mark_pending_ok:
  assumes "lock_ok t l" "r \<in> set (queue t l)" "\<not> lrq_pending (lhb_lrqs t r)"
  shows "lock_ok (mark_pending r t) l" "grants_only l t (mark_pending r t)"
proof -
  let ?t' = "mark_pending r t" and ?R = "set (queue t l)"
  have a: "distinct (queue t l)" "length (queue t l) < 65536" "lrq_lock (lhb_lrqs t r) = l"
    "lbl_pending_lrq_count (lhb_lbls t l) = card {p \<in> ?R. lrq_pending (lhb_lrqs t p)}"
    using assms(1,2) by (auto simp: lock_ok_def lock_shape_def)
  have que: "set (queue ?t' l) = ?R" "distinct (queue ?t' l)" "length (queue ?t' l) = length (queue t l)"
    using a assms(2) by (auto simp: mark_pending_simps(2) length_remove1 Suc_pred' [symmetric] dest: length_pos_if_in_set)
  have st: "state_in ?t' = state_in t" by (auto simp: mark_pending_simps(1))
  have lbl: "lbl_counts (lhb_lbls ?t' l) = lbl_counts (lhb_lbls t l)" "lbl_state (lhb_lbls ?t' l) = lbl_state (lhb_lbls t l)"
    by (simp_all add: mark_pending_simps(2))
  have "{p \<in> ?R. lrq_pending (lhb_lrqs ?t' p)} = insert r {p \<in> ?R. lrq_pending (lhb_lrqs t p)}"
    using assms(2) by (auto simp: mark_pending_simps(1))
  then have pend: "card {p \<in> ?R. lrq_pending (lhb_lrqs ?t' p)} = Suc (card {p \<in> ?R. lrq_pending (lhb_lrqs t p)})"
    using assms(3) by simp
  have "card {p \<in> ?R. lrq_pending (lhb_lrqs ?t' p)} \<le> card ?R" by (rule card_mono) auto
  then have "lbl_pending_lrq_count (lhb_lbls ?t' l) = card {p \<in> ?R. lrq_pending (lhb_lrqs ?t' p)}"
    using pend a(1-4) by (simp add: mark_pending_simps(2) distinct_card)
  then have "lock_shape ?t' l"
    using assms(1) que a(2) unfolding lock_ok_def lock_shape_def lbl by (simp add: mark_pending_simps(1))
  then show "lock_ok ?t' l"
    using assms(1) unfolding lock_ok_def st que(1) lbl lock_state_def by simp
  show "grants_only l t ?t'"
    unfolding grants_only_def que(1)
    using a(3) assms(2) by (auto simp: mark_pending_simps resource_def)
qed

lemma wait_begin_ok:
  assumes "table_ok t" "lrq_in_use (lhb_lrqs t r)" "\<not> lrq_pending (lhb_lrqs t r)"
  shows "table_ok (wait_begin r t)"
proof -
  note d = table_okD [OF assms(1,2)]
  have "table_ok (mark_pending r t)"
    using table_ok_grants [OF assms(1) _ _ d(1)] mark_pending_ok [OF d(2,3) assms(3)] by blast
  then show ?thesis
    unfolding wait_begin_def Let_def using light_trans [OF _ light_post_blockage] light_table_ok light_updates(3) by blast
qed

lemma reject_simps:
  fixes t r
  defines "l \<equiv> lrq_lock (lhb_lrqs t r)"
  shows "lhb_lrqs (reject_request r t) = (lhb_lrqs t)(r := (lhb_lrqs t r)\<lparr>lrq_rejected := True, lrq_pending := False\<rparr>)"
    and "lhb_lbls (reject_request r t) =
      (lhb_lbls t)(l := (lhb_lbls t l)\<lparr>lbl_pending_lrq_count := dec16 (lbl_pending_lrq_count (lhb_lbls t l))\<rparr>)"
    and "lhb_owns (reject_request r t) = lhb_owns t" "rest (reject_request r t) = rest t"
  by (simp_all add: reject_request_def l_def)

lemma reject_lock_ok:
  assumes "lock_ok t l" "r \<in> set (queue t l)" "lrq_pending (lhb_lrqs t r)"
  shows "lock_ok (reject_request r t) l" "grants_only l t (reject_request r t)"
proof -
  let ?t' = "reject_request r t" and ?R = "set (queue t l)"
  have a: "distinct (queue t l)" "length (queue t l) < 65536" "lrq_lock (lhb_lrqs t r) = l"
    "lbl_pending_lrq_count (lhb_lbls t l) = card {p \<in> ?R. lrq_pending (lhb_lrqs t p)}"
    using assms(1,2) by (auto simp: lock_ok_def lock_shape_def)
  have st: "state_in ?t' = state_in t" by (auto simp: reject_simps(1))
  have lbl: "lbl_counts (lhb_lbls ?t' l) = lbl_counts (lhb_lbls t l)" "lbl_state (lhb_lbls ?t' l) = lbl_state (lhb_lbls t l)"
    "queue ?t' l = queue t l"
    by (simp_all add: reject_simps(2))
  have "{p \<in> ?R. lrq_pending (lhb_lrqs ?t' p)} = {p \<in> ?R. lrq_pending (lhb_lrqs t p)} - {r}"
    by (auto simp: reject_simps(1))
  moreover have "r \<in> {p \<in> ?R. lrq_pending (lhb_lrqs t p)}" using assms(2,3) by simp
  ultimately have pend: "card {p \<in> ?R. lrq_pending (lhb_lrqs t p)} = Suc (card {p \<in> ?R. lrq_pending (lhb_lrqs ?t' p)})"
    using card_Suc_Diff1 [of "{p \<in> ?R. lrq_pending (lhb_lrqs t p)}" r] by simp
  have "card {p \<in> ?R. lrq_pending (lhb_lrqs t p)} \<le> card ?R" by (rule card_mono) auto
  then have "lbl_pending_lrq_count (lhb_lbls ?t' l) = card {p \<in> ?R. lrq_pending (lhb_lrqs ?t' p)}"
    using pend a by (simp add: reject_simps(2) distinct_card)
  then have "lock_shape ?t' l"
    using assms(1) a(1,2) unfolding lock_ok_def lock_shape_def lbl by (simp add: reject_simps(1))
  then show "lock_ok ?t' l"
    using assms(1) unfolding lock_ok_def st lbl lock_state_def by simp
  show "grants_only l t ?t'"
    unfolding grants_only_def lbl(3) using a(3) assms(2) by (auto simp: reject_simps resource_def)
qed

lemma reject_request_ok:
  assumes "table_ok t" "lrq_in_use (lhb_lrqs t r)" "lrq_pending (lhb_lrqs t r)"
  shows "table_ok (reject_request r t)"
  using table_okD [OF assms(1,2)] reject_lock_ok [OF _ _ assms(3)] table_ok_grants [OF assms(1)] by blast

lemma wait_timeout_ok:
  assumes "table_ok t" "lrq_in_use (lhb_lrqs t r)" "lrq_pending (lhb_lrqs t r)"
  shows "table_ok (wait_timeout r t)"
  unfolding wait_timeout_def using assms
  by (intro reject_request_ok light_table_ok [OF light_updates(4) assms(1)]) simp_all

end
