(* ===== verification/Lock_Ops.thy ===== *)
theory Lock_Ops
  imports Lock_Table
begin

text \<open>
  The entry points of the lock manager preserve the invariant of the table, and so does
  every interleaving of them.
\<close>

section \<open>Requests for an existing lock\<close>

lemma grant_or_que_ok:
  assumes "table_ok t" "lrq_in_use (lhb_lrqs t r)" "lrq_lock (lhb_lrqs t r) = l" "state_in t r = 0"
    and "\<not> lrq_pending (lhb_lrqs t r)" "grant_or_que r l w t = (res, t')"
  shows "table_ok t'"
proof -
  note d = table_okD [OF assms(1,2), unfolded assms(3)]
  have "(lhb_lrqs t r)\<lparr>lrq_lock := l\<rparr> = lhb_lrqs t r" by (rule lrq.equality) (simp_all add: assms(3))
  then have same: "upd_lrq r (\<lambda>q. q\<lparr>lrq_lock := l\<rparr>) t = t" by (simp add: upd_lrq_def)
  consider (granted) "COMPATIBLE (lrq_requested (lhb_lrqs t r)) (lbl_state (lhb_lbls t l))" "t' = post_pending l (grant r l t)"
    | (waits) "t' = wait_begin r t" | (denied) "t' = release_request r (count_deny w t)"
    using assms(6) unfolding grant_or_que_def same by (auto simp: Let_def deny_request_def split: if_splits)
  then show ?thesis
  proof cases
    case granted
    have ok: "lock_ok (grant r l t) l"
      using grant_lock_ok [OF lock_openI_state0 [OF d(2,3) assms(4)]] granted(1) d(2) by (simp add: lock_ok_def)
    have "table_ok (grant r l t)" using table_ok_grants [OF assms(1) grants_only_grant [OF d(3)] ok d(1)] .
    moreover have "lbl_in_use (lhb_lbls (grant r l t) l)" using d(1) by (simp add: grant_simps granted_lock_def Let_def)
    ultimately show ?thesis unfolding granted(2) using table_ok_grants post_pending_ok [OF ok] by blast
  next
    case waits
    then show ?thesis using wait_begin_ok [OF assms(1,2,5)] by simp
  next
    case denied
    have "table_ok (count_deny w t)" using light_table_ok [OF light_count_deny assms(1)] .
    moreover have "lrq_in_use (lhb_lrqs (count_deny w t) r)" using assms(2) by (simp add: count_deny_def Let_def)
    ultimately show ?thesis unfolding denied using release_request_ok by blast
  qed
qed

text \<open>A fresh request block.\<close>

lemma alloc_spec:
  assumes "alloc remap n t = Some (b, t')"
  shows "b = lhb_used t" "lhb_lrqs t' = lhb_lrqs t" "lhb_lbls t' = lhb_lbls t" "lhb_owns t' = lhb_owns t"
    and "lhb_free_requests t' = lhb_free_requests t" "lhb_free_locks t' = lhb_free_locks t" "lhb_hash t' = lhb_hash t"
    and "lhb_hash_slots t' = lhb_hash_slots t" "lhb_used t' = lhb_used t + (n + 3) div 4 * 4"
  using assms by (auto simp: alloc_def Let_def split: if_splits option.splits)

lemma alloc_request_spec:
  assumes "table_ok t" "alloc_request remap t = Some (r, t')"
  shows "\<not> lrq_in_use (lhb_lrqs t r)" "r < lhb_used t'" "lhb_used t \<le> lhb_used t'"
    and "lhb_lrqs t' = lhb_lrqs t" "lhb_lbls t' = lhb_lbls t" "lhb_owns t' = lhb_owns t"
    and "lhb_free_locks t' = lhb_free_locks t" "lhb_hash t' = lhb_hash t" "lhb_hash_slots t' = lhb_hash_slots t"
    and "set (lhb_free_requests t') \<subseteq> set (lhb_free_requests t) - {r}" "distinct (lhb_free_requests t')"
proof -
  have f: "free_lists_ok t" "requests_linked t" using assms(1) by (simp_all add: table_ok_def structure_ok_def)
  show "\<not> lrq_in_use (lhb_lrqs t r)" "r < lhb_used t'" "lhb_used t \<le> lhb_used t'"
    "lhb_lrqs t' = lhb_lrqs t" "lhb_lbls t' = lhb_lbls t" "lhb_owns t' = lhb_owns t"
    "lhb_free_locks t' = lhb_free_locks t" "lhb_hash t' = lhb_hash t" "lhb_hash_slots t' = lhb_hash_slots t"
    "set (lhb_free_requests t') \<subseteq> set (lhb_free_requests t) - {r}" "distinct (lhb_free_requests t')"
    using assms(2) f alloc_spec [of remap lrq_bytes t r t']
    by (auto simp: alloc_request_def free_lists_ok_def requests_linked_def lrq_bytes_def split: list.splits)
qed

text \<open>
  The table after a new request is on its owner's queue and at the tail of the queue of
  lock \<open>l\<close>.
\<close>

definition joined :: "ptr \<Rightarrow> ptr \<Rightarrow> ptr \<Rightarrow> lhb \<Rightarrow> lhb \<Rightarrow> bool" where
  "joined r l p t t' \<longleftrightarrow>
     (\<forall>q. q \<noteq> r \<longrightarrow> lhb_lrqs t' q = lhb_lrqs t q) \<and>
     lrq_in_use (lhb_lrqs t' r) \<and> \<not> lrq_pending (lhb_lrqs t' r) \<and> lrq_requested (lhb_lrqs t' r) \<le> LCK_EX \<and>
     state_in t' r = 0 \<and> lrq_lock (lhb_lrqs t' r) = l \<and> lrq_owner (lhb_lrqs t' r) = p \<and>
     lhb_lbls t' = (lhb_lbls t)(l := (lhb_lbls t l)\<lparr>lbl_requests := queue t l @ [r]\<rparr>) \<and>
     (\<forall>q. own_requests (lhb_owns t' q) =
        (if q = p then own_requests (lhb_owns t q) @ [r] else own_requests (lhb_owns t q)))"

lemma joined_lock_ok:
  assumes "joined r l p t t'" "lock_ok t l" "\<not> lrq_in_use (lhb_lrqs t r)" "length (queue t l) < 65535"
  shows "lock_ok t' l"
proof -
  let ?R = "set (queue t l)"
  have r: "r \<notin> ?R" using assms(2,3) by (auto simp: lock_ok_def lock_shape_def)
  have j: "\<And>q. q \<noteq> r \<Longrightarrow> lhb_lrqs t' q = lhb_lrqs t q" "lrq_in_use (lhb_lrqs t' r)" "\<not> lrq_pending (lhb_lrqs t' r)"
    "lrq_requested (lhb_lrqs t' r) \<le> LCK_EX" "state_in t' r = 0" "lrq_lock (lhb_lrqs t' r) = l"
    "lhb_lbls t' = (lhb_lbls t)(l := (lhb_lbls t l)\<lparr>lbl_requests := queue t l @ [r]\<rparr>)"
    using assms(1) by (auto simp: joined_def)
  have que: "queue t' l = queue t l @ [r]" "set (queue t' l) = insert r ?R" by (simp_all add: j(7))
  have same: "lhb_lrqs t' q = lhb_lrqs t q" if "q \<in> ?R" for q
    using that r j(1) [of q] by (cases "q = r") auto
  have "{q \<in> insert r ?R. lrq_pending (lhb_lrqs t' q)} = {q \<in> ?R. lrq_pending (lhb_lrqs t q)}"
    using j(3) same by auto
  then have "lock_shape t' l"
    using assms(2,4) r j(2-6) same unfolding lock_ok_def lock_shape_def que by (auto simp: j(7))
  moreover have "counts_ok (lbl_counts (lhb_lbls t l)) (insert r ?R) (state_in t')"
  proof -
    have "{q \<in> insert r ?R. state_in t' q = s} = {q \<in> ?R. state_in t q = s}" if "1 \<le> s" for s
      using that j(5) same by auto
    then show ?thesis using assms(2) by (simp add: lock_ok_def counts_ok_def)
  qed
  moreover have "ib.held (insert r ?R) (state_in t')"
  proof -
    have h: "ib.held ?R (state_in t')"
      using assms(2) same ib.held_cong [of ?R "state_in t'" "state_in t"] by (simp add: lock_ok_def)
    have "COMPATIBLE 0 s" if "s \<le> LCK_EX" for s using ib.compat_bottom [OF that] ib.compat_sym [OF that, of 0] by simp
    then show ?thesis using h j(5) ib.compat_bottom by (auto simp: ib.held_def)
  qed
  ultimately show ?thesis using assms(2) by (simp add: lock_ok_def que(2) j(7) lock_state_def)
qed

lemma joined_ok:
  assumes "joined r l p t t'" "table_ok t" "\<not> lrq_in_use (lhb_lrqs t r)" "length (queue t l) < 65535"
    and "lbl_in_use (lhb_lbls t l)" "r < lhb_used t'" "lhb_used t \<le> lhb_used t'"
    and "lhb_free_locks t' = lhb_free_locks t" "lhb_hash t' = lhb_hash t" "lhb_hash_slots t' = lhb_hash_slots t"
    and "set (lhb_free_requests t') \<subseteq> set (lhb_free_requests t) - {r}" "distinct (lhb_free_requests t')"
  shows "table_ok t'"
proof -
  have s: "requests_linked t" "requests_owned t" "free_lists_ok t" "locks_hashed t" "locks_unique t" "locks_ok t"
    using assms(2) by (simp_all add: table_ok_def structure_ok_def)
  have j: "\<And>q. q \<noteq> r \<Longrightarrow> lhb_lrqs t' q = lhb_lrqs t q" "lrq_in_use (lhb_lrqs t' r)"
    "lrq_lock (lhb_lrqs t' r) = l" "lrq_owner (lhb_lrqs t' r) = p"
    "lhb_lbls t' = (lhb_lbls t)(l := (lhb_lbls t l)\<lparr>lbl_requests := queue t l @ [r]\<rparr>)"
    "\<And>q. own_requests (lhb_owns t' q) = (if q = p then own_requests (lhb_owns t q) @ [r] else own_requests (lhb_owns t q))"
    using assms(1) by (auto simp: joined_def)
  have lbl: "lbl_in_use (lhb_lbls t' k) = lbl_in_use (lhb_lbls t k)" "resource (lhb_lbls t' k) = resource (lhb_lbls t k)"
    "used_key (lhb_lbls t' k) = used_key (lhb_lbls t k)" "set (queue t' k) = (if k = l then insert r (set (queue t k)) else set (queue t k))"
    "hash_slot v t' = hash_slot v t" for k v
    using assms(10) by (simp_all add: j(5) resource_def hash_slot_def)
  have fresh: "r \<notin> set (own_requests (lhb_owns t q))" for q using s(2) assms(3) by (auto simp: requests_owned_def)
  have "requests_linked t'"
    unfolding requests_linked_def lbl
  proof (intro allI impI)
    fix q assume q: "lrq_in_use (lhb_lrqs t' q)"
    show "q < lhb_used t' \<and> lbl_in_use (lhb_lbls t (lrq_lock (lhb_lrqs t' q))) \<and>
      q \<in> (if lrq_lock (lhb_lrqs t' q) = l then insert r (set (queue t (lrq_lock (lhb_lrqs t' q))))
           else set (queue t (lrq_lock (lhb_lrqs t' q)))) \<and>
      q \<in> set (own_requests (lhb_owns t' (lrq_owner (lhb_lrqs t' q))))"
    proof (cases "q = r")
      case True
      then show ?thesis using assms(5,6) by (simp add: j)
    next
      case False
      then show ?thesis using q s(1) assms(7) j(1) [OF False] by (auto simp: requests_linked_def j(6))
    qed
  qed
  moreover have "requests_owned t'"
    unfolding requests_owned_def
  proof (intro allI conjI ballI)
    fix q
    show "distinct (own_requests (lhb_owns t' q))" using s(2) fresh by (simp add: requests_owned_def j(6))
    fix x assume x: "x \<in> set (own_requests (lhb_owns t' q))"
    show "lrq_in_use (lhb_lrqs t' x)" using x s(2) j(1,2) by (cases "x = r") (auto simp: requests_owned_def j(6) split: if_splits)
    show "lrq_owner (lhb_lrqs t' x) = q"
      using x s(2) j(1,4) fresh by (cases "x = r") (auto simp: requests_owned_def j(6) split: if_splits)
  qed
  moreover have "free_lists_ok t'"
  proof -
    have "\<not> lrq_in_use (lhb_lrqs t' x) \<and> x < lhb_used t'" if "x \<in> set (lhb_free_requests t')" for x
    proof -
      have x: "x \<in> set (lhb_free_requests t)" "x \<noteq> r" using that assms(11) by auto
      then show ?thesis using assms(7) s(3) j(1) [OF x(2)] by (auto simp: free_lists_ok_def)
    qed
    then show ?thesis using assms(7,12) s(3) unfolding free_lists_ok_def lbl assms(8) by auto
  qed
  moreover have "locks_hashed t'" using s(4) assms(7) unfolding locks_hashed_def lbl assms(9) by auto
  moreover have "locks_unique t'" using s(5) unfolding locks_unique_def lbl .
  moreover have "lock_ok t' k" if "lbl_in_use (lhb_lbls t k)" for k
  proof (cases "k = l")
    case True
    then show ?thesis using joined_lock_ok [OF assms(1) _ assms(3,4)] s(6) that by (simp add: locks_ok_def)
  next
    case False
    have "lock_ok t' k = lock_ok t k"
    proof (rule lock_ok_cong)
      show "lhb_lbls t' k = lhb_lbls t k" using False by (simp add: j(5))
      fix q assume "q \<in> set (queue t k)"
      then have "q \<noteq> r" using queue_other(2) [OF s(6) that] assms(3) by blast
      then show "core (lhb_lrqs t' q) = core (lhb_lrqs t q)" by (simp add: j(1))
    qed
    then show ?thesis using s(6) that by (simp add: locks_ok_def)
  qed
  ultimately show ?thesis by (simp add: table_ok_def structure_ok_def locks_ok_def lbl(1))
qed

section \<open>Requests for a new lock\<close>

text \<open>
  The table when a new lock block with a single new request has been hashed and only the
  grant is missing.
\<close>

definition prepared :: "ptr \<Rightarrow> ptr \<Rightarrow> ptr \<Rightarrow> ptr \<times> nat \<times> byte list \<Rightarrow> lhb \<Rightarrow> lhb \<Rightarrow> bool" where
  "prepared r l p name t t' \<longleftrightarrow>
     (\<forall>q. q \<noteq> r \<longrightarrow> lhb_lrqs t' q = lhb_lrqs t q) \<and>
     lrq_in_use (lhb_lrqs t' r) \<and> \<not> lrq_pending (lhb_lrqs t' r) \<and> lrq_requested (lhb_lrqs t' r) \<le> LCK_EX \<and>
     state_in t' r = 0 \<and> lrq_lock (lhb_lrqs t' r) = l \<and> lrq_owner (lhb_lrqs t' r) = p \<and>
     (\<forall>k. k \<noteq> l \<longrightarrow> lhb_lbls t' k = lhb_lbls t k) \<and>
     lbl_in_use (lhb_lbls t' l) \<and> queue t' l = [r] \<and> lbl_counts (lhb_lbls t' l) = (\<lambda>_. 0) \<and>
     lbl_pending_lrq_count (lhb_lbls t' l) = 0 \<and> resource (lhb_lbls t' l) = name \<and>
     (\<forall>q. own_requests (lhb_owns t' q) =
        (if q = p then own_requests (lhb_owns t q) @ [r] else own_requests (lhb_owns t q))) \<and>
     lhb_used t \<le> lhb_used t' \<and> r < lhb_used t' \<and> l < lhb_used t' \<and> lhb_hash_slots t' = lhb_hash_slots t \<and>
     lhb_hash t' = (let slot = hash_slot (snd (snd name)) t in (lhb_hash t)(slot := lhb_hash t slot @ [l])) \<and>
     set (lhb_free_requests t') \<subseteq> set (lhb_free_requests t) - {r} \<and> distinct (lhb_free_requests t') \<and>
     set (lhb_free_locks t') \<subseteq> set (lhb_free_locks t) - {l} \<and> distinct (lhb_free_locks t')"

lemma prepared_structure:
  assumes "prepared r l p name t t'" "table_ok t" "\<not> lrq_in_use (lhb_lrqs t r)" "\<not> lbl_in_use (lhb_lbls t l)"
    and "\<And>k. lbl_in_use (lhb_lbls t k) \<Longrightarrow> resource (lhb_lbls t k) \<noteq> name"
  shows "structure_ok t'"
proof -
  have s: "requests_linked t" "requests_owned t" "free_lists_ok t" "locks_hashed t" "locks_unique t" "locks_ok t"
    using assms(2) by (simp_all add: table_ok_def structure_ok_def)
  have j: "\<And>q. q \<noteq> r \<Longrightarrow> lhb_lrqs t' q = lhb_lrqs t q" "lrq_in_use (lhb_lrqs t' r)"
    "lrq_lock (lhb_lrqs t' r) = l" "lrq_owner (lhb_lrqs t' r) = p"
    "\<And>k. k \<noteq> l \<Longrightarrow> lhb_lbls t' k = lhb_lbls t k" "lbl_in_use (lhb_lbls t' l)" "queue t' l = [r]"
    "resource (lhb_lbls t' l) = name" "used_key (lhb_lbls t' l) = snd (snd name)"
    "\<And>q. own_requests (lhb_owns t' q) = (if q = p then own_requests (lhb_owns t q) @ [r] else own_requests (lhb_owns t q))"
    "lhb_used t \<le> lhb_used t'" "r < lhb_used t'" "l < lhb_used t'" "\<And>v. hash_slot v t' = hash_slot v t"
    "lhb_hash t' = (lhb_hash t)(hash_slot (snd (snd name)) t := lhb_hash t (hash_slot (snd (snd name)) t) @ [l])"
    "set (lhb_free_requests t') \<subseteq> set (lhb_free_requests t) - {r}" "distinct (lhb_free_requests t')"
    "set (lhb_free_locks t') \<subseteq> set (lhb_free_locks t) - {l}" "distinct (lhb_free_locks t')"
    using assms(1) by (auto simp: prepared_def hash_slot_def resource_def Let_def)
  have fresh: "r \<notin> set (own_requests (lhb_owns t q))" for q using s(2) assms(3) by (auto simp: requests_owned_def)
  have unhashed: "l \<notin> set (lhb_hash t h)" for h using s(4) assms(4) by (auto simp: locks_hashed_def)
  have "requests_linked t'"
    unfolding requests_linked_def
  proof (intro allI impI)
    fix q assume q: "lrq_in_use (lhb_lrqs t' q)"
    show "q < lhb_used t' \<and> lbl_in_use (lhb_lbls t' (lrq_lock (lhb_lrqs t' q))) \<and>
      q \<in> set (queue t' (lrq_lock (lhb_lrqs t' q))) \<and> q \<in> set (own_requests (lhb_owns t' (lrq_owner (lhb_lrqs t' q))))"
    proof (cases "q = r")
      case True
      then show ?thesis by (simp add: j(3,4,6,7,10,12))
    next
      case False
      then have "lbl_in_use (lhb_lbls t (lrq_lock (lhb_lrqs t q)))" using q s(1) j(1) by (auto simp: requests_linked_def)
      then have "lrq_lock (lhb_lrqs t q) \<noteq> l" using assms(4) by auto
      then show ?thesis using q s(1) j(1) [OF False] j(5,11) by (auto simp: requests_linked_def j(10))
    qed
  qed
  moreover have "requests_owned t'"
    unfolding requests_owned_def
  proof (intro allI conjI ballI)
    fix q
    show "distinct (own_requests (lhb_owns t' q))" using s(2) fresh by (simp add: requests_owned_def j(10))
    fix x assume x: "x \<in> set (own_requests (lhb_owns t' q))"
    show "lrq_in_use (lhb_lrqs t' x)" using x s(2) j(1,2) by (cases "x = r") (auto simp: requests_owned_def j(10) split: if_splits)
    show "lrq_owner (lhb_lrqs t' x) = q"
      using x s(2) j(1,4) fresh by (cases "x = r") (auto simp: requests_owned_def j(10) split: if_splits)
  qed
  moreover have "free_lists_ok t'"
  proof -
    have "\<not> lrq_in_use (lhb_lrqs t' x) \<and> x < lhb_used t'" if "x \<in> set (lhb_free_requests t')" for x
    proof -
      have x: "x \<in> set (lhb_free_requests t)" "x \<noteq> r" using that j(16) by auto
      then show ?thesis using s(3) j(1) [OF x(2)] j(11) by (auto simp: free_lists_ok_def)
    qed
    moreover have "\<not> lbl_in_use (lhb_lbls t' x) \<and> x < lhb_used t'" if "x \<in> set (lhb_free_locks t')" for x
    proof -
      have x: "x \<in> set (lhb_free_locks t)" "x \<noteq> l" using that j(18) by auto
      then show ?thesis using s(3) j(5) [OF x(2)] j(11) by (auto simp: free_lists_ok_def)
    qed
    ultimately show ?thesis using j(17,19) by (simp add: free_lists_ok_def)
  qed
  moreover have "locks_hashed t'"
    unfolding locks_hashed_def j(14)
  proof (intro conjI allI impI ballI)
    fix k assume k: "lbl_in_use (lhb_lbls t' k)"
    show "k < lhb_used t'" "k \<in> set (lhb_hash t' (hash_slot (used_key (lhb_lbls t' k)) t))"
    proof -
      consider "k = l" | "k \<noteq> l" "lhb_lbls t' k = lhb_lbls t k" using j(5) by blast
      then have "k < lhb_used t' \<and> k \<in> set (lhb_hash t' (hash_slot (used_key (lhb_lbls t' k)) t))"
      proof cases
        case 1
        then show ?thesis by (simp add: j(9,13,15))
      next
        case 2
        then have "k < lhb_used t" "k \<in> set (lhb_hash t (hash_slot (used_key (lhb_lbls t k)) t))"
          using k s(4) by (simp_all add: locks_hashed_def)
        then show ?thesis using j(11) by (auto simp: 2(2) j(15))
      qed
      then show "k < lhb_used t'" "k \<in> set (lhb_hash t' (hash_slot (used_key (lhb_lbls t' k)) t))" by simp_all
    qed
  next
    fix h
    show "distinct (lhb_hash t' h)" using s(4) unhashed by (simp add: locks_hashed_def j(15))
    fix k assume k: "k \<in> set (lhb_hash t' h)"
    consider "k = l" "h = hash_slot (snd (snd name)) t" | "k \<noteq> l" "k \<in> set (lhb_hash t h)"
      using k unhashed by (cases "k = l") (simp_all add: j(15) split: if_splits)
    then have "lbl_in_use (lhb_lbls t' k) \<and> hash_slot (used_key (lhb_lbls t' k)) t = h"
    proof cases
      case 1
      then show ?thesis by (simp add: j(6,9))
    next
      case 2
      then show ?thesis using s(4) j(5) [OF 2(1)] by (simp add: locks_hashed_def)
    qed
    then show "lbl_in_use (lhb_lbls t' k)" "hash_slot (used_key (lhb_lbls t' k)) t = h" by simp_all
  qed
  moreover have "locks_unique t'"
    unfolding locks_unique_def
  proof (intro allI impI)
    fix k k' assume "lbl_in_use (lhb_lbls t' k)" "lbl_in_use (lhb_lbls t' k')" "resource (lhb_lbls t' k) = resource (lhb_lbls t' k')"
    then consider "k = l" "k' = l" | "k \<noteq> l" "k' \<noteq> l" "lbl_in_use (lhb_lbls t k)" "lbl_in_use (lhb_lbls t k')"
        "resource (lhb_lbls t k) = resource (lhb_lbls t k')"
      | "lbl_in_use (lhb_lbls t k)" "resource (lhb_lbls t k) = name"
      | "lbl_in_use (lhb_lbls t k')" "resource (lhb_lbls t k') = name"
      by (cases "k = l"; cases "k' = l") (simp_all add: j(5,8))
    then show "k = k'" using s(5) assms(5) by cases (auto simp only: locks_unique_def)
  qed
  ultimately show ?thesis by (simp add: structure_ok_def)
qed

lemma prepared_ok:
  assumes "prepared r l p name t t'" "table_ok t" "\<not> lrq_in_use (lhb_lrqs t r)" "\<not> lbl_in_use (lhb_lbls t l)"
    and "\<And>k. lbl_in_use (lhb_lbls t k) \<Longrightarrow> resource (lhb_lbls t k) \<noteq> name"
  shows "table_ok (grant r l t')"
proof -
  have j: "\<And>q. q \<noteq> r \<Longrightarrow> lhb_lrqs t' q = lhb_lrqs t q" "lrq_in_use (lhb_lrqs t' r)" "\<not> lrq_pending (lhb_lrqs t' r)"
    "lrq_requested (lhb_lrqs t' r) \<le> LCK_EX" "state_in t' r = 0" "lrq_lock (lhb_lrqs t' r) = l"
    "\<And>k. k \<noteq> l \<Longrightarrow> lhb_lbls t' k = lhb_lbls t k" "queue t' l = [r]" "lbl_counts (lhb_lbls t' l) = (\<lambda>_. 0)"
    "lbl_pending_lrq_count (lhb_lbls t' l) = 0"
    using assms(1) by (auto simp: prepared_def)
  have shape: "lock_shape t' l"
    using j(2-6) by (auto simp: lock_shape_def j(8-10))
  then have "lock_open t' l r"
    by (simp add: lock_open_def j(8,9) counts_ok_def ib.held_def)
  moreover have "COMPATIBLE (lrq_requested (lhb_lrqs t' r)) (lock_state (lhb_lbls t' l))"
    using ib.compat_bottom [OF j(4)] by (simp add: lock_state_def state_of_counts_def j(9))
  ultimately have "lock_ok (grant r l t') l" by (rule grant_lock_ok)
  moreover have "lock_ok t' k" if "lbl_in_use (lhb_lbls t' k)" "k \<noteq> l" for k
  proof -
    have use: "lbl_in_use (lhb_lbls t k)" using that j(7) by simp
    have l: "locks_ok t" using assms(2) by (simp add: table_ok_def)
    have "lock_ok t' k = lock_ok t k"
    proof (rule lock_ok_cong)
      show "lhb_lbls t' k = lhb_lbls t k" using that(2) j(7) by simp
      fix q assume "q \<in> set (queue t k)"
      then have "q \<noteq> r" using queue_other(2) [OF l use] assms(3) by blast
      then show "core (lhb_lrqs t' q) = core (lhb_lrqs t q)" by (simp add: j(1))
    qed
    then show ?thesis using l use by (simp add: locks_ok_def)
  qed
  ultimately show ?thesis
    using table_ok_regrant [OF prepared_structure [OF assms] _ shape grants_only_grant] j(8) by simp
qed

lemma alloc_lock_spec:
  assumes "free_lists_ok t" "locks_hashed t" "alloc_lock remap n t = Some (l, t')"
  shows "\<not> lbl_in_use (lhb_lbls t l)" "l < lhb_used t'" "lhb_used t \<le> lhb_used t'"
    and "lhb_lrqs t' = lhb_lrqs t" "lhb_owns t' = lhb_owns t" "\<And>k. k \<noteq> l \<Longrightarrow> lhb_lbls t' k = lhb_lbls t k"
    and "lbl_in_use (lhb_lbls t' l)" "lhb_free_requests t' = lhb_free_requests t" "lhb_hash t' = lhb_hash t"
    and "lhb_hash_slots t' = lhb_hash_slots t"
    and "set (lhb_free_locks t') \<subseteq> set (lhb_free_locks t) - {l}" "distinct (lhb_free_locks t')"
proof -
  let ?size = "(n + 3) div 4 * 4 mod 65536"
  have "\<not> lbl_in_use (lhb_lbls t l) \<and> l < lhb_used t' \<and> lhb_used t \<le> lhb_used t' \<and>
    lhb_lrqs t' = lhb_lrqs t \<and> lhb_owns t' = lhb_owns t \<and> (\<forall>k. k \<noteq> l \<longrightarrow> lhb_lbls t' k = lhb_lbls t k) \<and>
    lbl_in_use (lhb_lbls t' l) \<and> lhb_free_requests t' = lhb_free_requests t \<and> lhb_hash t' = lhb_hash t \<and>
    lhb_hash_slots t' = lhb_hash_slots t \<and>
    set (lhb_free_locks t') \<subseteq> set (lhb_free_locks t) - {l} \<and> distinct (lhb_free_locks t')"
  proof (cases "List.find (\<lambda>lock. lbl_size (lhb_lbls t lock) = ?size) (lhb_free_locks t)")
    case (Some k)
    then have k: "k \<in> set (lhb_free_locks t)" by (auto simp: find_Some_iff)
    have "l = k" "t' = upd_lbl k (\<lambda>k. k\<lparr>lbl_in_use := True\<rparr>) (t\<lparr>lhb_free_locks := remove1 k (lhb_free_locks t)\<rparr>)"
      using assms(3) Some by (auto simp: alloc_lock_def Let_def)
    then show ?thesis using assms(1) k by (auto simp: free_lists_ok_def upd_lbl_def)
  next
    case None
    then obtain t1 where a: "alloc remap (lbl_bytes + ?size) t = Some (l, t1)"
      "t' = upd_lbl l (\<lambda>k. k\<lparr>lbl_size := ?size mod 256, lbl_in_use := True\<rparr>) t1"
      using assms(3) by (auto simp: alloc_lock_def Let_def)
    note spec = alloc_spec [OF a(1)]
    have "0 < (lbl_bytes + ?size + 3) div 4 * 4" by (simp add: lbl_bytes_def)
    then show ?thesis
      using spec assms(1,2) a(2) by (auto simp: free_lists_ok_def locks_hashed_def upd_lbl_def)
  qed
  then show "\<not> lbl_in_use (lhb_lbls t l)" "l < lhb_used t'" "lhb_used t \<le> lhb_used t'"
    "lhb_lrqs t' = lhb_lrqs t" "lhb_owns t' = lhb_owns t" "\<And>k. k \<noteq> l \<Longrightarrow> lhb_lbls t' k = lhb_lbls t k"
    "lbl_in_use (lhb_lbls t' l)" "lhb_free_requests t' = lhb_free_requests t" "lhb_hash t' = lhb_hash t"
    "lhb_hash_slots t' = lhb_hash_slots t"
    "set (lhb_free_locks t') \<subseteq> set (lhb_free_locks t) - {l}" "distinct (lhb_free_locks t')"
    by blast+
qed

section \<open>LOCK\_enq\<close>

lemma find_lock_Some:
  assumes "locks_hashed t" "find_lock parent series value t = Some l"
  shows "lbl_in_use (lhb_lbls t l)" "resource (lhb_lbls t l) = (parent, series, value)"
proof -
  have "l \<in> set (lhb_hash t (hash_slot value t)) \<and> resource (lhb_lbls t l) = (parent, series, value)"
    using assms(2) by (auto simp: find_lock_def find_Some_iff resource_def used_key_eq Let_def)
  then show "lbl_in_use (lhb_lbls t l)" "resource (lhb_lbls t l) = (parent, series, value)"
    using assms(1) by (auto simp: locks_hashed_def)
qed

lemma find_lock_None:
  assumes "locks_hashed t" "find_lock parent series value t = None" "lbl_in_use (lhb_lbls t k)"
  shows "resource (lhb_lbls t k) \<noteq> (parent, series, value)"
proof
  assume res: "resource (lhb_lbls t k) = (parent, series, value)"
  then have "k \<in> set (lhb_hash t (hash_slot value t))" using assms(1,3) by (auto simp: locks_hashed_def resource_def)
  then show False using assms(2) res by (auto simp: find_lock_def find_None_iff resource_def used_key_eq Let_def)
qed

text \<open>A table that differs in unused request blocks only.\<close>

lemma table_ok_spare:
  assumes "table_ok t" "lhb_lbls t' = lhb_lbls t" "\<And>p. own_requests (lhb_owns t' p) = own_requests (lhb_owns t p)"
    and "\<And>q. lrq_in_use (lhb_lrqs t' q) = lrq_in_use (lhb_lrqs t q)"
    and "\<And>q. lrq_in_use (lhb_lrqs t q) \<Longrightarrow> lhb_lrqs t' q = lhb_lrqs t q"
    and "lhb_used t \<le> lhb_used t'" "lhb_hash t' = lhb_hash t" "lhb_hash_slots t' = lhb_hash_slots t"
    and "lhb_free_locks t' = lhb_free_locks t" "distinct (lhb_free_requests t')"
    and "\<And>q. q \<in> set (lhb_free_requests t') \<Longrightarrow> \<not> lrq_in_use (lhb_lrqs t q) \<and> q < lhb_used t'"
  shows "table_ok t'"
proof -
  have s: "requests_linked t" "requests_owned t" "free_lists_ok t" "locks_hashed t" "locks_unique t" "locks_ok t"
    using assms(1) by (simp_all add: table_ok_def structure_ok_def)
  have slot: "hash_slot v t' = hash_slot v t" for v by (simp add: hash_slot_def assms(8))
  have "requests_linked t'"
    unfolding requests_linked_def assms(2,3,4)
  proof (intro allI impI)
    fix q assume q: "lrq_in_use (lhb_lrqs t q)"
    note e = assms(5) [OF q]
    show "q < lhb_used t' \<and> lbl_in_use (lhb_lbls t (lrq_lock (lhb_lrqs t' q))) \<and>
      q \<in> set (queue t (lrq_lock (lhb_lrqs t' q))) \<and> q \<in> set (own_requests (lhb_owns t (lrq_owner (lhb_lrqs t' q))))"
      using s(1) q assms(6) unfolding e requests_linked_def by auto
  qed
  moreover have "requests_owned t'"
    using s(2) assms(5) unfolding requests_owned_def assms(3,4) by auto
  moreover have "free_lists_ok t'"
    using s(3) assms(6,10,11) unfolding free_lists_ok_def assms(2,4,9) by auto
  moreover have "locks_hashed t'"
    using s(4) assms(6) unfolding locks_hashed_def assms(2,7) slot by auto
  moreover have "locks_unique t'" using s(5) by (simp add: locks_unique_def assms(2))
  moreover have "lock_ok t' k = lock_ok t k" if "lbl_in_use (lhb_lbls t k)" for k
    using queue_other(2) [OF s(6) that] by (intro lock_ok_cong) (simp_all add: assms(2,5))
  ultimately show ?thesis using s(6) by (simp add: table_ok_def structure_ok_def locks_ok_def assms(2))
qed

text \<open>The fields of the table behind \<^verbatim>\<open>init_request\<close>.\<close>

definition fresh_request :: "ptr \<Rightarrow> nat \<Rightarrow> nat \<Rightarrow> nat \<Rightarrow> ptr \<Rightarrow> lrq \<Rightarrow> lrq" where
  "fresh_request r type ast arg p q = q\<lparr>lrq_in_use := True, lrq_blocking := False, lrq_pending := False,
          lrq_rejected := False, lrq_deadlock := False, lrq_repost := False, lrq_scanned := False,
          lrq_requested := type, lrq_state := LCK_none, lrq_data := 0, lrq_owner := p,
          lrq_ast_routine := ast, lrq_ast_argument := arg\<rparr>"

lemma fresh_request_simps [simp]:
  "lrq_in_use (fresh_request r type ast arg p q)" "\<not> lrq_pending (fresh_request r type ast arg p q)"
  "lrq_requested (fresh_request r type ast arg p q) = type" "lrq_state (fresh_request r type ast arg p q) = 0"
  "lrq_owner (fresh_request r type ast arg p q) = p"
  by (simp_all add: fresh_request_def)

lemma field_simps_upd [simp]:
  "lhb_used (upd_lrq r f t) = lhb_used t" "lhb_used (upd_lbl l g t) = lhb_used t" "lhb_used (upd_own p h t) = lhb_used t" "lhb_used (bump s t) = lhb_used t"
  "lhb_hash (upd_lrq r f t) = lhb_hash t" "lhb_hash (upd_lbl l g t) = lhb_hash t" "lhb_hash (upd_own p h t) = lhb_hash t" "lhb_hash (bump s t) = lhb_hash t"
  "lhb_hash_slots (upd_lrq r f t) = lhb_hash_slots t" "lhb_hash_slots (upd_lbl l g t) = lhb_hash_slots t"
  "lhb_hash_slots (upd_own p h t) = lhb_hash_slots t" "lhb_hash_slots (bump s t) = lhb_hash_slots t"
  "lhb_free_requests (upd_lrq r f t) = lhb_free_requests t" "lhb_free_requests (upd_lbl l g t) = lhb_free_requests t"
  "lhb_free_requests (upd_own p h t) = lhb_free_requests t" "lhb_free_requests (bump s t) = lhb_free_requests t"
  "lhb_free_locks (upd_lrq r f t) = lhb_free_locks t" "lhb_free_locks (upd_lbl l g t) = lhb_free_locks t"
  "lhb_free_locks (upd_own p h t) = lhb_free_locks t" "lhb_free_locks (bump s t) = lhb_free_locks t"
  "LOCK_ordering (upd_lrq r f t) = LOCK_ordering t" "LOCK_ordering (upd_lbl l g t) = LOCK_ordering t"
  "LOCK_ordering (upd_own p h t) = LOCK_ordering t" "LOCK_ordering (bump s t) = LOCK_ordering t"
  by (simp_all add: upd_lrq_def upd_lbl_def upd_own_def bump_def)

lemma init_request_simps:
  "lhb_lrqs (init_request r type ast arg p t) = (lhb_lrqs t)(r := fresh_request r type ast arg p (lhb_lrqs t r))"
  "lhb_lbls (init_request r type ast arg p t) = lhb_lbls t"
  "own_requests (lhb_owns (init_request r type ast arg p t) q) =
     (if q = p then own_requests (lhb_owns t q) @ [r] else own_requests (lhb_owns t q))"
  "lhb_used (init_request r type ast arg p t) = lhb_used t" "lhb_hash (init_request r type ast arg p t) = lhb_hash t"
  "lhb_hash_slots (init_request r type ast arg p t) = lhb_hash_slots t"
  "lhb_free_requests (init_request r type ast arg p t) = lhb_free_requests t"
  "lhb_free_locks (init_request r type ast arg p t) = lhb_free_locks t"
  by (simp_all add: init_request_def fresh_request_def)

lemma find_lock_cong:
  assumes "lhb_lbls t' = lhb_lbls t" "lhb_hash t' = lhb_hash t" "lhb_hash_slots t' = lhb_hash_slots t"
  shows "find_lock parent series value t' = find_lock parent series value t"
  by (simp add: find_lock_def hash_slot_def assms)


text \<open>\<^verbatim>\<open>new_lock\<close> before its grant.\<close>

definition hashed_lock :: "ptr \<Rightarrow> ptr \<Rightarrow> ptr \<Rightarrow> nat \<Rightarrow> byte list \<Rightarrow> nat \<Rightarrow> int \<Rightarrow> lhb \<Rightarrow> lhb" where
  "hashed_lock lock request parent series value type data t =
     (let t1 = upd_lbl lock (\<lambda>k. k\<lparr>lbl_state := type, lbl_parent := parent, lbl_series := series mod 256, lbl_data := data\<rparr>) t;
          t2 = (if data \<noteq> 0 then insert_data_que lock t1 else t1);
          t3 = bump (lhb_operations (operation_slot series)) t2;
          t4 = upd_lbl lock (\<lambda>k. k\<lparr>lbl_pending_lrq_count := 0, lbl_counts := (\<lambda>_. 0), lbl_key := value,
                 lbl_requests := [request]\<rparr>) t3;
          slot = hash_slot value t4;
          t5 = t4\<lparr>lhb_hash := (lhb_hash t4)(slot := lhb_hash t4 slot @ [lock])\<rparr>
      in upd_lrq request (\<lambda>q. q\<lparr>lrq_lock := lock\<rparr>) t5)"

lemma new_lock_grant: "new_lock l r parent series v type d t = grant r l (hashed_lock l r parent series v type d t)"
  by (simp add: new_lock_def hashed_lock_def Let_def)

lemma insert_data_que_simps [simp]:
  "lhb_lrqs (insert_data_que l t) = lhb_lrqs t" "lhb_lbls (insert_data_que l t) = lhb_lbls t"
  "lhb_owns (insert_data_que l t) = lhb_owns t" "lhb_used (insert_data_que l t) = lhb_used t"
  "lhb_hash (insert_data_que l t) = lhb_hash t" "lhb_hash_slots (insert_data_que l t) = lhb_hash_slots t"
  "lhb_free_requests (insert_data_que l t) = lhb_free_requests t" "lhb_free_locks (insert_data_que l t) = lhb_free_locks t"
  by (simp_all add: insert_data_que_def Let_def)

lemma hash_slot_cong: "lhb_hash_slots t' = lhb_hash_slots t \<Longrightarrow> hash_slot v t' = hash_slot v t"
  by (simp add: hash_slot_def)

lemma hashed_lock_simps:
  "lhb_lrqs (hashed_lock l r parent series v type d t) = (lhb_lrqs t)(r := (lhb_lrqs t r)\<lparr>lrq_lock := l\<rparr>)"
  "lhb_lbls (hashed_lock l r parent series v type d t) =
     (lhb_lbls t)(l := (lhb_lbls t l)\<lparr>lbl_state := type, lbl_parent := parent, lbl_series := series mod 256, lbl_data := d,
        lbl_pending_lrq_count := 0, lbl_counts := (\<lambda>_. 0), lbl_key := v, lbl_requests := [r]\<rparr>)"
  "lhb_owns (hashed_lock l r parent series v type d t) = lhb_owns t"
  "lhb_used (hashed_lock l r parent series v type d t) = lhb_used t"
  "lhb_hash_slots (hashed_lock l r parent series v type d t) = lhb_hash_slots t"
  "lhb_free_requests (hashed_lock l r parent series v type d t) = lhb_free_requests t"
  "lhb_free_locks (hashed_lock l r parent series v type d t) = lhb_free_locks t"
  by (simp_all add: hashed_lock_def Let_def)

lemma hashed_lock_hash:
  "lhb_hash (hashed_lock l r parent series v type d t) =
     (lhb_hash t)(hash_slot v t := lhb_hash t (hash_slot v t) @ [l])"
proof -
  have "hash_slot v (upd_lbl l f (bump s (if b then insert_data_que l (upd_lbl l g t) else upd_lbl l g t))) = hash_slot v t"
    for f g b s by (rule hash_slot_cong) simp
  then show ?thesis by (simp add: hashed_lock_def Let_def)
qed

text \<open>The queue of every lock has room for one more request: its counts are 16 bits wide.\<close>

text \<open>What the two bytes for the series and the length of the key have room for.\<close>

definition short_name :: "nat \<Rightarrow> byte list \<Rightarrow> bool" where
  "short_name series value \<longleftrightarrow> series < 256 \<and> length value < 256"

definition room :: "lhb \<Rightarrow> bool" where
  "room t \<longleftrightarrow> (\<forall>l. lbl_in_use (lhb_lbls t l) \<longrightarrow> card (set (queue t l)) < 65535)"

text \<open>A request block that has been allocated and filled in but is on no lock's queue yet.\<close>

lemma init_request_spec:
  fixes type ast arg :: nat and p :: ptr
  assumes "table_ok t" "alloc_request remap t = Some (r, t1)"
  defines "t2 \<equiv> init_request r type ast arg p t1"
  shows "lhb_lrqs t2 = (lhb_lrqs t)(r := fresh_request r type ast arg p (lhb_lrqs t r))" "lhb_lbls t2 = lhb_lbls t"
    and "\<And>q. own_requests (lhb_owns t2 q) = (if q = p then own_requests (lhb_owns t q) @ [r] else own_requests (lhb_owns t q))"
    and "lhb_used t2 = lhb_used t1" "lhb_hash t2 = lhb_hash t" "lhb_hash_slots t2 = lhb_hash_slots t"
    and "lhb_free_requests t2 = lhb_free_requests t1" "lhb_free_locks t2 = lhb_free_locks t"
    and "\<And>q. q \<in> set (lhb_free_requests t1) \<Longrightarrow> \<not> lrq_in_use (lhb_lrqs t q) \<and> q < lhb_used t1 \<and> q \<noteq> r"
    and "find_lock parent series value t2 = find_lock parent series value t"
proof -
  note a = alloc_request_spec [OF assms(1,2)]
  show i: "lhb_lrqs t2 = (lhb_lrqs t)(r := fresh_request r type ast arg p (lhb_lrqs t r))" "lhb_lbls t2 = lhb_lbls t"
    "\<And>q. own_requests (lhb_owns t2 q) = (if q = p then own_requests (lhb_owns t q) @ [r] else own_requests (lhb_owns t q))"
    "lhb_used t2 = lhb_used t1" "lhb_hash t2 = lhb_hash t" "lhb_hash_slots t2 = lhb_hash_slots t"
    "lhb_free_requests t2 = lhb_free_requests t1" "lhb_free_locks t2 = lhb_free_locks t"
    by (simp_all add: t2_def init_request_simps a)
  show "\<not> lrq_in_use (lhb_lrqs t q) \<and> q < lhb_used t1 \<and> q \<noteq> r" if "q \<in> set (lhb_free_requests t1)" for q
  proof -
    have "q \<in> set (lhb_free_requests t)" "q \<noteq> r" using that a(10) by auto
    then show ?thesis using assms(1) a(3) by (auto simp: free_lists_ok_def table_ok_def structure_ok_def)
  qed
  show "find_lock parent series value t2 = find_lock parent series value t" by (rule find_lock_cong) (simp_all add: i)
qed

definition join_request :: "ptr \<Rightarrow> ptr \<Rightarrow> nat \<Rightarrow> int \<Rightarrow> lhb \<Rightarrow> lhb" where
  "join_request r l series data t =
     upd_lrq r (\<lambda>q. q\<lparr>lrq_lock := l\<rparr>) (upd_lrq r (\<lambda>q. q\<lparr>lrq_data := data\<rparr>)
      (upd_lbl l (\<lambda>k. k\<lparr>lbl_requests := lbl_requests k @ [r]\<rparr>) (bump (lhb_operations (operation_slot series)) t)))"

lemma join_request_ok:
  assumes "table_ok t" "room t" "type \<le> LCK_EX" "alloc_request remap t = Some (r, t1)" "find_lock parent series value t = Some l"
  shows "table_ok (join_request r l series data (init_request r type ast arg p t1))" (is "table_ok ?t3")
proof -
  note a = alloc_request_spec [OF assms(1,4)]
  note i = init_request_spec [OF assms(1,4)]
  have "locks_hashed t" using assms(1) by (simp add: table_ok_def structure_ok_def)
  note use = find_lock_Some(1) [OF this assms(5)]
  have "joined r l p t ?t3" using assms(3) by (auto simp: joined_def join_request_def i)
  moreover have "distinct (queue t l)" using assms(1) use by (simp add: table_ok_def locks_ok_def lock_ok_def lock_shape_def)
  then have "length (queue t l) < 65535" using assms(2) use by (simp add: room_def distinct_card [symmetric])
  ultimately show ?thesis by (rule joined_ok [OF _ assms(1) a(1) _ use]) (use a in \<open>simp_all add: join_request_def i\<close>)
qed

lemma new_request_ok:
  assumes "table_ok t" "type \<le> LCK_EX" "alloc_request remap t = Some (r, t1)" "find_lock parent series value t = None"
    and "alloc_lock remap n (init_request r type ast arg p t1) = Some (l, t3)"
    and "short_name series value"
  shows "table_ok (new_lock l r parent series value type data t3)"
proof -
  define t2 where "t2 = init_request r type ast arg p t1"
  note a = alloc_request_spec [OF assms(1,3)]
  note i = init_request_spec(1-8) [OF assms(1,3), where type = type and ast = ast and arg = arg and p = p, folded t2_def]
  have s: "locks_hashed t" "free_lists_ok t" using assms(1) by (simp_all add: table_ok_def structure_ok_def)
  have hashed: "locks_hashed t2" using s(1) a(3) by (auto simp: locks_hashed_def i(2,4,5) hash_slot_cong [OF i(6)])
  have free: "free_lists_ok t2" using s(2) a(3,11) init_request_spec(9) [OF assms(1,3)] by (auto simp: free_lists_ok_def i(1,2,4,7,8))
  note l = alloc_lock_spec [OF free hashed assms(5) [folded t2_def]]
  define t4 where "t4 = hashed_lock l r parent series value type data t3"
  have "hash_slot value t3 = hash_slot value t" by (rule hash_slot_cong) (simp add: l(10) i(6))
  moreover have name: "series mod 256 = series" "used_key (k\<lparr>lbl_state := type, lbl_parent := parent, lbl_series := series, lbl_data := d,
        lbl_pending_lrq_count := 0, lbl_counts := c, lbl_key := value, lbl_requests := que\<rparr>) = value" for k d c que
    using assms(6) by (simp_all add: short_name_def used_key_def lbl_length_def)
  ultimately have "prepared r l p (parent, series, value) t t4"
    unfolding prepared_def t4_def hashed_lock_simps hashed_lock_hash
    using a(2,3,10,11) assms(2) l(2,3,6,11,12)
    by (auto simp: l(4,5,7-10) i(1-8) resource_def name Let_def)
  then show ?thesis
    unfolding new_lock_grant t4_def [symmetric]
    using assms(1) a(1) l(1) [unfolded i(2)] find_lock_None [OF s(1) assms(4)] by (rule prepared_ok)
qed

text \<open>The request block is given back when there is no room for a lock block.\<close>

definition unalloc_request :: "ptr \<Rightarrow> ptr \<Rightarrow> lhb \<Rightarrow> lhb" where
  "unalloc_request r p t =
     (upd_lrq r (\<lambda>q. q\<lparr>lrq_in_use := False\<rparr>) (upd_own p (\<lambda>ow. ow\<lparr>own_requests := remove1 r (own_requests ow)\<rparr>) t))
       \<lparr>lhb_free_requests := lhb_free_requests t @ [r]\<rparr>"

lemma unalloc_request_ok:
  assumes "table_ok t" "alloc_request remap t = Some (r, t1)"
  shows "table_ok (unalloc_request r p (init_request r type ast arg p t1))" (is "table_ok ?t'")
proof -
  note a = alloc_request_spec [OF assms]
  note i = init_request_spec [OF assms]
  have "r \<notin> set (own_requests (lhb_owns t q))" for q
    using assms(1) a(1) by (auto simp: requests_owned_def table_ok_def structure_ok_def)
  then have own: "own_requests (lhb_owns ?t' q) = own_requests (lhb_owns t q)" for q
    by (simp add: unalloc_request_def i remove1_append)
  show ?thesis by (rule table_ok_spare [OF assms(1) _ own]) (use a i(9) in \<open>auto simp: unalloc_request_def i(1-8)\<close>)
qed

text \<open>The ways a request for a lock can go.\<close>

lemma enq_request_cases:
  assumes "table_ok t" "enq_request remap parent series value type ast arg data w p t = (res, t')"
  obtains (no_block) "res = Enq 0 (Denied lock_manager_out_of_room)" "t' = t"
  | (joins) r t1 l out where "alloc_request remap t = Some (r, t1)" "find_lock parent series value t = Some l"
      "grant_or_que r l w (join_request r l series data (init_request r type ast arg p t1)) = (out, t')" "res = Enq r out"
  | (creates) r t1 l t3 where "alloc_request remap t = Some (r, t1)" "find_lock parent series value t = None"
      "alloc_lock remap (length value) (init_request r type ast arg p t1) = Some (l, t3)"
      "t' = new_lock l r parent series value type data t3" "res = Enq r Granted"
  | (no_lock) r t1 where "alloc_request remap t = Some (r, t1)" "res = Enq 0 (Denied lock_manager_out_of_room)"
      "t' = unalloc_request r p (init_request r type ast arg p t1)"
proof (cases "alloc_request remap t")
  case None
  then show ?thesis using assms(2) no_block by (simp add: enq_request_def)
next
  case (Some rt)
  obtain r t1 where rt: "rt = (r, t1)" by (cases rt)
  note Some = Some [unfolded rt]
  define t2 where "t2 = init_request r type ast arg p t1"
  note find = init_request_spec(10) [OF assms(1) Some, where type = type and ast = ast and arg = arg and p = p, folded t2_def]
  show ?thesis
  proof (cases "find_lock parent series value t")
    case None
    note e = assms(2) [unfolded enq_request_def Some option.case prod.case t2_def [symmetric] Let_def find None]
    show ?thesis
    proof (cases "alloc_lock remap (length value) t2")
      case No_lock: None
      then show ?thesis using no_lock [OF Some] e by (simp add: unalloc_request_def t2_def)
    next
      case (Some lt)
      then show ?thesis using creates [OF \<open>alloc_request remap t = Some (r, t1)\<close> None] e by (cases lt) (simp add: t2_def)
    qed
  next
    case Lock: (Some l)
    have "grant_or_que r l w (join_request r l series data t2) = grant_or_que r l w (upd_lrq r (\<lambda>q. q\<lparr>lrq_data := data\<rparr>)
      (upd_lbl l (\<lambda>k. k\<lparr>lbl_requests := lbl_requests k @ [r]\<rparr>) (bump (lhb_operations (operation_slot series)) t2)))"
      by (simp add: grant_or_que_def join_request_def upd_lrq_def Let_def)
    moreover note assms(2) [unfolded enq_request_def Some option.case prod.case t2_def [symmetric] Let_def find Lock]
    ultimately show ?thesis using joins [OF Some Lock] by (simp add: t2_def split: prod.splits)
  qed
qed

lemma join_request_simps:
  fixes type ast arg series :: nat and l p :: ptr and data :: int
  assumes "table_ok t" "alloc_request remap t = Some (r, t1)"
  defines "t3 \<equiv> join_request r l series data (init_request r type ast arg p t1)"
  shows "lrq_in_use (lhb_lrqs t3 r)" "lrq_lock (lhb_lrqs t3 r) = l" "state_in t3 r = 0" "\<not> lrq_pending (lhb_lrqs t3 r)"
    and "lrq_owner (lhb_lrqs t3 r) = p"
  by (simp_all add: t3_def join_request_def init_request_spec(1) [OF assms(1,2)])

lemma enq_request_ok:
  assumes "table_ok t" "room t" "type \<le> LCK_EX"
    and "enq_request remap parent series value type ast arg data w p t = (res, t')"
    and "short_name series value"
  shows "table_ok t'"
  using assms(1,4)
proof (cases rule: enq_request_cases)
  case no_block
  then show ?thesis using assms(1) by simp
next
  case (joins r t1 l out)
  then show ?thesis
    using grant_or_que_ok [OF join_request_ok [OF assms(1-3) joins(1,2)] join_request_simps(1-4) [OF assms(1) joins(1)] joins(3)] by simp
next
  case (creates r t1 l t3)
  then show ?thesis using new_request_ok [OF assms(1,3) creates(1-3) assms(5)] by simp
next
  case (no_lock r t1)
  then show ?thesis using unalloc_request_ok [OF assms(1) no_lock(1)] by simp
qed

section \<open>Operations on a request\<close>

lemma get_request_Inr: "get_request r t = Inr q \<Longrightarrow> lrq_in_use (lhb_lrqs t r) \<and> q = lhb_lrqs t r"
  by (simp add: get_request_def split: if_splits)

lemma get_request_ok: "table_ok t \<Longrightarrow> lrq_in_use (lhb_lrqs t r) \<Longrightarrow> get_request r t = Inr (lhb_lrqs t r)"
  using table_okD(1) by (simp add: get_request_def)

lemma lock_ok_bounds: "lock_ok t l \<Longrightarrow> r \<in> set (queue t l) \<Longrightarrow> state_in t r \<le> LCK_EX \<and> lrq_requested (lhb_lrqs t r) \<le> LCK_EX"
  by (simp add: lock_ok_def lock_shape_def)

lemma dequeue_ok:
  assumes "table_ok t" "dequeue r t = Inr t'"
  shows "table_ok t'"
proof -
  have "lrq_in_use (lhb_lrqs t r)" and t': "t' = release_request r (upd_lrq r (\<lambda>q. q\<lparr>lrq_ast_routine := 0\<rparr>) t)"
    using assms(2) by (auto simp: dequeue_def dest: get_request_Inr)
  then show ?thesis using release_request_ok light_table_ok [OF light_updates(14) assms(1)] by simp
qed

lemma table_ok_requested:
  assumes "table_ok t" "n \<le> LCK_EX"
  shows "table_ok (upd_lrq r (\<lambda>q. q\<lparr>lrq_requested := n\<rparr>) t)" (is "table_ok ?t")
proof -
  have lrq: "lrq_in_use (lhb_lrqs ?t q) = lrq_in_use (lhb_lrqs t q)" "lrq_pending (lhb_lrqs ?t q) = lrq_pending (lhb_lrqs t q)"
    "state_in ?t q = state_in t q" "lrq_lock (lhb_lrqs ?t q) = lrq_lock (lhb_lrqs t q)" "lrq_owner (lhb_lrqs ?t q) = lrq_owner (lhb_lrqs t q)"
    "lrq_requested (lhb_lrqs ?t q) \<le> LCK_EX \<longleftrightarrow> q = r \<or> lrq_requested (lhb_lrqs t q) \<le> LCK_EX" for q
    using assms(2) by simp_all
  have "structure_ok ?t"
    using assms(1) by (intro structure_ok_cong [of ?t t]) (simp_all add: lrq table_ok_def)
  moreover have "lock_ok ?t k" if "lbl_in_use (lhb_lbls t k)" for k
    using assms(1) that unfolding table_ok_def locks_ok_def lock_ok_def lock_shape_def lrq by (auto simp: lrq)
  ultimately show ?thesis by (simp add: table_ok_def locks_ok_def)
qed

lemma light_recount:
  assumes "lock_shape t l"
  shows "light t (upd_lbl l (count_up s) (upd_lbl l (count_down s) t))"
  unfolding light_def recount [OF assms] by simp

lemma deny_convert_ok:
  assumes "table_ok t" "lrq_in_use (lhb_lrqs t r)"
  shows "table_ok (deny_convert r w t)"
proof -
  have "state_in t r \<le> LCK_EX" using lock_ok_bounds [OF table_okD(2,3) [OF assms]] by simp
  from table_ok_requested [OF assms(1) this, of r] show ?thesis
    using light_table_ok [OF light_count_deny] by (simp add: deny_convert_def upd_lrq_def)
qed

lemma convert_ok:
  assumes "table_ok t" "\<not> lrq_pending (lhb_lrqs t r)" "type \<le> LCK_EX" "convert r type w ast arg t = Inr (res, t')"
  shows "table_ok t'"
proof -
  define l where "l = lrq_lock (lhb_lrqs t r)"
  define t1 where "t1 = upd_lrq r (\<lambda>q. q\<lparr>lrq_requested := type\<rparr>) t"
  define t1' where "t1' = upd_lrq r (set_ast ast arg) t1"
  let ?s = "state_in t r"
  have use: "lrq_in_use (lhb_lrqs t r)" using assms(4) by (auto simp: convert_def dest: get_request_Inr)
  have ok1: "table_ok t1" unfolding t1_def by (rule table_ok_requested [OF assms(1,3)])
  have ok1': "table_ok t1'" unfolding t1'_def by (rule light_table_ok [OF light_updates(12) ok1])
  have r1: "lrq_in_use (lhb_lrqs t1 r)" "lrq_lock (lhb_lrqs t1 r) = l" "state_in t1 r = ?s"
    "lrq_in_use (lhb_lrqs t1' r)" "lrq_lock (lhb_lrqs t1' r) = l" "state_in t1' r = ?s" "lrq_requested (lhb_lrqs t1' r) = type"
    "lhb_lbls t1' = lhb_lbls t1"
    using use by (simp_all add: t1'_def t1_def l_def set_ast_def)
  note d = table_okD [OF ok1' r1(4), unfolded r1(5)]
  note d1 = table_okD [OF ok1 r1(1), unfolded r1(2)]
  show ?thesis
  proof (cases "COMPATIBLE type (lock_state (lhb_lbls (upd_lbl l (count_down ?s) t1) l))")
    case True
    define t2 where "t2 = upd_lbl l (count_down ?s) t1'"
    have "t2 = upd_lrq r (set_ast ast arg) (upd_lbl l (count_down ?s) t1)" by (simp add: t2_def t1'_def upd_lrq_def upd_lbl_def)
    then have t': "t' = post_pending l (grant r l t2)"
      using assms(4) True use by (auto simp: convert_def l_def [symmetric] t1_def [symmetric] Let_def dest: get_request_Inr)
    have "lock_open t2 l r" using lock_openI_count_down [OF d(2,3)] by (simp only: t2_def r1(6))
    then have ok: "lock_ok (grant r l t2) l"
      by (rule grant_lock_ok) (use True in \<open>simp add: t2_def r1(7,8)\<close>)
    have "r \<in> set (queue t2 l)" using d(3) by (simp add: t2_def)
    then have "grants_only l t1' (grant r l t2)"
      using grants_only_trans [OF grants_only_count(1) grants_only_grant] t2_def by blast
    then have "grants_only l t1' t'" "lock_ok t' l" unfolding t' using post_pending_ok [OF ok] grants_only_trans by blast+
    then show ?thesis using table_ok_grants [OF ok1' _ _ d(1)] by blast
  next
    case False
    define t3 where "t3 = upd_lbl l (count_up ?s) (upd_lbl l (count_down ?s) t1)"
    have "light t1 t3" unfolding t3_def using d1(2) by (intro light_recount) (simp add: lock_ok_def)
    then have ok3: "table_ok t3" using ok1 by (rule light_table_ok)
    have use3: "lrq_in_use (lhb_lrqs t3 r)" "\<not> lrq_pending (lhb_lrqs t3 r)" using use assms(2) by (simp_all add: t3_def t1_def)
    have "t' = wait_begin r t3 \<or> t' = deny_convert r w t3"
      using assms(4) False use unfolding t3_def
      by (auto simp: convert_def l_def [symmetric] t1_def [symmetric] Let_def dest: get_request_Inr split: if_splits)
    then show ?thesis using wait_begin_ok [OF ok3 use3] deny_convert_ok [OF ok3 use3(1)] by blast
  qed
qed


lemma enq_resume_ok:
  assumes "table_ok t" "lrq_in_use (lhb_lrqs t r)" "enq_resume r w t = (res, t')"
  shows "table_ok t'"
proof -
  have "table_ok (count_deny w (wait_end r t))" "table_ok (wait_end r t)"
    using light_table_ok [OF light_count_deny] light_table_ok [OF light_wait_end assms(1)] by blast+
  moreover have "lrq_in_use (lhb_lrqs (count_deny w (wait_end r t)) r)"
    using assms(2) by (simp add: count_deny_def wait_end_def Let_def)
  ultimately show ?thesis
    using assms(3) release_request_ok by (auto simp: enq_resume_def deny_request_def Let_def split: if_splits)
qed

lemma post_pending_table_ok:
  assumes "table_ok t" "lbl_in_use (lhb_lbls t l)"
  shows "table_ok (post_pending l t)"
proof -
  have "lock_ok t l" using assms by (simp add: table_ok_def locks_ok_def)
  then show ?thesis using table_ok_grants [OF assms(1) _ _ assms(2)] post_pending_ok by blast
qed

lemma convert_resume_ok:
  assumes "table_ok t" "lrq_in_use (lhb_lrqs t r)" "convert_resume r w ast arg t = (res, t')"
  shows "table_ok t'"
proof -
  define t1 where "t1 = wait_end r t"
  define l where "l = lrq_lock (lhb_lrqs t1 r)"
  have ok: "table_ok t1" unfolding t1_def by (rule light_table_ok [OF light_wait_end assms(1)])
  have use: "lrq_in_use (lhb_lrqs t1 r)" using assms(2) by (simp add: t1_def wait_end_def)
  note d = table_okD [OF ok use, folded l_def]
  note p = post_pending_ok [OF d(2)]
  have "lrq_in_use (lhb_lrqs (post_pending l t1) r)" using p(2) use by (simp add: grants_only_def)
  moreover note post_pending_table_ok [OF ok d(1)]
  ultimately show ?thesis
    using assms(3) deny_convert_ok light_table_ok [OF light_updates(12) ok]
    by (auto simp: convert_resume_def Let_def t1_def [symmetric] l_def split: if_splits)
qed

text \<open>What releasing a request leaves as it is.\<close>

lemma release_request_frame:
  assumes "table_ok t" "lrq_in_use (lhb_lrqs t r)"
  defines "t' \<equiv> release_request r t"
  shows "lrq_in_use (lhb_lrqs t' q) \<longleftrightarrow> q \<noteq> r \<and> lrq_in_use (lhb_lrqs t q)"
    and "lrq_owner (lhb_lrqs t' q) = lrq_owner (lhb_lrqs t q)"
    and "lbl_in_use (lhb_lbls t' k) \<Longrightarrow> lbl_in_use (lhb_lbls t k)"
    and "set (queue t' k) \<subseteq> set (queue t k)"
    and "own_requests (lhb_owns t' p) = remove1 r (own_requests (lhb_owns t p))"
    and "lhb_owners t' = lhb_owners t" "lhb_used t' = lhb_used t" "LOCK_ordering t' = LOCK_ordering t"
proof -
  let ?l = "lrq_lock (lhb_lrqs t r)"
  let ?t1 = "unlink_request r t" and ?t2 = "uncount (state_in t r) ?l (unlink_request r t)"
  note d = table_okD [OF assms(1,2)]
  have own: "own_requests (lhb_owns ?t1 p) = remove1 r (own_requests (lhb_owns t p))" for p
  proof (cases "p = lrq_owner (lhb_lrqs t r)")
    case False
    then have "r \<notin> set (own_requests (lhb_owns t p))"
      using assms(1) by (auto simp: table_ok_def structure_ok_def requests_owned_def)
    then show ?thesis using False by (simp add: unlink_simps remove1_idem)
  qed (simp add: unlink_simps)
  have t1: "lrq_in_use (lhb_lrqs ?t1 q) \<longleftrightarrow> q \<noteq> r \<and> lrq_in_use (lhb_lrqs t q)" "lrq_owner (lhb_lrqs ?t1 q) = lrq_owner (lhb_lrqs t q)"
    "lbl_in_use (lhb_lbls ?t1 k) = lbl_in_use (lhb_lbls t k)" "set (queue ?t1 k) \<subseteq> set (queue t k)" for q k
    using set_remove1_subset [of r "queue t ?l"] by (auto simp: unlink_simps)
  have rest1: "lhb_owners ?t1 = lhb_owners t" "lhb_used ?t1 = lhb_used t" "LOCK_ordering ?t1 = LOCK_ordering t"
    using unlink_simps(4) [of r t] by (simp_all add: rest_def)
  have "lock_ok ?t2 ?l" using uncount_lock_ok [OF d(2,3)] by simp
  note g = post_pending_ok(2) [OF this]
  have main: "(lrq_in_use (lhb_lrqs t' q) \<longleftrightarrow> q \<noteq> r \<and> lrq_in_use (lhb_lrqs t q)) \<and>
      lrq_owner (lhb_lrqs t' q) = lrq_owner (lhb_lrqs t q) \<and> (lbl_in_use (lhb_lbls t' k) \<longrightarrow> lbl_in_use (lhb_lbls t k)) \<and>
      set (queue t' k) \<subseteq> set (queue t k) \<and> own_requests (lhb_owns t' p) = remove1 r (own_requests (lhb_owns t p)) \<and>
      lhb_owners t' = lhb_owners t \<and> lhb_used t' = lhb_used t \<and> LOCK_ordering t' = LOCK_ordering t" for q k p
  proof (cases "queue ?t1 ?l = []")
    case True
    then have t': "t' = free_lock ?l ?t1" by (simp add: t'_def release_request_uncount Let_def)
    have "lhb_owners (free_lock ?l ?t1) = lhb_owners ?t1" by (simp add: free_lock_def remove_data_que_def upd_lbl_def Let_def)
    then show ?thesis unfolding t' using t1 by (auto simp: free_lock_simps own rest1)
  next
    case False
    then have t': "t' = post_pending ?l ?t2" by (simp add: t'_def release_request_uncount Let_def)
    have u: "lhb_lrqs ?t2 = lhb_lrqs ?t1" "lhb_owns ?t2 = lhb_owns ?t1" "rest ?t2 = rest ?t1"
      "queue ?t2 k = queue ?t1 k" "lbl_in_use (lhb_lbls ?t2 k) = lbl_in_use (lhb_lbls ?t1 k)" for k
      by (simp_all add: uncount_simps)
    have "lhb_lbls t' k = lhb_lbls ?t2 k" if "k \<noteq> ?l" for k using g that unfolding t' grants_only_def by simp
    then have "lbl_in_use (lhb_lbls t' k) = lbl_in_use (lhb_lbls ?t1 k)" "set (queue t' k) = set (queue ?t1 k)"
      using g unfolding t' grants_only_def by (cases "k = ?l"; simp add: u)+
    moreover have "lrq_in_use (lhb_lrqs t' q) = lrq_in_use (lhb_lrqs ?t1 q)" "lrq_owner (lhb_lrqs t' q) = lrq_owner (lhb_lrqs ?t1 q)"
      "own_requests (lhb_owns t' p) = own_requests (lhb_owns ?t1 p)" "rest t' = rest ?t1"
      using g unfolding t' grants_only_def by (simp_all add: u)
    ultimately show ?thesis using t1 own rest1 by (simp add: rest_def)
  qed
  show "lrq_in_use (lhb_lrqs t' q) \<longleftrightarrow> q \<noteq> r \<and> lrq_in_use (lhb_lrqs t q)"
    "lrq_owner (lhb_lrqs t' q) = lrq_owner (lhb_lrqs t q)"
    "lbl_in_use (lhb_lbls t' k) \<Longrightarrow> lbl_in_use (lhb_lbls t k)" "set (queue t' k) \<subseteq> set (queue t k)"
    "own_requests (lhb_owns t' p) = remove1 r (own_requests (lhb_owns t p))"
    "lhb_owners t' = lhb_owners t" "lhb_used t' = lhb_used t" "LOCK_ordering t' = LOCK_ordering t"
    using main by simp_all
qed


lemma dequeue_room:
  assumes "table_ok t" "room t" "dequeue r t = Inr t'"
  shows "room t'"
proof -
  let ?t1 = "upd_lrq r (\<lambda>q. q\<lparr>lrq_ast_routine := 0\<rparr>) t"
  have use: "lrq_in_use (lhb_lrqs ?t1 r)" and t': "t' = release_request r ?t1"
    using assms(3) by (auto simp: dequeue_def dest: get_request_Inr)
  note f = release_request_frame(3,4) [OF light_table_ok [OF light_updates(14) assms(1)] use, folded t']
  show ?thesis
    unfolding room_def
  proof (intro allI impI)
    fix l assume "lbl_in_use (lhb_lbls t' l)"
    then have "card (set (queue t l)) < 65535" using f(1) assms(2) by (simp add: room_def)
    moreover have "card (set (queue t' l)) \<le> card (set (queue t l))" using f(2) [of l] by (intro card_mono) simp_all
    ultimately show "card (set (queue t' l)) < 65535" by simp
  qed
qed

lemma LOCK_enq_ok:
  assumes "table_ok t" "room t" "type \<le> LCK_EX"
    and "LOCK_enq remap prior par series value type ast arg data w p t = Inr (res, t')"
    and "short_name series value"
  shows "table_ok t'"
proof (cases "p = 0 \<or> own_count (lhb_owns t p) = 0")
  case True
  then show ?thesis using assms(1,4) by (simp add: LOCK_enq_def)
next
  case False
  have b: "table_ok (bump lhb_enqs t)" "room (bump lhb_enqs t)"
    using light_table_ok [OF light_updates(1) assms(1)] assms(2) by (simp_all add: room_def)
  obtain t1 parent where t1: "(if prior \<noteq> 0 then dequeue prior (bump lhb_enqs t) else Inr (bump lhb_enqs t)) = Inr t1"
    and enq: "enq_request remap parent series value type ast arg data w p t1 = (res, t')"
    using assms(4) False by (auto simp: LOCK_enq_def split: if_splits)
  have "table_ok t1 \<and> room t1" using t1 b dequeue_ok dequeue_room by (auto split: if_splits)
  then show ?thesis using enq_request_ok [OF _ _ assms(3) enq assms(5)] by simp
qed

lemma LOCK_deq_ok:
  assumes "table_ok t" "LOCK_deq r t = Inr (res, t')"
  shows "table_ok t'"
proof -
  have "table_ok (bump s (bump s' t))" for s s'
    using light_table_ok [OF light_trans [OF light_updates(1) light_updates(1)] assms(1)] .
  then show ?thesis using assms by (auto simp: LOCK_deq_def intro: dequeue_ok split: if_splits)
qed

lemma LOCK_convert_ok:
  assumes "table_ok t" "\<not> lrq_pending (lhb_lrqs t r)" "type \<le> LCK_EX"
    and "LOCK_convert r type w ast arg t = Inr (res, t')"
  shows "table_ok t'"
proof -
  have "table_ok (bump s (bump s' t))" for s s'
    using light_table_ok [OF light_trans [OF light_updates(1) light_updates(1)] assms(1)] .
  then show ?thesis using assms(1-3) convert_ok [OF _ _ assms(3)] assms(4)
    by (auto simp: LOCK_convert_def split: if_splits) (metis upd_simps(10))
qed

lemma downgrade_state_le: "downgrade_state pending s \<le> s"
  by (induction s) (simp_all add: le_Suc_eq)

lemma LOCK_downgrade_ok:
  assumes "table_ok t" "\<not> lrq_pending (lhb_lrqs t r)" "LOCK_downgrade r t = Inr (res, t')"
  shows "table_ok t'"
proof (cases "own_count (lhb_owns t (lrq_owner (lhb_lrqs t r))) = 0")
  case True
  then show ?thesis using assms(1,3) by (auto simp: LOCK_downgrade_def dest: get_request_Inr)
next
  case False
  have b: "table_ok (bump lhb_downgrades t)" using light_table_ok [OF light_updates(1) assms(1)] .
  define pending where "pending = pending_state (lhb_lrqs t) r (queue t (lrq_lock (lhb_lrqs t r))) LCK_none"
  have use: "lrq_in_use (lhb_lrqs t r)" using assms(3) by (auto simp: LOCK_downgrade_def dest: get_request_Inr)
  then have "state_in t r \<le> LCK_EX" using lock_ok_bounds [OF table_okD(2,3) [OF assms(1)]] by simp
  then have st: "downgrade_state pending (state_in t r) \<le> LCK_EX" using downgrade_state_le le_trans by blast
  have "dequeue r (bump lhb_downgrades t) = Inr t' \<or>
    (\<exists>o'. convert r (downgrade_state pending (state_in t r)) 0 (lrq_ast_routine (lhb_lrqs t r)) (lrq_ast_argument (lhb_lrqs t r))
       (bump lhb_downgrades t) = Inr (o', t'))"
    using assms(3) False get_request_ok [OF assms(1) use]
    by (auto simp: LOCK_downgrade_def pending_def Let_def split: if_splits)
  then show ?thesis using dequeue_ok [OF b] convert_ok [OF b _ st] assms(2) by auto
qed

end
