(* ===== verification/Deadlock.thy ===== *)
theory Deadlock
  imports Lock_Ops
begin

text \<open>
  The search for deadlocks of \<^verbatim>\<open>src/lock/lock.c\<close>: \<^verbatim>\<open>deadlock_clear\<close>, \<^verbatim>\<open>deadlock_scan\<close> and the
  recursive \<^verbatim>\<open>deadlock_walk\<close>, which colours the pending requests of the wait-for graph with the
  flags \<^verbatim>\<open>LRQ_deadlock\<close> (on the path) and \<^verbatim>\<open>LRQ_scanned\<close> (exhausted).
\<close>

lemma owners_upd [simp]:
  "lhb_owners (upd_lrq r f t) = lhb_owners t" "lhb_owners (upd_lbl l g t) = lhb_owners t"
  "lhb_owners (upd_own p h t) = lhb_owners t" "lhb_owners (bump s t) = lhb_owners t"
  "lhb_free_owners (upd_lrq r f t) = lhb_free_owners t" "lhb_free_owners (upd_lbl l g t) = lhb_free_owners t"
  "lhb_free_owners (upd_own p h t) = lhb_free_owners t" "lhb_free_owners (bump s t) = lhb_free_owners t"
  by (simp_all add: upd_lrq_def upd_lbl_def upd_own_def bump_def)

section \<open>The search\<close>

definition clear_marks :: "lrq \<Rightarrow> lrq" where
  "clear_marks q = q\<lparr>lrq_deadlock := False, lrq_scanned := False\<rparr>"

definition deadlock_clear :: "lhb \<Rightarrow> lhb" where
  "deadlock_clear t =
     fold (\<lambda>owner t1. let pending = own_pending_request (lhb_owns t1 owner)
                      in if pending = 0 then t1 else upd_lrq pending clear_marks t1)
       (lhb_owners t) t"

text \<open>
  \<open>deadlock_walk\<close> and its loop over the requests of the lock, \<open>deadlock_loop\<close>.  The state of the
  walk is the flag \<^verbatim>\<open>maybe_deadlock\<close> and the table, in which only the marks change.  The first
  argument bounds the depth of the recursion; \<open>None\<close> means that it was too small.
\<close>

function deadlock_walk :: "nat \<Rightarrow> ptr \<Rightarrow> bool \<times> lhb \<Rightarrow> (ptr option \<times> bool \<times> lhb) option"
  and deadlock_loop :: "nat \<Rightarrow> ptr \<Rightarrow> ptr list \<Rightarrow> bool \<times> lhb \<Rightarrow> (ptr option \<times> bool \<times> lhb) option" where
  "deadlock_walk 0 request s = None"
| "deadlock_walk (Suc n) request s =
     (let (maybe_deadlock, t) = s; req = lhb_lrqs t request in
      if lrq_scanned req then Some (None, s)
      else if lrq_deadlock req then Some (Some request, s)
      else case deadlock_loop n request (lbl_requests (lhb_lbls t (lrq_lock req)))
                  (maybe_deadlock, upd_lrq request (\<lambda>q. q\<lparr>lrq_deadlock := True\<rparr>) t) of
             None \<Rightarrow> None
           | Some (Some target, s1) \<Rightarrow> Some (Some target, s1)
           | Some (None, maybe1, t1) \<Rightarrow>
               Some (None, maybe1, upd_lrq request (\<lambda>q. q\<lparr>lrq_deadlock := False, lrq_scanned := True\<rparr>) t1))"
| "deadlock_loop n request [] s = Some (None, s)"
| "deadlock_loop n request (block # que) s =
     (let (maybe_deadlock, t) = s;
          req = lhb_lrqs t request;
          blk = lhb_lrqs t block;
          conversion = (lrq_state req > LCK_null);
          unordered = (\<not> LOCK_ordering t \<or> conversion);
          owner = lhb_owns t (lrq_owner blk);
          pending_offset = own_pending_request owner
      in if request = block then (if unordered then deadlock_loop n request que s else Some (None, s))
         else if COMPATIBLE (lrq_requested req)
                   (if unordered then lrq_state blk else max (lrq_state blk) (lrq_requested blk))
         then deadlock_loop n request que s
         else if own_signaled owner \<or> own_blocks owner \<noteq> [] then deadlock_loop n request que (True, t)
         else if pending_offset = 0 then deadlock_loop n request que s
         else if \<not> lrq_pending (lhb_lrqs t pending_offset) then deadlock_loop n request que s
         else case deadlock_walk n pending_offset s of
                None \<Rightarrow> None
              | Some (Some target, s1) \<Rightarrow> Some (Some target, s1)
              | Some (None, s1) \<Rightarrow> deadlock_loop n request que s1)"
  by pat_completeness auto
termination
  by (relation "measures [\<lambda>x. case x of Inl (n, _) \<Rightarrow> n | Inr (n, _) \<Rightarrow> n,
        \<lambda>x. case x of Inl _ \<Rightarrow> 0 | Inr (_, _, que, _) \<Rightarrow> Suc (length que)]") auto

definition deadlock_scan :: "ptr \<Rightarrow> ptr \<Rightarrow> lhb \<Rightarrow> (ptr option \<times> lhb) option" where
  "deadlock_scan owner request t =
     (let t1 = deadlock_clear (bump lhb_scans t) in
      map_option (\<lambda>(victim, maybe_deadlock, t2).
          (victim, if victim = None \<and> \<not> maybe_deadlock then upd_own owner (\<lambda>ow. ow\<lparr>own_scanned := True\<rparr>) t2 else t2))
        (deadlock_walk (Suc (Suc (lhb_used t1))) request (False, t1)))"

section \<open>The wait-for graph\<close>

text \<open>
  Request \<open>r\<close> is blocked by the requests of its lock whose state is incompatible with what it
  asks for; a request that is no conversion and has to keep its turn is also blocked by the
  incompatible requests ahead of it.  It waits for the pending requests of their owners.
\<close>

definition unordered :: "lhb \<Rightarrow> ptr \<Rightarrow> bool" where
  "unordered t r \<longleftrightarrow> \<not> LOCK_ordering t \<or> LCK_null < state_in t r"

definition ahead :: "lhb \<Rightarrow> ptr \<Rightarrow> ptr list \<Rightarrow> ptr set" where
  "ahead t r que = (if unordered t r then set que - {r} else set (takeWhile (\<lambda>b. b \<noteq> r) que))"

definition obstructs :: "lhb \<Rightarrow> ptr \<Rightarrow> ptr \<Rightarrow> bool" where
  "obstructs t r b \<longleftrightarrow>
     \<not> COMPATIBLE (lrq_requested (lhb_lrqs t r))
         (if unordered t r then state_in t b else max (state_in t b) (lrq_requested (lhb_lrqs t b)))"

definition busy_owner :: "lhb \<Rightarrow> ptr \<Rightarrow> bool" where
  "busy_owner t b \<longleftrightarrow> (let ow = lhb_owns t (lrq_owner (lhb_lrqs t b)) in own_signaled ow \<or> own_blocks ow \<noteq> [])"

definition awaits :: "lhb \<Rightarrow> ptr \<Rightarrow> ptr \<Rightarrow> bool" where
  "awaits t b q \<longleftrightarrow> q = own_pending_request (lhb_owns t (lrq_owner (lhb_lrqs t b))) \<and> q \<noteq> 0 \<and> lrq_pending (lhb_lrqs t q)"

definition waits_via :: "lhb \<Rightarrow> ptr \<Rightarrow> ptr list \<Rightarrow> ptr set" where
  "waits_via t r que = {q. \<exists>b \<in> ahead t r que. obstructs t r b \<and> awaits t b q}"

definition waits_for :: "lhb \<Rightarrow> (ptr \<times> ptr) set" where
  "waits_for t = {(r, q). q \<in> waits_via t r (queue t (lrq_lock (lhb_lrqs t r)))}"

text \<open>The part of the graph without the owners that still have signals to handle.\<close>

definition stalled_via :: "lhb \<Rightarrow> ptr \<Rightarrow> ptr list \<Rightarrow> ptr set" where
  "stalled_via t r que = {q. \<exists>b \<in> ahead t r que. obstructs t r b \<and> \<not> busy_owner t b \<and> awaits t b q}"

definition stalled_for :: "lhb \<Rightarrow> (ptr \<times> ptr) set" where
  "stalled_for t = {(r, q). q \<in> stalled_via t r (queue t (lrq_lock (lhb_lrqs t r)))}"

lemma stalled_waits: "stalled_for t \<subseteq> waits_for t"
  by (auto simp: stalled_for_def stalled_via_def waits_for_def waits_via_def)

text \<open>The requests that wait, and the marks.\<close>

definition waiting :: "lhb \<Rightarrow> ptr set" where
  "waiting t = {r. lrq_pending (lhb_lrqs t r)}"

definition on_path :: "lhb \<Rightarrow> ptr set" where
  "on_path t = {r. lrq_deadlock (lhb_lrqs t r)}"

definition exhausted :: "lhb \<Rightarrow> ptr set" where
  "exhausted t = {r. lrq_scanned (lhb_lrqs t r)}"

definition same_but_marks :: "lhb \<Rightarrow> lhb \<Rightarrow> bool" where
  "same_but_marks t t' \<longleftrightarrow>
     lhb_lbls t' = lhb_lbls t \<and> lhb_owns t' = lhb_owns t \<and> rest t' = rest t \<and> lhb_free_owners t' = lhb_free_owners t \<and>
     (\<forall>r. clear_marks (lhb_lrqs t' r) = clear_marks (lhb_lrqs t r))"


lemma clear_marks_eqD:
  assumes "clear_marks q' = clear_marks q"
  shows "lrq_state q' = lrq_state q" "lrq_requested q' = lrq_requested q" "lrq_owner q' = lrq_owner q"
    and "lrq_lock q' = lrq_lock q" "lrq_pending q' = lrq_pending q" "lrq_in_use q' = lrq_in_use q"
    and "lrq_blocking q' = lrq_blocking q" "lrq_rejected q' = lrq_rejected q"
  using arg_cong [OF assms, of lrq_state] arg_cong [OF assms, of lrq_requested] arg_cong [OF assms, of lrq_owner]
    arg_cong [OF assms, of lrq_lock] arg_cong [OF assms, of lrq_pending] arg_cong [OF assms, of lrq_in_use]
    arg_cong [OF assms, of lrq_blocking] arg_cong [OF assms, of lrq_rejected]
  by (simp_all add: clear_marks_def)

lemma same_refl [simp]: "same_but_marks t t"
  by (simp add: same_but_marks_def)

lemma same_trans: "same_but_marks t t' \<Longrightarrow> same_but_marks t' t'' \<Longrightarrow> same_but_marks t t''"
  by (simp add: same_but_marks_def)

lemma same_mark [simp]:
  "same_but_marks t (upd_lrq r (\<lambda>q. q\<lparr>lrq_deadlock := b\<rparr>) t)"
  "same_but_marks t (upd_lrq r (\<lambda>q. q\<lparr>lrq_deadlock := b, lrq_scanned := b'\<rparr>) t)"
  "same_but_marks t (upd_lrq r clear_marks t)"
  by (auto simp: same_but_marks_def clear_marks_def)

lemma same_graph:
  assumes "same_but_marks t t'"
  shows "unordered t' r = unordered t r" "ahead t' r que = ahead t r que" "obstructs t' r b = obstructs t r b"
    and "busy_owner t' b = busy_owner t b" "awaits t' b q = awaits t b q" "waits_via t' r que = waits_via t r que"
    and "waits_for t' = waits_for t" "stalled_via t' r que = stalled_via t r que" "stalled_for t' = stalled_for t"
    and "light t t'" "waiting t' = waiting t"
proof -
  have m: "lhb_lbls t' = lhb_lbls t" "lhb_owns t' = lhb_owns t" "rest t' = rest t"
    and c: "clear_marks (lhb_lrqs t' r) = clear_marks (lhb_lrqs t r)" for r
    using assms by (simp_all add: same_but_marks_def)
  note f = clear_marks_eqD [OF c]
  have "LOCK_ordering t' = LOCK_ordering t" using m(3) by (simp add: rest_def)
  then show u: "unordered t' r = unordered t r" for r by (simp add: unordered_def f(1))
  show a: "ahead t' r que = ahead t r que" for r que by (simp add: ahead_def u)
  show o: "obstructs t' r b = obstructs t r b" for r b by (simp add: obstructs_def u f(1,2))
  show y: "busy_owner t' b = busy_owner t b" for b by (simp add: busy_owner_def f(3) m(2))
  show w: "awaits t' b q = awaits t b q" for b q by (simp add: awaits_def f(3,5) m(2))
  show v: "waits_via t' r que = waits_via t r que" for r que by (simp add: waits_via_def a o w)
  show "waits_for t' = waits_for t" by (simp add: waits_for_def v f(4) m(1))
  show z: "stalled_via t' r que = stalled_via t r que" for r que by (simp add: stalled_via_def a o y w)
  show "stalled_for t' = stalled_for t" by (simp add: stalled_for_def z f(4) m(1))
  show "light t t'" by (simp add: light_def core_def f m)
  show "waiting t' = waiting t" by (simp add: waiting_def f(5))
qed

lemma marks_simps [simp]:
  "on_path (upd_lrq r (\<lambda>q. q\<lparr>lrq_deadlock := True\<rparr>) t) = insert r (on_path t)"
  "exhausted (upd_lrq r (\<lambda>q. q\<lparr>lrq_deadlock := True\<rparr>) t) = exhausted t"
  "on_path (upd_lrq r (\<lambda>q. q\<lparr>lrq_deadlock := False, lrq_scanned := True\<rparr>) t) = on_path t - {r}"
  "exhausted (upd_lrq r (\<lambda>q. q\<lparr>lrq_deadlock := False, lrq_scanned := True\<rparr>) t) = insert r (exhausted t)"
  by (auto simp: on_path_def exhausted_def)

text \<open>
  One turn of the loop in terms of the graph: the block is the request itself and ends the
  loop or is passed over, is no obstacle, is of an owner with signals to handle, of an owner
  that is not waiting, or of a waiting one.
\<close>

lemma deadlock_loop_Cons:
  "deadlock_loop n r (b # que) (m, t) =
     (if r = b \<and> \<not> unordered t r then Some (None, m, t)
      else if r = b \<or> \<not> obstructs t r b then deadlock_loop n r que (m, t)
      else if busy_owner t b then deadlock_loop n r que (True, t)
      else let p = own_pending_request (lhb_owns t (lrq_owner (lhb_lrqs t b))) in
           if \<not> awaits t b p then deadlock_loop n r que (m, t)
           else case deadlock_walk n p (m, t) of
                  None \<Rightarrow> None
                | Some (Some target, s1) \<Rightarrow> Some (Some target, s1)
                | Some (None, s1) \<Rightarrow> deadlock_loop n r que s1)"
  by (simp add: unordered_def obstructs_def busy_owner_def awaits_def Let_def)

declare deadlock_loop.simps(2) [simp del]

lemma waits_via_Nil [simp]: "waits_via t r [] = {}"
  by (simp add: waits_via_def ahead_def)

lemma waits_via_Cons:
  "waits_via t r (b # que) =
     (if r = b then (if unordered t r then waits_via t r que else {})
      else (if obstructs t r b then {q. awaits t b q} else {}) \<union> waits_via t r que)"
  by (auto simp: waits_via_def ahead_def)

text \<open>The walk changes marks only; a walk that finds no victim leaves the path as it was.\<close>

definition walk_frame :: "ptr option \<Rightarrow> bool \<Rightarrow> lhb \<Rightarrow> bool \<Rightarrow> lhb \<Rightarrow> bool" where
  "walk_frame v m t m' t' \<longleftrightarrow>
     same_but_marks t t' \<and> (m \<longrightarrow> m') \<and> (v = None \<longrightarrow> on_path t' = on_path t \<and> exhausted t \<subseteq> exhausted t')"

lemma walk_frame_refl [simp]: "walk_frame v m t m t" "walk_frame v m t True t"
  by (simp_all add: walk_frame_def)

lemma walk_frame_trans: "walk_frame None m t m1 t1 \<Longrightarrow> walk_frame v m1 t1 m' t' \<Longrightarrow> walk_frame v m t m' t'"
  by (auto simp: walk_frame_def intro: same_trans)

text \<open>The ways a turn of the loop, and a walk, can go.\<close>

lemma deadlock_loop_ConsD:
  assumes "deadlock_loop n r (b # que) (m, t) = Some z"
  defines "p \<equiv> own_pending_request (lhb_owns t (lrq_owner (lhb_lrqs t b)))"
  shows "r = b \<and> \<not> unordered t r \<and> z = (None, m, t) \<or>
    (r = b \<and> unordered t r \<or> r \<noteq> b \<and> (\<not> obstructs t r b \<or> \<not> awaits t b p)) \<and> deadlock_loop n r que (m, t) = Some z \<or>
    r \<noteq> b \<and> obstructs t r b \<and> busy_owner t b \<and> deadlock_loop n r que (True, t) = Some z \<or>
    r \<noteq> b \<and> obstructs t r b \<and> \<not> busy_owner t b \<and> awaits t b p \<and>
      (deadlock_walk n p (m, t) = Some z \<and> fst z \<noteq> None \<or>
       (\<exists>s1. deadlock_walk n p (m, t) = Some (None, s1) \<and> deadlock_loop n r que s1 = Some z))"
proof (cases "r \<noteq> b \<and> obstructs t r b \<and> \<not> busy_owner t b \<and> awaits t b p")
  case True
  have eq: "deadlock_loop n r (b # que) (m, t) =
      (case deadlock_walk n p (m, t) of None \<Rightarrow> None
       | Some (Some target, s1) \<Rightarrow> Some (Some target, s1) | Some (None, s1) \<Rightarrow> deadlock_loop n r que s1)"
    using True by (simp add: deadlock_loop_Cons Let_def p_def [symmetric])
  have "deadlock_walk n p (m, t) = Some z \<and> fst z \<noteq> None \<or>
    (\<exists>s1. deadlock_walk n p (m, t) = Some (None, s1) \<and> deadlock_loop n r que s1 = Some z)"
    using assms(1) unfolding eq by (auto split: option.splits prod.splits)
  with True show ?thesis by simp
next
  case False
  then show ?thesis
    using assms(1) unfolding deadlock_loop_Cons p_def [symmetric] Let_def by (cases "r = b") (simp_all split: if_splits)
qed

lemma deadlock_loop_frame:
  assumes "\<And>q m t v m' t'. deadlock_walk n q (m, t) = Some (v, m', t') \<Longrightarrow> walk_frame v m t m' t'"
    and "deadlock_loop n r que (m, t) = Some (v, m', t')"
  shows "walk_frame v m t m' t'"
  using assms(2)
proof (induction que arbitrary: m t)
  case (Cons b que)
  let ?p = "own_pending_request (lhb_owns t (lrq_owner (lhb_lrqs t b)))"
  consider (ends) "(v, m', t') = (None, m, t)" | (skip) "deadlock_loop n r que (m, t) = Some (v, m', t')"
    | (busy) "deadlock_loop n r que (True, t) = Some (v, m', t')" | (found) "deadlock_walk n ?p (m, t) = Some (v, m', t')"
    | (more) s1 where "deadlock_walk n ?p (m, t) = Some (None, s1)" "deadlock_loop n r que s1 = Some (v, m', t')"
    using deadlock_loop_ConsD [OF Cons.prems] by blast
  then show ?case
  proof cases
    case skip
    then show ?thesis by (rule Cons.IH)
  next
    case busy
    then show ?thesis using walk_frame_trans [OF walk_frame_refl(2) Cons.IH] by blast
  next
    case found
    then show ?thesis using assms(1) by blast
  next
    case more
    then show ?thesis using walk_frame_trans [OF assms(1) Cons.IH] by (cases s1) simp
  qed simp
qed simp

lemma deadlock_walk_Suc:
  "deadlock_walk (Suc n) r (m, t) =
     (if r \<in> exhausted t then Some (None, m, t)
      else if r \<in> on_path t then Some (Some r, m, t)
      else case deadlock_loop n r (queue t (lrq_lock (lhb_lrqs t r))) (m, upd_lrq r (\<lambda>q. q\<lparr>lrq_deadlock := True\<rparr>) t) of
             None \<Rightarrow> None
           | Some (Some target, s1) \<Rightarrow> Some (Some target, s1)
           | Some (None, m1, t1) \<Rightarrow>
               Some (None, m1, upd_lrq r (\<lambda>q. q\<lparr>lrq_deadlock := False, lrq_scanned := True\<rparr>) t1))"
  by (simp add: on_path_def exhausted_def)

declare deadlock_walk.simps(2) [simp del]

lemma deadlock_walk_SucD:
  assumes "deadlock_walk (Suc n) r (m, t) = Some z"
  defines "s1 \<equiv> (m, upd_lrq r (\<lambda>q. q\<lparr>lrq_deadlock := True\<rparr>) t)" and "que \<equiv> queue t (lrq_lock (lhb_lrqs t r))"
  shows "r \<in> exhausted t \<and> z = (None, m, t) \<or> r \<in> on_path t \<and> z = (Some r, m, t) \<or>
    r \<notin> exhausted t \<and> r \<notin> on_path t \<and>
      (fst z \<noteq> None \<and> deadlock_loop n r que s1 = Some z \<or>
       (\<exists>m1 t1. deadlock_loop n r que s1 = Some (None, m1, t1) \<and>
          z = (None, m1, upd_lrq r (\<lambda>q. q\<lparr>lrq_deadlock := False, lrq_scanned := True\<rparr>) t1)))"
proof (cases "r \<in> exhausted t \<or> r \<in> on_path t")
  case True
  then show ?thesis using assms(1) by (simp add: deadlock_walk_Suc split: if_splits)
next
  case False
  then have eq: "deadlock_walk (Suc n) r (m, t) =
      (case deadlock_loop n r que s1 of None \<Rightarrow> None
       | Some (Some target, s1) \<Rightarrow> Some (Some target, s1)
       | Some (None, m1, t1) \<Rightarrow> Some (None, m1, upd_lrq r (\<lambda>q. q\<lparr>lrq_deadlock := False, lrq_scanned := True\<rparr>) t1))"
    by (simp add: deadlock_walk_Suc s1_def que_def)
  then show ?thesis using False assms(1) unfolding eq by (simp split: option.splits prod.splits) auto
qed

lemma deadlock_walk_frame:
  "deadlock_walk n r (m, t) = Some (v, m', t') \<Longrightarrow> walk_frame v m t m' t' \<and> (v = None \<longrightarrow> r \<in> exhausted t')"
proof (induction n arbitrary: r m t v m' t')
  case (Suc n)
  let ?t1 = "upd_lrq r (\<lambda>q. q\<lparr>lrq_deadlock := True\<rparr>) t"
  consider (black) "r \<in> exhausted t" "(v, m', t') = (None, m, t)" | (grey) "(v, m', t') = (Some r, m, t)"
    | (found) "v \<noteq> None" "deadlock_loop n r (queue t (lrq_lock (lhb_lrqs t r))) (m, ?t1) = Some (v, m', t')"
    | (none) m2 t2 where "r \<notin> on_path t" "(v, m', t') = (None, m2, upd_lrq r (\<lambda>q. q\<lparr>lrq_deadlock := False, lrq_scanned := True\<rparr>) t2)"
        "deadlock_loop n r (queue t (lrq_lock (lhb_lrqs t r))) (m, ?t1) = Some (None, m2, t2)"
    using deadlock_walk_SucD [OF Suc.prems] unfolding fst_conv by blast
  then show ?case
  proof cases
    case found
    then have "walk_frame v m ?t1 m' t'" using deadlock_loop_frame [of n r _ m ?t1] Suc.IH by blast
    then show ?thesis using found(1) same_trans [OF same_mark(1)] by (auto simp: walk_frame_def)
  next
    case none
    then have "walk_frame None m ?t1 m2 t2" using deadlock_loop_frame [of n r _ m ?t1] Suc.IH by blast
    then show ?thesis
      using none(1,2) same_trans [OF same_mark(1) same_trans [OF _ same_mark(2)]] by (auto simp: walk_frame_def)
  qed simp_all
qed simp


lemma loop_frame: "deadlock_loop n r que (m, t) = Some (v, m', t') \<Longrightarrow> walk_frame v m t m' t'"
  using deadlock_loop_frame deadlock_walk_frame by blast

section \<open>Victims lie on cycles, and no victim means no cycle\<close>

text \<open>
  Between the steps of the walk no pending request has both marks, and as long as no busy
  owner was met, the exhausted ones wait for exhausted ones only and none lies on a cycle.
  Requests that are not pending may have marks left from earlier scans.
\<close>

definition settled :: "bool \<Rightarrow> lhb \<Rightarrow> bool" where
  "settled m t \<longleftrightarrow>
     waiting t \<inter> on_path t \<inter> exhausted t = {} \<and>
     (\<not> m \<longrightarrow> waits_for t `` (waiting t \<inter> exhausted t) \<subseteq> exhausted t \<and>
        (\<forall>q \<in> waiting t \<inter> exhausted t. (q, q) \<notin> (waits_for t)\<^sup>+))"

definition leads_to :: "lhb \<Rightarrow> ptr \<Rightarrow> bool" where
  "leads_to t r \<longleftrightarrow> (\<forall>g \<in> waiting t \<inter> on_path t. (g, r) \<in> (stalled_for t)\<^sup>*)"

definition leads_back :: "lhb \<Rightarrow> ptr \<Rightarrow> bool" where
  "leads_back t r \<longleftrightarrow> (\<forall>g \<in> waiting t \<inter> on_path t. (g, r) \<in> (stalled_for t)\<^sup>+)"

definition cycle_at :: "lhb \<Rightarrow> ptr \<Rightarrow> ptr \<Rightarrow> bool" where
  "cycle_at t r v \<longleftrightarrow> (v, v) \<in> (stalled_for t)\<^sup>+ \<and> (r, v) \<in> (stalled_for t)\<^sup>*"

lemma deadlock_loop_correct:
  assumes walk: "\<And>q m t v m' t'. deadlock_walk n q (m, t) = Some (v, m', t') \<Longrightarrow> q \<in> waiting t \<Longrightarrow> settled m t \<Longrightarrow> leads_back t q \<Longrightarrow>
      (case v of None \<Rightarrow> settled m' t' | Some v \<Rightarrow> cycle_at t q v)"
    and "deadlock_loop n r que (m, t) = Some (v, m', t')" "settled m t" "leads_to t r"
    and "stalled_via t r que \<subseteq> stalled_for t `` {r}"
  shows "case v of None \<Rightarrow> settled m' t' \<and> (\<not> m' \<longrightarrow> waits_via t r que \<subseteq> exhausted t') | Some v \<Rightarrow> cycle_at t r v"
  using assms(2-)
proof (induction que arbitrary: m t)
  case (Cons b que)
  let ?p = "own_pending_request (lhb_owns t (lrq_owner (lhb_lrqs t b)))"
  have edges: "stalled_via t r que \<subseteq> stalled_for t `` {r}" if "r = b \<longrightarrow> unordered t r"
    using that Cons.prems(4) by (auto simp: stalled_via_def ahead_def split: if_splits)
  have p_waits: "?p \<in> waiting t" if "awaits t b ?p" using that by (simp add: awaits_def waiting_def)
  have here: "?p \<in> stalled_via t r (b # que)" if "r \<noteq> b" "obstructs t r b" "\<not> busy_owner t b" "awaits t b ?p"
    using that by (auto simp: stalled_via_def ahead_def)
  consider (ends) "r = b" "\<not> unordered t r" "(v, m', t') = (None, m, t)"
    | (skip) "r = b \<and> unordered t r \<or> r \<noteq> b \<and> (\<not> obstructs t r b \<or> \<not> awaits t b ?p)"
        "deadlock_loop n r que (m, t) = Some (v, m', t')"
    | (busy) "r \<noteq> b" "deadlock_loop n r que (True, t) = Some (v, m', t')"
    | (found) "r \<noteq> b" "obstructs t r b" "\<not> busy_owner t b" "awaits t b ?p" "v \<noteq> None" "deadlock_walk n ?p (m, t) = Some (v, m', t')"
    | (more) s1 where "r \<noteq> b" "obstructs t r b" "\<not> busy_owner t b" "awaits t b ?p"
        "deadlock_walk n ?p (m, t) = Some (None, s1)" "deadlock_loop n r que s1 = Some (v, m', t')"
    using deadlock_loop_ConsD [OF Cons.prems(1)] unfolding fst_conv by blast
  then show ?case
  proof cases
    case ends
    then show ?thesis using Cons.prems(2) by (simp add: waits_via_Cons)
  next
    case skip
    have "waits_via t r (b # que) = waits_via t r que"
      using skip(1) by (auto simp: waits_via_Cons awaits_def)
    moreover have "r = b \<longrightarrow> unordered t r" using skip(1) by blast
    ultimately show ?thesis using Cons.IH [OF skip(2) Cons.prems(2,3) edges] by (simp split: option.splits)
  next
    case busy
    have "settled True t" using Cons.prems(2) by (simp add: settled_def)
    moreover have "m'" using loop_frame [OF busy(2)] by (simp add: walk_frame_def)
    ultimately show ?thesis using Cons.IH [OF busy(2) _ Cons.prems(3) edges] busy(1) by (simp split: option.splits)
  next
    case found
    then have e: "(r, ?p) \<in> stalled_for t" using Cons.prems(4) here by blast
    then have "leads_back t ?p"
      using Cons.prems(3) unfolding leads_to_def leads_back_def by (blast intro: rtrancl_into_trancl1)
    from walk [OF found(6) p_waits [OF found(4)] Cons.prems(2) this] found(5) e show ?thesis
      by (auto simp: cycle_at_def intro: converse_rtrancl_into_rtrancl)
  next
    case more
    obtain m1 t1 where s1: "s1 = (m1, t1)" by (cases s1)
    have e: "(r, ?p) \<in> stalled_for t" using Cons.prems(4) here [OF more(1-4)] by blast
    then have l: "leads_back t ?p"
      using Cons.prems(3) unfolding leads_to_def leads_back_def by (blast intro: rtrancl_into_trancl1)
    have "walk_frame None m t m1 t1" and p: "?p \<in> exhausted t1" using deadlock_walk_frame more(5) s1 by blast+
    then have same: "same_but_marks t t1" "on_path t1 = on_path t" by (simp_all add: walk_frame_def)
    note g = same_graph [OF same(1)]
    have "settled m1 t1" using walk [OF more(5) [unfolded s1] p_waits [OF more(4)] Cons.prems(2) l] by simp
    moreover have "leads_to t1 r" using Cons.prems(3) by (simp add: leads_to_def same(2) g)
    moreover have "stalled_via t1 r que \<subseteq> stalled_for t1 `` {r}" using edges more(1) unfolding g by blast
    moreover have fr: "walk_frame v m1 t1 m' t'"
      using loop_frame more(6) [unfolded s1] by blast
    ultimately have IH: "case v of None \<Rightarrow> settled m' t' \<and> (\<not> m' \<longrightarrow> waits_via t1 r que \<subseteq> exhausted t') | Some v \<Rightarrow> cycle_at t1 r v"
      using Cons.IH more(6) [unfolded s1] by blast
    have "waits_via t r (b # que) \<subseteq> insert ?p (waits_via t r que)" by (auto simp: waits_via_Cons awaits_def)
    moreover have "?p \<in> exhausted t'" if "v = None" using that p fr by (auto simp: walk_frame_def)
    ultimately show ?thesis using IH by (auto simp: g cycle_at_def split: option.splits)
  qed
qed simp

lemma settled_exhaust:
  assumes "settled m t" "r \<in> waiting t" "r \<in> on_path t" "\<not> m \<longrightarrow> waits_for t `` {r} \<subseteq> exhausted t"
  shows "settled m (upd_lrq r (\<lambda>q. q\<lparr>lrq_deadlock := False, lrq_scanned := True\<rparr>) t)"
proof -
  let ?t = "upd_lrq r (\<lambda>q. q\<lparr>lrq_deadlock := False, lrq_scanned := True\<rparr>) t" and ?B = "waiting t \<inter> exhausted t"
  note g = same_graph [OF same_mark(2) [of t r True False]]
  have dis: "waiting t \<inter> on_path t \<inter> exhausted t = {}" using assms(1) by (simp add: settled_def)
  have targets: "waits_for t `` A \<subseteq> waiting t" for A by (auto simp: waits_for_def waits_via_def awaits_def waiting_def)
  have "(r, r) \<notin> (waits_for t)\<^sup>+" if "\<not> m"
  proof
    assume "(r, r) \<in> (waits_for t)\<^sup>+"
    then obtain x where x: "(r, x) \<in> waits_for t" "(x, r) \<in> (waits_for t)\<^sup>*" by (meson tranclD)
    have "waits_for t `` ?B \<subseteq> ?B" using that assms(1) targets by (simp add: settled_def)
    then have "(waits_for t)\<^sup>* `` ?B = ?B" by (rule Image_closed_trancl)
    moreover have "x \<in> ?B" using x(1) assms(4) that targets by blast
    ultimately have "r \<in> ?B" using x(2) by blast
    then show False using dis assms(3) by blast
  qed
  then show ?thesis using assms dis unfolding settled_def g marks_simps by auto
qed

lemma deadlock_walk_correct:
  "deadlock_walk n r (m, t) = Some (v, m', t') \<Longrightarrow> r \<in> waiting t \<Longrightarrow> settled m t \<Longrightarrow> leads_back t r \<Longrightarrow>
     (case v of None \<Rightarrow> settled m' t' | Some v \<Rightarrow> cycle_at t r v)"
proof (induction n arbitrary: r m t v m' t')
  case (Suc n)
  let ?t1 = "upd_lrq r (\<lambda>q. q\<lparr>lrq_deadlock := True\<rparr>) t" and ?que = "queue t (lrq_lock (lhb_lrqs t r))"
  note g = same_graph [OF same_mark(1) [of t r True]]
  consider (black) "(v, m', t') = (None, m, t)" | (grey) "r \<in> on_path t" "(v, m', t') = (Some r, m, t)"
    | (found) "r \<notin> exhausted t" "v \<noteq> None" "deadlock_loop n r ?que (m, ?t1) = Some (v, m', t')"
    | (none) t2 where "r \<notin> exhausted t" "v = None"
        "t' = upd_lrq r (\<lambda>q. q\<lparr>lrq_deadlock := False, lrq_scanned := True\<rparr>) t2"
        "deadlock_loop n r ?que (m, ?t1) = Some (v, m', t2)"
    using deadlock_walk_SucD [OF Suc.prems(1)] unfolding fst_conv prod.inject by blast
  moreover have "settled m ?t1" if "r \<notin> exhausted t"
    using Suc.prems(3) that unfolding settled_def g marks_simps by blast
  moreover have "leads_to ?t1 r"
    using Suc.prems(4) unfolding leads_to_def leads_back_def g marks_simps by (auto intro: trancl_into_rtrancl)
  moreover have "stalled_via ?t1 r ?que \<subseteq> stalled_for ?t1 `` {r}"
    unfolding g by (auto simp: stalled_for_def)
  ultimately show ?case
  proof cases
    case black
    then show ?thesis using Suc.prems(3) by simp
  next
    case grey
    then show ?thesis using Suc.prems(2,4) by (simp add: cycle_at_def leads_back_def)
  next
    case found
    then show ?thesis
      using deadlock_loop_correct [OF Suc.IH found(3)] \<open>r \<notin> exhausted t \<Longrightarrow> settled m ?t1\<close> \<open>leads_to ?t1 r\<close>
        \<open>stalled_via ?t1 r ?que \<subseteq> stalled_for ?t1 `` {r}\<close>
      by (auto simp: cycle_at_def g)
  next
    case none
    then have post: "settled m' t2" "\<not> m' \<longrightarrow> waits_via t r ?que \<subseteq> exhausted t2"
      using deadlock_loop_correct [OF Suc.IH none(4)] \<open>r \<notin> exhausted t \<Longrightarrow> settled m ?t1\<close> \<open>leads_to ?t1 r\<close>
        \<open>stalled_via ?t1 r ?que \<subseteq> stalled_for ?t1 `` {r}\<close>
      by (simp_all add: g)
    have fr: "walk_frame None m ?t1 m' t2" using loop_frame [OF none(4)] none(2) by simp
    then have "waits_for t2 = waits_for t" using same_graph(7) [of ?t1 t2] g(7) by (simp add: walk_frame_def)
    moreover have "waits_for t `` {r} = waits_via t r ?que" by (auto simp: waits_for_def)
    moreover have "r \<in> on_path t2" using fr by (simp add: walk_frame_def)
    moreover have "r \<in> waiting t2" using fr Suc.prems(2) same_graph(11) [of ?t1 t2] g(11) by (simp add: walk_frame_def)
    ultimately show ?thesis using settled_exhaust [OF post(1)] post(2) none(2,3) by simp
  qed
qed simp

section \<open>The search ends\<close>

definition unmarked :: "ptr set \<Rightarrow> lhb \<Rightarrow> ptr set" where
  "unmarked S t = S - on_path t - exhausted t"

lemma deadlock_loop_total:
  assumes "\<And>q m t. q \<in> S \<Longrightarrow> (\<forall>b q. awaits t b q \<longrightarrow> q \<in> S) \<Longrightarrow> card (unmarked S t) < n \<Longrightarrow> deadlock_walk n q (m, t) \<noteq> None"
    and "finite S" "\<forall>b q. awaits t b q \<longrightarrow> q \<in> S" "card (unmarked S t) < n"
  shows "deadlock_loop n r que (m, t) \<noteq> None"
  using assms(3,4)
proof (induction que arbitrary: m t)
  case (Cons b que)
  let ?p = "own_pending_request (lhb_owns t (lrq_owner (lhb_lrqs t b)))"
  have more: "deadlock_loop n r que s1 \<noteq> None" if "deadlock_walk n ?p (m, t) = Some (None, s1)" for s1
  proof -
    obtain m1 t1 where s1: "s1 = (m1, t1)" by (cases s1)
    have fr: "same_but_marks t t1" "on_path t1 = on_path t" "exhausted t \<subseteq> exhausted t1"
      using deadlock_walk_frame [OF that [unfolded s1]] by (simp_all add: walk_frame_def)
    have "card (unmarked S t1) \<le> card (unmarked S t)"
      using assms(2) fr(2,3) by (intro card_mono) (auto simp: unmarked_def)
    then show ?thesis using Cons.IH [of t1 m1] Cons.prems same_graph(5) [OF fr(1)] by (simp add: s1)
  qed
  show ?case
  proof (cases "awaits t b ?p")
    case True
    then have "deadlock_walk n ?p (m, t) \<noteq> None" using assms(1) Cons.prems by blast
    then show ?thesis
      using more Cons.IH [OF Cons.prems] unfolding deadlock_loop_Cons Let_def by (auto split: option.splits)
  next
    case False
    then show ?thesis using Cons.IH [OF Cons.prems] by (simp add: deadlock_loop_Cons Let_def)
  qed
qed simp

lemma deadlock_walk_total:
  assumes "finite S"
  shows "r \<in> S \<Longrightarrow> \<forall>b q. awaits t b q \<longrightarrow> q \<in> S \<Longrightarrow> card (unmarked S t) < n \<Longrightarrow> deadlock_walk n r (m, t) \<noteq> None"
proof (induction n arbitrary: r m t)
  case (Suc n)
  let ?t1 = "upd_lrq r (\<lambda>q. q\<lparr>lrq_deadlock := True\<rparr>) t" and ?que = "queue t (lrq_lock (lhb_lrqs t r))"
  show ?case
  proof (cases "r \<in> exhausted t \<or> r \<in> on_path t")
    case False
    have "unmarked S ?t1 = unmarked S t - {r}" unfolding unmarked_def marks_simps by blast
    moreover have "r \<in> unmarked S t" using False Suc.prems(1) by (simp add: unmarked_def)
    moreover have "finite (unmarked S t)" using assms by (simp add: unmarked_def)
    ultimately have "card (unmarked S ?t1) < card (unmarked S t)" by (metis card_Diff1_less)
    then have "card (unmarked S ?t1) < n" using Suc.prems(3) by simp
    moreover have "\<forall>b q. awaits ?t1 b q \<longrightarrow> q \<in> S" unfolding same_graph(5) [OF same_mark(1)] by (rule Suc.prems(2))
    ultimately have "deadlock_loop n r ?que (m, ?t1) \<noteq> None" using deadlock_loop_total [OF Suc.IH assms(1)] by blast
    then obtain w m2 t2 where "deadlock_loop n r ?que (m, ?t1) = Some (w, m2, t2)" by auto
    then show ?thesis using False by (cases w) (simp_all add: deadlock_walk_Suc)
  qed (auto simp: deadlock_walk_Suc)
qed simp

section \<open>deadlock\_scan\<close>

text \<open>A pending request is what its owner, an owner in the table, is waiting for.\<close>

definition pending_ok :: "lhb \<Rightarrow> bool" where
  "pending_ok t \<longleftrightarrow>
     (\<forall>r. lrq_pending (lhb_lrqs t r) \<longrightarrow>
        r \<noteq> 0 \<and> lrq_in_use (lhb_lrqs t r) \<and> lrq_owner (lhb_lrqs t r) \<in> set (lhb_owners t) \<and>
        own_pending_request (lhb_owns t (lrq_owner (lhb_lrqs t r))) = r)"

lemma same_bump: "lhb_lrqs (bump s t) = lhb_lrqs t \<and> pending_ok (bump s t) = pending_ok t \<and> waits_for (bump s t) = waits_for t \<and>
    stalled_for (bump s t) = stalled_for t \<and> waiting (bump s t) = waiting t"
  by (simp add: pending_ok_def waits_for_def waits_via_def stalled_for_def stalled_via_def ahead_def unordered_def obstructs_def
    awaits_def busy_owner_def waiting_def bump_def)

lemma clear_fold:
  fixes t :: lhb
  defines "f \<equiv> \<lambda>owner t1. let pending = own_pending_request (lhb_owns t1 owner)
                      in if pending = 0 then t1 else upd_lrq pending clear_marks t1"
  shows "same_but_marks t (fold f ps t) \<and>
    on_path (fold f ps t) = on_path t - {r. r \<noteq> 0 \<and> (\<exists>p \<in> set ps. own_pending_request (lhb_owns t p) = r)} \<and>
    exhausted (fold f ps t) = exhausted t - {r. r \<noteq> 0 \<and> (\<exists>p \<in> set ps. own_pending_request (lhb_owns t p) = r)}"
proof (induction ps arbitrary: t)
  case (Cons p ps)
  let ?t1 = "f p t"
  have one: "same_but_marks t ?t1" "lhb_owns ?t1 = lhb_owns t"
    "on_path ?t1 = on_path t - {r. r \<noteq> 0 \<and> own_pending_request (lhb_owns t p) = r}"
    "exhausted ?t1 = exhausted t - {r. r \<noteq> 0 \<and> own_pending_request (lhb_owns t p) = r}"
    by (auto simp: f_def Let_def on_path_def exhausted_def clear_marks_def)
  show ?case using Cons.IH [of ?t1] same_trans [OF one(1)] by (auto simp: one(2-4))
qed simp

lemma deadlock_clear_spec:
  assumes "pending_ok t"
  shows "same_but_marks t (deadlock_clear t)" "waiting t \<inter> on_path (deadlock_clear t) = {}"
    and "waiting t \<inter> exhausted (deadlock_clear t) = {}"
proof -
  note c = clear_fold [of t "lhb_owners t"]
  show "same_but_marks t (deadlock_clear t)" using c by (simp add: deadlock_clear_def)
  have "waiting t \<subseteq> {r. r \<noteq> 0 \<and> (\<exists>p \<in> set (lhb_owners t). own_pending_request (lhb_owns t p) = r)}"
    using assms by (auto simp: pending_ok_def waiting_def)
  then show "waiting t \<inter> on_path (deadlock_clear t) = {}" "waiting t \<inter> exhausted (deadlock_clear t) = {}"
    using c by (auto simp: deadlock_clear_def)
qed


text \<open>What a scan for the waiting request \<open>r\<close> of owner \<open>p\<close> comes to.\<close>

lemma deadlock_scan_spec:
  assumes "table_ok t" "pending_ok t" "r \<in> waiting t"
  obtains v t' t1 where "deadlock_scan p r t = Some (v, t')" "light t t'"
    and "same_but_marks (bump lhb_scans t) t1" "t' = t1 \<or> t' = upd_own p (\<lambda>ow. ow\<lparr>own_scanned := True\<rparr>) t1"
    and "v = None \<Longrightarrow> own_scanned (lhb_owns t' p) \<Longrightarrow> \<not> own_scanned (lhb_owns t p) \<Longrightarrow>
      \<not> (\<exists>q. (r, q) \<in> (waits_for t)\<^sup>* \<and> (q, q) \<in> (waits_for t)\<^sup>+)"
    and "\<And>q. v = Some q \<Longrightarrow> cycle_at t r q"
proof -
  let ?t0 = "bump lhb_scans t"
  define t1 where "t1 = deadlock_clear ?t0"
  have ok: "pending_ok ?t0" using assms(2) by (simp add: same_bump)
  note c = deadlock_clear_spec [OF ok, folded t1_def]
  note g = same_graph [OF c(1)]
  have w: "waiting t1 = waiting t" "waits_for t1 = waits_for t" "stalled_for t1 = stalled_for t"
    using g(7,9,11) by (simp_all add: same_bump)
  have "light ?t0 t1" using c(1) g by simp
  then have light1: "light t t1" using light_trans [OF light_updates(1)] by blast
  have "lhb_used t1 = lhb_used t" using light1 by (simp add: light_def rest_def)
  have below: "q < lhb_used t" if "q \<in> waiting t" for q
    using that assms(1,2) by (auto simp: waiting_def pending_ok_def table_ok_def structure_ok_def requests_linked_def)
  have "deadlock_walk (Suc (Suc (lhb_used t1))) r (False, t1) \<noteq> None"
  proof (rule deadlock_walk_total [of "{..< lhb_used t}"])
    show "r \<in> {..<lhb_used t}" using below assms(3) by simp
    show "\<forall>b q. awaits t1 b q \<longrightarrow> q \<in> {..<lhb_used t}"
      using below w(1) by (auto simp: awaits_def waiting_def)
    have "card (unmarked {..<lhb_used t} t1) \<le> card {..<lhb_used t}" by (rule card_mono) (auto simp: unmarked_def)
    then show "card (unmarked {..<lhb_used t} t1) < Suc (Suc (lhb_used t1))" using \<open>lhb_used t1 = lhb_used t\<close> by simp
  qed simp
  then obtain v m' t2 where walk: "deadlock_walk (Suc (Suc (lhb_used t1))) r (False, t1) = Some (v, m', t2)" by auto
  have "settled False t1" "leads_back t1 r" using c(2,3) w(1) by (auto simp: settled_def leads_back_def same_bump)
  then have post: "case v of None \<Rightarrow> settled m' t2 | Some v \<Rightarrow> cycle_at t1 r v"
    using deadlock_walk_correct [OF walk] assms(3) w(1) by simp
  have fr: "same_but_marks t1 t2" "v = None \<longrightarrow> r \<in> exhausted t2"
    using deadlock_walk_frame [OF walk] by (auto simp: walk_frame_def)
  note g2 = same_graph [OF fr(1)]
  define t3 where "t3 = (if v = None \<and> \<not> m' then upd_own p (\<lambda>ow. ow\<lparr>own_scanned := True\<rparr>) t2 else t2)"
  have "deadlock_scan p r t = Some (v, t3)"
    using walk by (simp add: deadlock_scan_def t1_def [symmetric] t3_def Let_def)
  moreover have "light t t3"
    using light_trans [OF light_trans [OF light1 g2(10)] light_updates(6)] light_trans [OF light1 g2(10)] by (simp add: t3_def)
  moreover have "\<not> (\<exists>q. (r, q) \<in> (waits_for t)\<^sup>* \<and> (q, q) \<in> (waits_for t)\<^sup>+)"
    if "v = None" "own_scanned (lhb_owns t3 p)" "\<not> own_scanned (lhb_owns t p)"
  proof -
    have "lhb_owns t2 = lhb_owns t" using fr(1) c(1) by (simp add: same_but_marks_def)
    then have "\<not> m'" using that by (auto simp: t3_def split: if_splits)
    let ?B = "waiting t \<inter> exhausted t2"
    have s: "waits_for t `` ?B \<subseteq> exhausted t2" "\<forall>q \<in> ?B. (q, q) \<notin> (waits_for t)\<^sup>+"
      using post that(1) \<open>\<not> m'\<close> by (simp_all add: settled_def g2 w)
    have "waits_for t `` ?B \<subseteq> ?B" using s(1) by (auto simp: waits_for_def waits_via_def awaits_def waiting_def)
    then have "(waits_for t)\<^sup>* `` ?B = ?B" by (rule Image_closed_trancl)
    moreover have "r \<in> ?B" using fr(2) that(1) assms(3) by simp
    ultimately show ?thesis using s(2) by blast
  qed
  moreover have "cycle_at t r q" if "v = Some q" for q using post that by (simp add: cycle_at_def w)
  moreover have "t3 = t2 \<or> t3 = upd_own p (\<lambda>ow. ow\<lparr>own_scanned := True\<rparr>) t2" by (simp add: t3_def)
  ultimately show ?thesis using that same_trans [OF c(1) fr(1)] by blast
qed

end
