(* ===== verification/Lock_Owner.thy ===== *)
theory Lock_Owner
  imports Deadlock
begin

text \<open>
  Owners of the lock table of \<^verbatim>\<open>src/lock/lock.c\<close>: how they are created, purged and probed, how
  a blocking owner works off its signals, the turn a waiting owner takes when it wakes up,
  and the data kept with locks.
\<close>

section \<open>Purging an owner\<close>

text \<open>The loop that releases the requests of the owner, as long as there are any.\<close>

partial_function (option) purge_requests :: "ptr \<Rightarrow> lhb \<Rightarrow> lhb option" where
  "purge_requests owner t =
     (case own_requests (lhb_owns t owner) of
        [] \<Rightarrow> Some t
      | request # _ \<Rightarrow> purge_requests owner (release_request request t))"

declare purge_requests.simps [code]

definition purge_blocks :: "ptr \<Rightarrow> lhb \<Rightarrow> lhb" where
  "purge_blocks owner t =
     fold (\<lambda>request t1.
         (upd_lrq request (\<lambda>q. q\<lparr>lrq_in_use := False\<rparr>)
            (upd_own owner (\<lambda>ow. ow\<lparr>own_blocks := remove1 request (own_blocks ow)\<rparr>) t1))
           \<lparr>lhb_free_requests := lhb_free_requests t1 @ [request]\<rparr>)
       (own_blocks (lhb_owns t owner)) t"

definition purge_owner :: "ptr \<Rightarrow> lhb \<Rightarrow> lhb option" where
  "purge_owner owner t =
     map_option (\<lambda>t1.
         let t2 = purge_blocks owner t1;
             t3 = t2\<lparr>lhb_owners := remove1 owner (lhb_owners t2), lhb_free_owners := lhb_free_owners t2 @ [owner]\<rparr>
         in upd_own owner (\<lambda>ow. ow\<lparr>own_owner_type := 0, own_owner_id := 0, own_scanned := False, own_wakeup := False,
              own_signal := False\<rparr>) t3)
       (purge_requests owner t)"

text \<open>
  \<open>dead\<close> stands for the test of \<^verbatim>\<open>probe_owners\<close> that the owner belongs to another process and
  \<^verbatim>\<open>ISC_check_process_existence\<close> does not find that process.
\<close>

fun probe_loop :: "(ptr \<Rightarrow> bool) \<Rightarrow> ptr list \<Rightarrow> bool \<Rightarrow> lhb \<Rightarrow> (bool \<times> lhb) option" where
  "probe_loop dead [] purged t = Some (purged, t)"
| "probe_loop dead (owner # que) purged t =
     (let t1 = (if own_signal (lhb_owns t owner) then signal_owner owner t else t) in
      if dead owner
      then case purge_owner owner t1 of None \<Rightarrow> None | Some t2 \<Rightarrow> probe_loop dead que True t2
      else probe_loop dead que purged t1)"

definition probe_owners :: "(ptr \<Rightarrow> bool) \<Rightarrow> lhb \<Rightarrow> (bool \<times> lhb) option" where
  "probe_owners dead t = probe_loop dead (lhb_owners t) False t"

section \<open>Creating and closing an owner\<close>

text \<open>The size of an owner block with an event block of three longwords.\<close>

definition own_bytes :: nat where "own_bytes = 76"

definition init_owner_block :: "nat \<Rightarrow> nat \<Rightarrow> own \<Rightarrow> own" where
  "init_owner_block owner_type owner_id ow =
     ow\<lparr>own_owner_type := owner_type, own_scanned := False, own_wakeup := False, own_signal := False, own_signaled := False,
       own_count := 1, own_owner_id := owner_id, own_requests := [], own_blocks := [], own_pending_request := 0,
       own_semaphore := False\<rparr>"

definition alloc_owner :: "(nat \<Rightarrow> nat option) \<Rightarrow> lhb \<Rightarrow> (ptr \<times> lhb) option" where
  "alloc_owner remap t =
     (case lhb_free_owners t of
        [] \<Rightarrow> alloc remap own_bytes t
      | owner # que \<Rightarrow> Some (owner, t\<lparr>lhb_free_owners := que\<rparr>))"

text \<open>The part of \<^verbatim>\<open>create_owner\<close> after an earlier instance of the owner is gone.\<close>

definition enter_owner :: "(nat \<Rightarrow> nat option) \<Rightarrow> (ptr \<Rightarrow> bool) \<Rightarrow> nat \<Rightarrow> nat \<Rightarrow> lhb \<Rightarrow> (ptr option \<times> lhb) option" where
  "enter_owner remap dead owner_id owner_type t =
     (case alloc_owner remap t of
        None \<Rightarrow> Some (None, t)
      | Some (owner, t1) \<Rightarrow>
          let t2 = upd_own owner (init_owner_block owner_type owner_id) t1
          in map_option (\<lambda>(_, t3). (Some owner, t3)) (probe_owners dead (t2\<lparr>lhb_owners := lhb_owners t2 @ [owner]\<rparr>)))"

definition create_owner :: "(nat \<Rightarrow> nat option) \<Rightarrow> (ptr \<Rightarrow> bool) \<Rightarrow> nat \<Rightarrow> nat \<Rightarrow> lhb \<Rightarrow> (ptr option \<times> lhb) option" where
  "create_owner remap dead owner_id owner_type t =
     (case List.find (\<lambda>owner. own_owner_id (lhb_owns t owner) = owner_id \<and> own_owner_type (lhb_owns t owner) = owner_type)
             (lhb_owners t) of
        None \<Rightarrow> enter_owner remap dead owner_id owner_type t
      | Some owner \<Rightarrow> Option.bind (purge_owner owner t) (enter_owner remap dead owner_id owner_type))"

definition LOCK_fini :: "ptr \<Rightarrow> lhb \<Rightarrow> lhb option" where
  "LOCK_fini owner_offset t =
     (if owner_offset = 0 \<or> own_count (lhb_owns t owner_offset) = 0 then Some t
      else let t1 = upd_own owner_offset (\<lambda>ow. ow\<lparr>own_count := own_count ow - 1\<rparr>) t in
           if own_count (lhb_owns t1 owner_offset) > 0 then Some t1 else purge_owner owner_offset t1)"

section \<open>Blocking owners\<close>

text \<open>
  One turn of the loop of \<^verbatim>\<open>blocking_action2\<close>, up to the \<^verbatim>\<open>release\<close> before the AST routine is
  called: the routine and its argument, or \<open>None\<close> when the loop ends.
\<close>

definition blocking_turn :: "ptr \<Rightarrow> lhb \<Rightarrow> (nat \<times> nat) option \<times> lhb" where
  "blocking_turn owner t =
     (if own_count (lhb_owns t owner) = 0 then (None, t)
      else case own_blocks (lhb_owns t owner) of
             [] \<Rightarrow> (None, upd_own owner (\<lambda>ow. ow\<lparr>own_signaled := False\<rparr>) t)
           | request # que \<Rightarrow>
               let req = lhb_lrqs t request;
                   t1 = upd_own owner (\<lambda>ow. ow\<lparr>own_blocks := que\<rparr>) t;
                   t2 = (if lrq_blocking req
                         then bump lhb_blocks (upd_lrq request (\<lambda>q. q\<lparr>lrq_blocking := False\<rparr>) t1)
                         else if lrq_repost req
                         then (upd_lrq request (\<lambda>q. q\<lparr>lrq_in_use := False\<rparr>) t1)
                                \<lparr>lhb_free_requests := lhb_free_requests t1 @ [request]\<rparr>
                         else t1)
               in (Some (lrq_ast_routine req, lrq_ast_argument req), t2))"

section \<open>Waking up\<close>

text \<open>
  The turn of the loop of \<^verbatim>\<open>wait_for_request\<close> behind its \<^verbatim>\<open>acquire\<close>.  \<open>expired\<close> is the test of
  the lock timeout, \<open>posted\<close> whether somebody posted the wakeup event.
\<close>

definition reject_victim :: "ptr \<Rightarrow> ptr \<Rightarrow> lhb \<Rightarrow> lhb" where
  "reject_victim request blocking_request t =
     (let t1 = reject_request blocking_request (bump lhb_deadlocks t);
          blocking_owner = lrq_owner (lhb_lrqs t1 blocking_request);
          t2 = upd_own blocking_owner (\<lambda>ow. ow\<lparr>own_pending_request := 0, own_scanned := False\<rparr>) t1
      in if blocking_request \<noteq> request then post_wakeup blocking_owner t2 else t2)"

definition wait_scan :: "ptr \<Rightarrow> ptr \<Rightarrow> lhb \<Rightarrow> lhb option" where
  "wait_scan owner request t =
     (let lock = lrq_lock (lhb_lrqs t request) in
      if own_scanned (lhb_owns t owner) then Some (post_blockage request lock False t)
      else case deadlock_scan owner request t of
             None \<Rightarrow> None
           | Some (Some blocking_request, t1) \<Rightarrow> Some (reject_victim request blocking_request t1)
           | Some (None, t1) \<Rightarrow> Some (post_blockage request lock False t1))"

definition wait_turn :: "(ptr \<Rightarrow> bool) \<Rightarrow> bool \<Rightarrow> bool \<Rightarrow> int \<Rightarrow> ptr \<Rightarrow> lhb \<Rightarrow> lhb option" where
  "wait_turn dead expired posted lck_wait request t =
     (let owner = lrq_owner (lhb_lrqs t request);
          lock = lrq_lock (lhb_lrqs t request);
          t1 = upd_own owner (\<lambda>ow. ow\<lparr>own_wakeup := False\<rparr>) t
      in if \<not> lrq_pending (lhb_lrqs t1 request) then Some t1
         else if lck_wait < 0 \<and> expired then Some (reject_request request t1)
         else if posted then Some (post_blockage request lock False t1)
         else case probe_owners dead t1 of
                None \<Rightarrow> None
              | Some (purged, t2) \<Rightarrow>
                  if purged \<and> \<not> lrq_pending (lhb_lrqs t2 request) then Some t2 else wait_scan owner request t2)"

section \<open>Data kept with locks\<close>

definition count_operation :: "ptr \<Rightarrow> lhb \<Rightarrow> lhb" where
  "count_operation lock t = bump (lhb_operations (operation_slot (lbl_series (lhb_lbls t lock)))) t"

definition LOCK_write_data :: "ptr \<Rightarrow> int \<Rightarrow> lhb \<Rightarrow> lock_bug + (int \<times> lhb)" where
  "LOCK_write_data request data t =
     map_result (\<lambda>req. (data, count_operation (lrq_lock req) (set_lock_data (lrq_lock req) data (bump lhb_write_data t))))
       (get_request request t)"

definition LOCK_read_data :: "ptr \<Rightarrow> lhb \<Rightarrow> lock_bug + (int \<times> lhb)" where
  "LOCK_read_data request t =
     map_result (\<lambda>req. (lbl_data (lhb_lbls t (lrq_lock req)), count_operation (lrq_lock req) (bump lhb_read_data t)))
       (get_request request t)"

definition LOCK_read_data2 :: "ptr \<Rightarrow> nat \<Rightarrow> byte list \<Rightarrow> lhb \<Rightarrow> lock_bug + (int \<times> lhb)" where
  "LOCK_read_data2 parent_request series value t =
     (let t1 = bump (lhb_operations (operation_slot series)) (bump lhb_read_data t) in
      map_result (\<lambda>parent. (case find_lock parent series value t1 of Some lock \<Rightarrow> lbl_data (lhb_lbls t1 lock) | None \<Rightarrow> 0, t1))
        (if parent_request \<noteq> 0 then map_result lrq_lock (get_request parent_request t1) else Inr 0))"

datatype aggregate = LCK_MIN | LCK_MAX | LCK_CNT | LCK_SUM | LCK_AVG | LCK_ANY

text \<open>The arithmetic is that of \<^verbatim>\<open>SLONG\<close>: 32 bits, and division that truncates.\<close>

definition slong :: "int \<Rightarrow> int" where
  "slong x = (x + 2147483648) mod 4294967296 - 2147483648"

definition c_div :: "int \<Rightarrow> int \<Rightarrow> int" where
  "c_div a b = sgn a * sgn b * (\<bar>a\<bar> div \<bar>b\<bar>)"

text \<open>The forward loop over the series' queue: \<open>data\<close> and \<open>count\<close> at its end.\<close>

fun query_forward :: "(ptr \<Rightarrow> lbl) \<Rightarrow> aggregate \<Rightarrow> ptr \<Rightarrow> ptr list \<Rightarrow> int \<Rightarrow> int \<Rightarrow> int \<times> int" where
  "query_forward lbls agg parent [] data count = (data, count)"
| "query_forward lbls agg parent (lock # que) data count =
     (if lbl_parent (lbls lock) \<noteq> parent then query_forward lbls agg parent que data count
      else case agg of
             LCK_MIN \<Rightarrow> (lbl_data (lbls lock), count)
           | LCK_ANY \<Rightarrow> (data, count + 1)
           | LCK_CNT \<Rightarrow> query_forward lbls agg parent que data (slong (count + 1))
           | LCK_AVG \<Rightarrow> query_forward lbls agg parent que (slong (data + lbl_data (lbls lock))) (slong (count + 1))
           | _ \<Rightarrow> query_forward lbls agg parent que (slong (data + lbl_data (lbls lock))) count)"

fun query_backward :: "(ptr \<Rightarrow> lbl) \<Rightarrow> ptr \<Rightarrow> ptr list \<Rightarrow> int" where
  "query_backward lbls parent [] = 0"
| "query_backward lbls parent (lock # que) =
     (if lbl_parent (lbls lock) \<noteq> parent then query_backward lbls parent que else lbl_data (lbls lock))"

definition query_data :: "(ptr \<Rightarrow> lbl) \<Rightarrow> aggregate \<Rightarrow> ptr \<Rightarrow> ptr list \<Rightarrow> int" where
  "query_data lbls agg parent que =
     (if agg = LCK_MAX then query_backward lbls parent (rev que)
      else let (data, count) = query_forward lbls agg parent que 0 0 in
           if agg = LCK_CNT \<or> agg = LCK_ANY then count
           else if agg = LCK_AVG then (if count \<noteq> 0 then c_div data count else 0)
           else data)"

definition LOCK_query_data :: "ptr \<Rightarrow> nat \<Rightarrow> aggregate \<Rightarrow> lhb \<Rightarrow> lock_bug + (int \<times> lhb)" where
  "LOCK_query_data parent_request series agg t =
     (if parent_request \<noteq> 0 \<and> series < LCK_MAX_SERIES
      then map_result (\<lambda>parent. (query_data (lhb_lbls t) agg (lrq_lock parent) (lhb_data t series), bump lhb_query_data t))
             (get_request parent_request t)
      else Inr (0, t))"

end
