(* ===== verification/Lock_System.thy ===== *)
theory Lock_System
  imports Lock_Owner
begin

text \<open>
  The lock manager as a system: owners call the entry points of \<^verbatim>\<open>src/lock/lock.c\<close>, wait, are
  signalled, give up, die and are purged, in any order, each hold of the table's mutex being
  one step.  The invariant of the table holds in every state reached.
\<close>

section \<open>Owners, their waits and their signals\<close>

text \<open>The requests an owner has to be told about are requests of its own.\<close>

definition blocks_ok :: "lhb \<Rightarrow> bool" where
  "blocks_ok t \<longleftrightarrow>
     (\<forall>p. distinct (own_blocks (lhb_owns t p)) \<and>
        (\<forall>b \<in> set (own_blocks (lhb_owns t p)). lrq_in_use (lhb_lrqs t b) \<and> lrq_blocking (lhb_lrqs t b) \<and> lrq_owner (lhb_lrqs t b) = p))"

text \<open>Only owners in the table have requests; an owner block is in use or free.\<close>

definition owners_ok :: "lhb \<Rightarrow> bool" where
  "owners_ok t \<longleftrightarrow>
     distinct (lhb_owners t @ lhb_free_owners t) \<and> (\<forall>p \<in> set (lhb_owners t @ lhb_free_owners t). p < lhb_used t) \<and>
     (\<forall>p. own_requests (lhb_owns t p) \<noteq> [] \<longrightarrow> p \<in> set (lhb_owners t))"

text \<open>Offset 0, where the header is, is no request.\<close>

definition nonzero_ok :: "lhb \<Rightarrow> bool" where
  "nonzero_ok t \<longleftrightarrow> 0 < lhb_used t \<and> \<not> lrq_in_use (lhb_lrqs t 0) \<and> 0 \<notin> set (lhb_free_requests t)"

definition owned_ok :: "lhb \<Rightarrow> bool" where
  "owned_ok t \<longleftrightarrow> pending_ok t \<and> blocks_ok t \<and> owners_ok t \<and> nonzero_ok t"

text \<open>Operations that change none of this but may take requests off the waiting ones.\<close>

definition calm :: "lhb \<Rightarrow> lhb \<Rightarrow> bool" where
  "calm t t' \<longleftrightarrow>
     lhb_owners t' = lhb_owners t \<and> lhb_free_owners t' = lhb_free_owners t \<and> lhb_used t' = lhb_used t \<and>
     lhb_free_requests t' = lhb_free_requests t \<and>
     (\<forall>p. own_pending_request (lhb_owns t' p) = own_pending_request (lhb_owns t p) \<and>
        own_blocks (lhb_owns t' p) = own_blocks (lhb_owns t p) \<and> own_requests (lhb_owns t' p) = own_requests (lhb_owns t p)) \<and>
     (\<forall>r. lrq_in_use (lhb_lrqs t' r) = lrq_in_use (lhb_lrqs t r) \<and> lrq_owner (lhb_lrqs t' r) = lrq_owner (lhb_lrqs t r) \<and>
        lrq_blocking (lhb_lrqs t' r) = lrq_blocking (lhb_lrqs t r) \<and> (lrq_pending (lhb_lrqs t' r) \<longrightarrow> lrq_pending (lhb_lrqs t r)))"

lemma calm_refl [simp]: "calm t t"
  by (simp add: calm_def)

lemma calm_trans: "calm t t' \<Longrightarrow> calm t' t'' \<Longrightarrow> calm t t''"
  by (simp add: calm_def)

lemma calm_owned_ok: "calm t t' \<Longrightarrow> owned_ok t \<Longrightarrow> owned_ok t'"
  unfolding calm_def owned_ok_def pending_ok_def blocks_ok_def owners_ok_def nonzero_ok_def by (elim conjE) simp

lemma calm_updates [simp]:
  "calm t (upd_lbl l g t)" "calm t (bump s t)"
  "calm t (upd_lrq r (\<lambda>q. q\<lparr>lrq_state := f1 q\<rparr>) t)" "calm t (upd_lrq r (\<lambda>q. q\<lparr>lrq_requested := f1 q\<rparr>) t)"
  "calm t (upd_lrq r (\<lambda>q. q\<lparr>lrq_data := f2 q\<rparr>) t)" "calm t (upd_lrq r (\<lambda>q. q\<lparr>lrq_lock := f1 q\<rparr>) t)"
  "calm t (upd_lrq r (\<lambda>q. q\<lparr>lrq_pending := False\<rparr>) t)" "calm t (upd_lrq r (\<lambda>q. q\<lparr>lrq_rejected := b, lrq_pending := False\<rparr>) t)"
  "calm t (upd_lrq r (set_ast a1 a2) t)" "calm t (upd_lrq r (\<lambda>q. q\<lparr>lrq_ast_routine := a1\<rparr>) t)"
  "calm t (upd_own p (\<lambda>ow. ow\<lparr>own_wakeup := b\<rparr>) t)" "calm t (upd_own p (\<lambda>ow. ow\<lparr>own_signaled := b\<rparr>) t)"
  "calm t (upd_own p (\<lambda>ow. ow\<lparr>own_signaled := b, own_signal := b'\<rparr>) t)" "calm t (upd_own p (\<lambda>ow. ow\<lparr>own_scanned := b\<rparr>) t)"
  "calm t (upd_own p (\<lambda>ow. ow\<lparr>own_count := n\<rparr>) t)" "calm t (upd_own p (\<lambda>ow. ow\<lparr>own_count := own_count ow - n\<rparr>) t)"
  by (simp_all add: calm_def set_ast_def)

lemma calm_set_lock_data [simp]: "calm t (set_lock_data l d t)"
  by (simp add: set_lock_data_def insert_data_que_def remove_data_que_def upd_lbl_def calm_def Let_def)

lemma calm_post_wakeup [simp]: "calm t (post_wakeup p t)"
  using calm_trans [OF calm_updates(2) calm_updates(11)] by (simp add: post_wakeup_def)

lemma calm_signal_owner [simp]: "calm t (signal_owner p t)"
  by (simp add: signal_owner_def)

lemma calm_count_deny [simp]: "calm t (count_deny w t)"
  using calm_trans [OF calm_updates(2) calm_updates(2)] by (simp add: count_deny_def Let_def)

lemma calm_grant [simp]: "calm t (grant r l t)"
proof -
  let ?q = "lhb_lrqs t r"
  let ?t2 = "upd_lrq r (\<lambda>q. q\<lparr>lrq_state := lrq_requested q\<rparr>) (upd_lbl l (count_up (lrq_requested ?q)) t)"
  let ?t3 = "if lrq_data ?q \<noteq> 0 then upd_lrq r (\<lambda>q. q\<lparr>lrq_data := 0\<rparr>) (set_lock_data l (lrq_data ?q) ?t2) else ?t2"
  have "calm t ?t2" by (rule calm_trans [OF calm_updates(1) calm_updates(3)])
  moreover have "calm ?t2 ?t3" using calm_trans [OF calm_set_lock_data calm_updates(5)] by simp
  ultimately have "calm t ?t3" by (rule calm_trans)
  then have "calm t (upd_lbl l f ?t3)" "calm t (upd_lbl l g (upd_lrq r (\<lambda>q. q\<lparr>lrq_pending := False\<rparr>) (upd_lbl l f ?t3)))" for f g
    by (blast intro: calm_trans calm_updates(1,7))+
  then show ?thesis unfolding grant_def Let_def by (intro calm_trans [OF _ calm_post_wakeup]) simp
qed

lemma calm_post_pending_loop: "calm t (post_pending_loop l que t)"
proof (induction que arbitrary: t)
  case (Cons r que)
  have up: "calm t (post_wakeup p (upd_lbl l f (upd_lbl l g t)))" "calm t (grant r l (upd_lbl l g t))" for p f g
    by (blast intro: calm_trans calm_updates(1) calm_post_wakeup calm_grant)+
  show ?case using Cons.IH calm_trans up by (simp add: Let_def) (meson calm_grant calm_post_wakeup calm_trans up)
qed simp

lemma calm_post_pending [simp]: "calm t (post_pending l t)"
  by (simp add: post_pending_def calm_post_pending_loop)


lemma calm_reject_request [simp]: "calm t (reject_request r t)"
  unfolding reject_request_def by (rule calm_trans [OF calm_updates(8) calm_updates(1)])

lemma calm_free_lock [simp]: "calm t (free_lock l t)"
  by (simp add: free_lock_def remove_data_que_def upd_lbl_def calm_def Let_def)

lemma calm_uncount [simp]: "calm t (uncount s l t)"
proof -
  have "calm t (upd_lbl l f (upd_lbl l g t))" for f g by (rule calm_trans [OF calm_updates(1) calm_updates(1)])
  then show ?thesis by (simp add: uncount_def Let_def)
qed

text \<open>Releasing a request.\<close>

lemma unlink_owners:
  "lhb_owners (unlink_request r t) = lhb_owners t" "lhb_free_owners (unlink_request r t) = lhb_free_owners t"
  "lhb_used (unlink_request r t) = lhb_used t"
  "own_pending_request (lhb_owns (unlink_request r t) p) = own_pending_request (lhb_owns t p)"
  "own_blocks (lhb_owns (unlink_request r t) p) =
     (if p = lrq_owner (lhb_lrqs t r) \<and> lrq_blocking (lhb_lrqs t r) then remove1 r (own_blocks (lhb_owns t p)) else own_blocks (lhb_owns t p))"
  by (auto simp: unlink_request_def Let_def upd_lrq_def upd_lbl_def upd_own_def)

lemma unlink_owned_ok:
  assumes "owned_ok t" "lrq_in_use (lhb_lrqs t r)"
  shows "owned_ok (unlink_request r t)"
proof -
  have o: "pending_ok t" "blocks_ok t" "owners_ok t" "nonzero_ok t" using assms(1) by (simp_all add: owned_ok_def)
  have "pending_ok (unlink_request r t)"
    using o(1) unfolding pending_ok_def unlink_owners unlink_simps(1) by simp
  moreover have "owners_ok (unlink_request r t)"
  proof -
    have "own_requests (lhb_owns t p) \<noteq> []" if "own_requests (lhb_owns (unlink_request r t) p) \<noteq> []" for p
      using that by (auto simp: unlink_simps(3) split: if_splits)
    then show ?thesis using o(3) unfolding owners_ok_def unlink_owners by blast
  qed
  moreover have "blocks_ok (unlink_request r t)"
    unfolding blocks_ok_def
  proof (intro allI conjI ballI)
    fix p
    have d: "distinct (own_blocks (lhb_owns t p))" using o(2) by (simp add: blocks_ok_def)
    then show "distinct (own_blocks (lhb_owns (unlink_request r t) p))" by (auto simp: unlink_owners)
    fix b assume b: "b \<in> set (own_blocks (lhb_owns (unlink_request r t) p))"
    then have mem: "b \<in> set (own_blocks (lhb_owns t p))" using set_remove1_subset [of r "own_blocks (lhb_owns t p)"] by (auto simp: unlink_owners split: if_splits)
    have "b \<noteq> r" using b d mem o(2) by (auto simp: unlink_owners blocks_ok_def split: if_splits)
    then show "lrq_in_use (lhb_lrqs (unlink_request r t) b)" "lrq_blocking (lhb_lrqs (unlink_request r t) b)"
      "lrq_owner (lhb_lrqs (unlink_request r t) b) = p"
      using mem o(2) by (simp_all add: unlink_simps(1) blocks_ok_def)
  qed
  moreover have "nonzero_ok (unlink_request r t)"
  proof -
    have "lhb_free_requests (unlink_request r t) = lhb_free_requests t @ [r]" using unlink_simps(4) [of r t] by (simp add: rest_def)
    moreover have "r \<noteq> 0" using o(4) assms(2) by (cases "r = 0") (simp_all add: nonzero_ok_def)
    ultimately show ?thesis using o(4) by (simp add: nonzero_ok_def unlink_owners unlink_simps(1))
  qed
  ultimately show ?thesis by (simp add: owned_ok_def)
qed

lemma release_request_owned_ok:
  assumes "owned_ok t" "lrq_in_use (lhb_lrqs t r)"
  shows "owned_ok (release_request r t)"
proof -
  note u = unlink_owned_ok [OF assms]
  have "calm (unlink_request r t) (post_pending l (uncount s l (unlink_request r t)))" for l s
    by (rule calm_trans [OF calm_uncount calm_post_pending])
  then show ?thesis using calm_owned_ok [OF _ u] unfolding release_request_uncount Let_def by (simp add: calm_owned_ok [OF calm_free_lock u])
qed

lemma release_request_pending_request:
  "own_pending_request (lhb_owns (release_request r t) p) = own_pending_request (lhb_owns t p)"
proof -
  have c: "own_pending_request (lhb_owns t' p) = own_pending_request (lhb_owns t'' p)" if "calm t'' t'" for t' t''
    using that by (simp add: calm_def)
  have "calm (unlink_request r t) (release_request r t)"
    unfolding release_request_uncount Let_def using calm_trans [OF calm_uncount calm_post_pending] by simp
  from c [OF this] show ?thesis by (simp add: unlink_owners)
qed

text \<open>Telling the owners that block a request.\<close>

definition raise_block :: "ptr \<Rightarrow> lhb \<Rightarrow> lhb" where
  "raise_block b t =
     (if lrq_blocking (lhb_lrqs t b) then t
      else upd_lrq b (\<lambda>q. q\<lparr>lrq_blocking := True\<rparr>)
             (upd_own (lrq_owner (lhb_lrqs t b)) (\<lambda>ow. ow\<lparr>own_blocks := own_blocks ow @ [b]\<rparr>) t))"

lemma raise_block_frame:
  "lrq_in_use (lhb_lrqs (raise_block b t) r) = lrq_in_use (lhb_lrqs t r)"
  "lrq_owner (lhb_lrqs (raise_block b t) r) = lrq_owner (lhb_lrqs t r)"
  "own_pending_request (lhb_owns (raise_block b t) p) = own_pending_request (lhb_owns t p)"
  "lhb_owners (raise_block b t) = lhb_owners t" "lrq_pending (lhb_lrqs (raise_block b t) r) = lrq_pending (lhb_lrqs t r)"
  by (simp_all add: raise_block_def)

lemma raise_block_owned_ok:
  assumes "owned_ok t" "lrq_in_use (lhb_lrqs t b)"
  shows "owned_ok (raise_block b t)"
proof (cases "lrq_blocking (lhb_lrqs t b)")
  case False
  then have fresh: "b \<notin> set (own_blocks (lhb_owns t p))" for p using assms(1) by (auto simp: owned_ok_def blocks_ok_def)
  have "pending_ok (raise_block b t)" using assms(1) by (simp add: owned_ok_def pending_ok_def raise_block_frame)
  moreover have "owners_ok (raise_block b t)"
    using assms(1) False by (simp add: owned_ok_def owners_ok_def raise_block_def)
  moreover have "blocks_ok (raise_block b t)"
    using assms False fresh by (auto simp: owned_ok_def blocks_ok_def raise_block_def)
  moreover have "nonzero_ok (raise_block b t)" using assms(1) False by (simp add: owned_ok_def nonzero_ok_def raise_block_def)
  ultimately show ?thesis by (simp add: owned_ok_def)
qed (use assms(1) in \<open>simp add: raise_block_def\<close>)


text \<open>What stays the same for the owners when nobody starts or ends a wait.\<close>

definition steady :: "lhb \<Rightarrow> lhb \<Rightarrow> bool" where
  "steady t t' \<longleftrightarrow>
     lhb_owners t' = lhb_owners t \<and> (\<forall>p. own_pending_request (lhb_owns t' p) = own_pending_request (lhb_owns t p)) \<and>
     (\<forall>r. lrq_in_use (lhb_lrqs t' r) = lrq_in_use (lhb_lrqs t r) \<and> lrq_owner (lhb_lrqs t' r) = lrq_owner (lhb_lrqs t r))"

text \<open>What an operation of owner \<open>p\<close> leaves to the other owners.\<close>

definition by_owner :: "ptr \<Rightarrow> lhb \<Rightarrow> lhb \<Rightarrow> bool" where
  "by_owner p t t' \<longleftrightarrow>
     lhb_owners t' = lhb_owners t \<and>
     (\<forall>q. q \<noteq> p \<longrightarrow> own_pending_request (lhb_owns t' q) = own_pending_request (lhb_owns t q)) \<and>
     (\<forall>r. lrq_in_use (lhb_lrqs t r) \<longrightarrow> lrq_owner (lhb_lrqs t r) \<noteq> p \<longrightarrow>
        lrq_in_use (lhb_lrqs t' r) \<and> lrq_owner (lhb_lrqs t' r) = lrq_owner (lhb_lrqs t r))"

lemma steady_refl [simp]: "steady t t"
  by (simp add: steady_def)

lemma steady_trans: "steady t t' \<Longrightarrow> steady t' t'' \<Longrightarrow> steady t t''"
  by (simp add: steady_def)

lemma calm_steady: "calm t t' \<Longrightarrow> steady t t'"
  by (simp add: calm_def steady_def)

lemma steady_by_owner: "steady t t' \<Longrightarrow> by_owner p t t'"
  by (simp add: steady_def by_owner_def)

lemma by_owner_trans: "by_owner p t t' \<Longrightarrow> by_owner p t' t'' \<Longrightarrow> by_owner p t t''"
  by (simp add: by_owner_def)

lemma post_blockage_loop_Cons:
  "post_blockage_loop r (b # que) force t =
     (let q = lhb_lrqs t r; k = lhb_lrqs t b; p = lrq_owner k in
      if b = r \<or> COMPATIBLE (lrq_requested q) (lrq_state k) \<or> lrq_ast_routine k = 0 then post_blockage_loop r que force t
      else let t2 = (if force then upd_own p (\<lambda>ow. ow\<lparr>own_signaled := False\<rparr>) (raise_block b t) else raise_block b t);
               t3 = (if p \<noteq> lrq_owner q then signal_owner p t2 else t2)
           in if lrq_state k = LCK_EX then t3 else post_blockage_loop r que force t3)"
  by (simp add: raise_block_def Let_def)

lemma post_blockage_loop_owned_ok:
  assumes "owned_ok t" "\<forall>b \<in> set que. lrq_in_use (lhb_lrqs t b)"
  shows "owned_ok (post_blockage_loop r que force t) \<and> steady t (post_blockage_loop r que force t)"
  using assms
proof (induction que arbitrary: t)
  case (Cons b que)
  let ?p = "lrq_owner (lhb_lrqs t b)"
  let ?t2 = "if force then upd_own ?p (\<lambda>ow. ow\<lparr>own_signaled := False\<rparr>) (raise_block b t) else raise_block b t"
  let ?t3 = "if ?p \<noteq> lrq_owner (lhb_lrqs t r) then signal_owner ?p ?t2 else ?t2"
  have "calm (raise_block b t) ?t2" by simp
  moreover have "calm ?t2 ?t3" by simp
  ultimately have "calm (raise_block b t) ?t3" by (rule calm_trans)
  moreover have "owned_ok (raise_block b t)" "steady t (raise_block b t)"
    using raise_block_owned_ok Cons.prems by (simp_all add: steady_def raise_block_frame)
  ultimately have t3: "owned_ok ?t3" "steady t ?t3" using calm_owned_ok calm_steady steady_trans by blast+
  then have "\<forall>b \<in> set que. lrq_in_use (lhb_lrqs ?t3 b)" using Cons.prems(2) unfolding steady_def by simp
  then have "owned_ok (post_blockage_loop r que force ?t3) \<and> steady t (post_blockage_loop r que force ?t3)"
    using Cons.IH [of ?t3] t3 steady_trans by blast
  moreover have "owned_ok (post_blockage_loop r que force t) \<and> steady t (post_blockage_loop r que force t)"
    using Cons.IH [of t] Cons.prems by simp
  ultimately show ?case unfolding post_blockage_loop_Cons Let_def using t3 by simp
qed simp

lemma post_blockage_owned_ok:
  assumes "owned_ok t" "lock_ok t l"
  shows "owned_ok (post_blockage r l force t)" "steady t (post_blockage r l force t)"
  using post_blockage_loop_owned_ok [OF assms(1), of "queue t l"] assms(2)
  by (simp_all add: post_blockage_def lock_ok_def lock_shape_def)


section \<open>Waiting\<close>

definition idle :: "ptr \<Rightarrow> lhb \<Rightarrow> bool" where
  "idle p t \<longleftrightarrow> p \<in> set (lhb_owners t) \<and> own_pending_request (lhb_owns t p) = 0"

text \<open>
  After an operation of owner \<open>p\<close>, which then waits for its request \<open>w\<close>, or for none when \<open>w\<close>
  is 0.
\<close>

definition after_op :: "ptr \<Rightarrow> ptr \<Rightarrow> lhb \<Rightarrow> lhb \<Rightarrow> bool" where
  "after_op p w t t' \<longleftrightarrow>
     owned_ok t' \<and> by_owner p t t' \<and> own_pending_request (lhb_owns t' p) = w \<and>
     (w \<noteq> 0 \<longrightarrow> lrq_in_use (lhb_lrqs t' w) \<and> lrq_owner (lhb_lrqs t' w) = p)"

lemma after_op_steady:
  "owned_ok t' \<Longrightarrow> steady t t' \<Longrightarrow> idle p t \<Longrightarrow> after_op p 0 t t'"
  by (simp add: after_op_def idle_def steady_by_owner) (simp add: steady_def)

lemma after_op_calm: "owned_ok t \<Longrightarrow> calm t t' \<Longrightarrow> idle p t \<Longrightarrow> after_op p 0 t t'"
  using after_op_steady calm_owned_ok calm_steady by blast

lemma idle_steady: "steady t t' \<Longrightarrow> idle p t' = idle p t"
  by (simp add: idle_def steady_def)

lemma after_op_trans: "by_owner p t t1 \<Longrightarrow> after_op p w t1 t' \<Longrightarrow> after_op p w t t'"
  using by_owner_trans by (auto simp: after_op_def)

lemma nonzero_request: "owned_ok t \<Longrightarrow> lrq_in_use (lhb_lrqs t r) \<Longrightarrow> r \<noteq> 0"
  by (cases "r = 0") (simp_all add: owned_ok_def nonzero_ok_def)

lemma wait_begin_after:
  assumes "table_ok t" "owned_ok t" "lrq_in_use (lhb_lrqs t r)" "lrq_owner (lhb_lrqs t r) = p" "idle p t"
    and "\<not> lrq_pending (lhb_lrqs t r)"
  shows "after_op p r t (wait_begin r t)"
proof -
  define l where "l = lrq_lock (lhb_lrqs t r)"
  define t2 where "t2 = upd_own p (\<lambda>ow. ow\<lparr>own_pending_request := r, own_scanned := False, own_wakeup := False,
    own_semaphore := True\<rparr>) (mark_pending r t)"
  note d = table_okD [OF assms(1,3), folded l_def]
  have wb: "wait_begin r t = post_blockage r l False t2" by (simp add: wait_begin_def t2_def l_def assms(4) Let_def)
  have ok: "lock_ok t2 l"
    using mark_pending_ok(1) [OF d(2,3) assms(6)] lock_ok_cong [of t2 l "mark_pending r t"] by (simp add: t2_def)
  have rest: "lhb_owners t2 = lhb_owners t" "lhb_free_requests t2 = lhb_free_requests t" "lhb_used t2 = lhb_used t"
    using mark_pending_simps(4) [of r t] by (simp_all add: t2_def rest_def)
  have free: "lhb_free_owners t2 = lhb_free_owners t" by (simp add: t2_def mark_pending_def Let_def)
  have lrq: "lrq_in_use (lhb_lrqs t2 q) = lrq_in_use (lhb_lrqs t q)" "lrq_owner (lhb_lrqs t2 q) = lrq_owner (lhb_lrqs t q)"
    "lrq_blocking (lhb_lrqs t2 q) = lrq_blocking (lhb_lrqs t q)" "lrq_pending (lhb_lrqs t2 q) \<longleftrightarrow> q = r \<or> lrq_pending (lhb_lrqs t q)" for q
    by (simp_all add: t2_def mark_pending_simps)
  have own: "own_pending_request (lhb_owns t2 q) = (if q = p then r else own_pending_request (lhb_owns t q))"
    "own_blocks (lhb_owns t2 q) = own_blocks (lhb_owns t q)" "own_requests (lhb_owns t2 q) = own_requests (lhb_owns t q)" for q
    by (simp_all add: t2_def mark_pending_simps)
  note nz = nonzero_request [OF assms(2,3)]
  have "pending_ok t2"
    unfolding pending_ok_def lrq own rest
  proof (intro allI impI)
    fix q assume q: "q = r \<or> lrq_pending (lhb_lrqs t q)"
    show "q \<noteq> 0 \<and> lrq_in_use (lhb_lrqs t q) \<and> lrq_owner (lhb_lrqs t q) \<in> set (lhb_owners t) \<and>
      (if lrq_owner (lhb_lrqs t q) = p then r else own_pending_request (lhb_owns t (lrq_owner (lhb_lrqs t q)))) = q"
    proof (cases "q = r")
      case True
      then show ?thesis using assms(3-5) nz by (simp add: idle_def)
    next
      case False
      then have "q \<noteq> 0 \<and> lrq_in_use (lhb_lrqs t q) \<and> lrq_owner (lhb_lrqs t q) \<in> set (lhb_owners t) \<and>
        own_pending_request (lhb_owns t (lrq_owner (lhb_lrqs t q))) = q"
        using q assms(2) by (simp add: owned_ok_def pending_ok_def)
      then show ?thesis using assms(5) by (auto simp: idle_def)
    qed
  qed
  then have o2: "owned_ok t2"
    using assms(2) by (simp add: owned_ok_def blocks_ok_def owners_ok_def nonzero_ok_def lrq own rest free)
  note p = post_blockage_owned_ok [OF o2 ok, of r False, folded wb]
  have "by_owner p t t2" by (simp add: by_owner_def rest own lrq)
  then have "by_owner p t (wait_begin r t)" using by_owner_trans steady_by_owner [OF p(2)] by blast
  then show ?thesis using p assms(3,4) unfolding after_op_def steady_def by (simp add: own lrq)
qed

lemma wait_end_after:
  assumes "owned_ok t" "lrq_owner (lhb_lrqs t r) = p" "\<not> lrq_pending (lhb_lrqs t r)"
    and "own_pending_request (lhb_owns t p) \<in> {0, r}" "p \<in> set (lhb_owners t)"
  shows "after_op p 0 t (wait_end r t)" "idle p (wait_end r t)"
proof -
  let ?t = "wait_end r t"
  have own: "own_pending_request (lhb_owns ?t q) = (if q = p then 0 else own_pending_request (lhb_owns t q))"
    "own_blocks (lhb_owns ?t q) = own_blocks (lhb_owns t q)" "own_requests (lhb_owns ?t q) = own_requests (lhb_owns t q)"
    "lhb_lrqs ?t = lhb_lrqs t" "lhb_owners ?t = lhb_owners t" "lhb_free_owners ?t = lhb_free_owners t"
    "lhb_used ?t = lhb_used t" "lhb_free_requests ?t = lhb_free_requests t" for q
    using assms(2) by (simp_all add: wait_end_def)
  have "pending_ok ?t"
    unfolding pending_ok_def own
  proof (intro allI impI)
    fix q assume q: "lrq_pending (lhb_lrqs t q)"
    then have "q \<noteq> 0" "lrq_in_use (lhb_lrqs t q)" "lrq_owner (lhb_lrqs t q) \<in> set (lhb_owners t)"
      "own_pending_request (lhb_owns t (lrq_owner (lhb_lrqs t q))) = q"
      using assms(1) by (simp_all add: owned_ok_def pending_ok_def)
    moreover from this have "lrq_owner (lhb_lrqs t q) \<noteq> p" using assms(3,4) q by (cases "q = r") auto
    ultimately show "q \<noteq> 0 \<and> lrq_in_use (lhb_lrqs t q) \<and> lrq_owner (lhb_lrqs t q) \<in> set (lhb_owners t) \<and>
      (if lrq_owner (lhb_lrqs t q) = p then 0 else own_pending_request (lhb_owns t (lrq_owner (lhb_lrqs t q)))) = q" by simp
  qed
  then have "owned_ok ?t" using assms(1) by (simp add: owned_ok_def blocks_ok_def owners_ok_def nonzero_ok_def own)
  then show "after_op p 0 t ?t" by (simp add: after_op_def by_owner_def own)
  show "idle p ?t" using assms(5) by (simp add: idle_def own)
qed


section \<open>Entry points\<close>

lemma release_request_after:
  assumes "table_ok t" "owned_ok t" "lrq_in_use (lhb_lrqs t r)" "lrq_owner (lhb_lrqs t r) = p" "idle p t"
  shows "after_op p 0 t (release_request r t)"
  using release_request_owned_ok [OF assms(2,3)] release_request_frame(1,2,6) [OF assms(1,3)] assms(4,5)
  by (auto simp: after_op_def by_owner_def release_request_pending_request idle_def)

lemma dequeue_after:
  assumes "table_ok t" "owned_ok t" "lrq_owner (lhb_lrqs t r) = p" "idle p t" "dequeue r t = Inr t'"
  shows "after_op p 0 t t'"
proof -
  let ?t1 = "upd_lrq r (\<lambda>q. q\<lparr>lrq_ast_routine := 0\<rparr>) t"
  have use: "lrq_in_use (lhb_lrqs t r)" and t': "t' = release_request r ?t1"
    using assms(5) by (auto simp: dequeue_def dest: get_request_Inr)
  have c: "calm t ?t1" by simp
  have "after_op p 0 ?t1 t'"
    unfolding t' using light_table_ok [OF light_updates(14) assms(1)] calm_owned_ok [OF c assms(2)] use assms(3,4)
    by (intro release_request_after) (simp_all add: idle_def)
  then show ?thesis using after_op_trans steady_by_owner [OF calm_steady [OF c]] by blast
qed

lemma deny_request_after:
  assumes "table_ok t" "owned_ok t" "lrq_in_use (lhb_lrqs t r)" "lrq_owner (lhb_lrqs t r) = p" "idle p t"
  shows "after_op p 0 t (deny_request r w t)"
proof -
  let ?t1 = "count_deny w t"
  have c: "calm t ?t1" by simp
  have "lhb_lrqs ?t1 = lhb_lrqs t" by (simp add: count_deny_def Let_def)
  then have "after_op p 0 ?t1 (release_request r ?t1)"
    using light_table_ok [OF light_count_deny assms(1)] calm_owned_ok [OF c assms(2)] assms(3-5) idle_steady [OF calm_steady [OF c]]
    by (intro release_request_after) simp_all
  then show ?thesis unfolding deny_request_def using after_op_trans steady_by_owner [OF calm_steady [OF c]] by blast
qed

definition waits_after :: "ptr \<Rightarrow> outcome \<Rightarrow> ptr" where
  "waits_after r res = (if res = Waiting then r else 0)"

lemma grant_or_que_after:
  assumes "table_ok t" "owned_ok t" "lrq_in_use (lhb_lrqs t r)" "lrq_owner (lhb_lrqs t r) = p" "idle p t"
    and "lrq_lock (lhb_lrqs t r) = l" "\<not> lrq_pending (lhb_lrqs t r)" "grant_or_que r l w t = (res, t')"
  shows "after_op p (waits_after r res) t t'"
proof -
  have "(lhb_lrqs t r)\<lparr>lrq_lock := l\<rparr> = lhb_lrqs t r" by (rule lrq.equality) (simp_all add: assms(6))
  then have same: "upd_lrq r (\<lambda>q. q\<lparr>lrq_lock := l\<rparr>) t = t" by (simp add: upd_lrq_def)
  consider "res = Granted" "t' = post_pending l (grant r l t)" | "res = Waiting" "t' = wait_begin r t"
    | "res \<noteq> Waiting" "t' = deny_request r w t"
    using assms(8) unfolding grant_or_que_def same by (auto simp: Let_def split: if_splits)
  then show ?thesis
  proof cases
    case 1
    then show ?thesis
      using after_op_calm [OF assms(2) calm_trans [OF calm_grant calm_post_pending] assms(5)] by (simp add: waits_after_def)
  next
    case 2
    then show ?thesis using wait_begin_after [OF assms(1-5,7)] by (simp add: waits_after_def)
  next
    case 3
    then show ?thesis using deny_request_after [OF assms(1-5)] by (simp add: waits_after_def)
  qed
qed

lemma convert_after:
  assumes "table_ok t" "owned_ok t" "lrq_owner (lhb_lrqs t r) = p" "idle p t" "\<not> lrq_pending (lhb_lrqs t r)" "type \<le> LCK_EX"
    and "convert r type w ast arg t = Inr (res, t')"
  shows "after_op p (waits_after r res) t t'"
proof -
  define l where "l = lrq_lock (lhb_lrqs t r)"
  define t1 where "t1 = upd_lrq r (\<lambda>q. q\<lparr>lrq_requested := type\<rparr>) t"
  let ?s = "state_in t r"
  define t2 where "t2 = upd_lbl l (count_down ?s) t1"
  define t3 where "t3 = upd_lbl l (count_up ?s) t2"
  have use: "lrq_in_use (lhb_lrqs t r)" using assms(7) by (auto simp: convert_def dest: get_request_Inr)
  have c1: "calm t t1" by (simp add: t1_def)
  then have "calm t t2" unfolding t2_def by (rule calm_trans) simp
  moreover from this have "calm t t3" unfolding t3_def by (rule calm_trans) simp
  ultimately have c: "calm t t1" "calm t t2" "calm t t3" using c1 by simp_all
  consider (granted) "res = Granted" "t' = post_pending l (grant r l (upd_lrq r (set_ast ast arg) t2))"
    | (waits) "res = Waiting" "t' = wait_begin r t3" | (denied) "res \<noteq> Waiting" "t' = deny_convert r w t3"
    using assms(7) get_request_ok [OF assms(1) use]
    by (auto simp: convert_def l_def [symmetric] t1_def [symmetric] t2_def [symmetric] t3_def [symmetric] Let_def split: if_splits)
  then show ?thesis
  proof cases
    case granted
    have "calm t2 t'" unfolding granted using calm_trans calm_updates(9) calm_grant calm_post_pending by blast
    then show ?thesis using after_op_calm [OF assms(2) calm_trans [OF c(2)] assms(4)] granted by (simp add: waits_after_def)
  next
    case waits
    have ok1: "table_ok t1" unfolding t1_def by (rule table_ok_requested [OF assms(1,6)])
    have l1: "lrq_lock (lhb_lrqs t1 r) = l" "lrq_in_use (lhb_lrqs t1 r)" using use by (simp_all add: t1_def l_def)
    have "lock_shape t1 l" using table_okD(2) [OF ok1 l1(2)] l1(1) by (simp add: lock_ok_def)
    then have "table_ok t3" unfolding t3_def t2_def using light_table_ok [OF light_recount ok1] by blast
    moreover have "lhb_lrqs t3 r = (lhb_lrqs t r)\<lparr>lrq_requested := type\<rparr>" by (simp add: t3_def t2_def t1_def)
    ultimately have "after_op p r t3 (wait_begin r t3)"
      using calm_owned_ok [OF c(3) assms(2)] use assms(3,5) idle_steady [OF calm_steady [OF c(3)], of p] assms(4)
      by (intro wait_begin_after) simp_all
    then show ?thesis using after_op_trans [OF steady_by_owner [OF calm_steady [OF c(3)]]] waits by (simp add: waits_after_def)
  next
    case denied
    have "calm t3 t'" unfolding denied deny_convert_def using calm_trans [OF calm_updates(4) calm_count_deny] .
    then show ?thesis using after_op_calm [OF assms(2) calm_trans [OF c(3)] assms(4)] denied by (simp add: waits_after_def)
  qed
qed


text \<open>The table with a new request of owner \<open>p\<close>.\<close>

definition entered :: "ptr \<Rightarrow> ptr \<Rightarrow> lhb \<Rightarrow> lhb \<Rightarrow> bool" where
  "entered r p t t' \<longleftrightarrow>
     \<not> lrq_in_use (lhb_lrqs t r) \<and> r \<noteq> 0 \<and> (\<forall>q. q \<noteq> r \<longrightarrow> lhb_lrqs t' q = lhb_lrqs t q) \<and>
     lrq_in_use (lhb_lrqs t' r) \<and> \<not> lrq_pending (lhb_lrqs t' r) \<and> lrq_owner (lhb_lrqs t' r) = p \<and>
     lhb_owners t' = lhb_owners t \<and> lhb_free_owners t' = lhb_free_owners t \<and> lhb_used t \<le> lhb_used t' \<and>
     (\<forall>q. own_pending_request (lhb_owns t' q) = own_pending_request (lhb_owns t q) \<and>
        own_blocks (lhb_owns t' q) = own_blocks (lhb_owns t q) \<and>
        (q \<noteq> p \<longrightarrow> own_requests (lhb_owns t' q) = own_requests (lhb_owns t q))) \<and>
     set (lhb_free_requests t') \<subseteq> set (lhb_free_requests t)"

lemma entered_owned_ok:
  assumes "entered r p t t'" "owned_ok t" "idle p t"
  shows "owned_ok t'" "by_owner p t t'" "idle p t'"
proof -
  have e: "\<not> lrq_in_use (lhb_lrqs t r)" "r \<noteq> 0" "\<And>q. q \<noteq> r \<Longrightarrow> lhb_lrqs t' q = lhb_lrqs t q" "lrq_in_use (lhb_lrqs t' r)"
    "\<not> lrq_pending (lhb_lrqs t' r)" "lrq_owner (lhb_lrqs t' r) = p" "lhb_owners t' = lhb_owners t"
    "lhb_free_owners t' = lhb_free_owners t" "lhb_used t \<le> lhb_used t'"
    "\<And>q. own_pending_request (lhb_owns t' q) = own_pending_request (lhb_owns t q)" "\<And>q. own_blocks (lhb_owns t' q) = own_blocks (lhb_owns t q)"
    "\<And>q. q \<noteq> p \<Longrightarrow> own_requests (lhb_owns t' q) = own_requests (lhb_owns t q)" "set (lhb_free_requests t') \<subseteq> set (lhb_free_requests t)"
    using assms(1) by (auto simp: entered_def)
  have o: "pending_ok t" "blocks_ok t" "owners_ok t" "nonzero_ok t" using assms(2) by (simp_all add: owned_ok_def)
  have "pending_ok t'"
    unfolding pending_ok_def e(7,10)
  proof (intro allI impI)
    fix q assume q: "lrq_pending (lhb_lrqs t' q)"
    then have "q \<noteq> r" using e(5) by auto
    then show "q \<noteq> 0 \<and> lrq_in_use (lhb_lrqs t' q) \<and> lrq_owner (lhb_lrqs t' q) \<in> set (lhb_owners t) \<and>
      own_pending_request (lhb_owns t (lrq_owner (lhb_lrqs t' q))) = q"
      using q o(1) by (simp add: e(3) pending_ok_def)
  qed
  moreover have "blocks_ok t'"
    unfolding blocks_ok_def e(11)
  proof (intro allI conjI ballI)
    fix q show "distinct (own_blocks (lhb_owns t q))" using o(2) by (simp add: blocks_ok_def)
    fix b assume b: "b \<in> set (own_blocks (lhb_owns t q))"
    then have "b \<noteq> r" using o(2) e(1) by (auto simp: blocks_ok_def)
    then show "lrq_in_use (lhb_lrqs t' b)" "lrq_blocking (lhb_lrqs t' b)" "lrq_owner (lhb_lrqs t' b) = q"
      using b o(2) by (simp_all add: e(3) blocks_ok_def)
  qed
  moreover have "owners_ok t'"
    unfolding owners_ok_def e(7,8)
  proof (intro conjI allI impI ballI)
    fix q assume "q \<in> set (lhb_owners t @ lhb_free_owners t)"
    then have "q < lhb_used t" using o(3) by (simp only: owners_ok_def)
    then show "q < lhb_used t'" using e(9) by simp
  next
    fix q assume "own_requests (lhb_owns t' q) \<noteq> []"
    then show "q \<in> set (lhb_owners t)" using o(3) e(12) [of q] assms(3) by (cases "q = p") (simp_all add: owners_ok_def idle_def)
  qed (use o(3) in \<open>simp add: owners_ok_def\<close>)
  moreover have "nonzero_ok t'" using o(4) e(2,9,13) by (auto simp: nonzero_ok_def e(3))
  ultimately show "owned_ok t'" by (simp add: owned_ok_def)
  show "idle p t'" using assms(3) by (simp add: idle_def e)
  show "by_owner p t t'"
    unfolding by_owner_def e(7,10)
  proof (intro conjI allI impI)
    fix q assume "lrq_in_use (lhb_lrqs t q)"
    then have "q \<noteq> r" using e(1) by auto
    then show "lrq_in_use (lhb_lrqs t' q)" "lrq_owner (lhb_lrqs t' q) = lrq_owner (lhb_lrqs t q)"
      using \<open>lrq_in_use (lhb_lrqs t q)\<close> by (simp_all add: e(3))
  qed simp_all
qed

lemma alloc_request_owners:
  assumes "table_ok t" "owned_ok t" "alloc_request remap t = Some (r, t1)"
  shows "r \<noteq> 0" "lhb_owners t1 = lhb_owners t" "lhb_free_owners t1 = lhb_free_owners t"
proof -
  have "nonzero_ok t" using assms(2) by (simp add: owned_ok_def)
  then have nz: "0 < lhb_used t" "0 \<notin> set (lhb_free_requests t)" by (simp_all add: nonzero_ok_def)
  show "r \<noteq> 0"
  proof (cases "lhb_free_requests t")
    case Nil
    then show ?thesis using alloc_spec(1) [of remap lrq_bytes t r t1] nz(1) assms(3) by (simp add: alloc_request_def)
  next
    case (Cons a que)
    then have "r = a" "a \<in> set (lhb_free_requests t)" using assms(3) by (simp_all add: alloc_request_def)
    then show ?thesis using nz(2) by (cases "r = 0") simp_all
  qed
  show "lhb_owners t1 = lhb_owners t" "lhb_free_owners t1 = lhb_free_owners t"
    using assms(3) by (auto simp: alloc_request_def alloc_def Let_def split: list.splits if_splits option.splits)
qed

lemma init_request_entered:
  assumes "table_ok t" "owned_ok t" "alloc_request remap t = Some (r, t1)"
  shows "entered r p t (init_request r type ast arg p t1)"
  unfolding entered_def
  using alloc_request_spec(1,3,6,10) [OF assms(1,3)] alloc_request_owners [OF assms]
  by (auto simp: init_request_spec(1-8) [OF assms(1,3)], auto simp: init_request_def)

lemma entered_calm:
  assumes "entered r p t t1" "calm t1 t'" "\<And>q. q \<noteq> r \<Longrightarrow> lhb_lrqs t' q = lhb_lrqs t1 q"
  shows "entered r p t t'"
  using assms unfolding entered_def calm_def by (elim conjE, intro conjI) auto


lemma join_request_entered:
  assumes "entered r p t t2"
  shows "entered r p t (join_request r l series data t2)"
proof (rule entered_calm [OF assms])
  show "calm t2 (join_request r l series data t2)"
    unfolding join_request_def
    by (rule calm_trans [OF _ calm_updates(6)], rule calm_trans [OF _ calm_updates(5)], rule calm_trans [OF _ calm_updates(1)]) simp
qed (simp add: join_request_def)

lemma new_lock_entered:
  assumes "entered r p t t2" "alloc_lock remap n t2 = Some (l, t3)"
  shows "entered r p t (new_lock l r parent series value type data t3)"
proof -
  have "lhb_owners t3 = lhb_owners t2 \<and> lhb_free_owners t3 = lhb_free_owners t2 \<and> lhb_used t2 \<le> lhb_used t3 \<and>
      lhb_owns t3 = lhb_owns t2 \<and> lhb_free_requests t3 = lhb_free_requests t2 \<and> lhb_lrqs t3 = lhb_lrqs t2"
  proof -
    have *: "lhb_owners t' = lhb_owners t2 \<and> lhb_free_owners t' = lhb_free_owners t2 \<and> lhb_used t2 \<le> lhb_used t' \<and>
        lhb_owns t' = lhb_owns t2 \<and> lhb_free_requests t' = lhb_free_requests t2 \<and> lhb_lrqs t' = lhb_lrqs t2"
      if "alloc remap b t2 = Some (k, t')" for b k t'
    proof -
      define size where "size = (b + 3) div 4 * 4"
      show ?thesis using that unfolding alloc_def size_def [symmetric] by (auto simp: Let_def split: option.splits if_splits)
    qed
    define bytes where "bytes = (n + 3) div 4 * 4 mod 65536"
    show ?thesis using assms(2) * unfolding alloc_lock_def bytes_def [symmetric] by (auto simp: Let_def split: option.splits)
  qed
  then have "entered r p t t3" using assms(1) unfolding entered_def by (elim conjE, intro conjI) auto
  moreover have "lhb_owners (hashed_lock l r parent series value type data t3) = lhb_owners t3"
    "lhb_free_owners (hashed_lock l r parent series value type data t3) = lhb_free_owners t3"
    by (simp_all add: hashed_lock_def insert_data_que_def Let_def)
  then have "calm t3 (hashed_lock l r parent series value type data t3)" by (simp add: calm_def hashed_lock_simps)
  ultimately have "entered r p t (hashed_lock l r parent series value type data t3)"
    by (rule entered_calm) (simp add: hashed_lock_simps)
  then show ?thesis unfolding new_lock_grant by (rule entered_calm) (simp_all add: grant_simps)
qed

lemma unalloc_request_after:
  assumes "entered r p t t2" "owned_ok t" "idle p t"
  shows "after_op p 0 t (unalloc_request r p t2)"
proof -
  let ?t = "unalloc_request r p t2"
  note o = entered_owned_ok [OF assms]
  have "\<not> lrq_in_use (lhb_lrqs t r)" "r \<noteq> 0" "\<not> lrq_pending (lhb_lrqs t2 r)"
    and blk: "own_blocks (lhb_owns t2 q) = own_blocks (lhb_owns t q)" for q
    using assms(1) by (simp_all add: entered_def)
  have r: "r \<notin> set (own_blocks (lhb_owns t2 q))" for q
    using \<open>\<not> lrq_in_use (lhb_lrqs t r)\<close> assms(2) by (auto simp: blk owned_ok_def blocks_ok_def)
  have f: "lhb_lrqs ?t = (lhb_lrqs t2)(r := (lhb_lrqs t2 r)\<lparr>lrq_in_use := False\<rparr>)" "lhb_owners ?t = lhb_owners t2"
    "lhb_free_owners ?t = lhb_free_owners t2" "lhb_used ?t = lhb_used t2" "lhb_free_requests ?t = lhb_free_requests t2 @ [r]"
    "own_pending_request (lhb_owns ?t q) = own_pending_request (lhb_owns t2 q)" "own_blocks (lhb_owns ?t q) = own_blocks (lhb_owns t2 q)"
    "own_requests (lhb_owns ?t q) = (if q = p then remove1 r (own_requests (lhb_owns t2 q)) else own_requests (lhb_owns t2 q))" for q
    by (simp_all add: unalloc_request_def)
  have o2: "pending_ok t2" "blocks_ok t2" "owners_ok t2" "nonzero_ok t2" using o(1) by (simp_all add: owned_ok_def)
  have "pending_ok ?t" using o2(1) \<open>\<not> lrq_pending (lhb_lrqs t2 r)\<close> by (simp add: pending_ok_def f)
  moreover have "blocks_ok ?t" using o2(2) r by (auto simp: blocks_ok_def f)
  moreover have "owners_ok ?t" using o2(3) o(3) by (auto simp: owners_ok_def f idle_def)
  moreover have "nonzero_ok ?t" using o2(4) \<open>r \<noteq> 0\<close> by (auto simp: nonzero_ok_def f)
  moreover have "by_owner p t ?t"
    using assms(1) by (auto simp: by_owner_def f entered_def)
  ultimately show ?thesis using o(3) by (simp add: after_op_def owned_ok_def f idle_def)
qed

lemma enq_request_after:
  assumes "table_ok t" "room t" "type \<le> LCK_EX" "owned_ok t" "idle p t"
    and "enq_request remap parent series value type ast arg data w p t = (Enq r out, t')"
  shows "after_op p (waits_after r out) t t'"
  using assms(1,6)
proof (cases rule: enq_request_cases)
  case no_block
  then show ?thesis using after_op_calm [OF assms(4) calm_refl assms(5)] by (simp add: waits_after_def)
next
  case (joins r' t1 l out')
  let ?t3 = "join_request r' l series data (init_request r' type ast arg p t1)"
  note e = join_request_entered [OF init_request_entered [OF assms(1,4) joins(1)]]
  note o = entered_owned_ok [OF e assms(4,5)]
  note j = join_request_simps [OF assms(1) joins(1)]
  have "after_op p (waits_after r' out') ?t3 t'"
    by (rule grant_or_que_after [OF join_request_ok [OF assms(1-3) joins(1,2)] o(1) j(1) j(5) o(3) j(2) j(4) joins(3)])
  then show ?thesis using after_op_trans [OF o(2)] joins(4) by simp
next
  case (creates r' t1 l t3)
  note e = new_lock_entered [OF init_request_entered [OF assms(1,4) creates(1)] creates(3)]
  note o = entered_owned_ok [OF e assms(4,5)]
  then show ?thesis using creates(4,5) by (simp add: waits_after_def after_op_def idle_def)
next
  case (no_lock r' t1)
  then show ?thesis
    using unalloc_request_after [OF init_request_entered [OF assms(1,4) no_lock(1)] assms(4,5)] by (simp add: waits_after_def)
qed


lemma after_op_idle: "after_op p 0 t t' \<Longrightarrow> idle p t \<Longrightarrow> idle p t'"
  by (simp add: after_op_def idle_def by_owner_def)

lemma after_op_then:
  assumes "after_op p 0 t t1" "after_op p w t1 t'"
  shows "after_op p w t t'"
proof (rule after_op_trans [OF _ assms(2)])
  show "by_owner p t t1" using assms(1) by (simp add: after_op_def)
qed

lemma calm_bump_idle: "idle p (bump s t) = idle p t" "owned_ok t \<Longrightarrow> owned_ok (bump s t)" "table_ok t \<Longrightarrow> table_ok (bump s t)"
    "after_op p w (bump s t) t' \<Longrightarrow> after_op p w t t'" "room (bump s t) = room t"
  using calm_owned_ok [OF calm_updates(2)] light_table_ok [OF light_updates(1)]
    after_op_trans [OF steady_by_owner [OF calm_steady [OF calm_updates(2)]]]
  by (simp_all add: idle_def room_def)

lemma LOCK_enq_after:
  assumes "table_ok t" "room t" "type \<le> LCK_EX" "owned_ok t" "idle p t" "prior \<noteq> 0 \<longrightarrow> lrq_owner (lhb_lrqs t prior) = p"
    and "LOCK_enq remap prior par series value type ast arg data w p t = Inr (res, t')"
  shows "case res of No_owner \<Rightarrow> t' = t | Enq r out \<Rightarrow> after_op p (waits_after r out) t t'"
proof (cases "p = 0 \<or> own_count (lhb_owns t p) = 0")
  case True
  then show ?thesis using assms(7) by (auto simp: LOCK_enq_def)
next
  case False
  let ?t0 = "bump lhb_enqs t"
  obtain t1 parent where t1: "(if prior \<noteq> 0 then dequeue prior ?t0 else Inr ?t0) = Inr t1"
    and enq: "enq_request remap parent series value type ast arg data w p t1 = (res, t')"
    using assms(7) False by (auto simp: LOCK_enq_def split: if_splits)
  have "\<exists>r out. res = Enq r out" using enq by (auto simp: enq_request_def Let_def split: option.splits prod.splits)
  then obtain r out where res: "res = Enq r out" by blast
  note b = calm_bump_idle [where s = lhb_enqs]
  have b': "owned_ok ?t0" "idle p ?t0" "table_ok ?t0" "room ?t0" using b assms by blast+
  have "after_op p 0 ?t0 t1 \<and> table_ok t1 \<and> room t1"
  proof (cases "prior = 0")
    case True
    then show ?thesis using t1 b' after_op_calm [OF b'(1) calm_refl b'(2)] by simp
  next
    case False
    then have d: "dequeue prior ?t0 = Inr t1" using t1 by simp
    then show ?thesis
      using dequeue_after [OF b'(3,1) _ b'(2) d] dequeue_ok [OF b'(3) d] dequeue_room [OF b'(3,4) d] False assms(6) by simp
  qed
  then have t1: "after_op p 0 ?t0 t1" "table_ok t1" "room t1" by simp_all
  then have "owned_ok t1" "idle p t1" using after_op_idle b'(2) by (auto simp: after_op_def)
  from enq_request_after [OF t1(2,3) assms(3) this] enq res
  have "after_op p (waits_after r out) t1 t'" by simp
  then show ?thesis using res b(4) after_op_then [OF t1(1)] by simp
qed

lemma LOCK_convert_after:
  assumes "table_ok t" "owned_ok t" "lrq_owner (lhb_lrqs t r) = p" "idle p t" "\<not> lrq_pending (lhb_lrqs t r)" "type \<le> LCK_EX"
    and "LOCK_convert r type w ast arg t = Inr (res, t')"
  shows "case res of None \<Rightarrow> t' = t | Some out \<Rightarrow> after_op p (waits_after r out) t t'"
proof (cases "own_count (lhb_owns t p) = 0")
  case True
  then show ?thesis using assms(3,7) by (auto simp: LOCK_convert_def dest: get_request_Inr split: if_splits)
next
  case False
  then obtain s out where c: "convert r type w ast arg (bump s (bump lhb_converts t)) = Inr (out, t')" "res = Some out"
    using assms(3,7) by (auto simp: LOCK_convert_def dest: get_request_Inr split: if_splits)
  have "after_op p (waits_after r out) (bump s (bump lhb_converts t)) t'"
    using assms calm_bump_idle by (intro convert_after [OF _ _ _ _ _ assms(6) c(1)]) simp_all
  then have "after_op p (waits_after r out) t t'" using calm_bump_idle(4) by blast
  then show ?thesis using c(2) by simp
qed

text \<open>
  What an operation on request \<open>r\<close> that starts no wait leaves as it is: every wait and every other
  request.  It may be called while its owner waits, by a blocking routine.
\<close>

definition kept :: "ptr \<Rightarrow> lhb \<Rightarrow> lhb \<Rightarrow> bool" where
  "kept r t t' \<longleftrightarrow>
     owned_ok t' \<and> lhb_owners t' = lhb_owners t \<and>
     (\<forall>p. own_pending_request (lhb_owns t' p) = own_pending_request (lhb_owns t p)) \<and>
     (\<forall>q. q \<noteq> r \<longrightarrow> lrq_in_use (lhb_lrqs t q) \<longrightarrow>
        lrq_in_use (lhb_lrqs t' q) \<and> lrq_owner (lhb_lrqs t' q) = lrq_owner (lhb_lrqs t q))"

lemma kept_steady: "owned_ok t' \<Longrightarrow> steady t t' \<Longrightarrow> kept r t t'"
  by (simp add: kept_def steady_def)

lemma kept_calm: "owned_ok t \<Longrightarrow> calm t t' \<Longrightarrow> kept r t t'"
  using kept_steady calm_owned_ok calm_steady by blast

lemma calm_kept: "calm t t1 \<Longrightarrow> kept r t1 t' \<Longrightarrow> kept r t t'"
  by (simp add: kept_def calm_def)

lemma dequeue_kept:
  assumes "table_ok t" "owned_ok t" "dequeue r t = Inr t'"
  shows "kept r t t'"
proof -
  let ?t1 = "upd_lrq r (\<lambda>q. q\<lparr>lrq_ast_routine := 0\<rparr>) t"
  have use: "lrq_in_use (lhb_lrqs ?t1 r)" and t': "t' = release_request r ?t1"
    using assms(3) by (auto simp: dequeue_def dest: get_request_Inr)
  have c: "calm t ?t1" by simp
  have "kept r ?t1 t'"
    unfolding t' kept_def
    using release_request_owned_ok [OF calm_owned_ok [OF c assms(2)] use]
      release_request_frame(1,2,6) [OF light_table_ok [OF light_updates(14) assms(1)] use]
    by (simp add: release_request_pending_request)
  then show ?thesis by (rule calm_kept [OF c])
qed

lemma convert_kept:
  assumes "owned_ok t" "convert r type w ast arg t = Inr (out, t')" "out \<noteq> Waiting"
  shows "kept r t t'"
proof -
  define l where "l = lrq_lock (lhb_lrqs t r)"
  define t1 where "t1 = upd_lrq r (\<lambda>q. q\<lparr>lrq_requested := type\<rparr>) t"
  let ?s = "state_in t r"
  define t2 where "t2 = upd_lbl l (count_down ?s) t1"
  define t3 where "t3 = upd_lbl l (count_up ?s) t2"
  have c1: "calm t t1" by (simp add: t1_def)
  then have c2: "calm t t2" unfolding t2_def by (rule calm_trans) simp
  then have c3: "calm t t3" unfolding t3_def by (rule calm_trans) simp
  have "get_request r t = Inr (lhb_lrqs t r)" using assms(2) by (auto simp: convert_def dest: get_request_Inr)
  then consider "t' = post_pending l (grant r l (upd_lrq r (set_ast ast arg) t2))" | "t' = deny_convert r w t3"
    using assms(2,3)
    by (auto simp: convert_def l_def [symmetric] t1_def [symmetric] t2_def [symmetric] t3_def [symmetric] Let_def split: if_splits)
  then have "calm t t'"
  proof cases
    case 1
    have "calm t2 t'" unfolding 1 using calm_trans calm_updates(9) calm_grant calm_post_pending by blast
    then show ?thesis by (rule calm_trans [OF c2])
  next
    case 2
    have "calm t3 t'" unfolding 2 deny_convert_def using calm_trans [OF calm_updates(4) calm_count_deny] .
    then show ?thesis by (rule calm_trans [OF c3])
  qed
  then show ?thesis using kept_calm assms(1) by blast
qed

lemma LOCK_deq_kept:
  assumes "table_ok t" "owned_ok t" "LOCK_deq r t = Inr (res, t')"
  shows "kept r t t'"
proof -
  have b: "table_ok (bump s (bump s' t))" "owned_ok (bump s (bump s' t))" "calm t (bump s (bump s' t))" for s s'
    using assms(1,2) by (simp_all add: calm_bump_idle calm_trans [OF calm_updates(2) calm_updates(2)])
  have "t' = t \<or> (\<exists>s. dequeue r (bump s (bump lhb_deqs t)) = Inr t')"
    using assms(3) by (auto simp: LOCK_deq_def dest: get_request_Inr split: if_splits)
  then show ?thesis using kept_calm [OF assms(2) calm_refl] calm_kept [OF b(3) dequeue_kept [OF b(1,2)]] by blast
qed

lemma LOCK_convert_kept:
  assumes "owned_ok t" "LOCK_convert r type w ast arg t = Inr (Some out, t')" "out \<noteq> Waiting"
  shows "kept r t t'"
proof -
  have b: "owned_ok (bump s (bump s' t))" "calm t (bump s (bump s' t))" for s s'
    using assms(1) by (simp_all add: calm_bump_idle calm_trans [OF calm_updates(2) calm_updates(2)])
  obtain s where "convert r type w ast arg (bump s (bump lhb_converts t)) = Inr (out, t')"
    using assms(2) by (auto simp: LOCK_convert_def split: if_splits)
  from calm_kept [OF b(2) convert_kept [OF b(1) this assms(3)]] show ?thesis .
qed

lemma LOCK_downgrade_kept:
  assumes "table_ok t" "owned_ok t" "LOCK_downgrade r t = Inr (res, t')"
  shows "kept r t t'"
proof -
  let ?t0 = "bump lhb_downgrades t"
  have b: "table_ok ?t0" "owned_ok ?t0" "calm t ?t0" using assms(1,2) calm_bump_idle calm_updates(2) by blast+
  have "t' = t \<or> dequeue r ?t0 = Inr t' \<or> (\<exists>st ast arg out. convert r st 0 ast arg ?t0 = Inr (out, t'))"
    using assms(3) by (auto simp: LOCK_downgrade_def Let_def dest: get_request_Inr split: if_splits)
  moreover have "out \<noteq> Waiting" if "convert r st 0 ast arg t1 = Inr (out, t2)" for st ast arg out t1 t2
    using that by (auto simp: convert_def Let_def split: if_splits)
  ultimately show ?thesis
    using kept_calm [OF assms(2) calm_refl] calm_kept [OF b(3)] dequeue_kept [OF b(1,2)] convert_kept [OF b(2)] by metis
qed

lemma enq_resume_after:
  assumes "table_ok t" "owned_ok t" "lrq_in_use (lhb_lrqs t r)" "lrq_owner (lhb_lrqs t r) = p" "\<not> lrq_pending (lhb_lrqs t r)"
    and "own_pending_request (lhb_owns t p) \<in> {0, r}" "p \<in> set (lhb_owners t)" "enq_resume r w t = (res, t')"
  shows "after_op p 0 t t'"
proof -
  note e = wait_end_after [OF assms(2,4-7)]
  have lrqs: "lhb_lrqs (wait_end r t) = lhb_lrqs t" by (simp add: wait_end_def)
  have o: "owned_ok (wait_end r t)" using e(1) by (simp add: after_op_def)
  have "after_op p 0 (wait_end r t) (deny_request r w (wait_end r t))"
    using light_table_ok [OF light_wait_end assms(1)] o assms(3,4) e(2) by (intro deny_request_after) (simp_all add: lrqs)
  then have "after_op p 0 t (deny_request r w (wait_end r t))" by (rule after_op_then [OF e(1)])
  then show ?thesis using assms(8) e(1) by (auto simp: enq_resume_def Let_def split: if_splits)
qed

lemma convert_resume_after:
  assumes "owned_ok t" "lrq_owner (lhb_lrqs t r) = p" "\<not> lrq_pending (lhb_lrqs t r)"
    and "own_pending_request (lhb_owns t p) \<in> {0, r}" "p \<in> set (lhb_owners t)" "convert_resume r w ast arg t = (res, t')"
  shows "after_op p 0 t t'"
proof -
  note e = wait_end_after [OF assms(1-5)]
  have o: "owned_ok (wait_end r t)" using e(1) by (simp add: after_op_def)
  have "calm (wait_end r t) (deny_convert r w (post_pending l (wait_end r t)))" for l
    unfolding deny_convert_def by (rule calm_trans [OF calm_post_pending calm_trans [OF calm_updates(4) calm_count_deny]])
  moreover have "calm (wait_end r t) (upd_lrq r (set_ast ast arg) (wait_end r t))" by simp
  ultimately have "calm (wait_end r t) t'" using assms(6) by (auto simp: convert_resume_def Let_def split: if_splits)
  from after_op_calm [OF o this e(2)] show ?thesis by (rule after_op_then [OF e(1)])
qed

lemma blocking_turn_ok:
  assumes "table_ok t" "owned_ok t" "blocking_turn p t = (res, t')"
  shows "table_ok t'" "owned_ok t'" "steady t t'"
proof -
  have "table_ok t' \<and> owned_ok t' \<and> steady t t'"
  proof (cases "own_count (lhb_owns t p) = 0 \<or> own_blocks (lhb_owns t p) = []")
    case True
    then have "t' = t \<or> t' = upd_own p (\<lambda>ow. ow\<lparr>own_signaled := False\<rparr>) t"
      using assms(3) by (auto simp: blocking_turn_def split: if_splits)
    then show ?thesis
      using assms(1,2) light_table_ok [OF light_updates(5)] calm_owned_ok [OF calm_updates(12)] calm_steady [OF calm_updates(12)] by auto
  next
    case False
    then obtain b que where que: "own_blocks (lhb_owns t p) = b # que" by (cases "own_blocks (lhb_owns t p)") auto
    have blk: "blocks_ok t" using assms(2) by (simp add: owned_ok_def)
    then have b: "lrq_blocking (lhb_lrqs t b)" "lrq_owner (lhb_lrqs t b) = p" "b \<notin> set que"
      using que by (auto simp: blocks_ok_def dest: spec [of _ p])
    let ?t1 = "upd_lrq b (\<lambda>q. q\<lparr>lrq_blocking := False\<rparr>) (upd_own p (\<lambda>ow. ow\<lparr>own_blocks := que\<rparr>) t)"
    have t': "t' = bump lhb_blocks ?t1" using assms(3) False que b(1) by (simp add: blocking_turn_def Let_def)
    have "table_ok ?t1" using light_table_ok [OF light_trans [OF light_updates(7) light_updates(11)] assms(1)] .
    moreover have "owned_ok ?t1"
    proof -
      have "b \<notin> set (own_blocks (lhb_owns t q))" if "q \<noteq> p" for q using blk that b(2) by (auto simp: blocks_ok_def)
      then have "blocks_ok ?t1" using blk b(3) que by (auto simp: blocks_ok_def dest: spec [of _ p])
      moreover have "pending_ok ?t1" "owners_ok ?t1" "nonzero_ok ?t1"
        using assms(2) by (auto simp: owned_ok_def pending_ok_def owners_ok_def nonzero_ok_def)
      ultimately show ?thesis by (simp add: owned_ok_def)
    qed
    moreover have "steady t ?t1" by (simp add: steady_def)
    ultimately show ?thesis unfolding t' using calm_bump_idle(2,3) steady_trans [OF _ calm_steady [OF calm_updates(2)]] by blast
  qed
  then show "table_ok t'" "owned_ok t'" "steady t t'" by simp_all
qed

end
