(* ===== verification/Lock_Steps.thy ===== *)
theory Lock_Steps
  imports Lock_System
begin

text \<open>
  Owners of \<^verbatim>\<open>src/lock/lock.c\<close> come and go: purging, probing and creating owners keep the
  invariant of the table and the waits of the other owners; then the step relation of the lock
  manager and what holds in every reachable table.
\<close>

section \<open>Purging\<close>

text \<open>What is left when the owners in \<open>D\<close> are gone.\<close>

definition purged :: "ptr set \<Rightarrow> lhb \<Rightarrow> lhb \<Rightarrow> bool" where
  "purged D t t' \<longleftrightarrow>
     set (lhb_owners t') = set (lhb_owners t) - D \<and>
     (\<forall>p. p \<notin> D \<longrightarrow> own_pending_request (lhb_owns t' p) = own_pending_request (lhb_owns t p)) \<and>
     (\<forall>r. lrq_in_use (lhb_lrqs t r) \<longrightarrow> lrq_owner (lhb_lrqs t r) \<notin> D \<longrightarrow>
        lrq_in_use (lhb_lrqs t' r) \<and> lrq_owner (lhb_lrqs t' r) = lrq_owner (lhb_lrqs t r))"

lemma purged_trans:
  assumes "purged D t t1" "purged D' t1 t'"
  shows "purged (D \<union> D') t t'"
  using assms by (auto simp: purged_def)

lemma steady_purged: "steady t t' \<Longrightarrow> purged {} t t'"
  by (simp add: steady_def purged_def)

lemma requests_of_owner:
  assumes "table_ok t" "r \<in> set (own_requests (lhb_owns t p))"
  shows "lrq_in_use (lhb_lrqs t r)" "lrq_owner (lhb_lrqs t r) = p"
  using assms by (simp_all add: table_ok_def structure_ok_def requests_owned_def)

lemma purge_requests_ok:
  assumes "table_ok t" "owned_ok t"
  shows "\<exists>t'. purge_requests p t = Some t' \<and> table_ok t' \<and> owned_ok t' \<and> own_requests (lhb_owns t' p) = [] \<and>
    lhb_owners t' = lhb_owners t \<and> (\<forall>q. own_pending_request (lhb_owns t' q) = own_pending_request (lhb_owns t q)) \<and>
    (\<forall>r. lrq_in_use (lhb_lrqs t r) \<longrightarrow> lrq_owner (lhb_lrqs t r) \<noteq> p \<longrightarrow>
        lrq_in_use (lhb_lrqs t' r) \<and> lrq_owner (lhb_lrqs t' r) = lrq_owner (lhb_lrqs t r))"
  using assms
proof (induction "length (own_requests (lhb_owns t p))" arbitrary: t)
  case 0
  then show ?case by (simp add: purge_requests.simps)
next
  case (Suc n)
  then obtain r que where que: "own_requests (lhb_owns t p) = r # que" by (cases "own_requests (lhb_owns t p)") auto
  let ?t1 = "release_request r t"
  have use: "lrq_in_use (lhb_lrqs t r)" "lrq_owner (lhb_lrqs t r) = p" using requests_of_owner [OF Suc.prems(1), of r p] que by simp_all
  note f = release_request_frame [OF Suc.prems(1) use(1)]
  have "n = length (own_requests (lhb_owns ?t1 p))" using Suc.hyps(2) que by (simp add: f(5))
  from Suc.hyps(1) [OF this release_request_ok [OF Suc.prems(1) use(1)] release_request_owned_ok [OF Suc.prems(2) use(1)]]
  obtain t' where t': "purge_requests p ?t1 = Some t'" "table_ok t'" "owned_ok t'" "own_requests (lhb_owns t' p) = []"
    "lhb_owners t' = lhb_owners ?t1" "\<forall>q. own_pending_request (lhb_owns t' q) = own_pending_request (lhb_owns ?t1 q)"
    "\<forall>r. lrq_in_use (lhb_lrqs ?t1 r) \<longrightarrow> lrq_owner (lhb_lrqs ?t1 r) \<noteq> p \<longrightarrow>
        lrq_in_use (lhb_lrqs t' r) \<and> lrq_owner (lhb_lrqs t' r) = lrq_owner (lhb_lrqs ?t1 r)" by blast
  have "purge_requests p t = Some t'" using t'(1) by (subst purge_requests.simps) (simp add: que)
  moreover have "lrq_in_use (lhb_lrqs t' q) \<and> lrq_owner (lhb_lrqs t' q) = lrq_owner (lhb_lrqs t q)"
    if "lrq_in_use (lhb_lrqs t q)" "lrq_owner (lhb_lrqs t q) \<noteq> p" for q
    using that t'(7) use(2) f(1,2) [of q] by (cases "q = r") auto
  ultimately show ?case using t'(2-6) by (simp add: f(6) release_request_pending_request)
qed

text \<open>The table when owner \<open>p\<close>, which has no requests left, has been taken off the list.\<close>

lemma purge_owner_ok:
  assumes "table_ok t" "owned_ok t" "p \<in> set (lhb_owners t)"
  obtains t' where "purge_owner p t = Some t'" "table_ok t'" "owned_ok t'" "purged {p} t t'"
proof -
  obtain t1 where t1: "purge_requests p t = Some t1" "table_ok t1" "owned_ok t1" "own_requests (lhb_owns t1 p) = []"
    "lhb_owners t1 = lhb_owners t" "\<forall>q. own_pending_request (lhb_owns t1 q) = own_pending_request (lhb_owns t q)"
    "\<forall>r. lrq_in_use (lhb_lrqs t r) \<longrightarrow> lrq_owner (lhb_lrqs t r) \<noteq> p \<longrightarrow>
        lrq_in_use (lhb_lrqs t1 r) \<and> lrq_owner (lhb_lrqs t1 r) = lrq_owner (lhb_lrqs t r)"
    using purge_requests_ok [OF assms(1,2)] by blast
  have none: "lrq_owner (lhb_lrqs t1 r) \<noteq> p" if "lrq_in_use (lhb_lrqs t1 r)" for r
    using that t1(2,4) by (auto simp: table_ok_def structure_ok_def requests_linked_def)
  have "lrq_in_use (lhb_lrqs t1 b) \<and> lrq_owner (lhb_lrqs t1 b) = p" if "b \<in> set (own_blocks (lhb_owns t1 p))" for b
    using that t1(3) by (simp add: owned_ok_def blocks_ok_def)
  then have "own_blocks (lhb_owns t1 p) = []" using none by (cases "own_blocks (lhb_owns t1 p)") auto
  then have pb: "purge_blocks p t1 = t1" by (simp add: purge_blocks_def)
  define t2 where "t2 = t1\<lparr>lhb_owners := remove1 p (lhb_owners t1), lhb_free_owners := lhb_free_owners t1 @ [p]\<rparr>"
  define t' where "t' = upd_own p (\<lambda>ow. ow\<lparr>own_owner_type := 0, own_owner_id := 0, own_scanned := False, own_wakeup := False,
    own_signal := False\<rparr>) t2"
  have po: "purge_owner p t = Some t'" by (simp add: purge_owner_def t1(1) pb t'_def t2_def Let_def)
  have f: "lhb_lrqs t' = lhb_lrqs t1" "lhb_lbls t' = lhb_lbls t1" "lhb_used t' = lhb_used t1" "lhb_hash t' = lhb_hash t1"
    "lhb_hash_slots t' = lhb_hash_slots t1" "lhb_free_locks t' = lhb_free_locks t1" "lhb_free_requests t' = lhb_free_requests t1"
    "lhb_owners t' = remove1 p (lhb_owners t1)" "lhb_free_owners t' = lhb_free_owners t1 @ [p]"
    "own_requests (lhb_owns t' q) = own_requests (lhb_owns t1 q)" "own_blocks (lhb_owns t' q) = own_blocks (lhb_owns t1 q)"
    "own_pending_request (lhb_owns t' q) = own_pending_request (lhb_owns t1 q)" for q
    by (simp_all add: t'_def t2_def)
  have "free_lists_ok t1" using t1(2) by (simp add: table_ok_def structure_ok_def)
  then have "table_ok t'" by (intro table_ok_spare [OF t1(2)]) (auto simp: f free_lists_ok_def)
  moreover have "distinct (lhb_owners t1)" "set (lhb_owners t') = set (lhb_owners t1) - {p}"
    using t1(3) by (simp_all add: owned_ok_def owners_ok_def f(8) set_remove1_eq)
  moreover have "owned_ok t'"
  proof -
    have o: "pending_ok t1" "blocks_ok t1" "owners_ok t1" "nonzero_ok t1" using t1(3) by (simp_all add: owned_ok_def)
    have "p \<in> set (lhb_owners t1)" using assms(3) t1(5) by simp
    then have "owners_ok t'"
      using o(3) t1(4) \<open>set (lhb_owners t') = set (lhb_owners t1) - {p}\<close>
      by (auto simp: owners_ok_def f(3,8,9,10))
    moreover have "pending_ok t'"
      using o(1) none \<open>set (lhb_owners t') = set (lhb_owners t1) - {p}\<close> by (simp add: pending_ok_def f(1,12))
    ultimately show ?thesis using o(2,4) by (simp add: owned_ok_def blocks_ok_def nonzero_ok_def f)
  qed
  ultimately show ?thesis using that [OF po] t1(5-7) by (simp add: purged_def f)
qed


lemma signal_owner_ok:
  assumes "table_ok t" "owned_ok t"
  shows "table_ok (if b then signal_owner p t else t)" "owned_ok (if b then signal_owner p t else t)"
    and "steady t (if b then signal_owner p t else t)"
  using assms light_table_ok [OF light_signal_owner] calm_owned_ok [OF calm_signal_owner] calm_steady [OF calm_signal_owner] by simp_all

lemma probe_loop_ok:
  assumes "table_ok t" "owned_ok t" "set que \<subseteq> set (lhb_owners t)" "distinct que"
  shows "\<exists>b t'. probe_loop dead que b0 t = Some (b, t') \<and> table_ok t' \<and> owned_ok t' \<and> purged {p \<in> set que. dead p} t t'"
  using assms
proof (induction que arbitrary: b0 t)
  case Nil
  then show ?case using steady_purged [OF steady_refl] by simp
next
  case (Cons p que)
  let ?t1 = "if own_signal (lhb_owns t p) then signal_owner p t else t"
  note s = signal_owner_ok [OF Cons.prems(1,2), of "own_signal (lhb_owns t p)" p]
  have d: "distinct que" using Cons.prems(4) by simp
  have own1: "lhb_owners ?t1 = lhb_owners t" using s(3) by (simp add: steady_def)
  show ?case
  proof (cases "dead p")
    case True
    have "p \<in> set (lhb_owners ?t1)" using Cons.prems(3) own1 by simp
    then obtain t2 where t2: "purge_owner p ?t1 = Some t2" "table_ok t2" "owned_ok t2" "purged {p} ?t1 t2"
      using purge_owner_ok [OF s(1,2)] by blast
    have "set (lhb_owners t2) = set (lhb_owners t) - {p}" using t2(4) own1 by (simp add: purged_def)
    then have sub: "set que \<subseteq> set (lhb_owners t2)" using Cons.prems(3,4) by auto
    obtain b t' where t': "probe_loop dead que True t2 = Some (b, t')" "table_ok t'" "owned_ok t'" "purged {p \<in> set que. dead p} t2 t'"
      using Cons.IH [OF t2(2,3) sub d] by blast
    have "purged ({} \<union> {p} \<union> {p \<in> set que. dead p}) t t'"
      using purged_trans [OF purged_trans [OF steady_purged [OF s(3)] t2(4)] t'(4)] .
    moreover have "{} \<union> {p} \<union> {p \<in> set que. dead p} = {q \<in> set (p # que). dead q}" using True by auto
    ultimately show ?thesis using t2(1) t'(1-3) True by (simp add: Let_def)
  next
    case False
    have sub: "set que \<subseteq> set (lhb_owners ?t1)" using Cons.prems(3) own1 by simp
    obtain b t' where t': "probe_loop dead que b0 ?t1 = Some (b, t')" "table_ok t'" "owned_ok t'" "purged {p \<in> set que. dead p} ?t1 t'"
      using Cons.IH [OF s(1,2) sub d] by blast
    have "purged ({} \<union> {p \<in> set que. dead p}) t t'" using purged_trans [OF steady_purged [OF s(3)] t'(4)] .
    moreover have "{} \<union> {p \<in> set que. dead p} = {q \<in> set (p # que). dead q}" using False by auto
    ultimately show ?thesis using t'(1-3) False by (simp add: Let_def)
  qed
qed

lemma purged_cong: "purged D t t' \<Longrightarrow> D \<inter> set (lhb_owners t) = D' \<inter> set (lhb_owners t) \<Longrightarrow> D \<subseteq> D' \<Longrightarrow> purged D' t t'"
  unfolding purged_def by (elim conjE, intro conjI) (blast, blast, blast)

lemma probe_owners_ok:
  assumes "table_ok t" "owned_ok t"
  obtains b t' where "probe_owners dead t = Some (b, t')" "table_ok t'" "owned_ok t'" "purged {p. dead p} t t'"
proof -
  have "distinct (lhb_owners t)" using assms(2) by (simp add: owned_ok_def owners_ok_def)
  with probe_loop_ok [OF assms] obtain b t' where
    "probe_owners dead t = Some (b, t')" "table_ok t'" "owned_ok t'" "purged {p \<in> set (lhb_owners t). dead p} t t'"
    unfolding probe_owners_def by blast
  moreover have "purged {p. dead p} t t'" by (rule purged_cong [OF calculation(4)]) auto
  ultimately show ?thesis using that by blast
qed

text \<open>A new owner.\<close>

lemma enter_owner_ok:
  assumes "table_ok t" "owned_ok t"
  obtains res t' where "enter_owner remap dead oid otype t = Some (res, t')" "table_ok t'" "owned_ok t'"
    and "case res of None \<Rightarrow> t' = t
      | Some p \<Rightarrow> p \<notin> set (lhb_owners t) \<and> set (lhb_owners t') = insert p (set (lhb_owners t)) - {q. dead q} \<and>
          (\<not> dead p \<longrightarrow> own_pending_request (lhb_owns t' p) = 0) \<and>
          (\<forall>q. q \<noteq> p \<longrightarrow> \<not> dead q \<longrightarrow> own_pending_request (lhb_owns t' q) = own_pending_request (lhb_owns t q)) \<and>
          (\<forall>r. lrq_in_use (lhb_lrqs t r) \<longrightarrow> \<not> dead (lrq_owner (lhb_lrqs t r)) \<longrightarrow>
             lrq_in_use (lhb_lrqs t' r) \<and> lrq_owner (lhb_lrqs t' r) = lrq_owner (lhb_lrqs t r))"
proof (cases "alloc_owner remap t")
  case None
  then show ?thesis using that [of None t] assms by (simp add: enter_owner_def)
next
  case (Some pt)
  obtain p t1 where pt: "pt = (p, t1)" by (cases pt)
  have o: "pending_ok t" "blocks_ok t" "owners_ok t" "nonzero_ok t" using assms(2) by (simp_all add: owned_ok_def)
  have fl: "free_lists_ok t" using assms(1) by (simp add: table_ok_def structure_ok_def)
  have a: "lhb_lrqs t1 = lhb_lrqs t" "lhb_lbls t1 = lhb_lbls t" "lhb_owns t1 = lhb_owns t" "lhb_used t \<le> lhb_used t1"
    "lhb_hash t1 = lhb_hash t" "lhb_hash_slots t1 = lhb_hash_slots t" "lhb_free_locks t1 = lhb_free_locks t"
    "lhb_free_requests t1 = lhb_free_requests t" "lhb_owners t1 = lhb_owners t" "p < lhb_used t1"
    "p \<notin> set (lhb_owners t)" "distinct (lhb_owners t @ p # lhb_free_owners t1)" "set (lhb_free_owners t1) \<subseteq> set (lhb_free_owners t)"
    using Some pt o(3) by (auto simp: alloc_owner_def alloc_def own_bytes_def owners_ok_def Let_def split: list.splits if_splits option.splits)
  have none: "own_requests (lhb_owns t p) = []" using a(11) o(3) by (auto simp: owners_ok_def)
  define t2 where "t2 = (upd_own p (init_owner_block otype oid) t1)\<lparr>lhb_owners := lhb_owners t @ [p]\<rparr>"
  have f: "lhb_lrqs t2 = lhb_lrqs t" "lhb_lbls t2 = lhb_lbls t" "lhb_used t2 = lhb_used t1" "lhb_hash t2 = lhb_hash t"
    "lhb_hash_slots t2 = lhb_hash_slots t" "lhb_free_locks t2 = lhb_free_locks t" "lhb_free_requests t2 = lhb_free_requests t"
    "lhb_owners t2 = lhb_owners t @ [p]" "lhb_free_owners t2 = lhb_free_owners t1"
    "own_requests (lhb_owns t2 q) = own_requests (lhb_owns t q)"
    "own_blocks (lhb_owns t2 q) = (if q = p then [] else own_blocks (lhb_owns t q))"
    "own_pending_request (lhb_owns t2 q) = (if q = p then 0 else own_pending_request (lhb_owns t q))" for q
    using none by (simp_all add: t2_def init_owner_block_def a)
  have "table_ok t2" using fl a(4) by (intro table_ok_spare [OF assms(1)]) (auto simp: f free_lists_ok_def)
  moreover have "owned_ok t2"
  proof -
    have "lrq_owner (lhb_lrqs t r) \<noteq> p" if "lrq_pending (lhb_lrqs t r)" for r
      using that o(1) a(11) by (auto simp: pending_ok_def)
    then have "pending_ok t2" using o(1) by (simp add: pending_ok_def f)
    moreover have "blocks_ok t2" using o(2) by (simp add: blocks_ok_def f)
    moreover have "owners_ok t2"
    proof -
      have "q < lhb_used t1" if "q \<in> set (lhb_owners t) \<union> set (lhb_free_owners t)" for q
        using that o(3) a(4) by (auto simp: owners_ok_def intro: less_le_trans)
      then show ?thesis using o(3) a(10-13) by (auto simp: owners_ok_def f)
    qed
    moreover have "nonzero_ok t2" using o(4) a(4) by (simp add: nonzero_ok_def f)
    ultimately show ?thesis by (simp add: owned_ok_def)
  qed
  ultimately obtain b t3 where t3: "probe_owners dead t2 = Some (b, t3)" "table_ok t3" "owned_ok t3" "purged {q. dead q} t2 t3"
    by (rule probe_owners_ok)
  have "lhb_owners (upd_own p (init_owner_block otype oid) t1) = lhb_owners t" by (simp add: a)
  then have "enter_owner remap dead oid otype t = Some (Some p, t3)"
    using Some pt t3(1) unfolding enter_owner_def t2_def Let_def by simp
  then show ?thesis using t3(2-4) a(11) by (intro that [of "Some p" t3]) (auto simp: purged_def f)
qed


section \<open>Waking up\<close>

lemma same_calm: "same_but_marks t t' \<Longrightarrow> calm t t'"
proof -
  assume a: "same_but_marks t t'"
  then have "clear_marks (lhb_lrqs t' r) = clear_marks (lhb_lrqs t r)" for r by (simp add: same_but_marks_def)
  note f = clear_marks_eqD [OF this]
  from a show "calm t t'" by (simp add: calm_def same_but_marks_def rest_def f)
qed

text \<open>What a waiting owner's turn does to the other owners: the dead are purged and a victim is no longer waiting.\<close>

definition turned :: "ptr set \<Rightarrow> lhb \<Rightarrow> lhb \<Rightarrow> bool" where
  "turned D t t' \<longleftrightarrow>
     set (lhb_owners t') = set (lhb_owners t) - D \<and>
     (\<forall>p. p \<notin> D \<longrightarrow> own_pending_request (lhb_owns t' p) \<in> {0, own_pending_request (lhb_owns t p)}) \<and>
     (\<forall>r. lrq_in_use (lhb_lrqs t r) \<longrightarrow> lrq_owner (lhb_lrqs t r) \<notin> D \<longrightarrow>
        lrq_in_use (lhb_lrqs t' r) \<and> lrq_owner (lhb_lrqs t' r) = lrq_owner (lhb_lrqs t r))"

lemma purged_turned: "purged D t t' \<Longrightarrow> turned D t t'"
  by (simp add: purged_def turned_def)

lemma steady_turned: "steady t t' \<Longrightarrow> turned {} t t'"
  by (simp add: steady_def turned_def)

lemma turned_trans:
  assumes "turned D t t1" "turned D' t1 t'"
  shows "turned (D \<union> D') t t'"
proof -
  have "own_pending_request (lhb_owns t' p) \<in> {0, own_pending_request (lhb_owns t p)}" if "p \<notin> D \<union> D'" for p
  proof -
    have "own_pending_request (lhb_owns t1 p) \<in> {0, own_pending_request (lhb_owns t p)}"
      "own_pending_request (lhb_owns t' p) \<in> {0, own_pending_request (lhb_owns t1 p)}"
      using that assms by (simp_all add: turned_def)
    then show ?thesis by auto
  qed
  then show ?thesis using assms by (auto simp: turned_def)
qed

lemma reject_victim_ok:
  assumes "table_ok t" "owned_ok t" "lrq_pending (lhb_lrqs t v)"
  shows "table_ok (reject_victim r v t)" "owned_ok (reject_victim r v t)" "turned {} t (reject_victim r v t)"
proof -
  let ?t0 = "bump lhb_deadlocks t"
  define p where "p = lrq_owner (lhb_lrqs t v)"
  define t1 where "t1 = reject_request v ?t0"
  define t2 where "t2 = upd_own p (\<lambda>ow. ow\<lparr>own_pending_request := 0, own_scanned := False\<rparr>) t1"
  have pend: "\<And>q. lrq_pending (lhb_lrqs t q) \<Longrightarrow> q \<noteq> 0 \<and> lrq_in_use (lhb_lrqs t q) \<and>
      lrq_owner (lhb_lrqs t q) \<in> set (lhb_owners t) \<and> own_pending_request (lhb_owns t (lrq_owner (lhb_lrqs t q))) = q"
    using assms(2) by (simp add: owned_ok_def pending_ok_def)
  have c: "calm t t1" unfolding t1_def by (rule calm_trans [OF calm_updates(2) calm_reject_request])
  have lrq1: "lrq_owner (lhb_lrqs t1 v) = p" "\<not> lrq_pending (lhb_lrqs t1 v)" by (simp_all add: t1_def reject_simps p_def)
  have rv: "reject_victim r v t = (if v \<noteq> r then post_wakeup p t2 else t2)"
    unfolding reject_victim_def t1_def [symmetric] Let_def lrq1(1) t2_def ..
  have "table_ok t1" unfolding t1_def using pend [OF assms(3)] calm_bump_idle(3) [OF assms(1)] assms(3)
    by (intro reject_request_ok) simp_all
  then have ok2: "table_ok t2" unfolding t2_def by (rule light_table_ok [OF light_updates(10)])
  have o1: "owned_ok t1" by (rule calm_owned_ok [OF c assms(2)])
  have other: "lrq_owner (lhb_lrqs t1 q) \<noteq> p" if "lrq_pending (lhb_lrqs t1 q)" for q
  proof
    assume "lrq_owner (lhb_lrqs t1 q) = p"
    moreover have "lrq_pending (lhb_lrqs t q)" "lrq_owner (lhb_lrqs t1 q) = lrq_owner (lhb_lrqs t q)"
      using that c by (simp_all add: calm_def)
    ultimately have "own_pending_request (lhb_owns t p) = q" using pend [of q] by simp
    then have "q = v" using pend [OF assms(3)] by (simp only: p_def)
    then show False using that lrq1(2) by simp
  qed
  have o2: "owned_ok t2"
    using o1 other by (simp add: owned_ok_def pending_ok_def blocks_ok_def owners_ok_def nonzero_ok_def t2_def)
  have tu: "turned {} t t2" using c by (simp add: turned_def calm_def t2_def)
  show "table_ok (reject_victim r v t)" unfolding rv using ok2 light_table_ok [OF light_updates(2)] by simp
  show "owned_ok (reject_victim r v t)" unfolding rv using o2 calm_owned_ok [OF calm_post_wakeup] by simp
  show "turned {} t (reject_victim r v t)"
    unfolding rv using tu turned_trans [OF tu steady_turned [OF calm_steady [OF calm_post_wakeup]]] by simp
qed

lemma wait_scan_ok:
  assumes "table_ok t" "owned_ok t" "lrq_pending (lhb_lrqs t r)"
  obtains t' where "wait_scan p r t = Some t'" "table_ok t'" "owned_ok t'" "turned {} t t'"
proof -
  let ?l = "lrq_lock (lhb_lrqs t r)"
  have pok: "pending_ok t" using assms(2) by (simp add: owned_ok_def)
  then have use: "lrq_in_use (lhb_lrqs t r)" using assms(3) by (simp add: pending_ok_def)
  have blockage: "table_ok (post_blockage r ?l False t1)" "owned_ok (post_blockage r ?l False t1)" "turned {} t1 (post_blockage r ?l False t1)"
    if "table_ok t1" "owned_ok t1" "core (lhb_lrqs t1 r) = core (lhb_lrqs t r)" for t1
  proof -
    have "lock_ok t1 ?l" using table_okD(2) [OF that(1), of r] that(3) use by (simp add: core_def)
    note b = post_blockage_owned_ok [OF that(2) this, of r False]
    show "table_ok (post_blockage r ?l False t1)" using light_table_ok [OF light_post_blockage that(1)] .
    show "owned_ok (post_blockage r ?l False t1)" "turned {} t1 (post_blockage r ?l False t1)" using b steady_turned by blast+
  qed
  show ?thesis
  proof (cases "own_scanned (lhb_owns t p)")
    case True
    then show ?thesis using that blockage [OF assms(1,2)] by (simp add: wait_scan_def)
  next
    case False
    have "r \<in> waiting t" using assms(3) by (simp add: waiting_def)
    then obtain v t2 t1 where s: "deadlock_scan p r t = Some (v, t2)" "light t t2" "same_but_marks (bump lhb_scans t) t1"
      "t2 = t1 \<or> t2 = upd_own p (\<lambda>ow. ow\<lparr>own_scanned := True\<rparr>) t1" "\<And>q. v = Some q \<Longrightarrow> cycle_at t r q"
      using deadlock_scan_spec [OF assms(1) pok] by (metis (no_types, lifting))
    have "calm t t1" using calm_trans [OF calm_updates(2) same_calm [OF s(3)]] .
    then have c: "calm t t2" using s(4) calm_trans [OF _ calm_updates(14)] by blast
    have ok2: "table_ok t2" "owned_ok t2" using light_table_ok [OF s(2) assms(1)] calm_owned_ok [OF c assms(2)] by blast+
    have tu: "turned {} t t2" using c calm_steady steady_turned by blast
    show ?thesis
    proof (cases v)
      case None
      have "core (lhb_lrqs t2 r) = core (lhb_lrqs t r)" using s(2) by (simp add: light_def)
      from blockage [OF ok2 this] show ?thesis
        using that False s(1) None turned_trans [OF tu] by (simp add: wait_scan_def Let_def)
    next
      case (Some q)
      have "(q, q) \<in> (stalled_for t)\<^sup>+" using s(5) [OF Some] by (simp add: cycle_at_def)
      then obtain x where "(x, q) \<in> stalled_for t" by (meson tranclD2)
      then have "lrq_pending (lhb_lrqs t q)" by (auto simp: stalled_for_def stalled_via_def awaits_def)
      then have "lrq_pending (lhb_lrqs t2 q)" using s(2) by (simp add: light_def core_def)
      from reject_victim_ok [OF ok2 this, of r] show ?thesis
        using that False s(1) Some turned_trans [OF tu] by (simp add: wait_scan_def Let_def)
    qed
  qed
qed

lemma probe_loop_quiet:
  "probe_loop dead que b t = Some (False, t') \<Longrightarrow> \<not> b \<and> lhb_lrqs t' = lhb_lrqs t"
proof (induction que arbitrary: b t)
  case (Cons p que)
  let ?t1 = "if own_signal (lhb_owns t p) then signal_owner p t else t"
  have "\<not> dead p" using Cons by (auto simp: Let_def split: if_splits option.splits)
  then have "probe_loop dead que b ?t1 = Some (False, t')" using Cons.prems by (simp add: Let_def)
  from Cons.IH [OF this] show ?case by (simp add: signal_owner_def split: if_splits)
qed simp


lemma wait_turn_ok:
  assumes "table_ok t" "owned_ok t" "lrq_in_use (lhb_lrqs t r)" "\<not> dead (lrq_owner (lhb_lrqs t r))"
  obtains t' D where "wait_turn dead expired posted w r t = Some t'" "table_ok t'" "owned_ok t'" "turned D t t'" "D \<subseteq> {p. dead p}"
proof -
  define p where "p = lrq_owner (lhb_lrqs t r)"
  define t1 where "t1 = upd_own p (\<lambda>ow. ow\<lparr>own_wakeup := False\<rparr>) t"
  have c: "calm t t1" by (simp add: t1_def)
  have ok: "table_ok t1" "owned_ok t1"
    using light_table_ok [OF light_updates(4) assms(1)] calm_owned_ok [OF c assms(2)] by (simp_all add: t1_def)
  have lrqs: "lhb_lrqs t1 = lhb_lrqs t" by (simp add: t1_def)
  have tu: "turned {} t t1" using calm_steady [OF c] by (rule steady_turned)
  have wt: "wait_turn dead expired posted w r t =
      (if \<not> lrq_pending (lhb_lrqs t r) then Some t1
       else if w < 0 \<and> expired then Some (reject_request r t1)
       else if posted then Some (post_blockage r (lrq_lock (lhb_lrqs t r)) False t1)
       else case probe_owners dead t1 of
              None \<Rightarrow> None
            | Some (b, t2) \<Rightarrow> if b \<and> \<not> lrq_pending (lhb_lrqs t2 r) then Some t2 else wait_scan p r t2)"
    unfolding wait_turn_def p_def [symmetric] t1_def [symmetric] Let_def lrqs ..
  consider (over) "\<not> lrq_pending (lhb_lrqs t r)" | (out) "lrq_pending (lhb_lrqs t r)" "w < 0" "expired"
    | (post) "lrq_pending (lhb_lrqs t r)" "\<not> (w < 0 \<and> expired)" "posted"
    | (probe) "lrq_pending (lhb_lrqs t r)" "\<not> (w < 0 \<and> expired)" "\<not> posted" by blast
  then show ?thesis
  proof cases
    case over
    then show ?thesis using that [of t1 "{}"] ok tu by (simp add: wt)
  next
    case out
    have "table_ok (reject_request r t1)" by (rule reject_request_ok) (use ok(1) assms(3) out(1) lrqs in simp_all)
    moreover have "wait_turn dead expired posted w r t = Some (reject_request r t1)" unfolding wt using out by simp
    ultimately show ?thesis
      using that calm_owned_ok [OF calm_reject_request ok(2)]
        turned_trans [OF tu steady_turned [OF calm_steady [OF calm_reject_request]]] by blast
  next
    case post
    let ?l = "lrq_lock (lhb_lrqs t r)"
    have "lock_ok t1 ?l" using table_okD(2) [OF ok(1), of r] assms(3) by (simp add: lrqs)
    note b = post_blockage_owned_ok [OF ok(2) this, of r False]
    have "wait_turn dead expired posted w r t = Some (post_blockage r ?l False t1)" unfolding wt using post by auto
    then show ?thesis
      using that light_table_ok [OF light_post_blockage ok(1)] b(1) turned_trans [OF tu steady_turned [OF b(2)]] by blast
  next
    case probe
    obtain b t2 where t2: "probe_owners dead t1 = Some (b, t2)" "table_ok t2" "owned_ok t2" "purged {q. dead q} t1 t2"
      by (rule probe_owners_ok [OF ok])
    have tu2: "turned {q. dead q} t t2" using turned_trans [OF tu purged_turned [OF t2(4)]] by simp
    show ?thesis
    proof (cases "lrq_pending (lhb_lrqs t2 r)")
      case True
      obtain t' where t': "wait_scan p r t2 = Some t'" "table_ok t'" "owned_ok t'" "turned {} t2 t'"
        by (rule wait_scan_ok [OF t2(2,3) True])
      moreover have "wait_turn dead expired posted w r t = Some t'" unfolding wt using probe t2(1) True t'(1) by auto
      moreover have "turned {q. dead q} t t'" using turned_trans [OF tu2 t'(4)] by simp
      ultimately show ?thesis using that by blast
    next
      case False
      have "b" using probe_loop_quiet [of dead "lhb_owners t1" False t1 t2] t2(1) probe(1) False lrqs
        by (cases b) (auto simp: probe_owners_def)
      then have "wait_turn dead expired posted w r t = Some t2" unfolding wt using probe t2(1) False by auto
      then show ?thesis using that t2(2,3) tu2 by blast
    qed
  qed
qed

section \<open>The system\<close>

text \<open>
  A state is the table and, for every owner that is inside \<^verbatim>\<open>wait_for_request\<close>, the call it
  will return to: \<^verbatim>\<open>grant_or_que\<close> or \<^verbatim>\<open>convert\<close>, with the request and the caller's arguments.
\<close>

datatype waiter = Enq_wait (wait_request: ptr) int | Convert_wait (wait_request: ptr) int nat nat

record sys =
  lock_table :: lhb
  lock_waits :: "ptr \<Rightarrow> waiter option"

abbreviation remaining :: "sys \<Rightarrow> lhb \<Rightarrow> ptr \<Rightarrow> waiter option" where
  "remaining s t' \<equiv> (\<lambda>p. if p \<in> set (lhb_owners t') then lock_waits s p else None)"

text \<open>
  The steps.  An owner calls an entry point only for its own requests.  While it waits, its
  blocking routines may release, downgrade and convert the requests it is not waiting for, the
  latter without a wait of their own; new requests are made by owners that do not wait.  A call needs
  room in the 16-bit counts of the lock and names its resource by a series and a key that fit
  the bytes the block has for them; what becomes of longer keys is said in Lock\_Props.
  Owners that are purged are gone.
\<close>

definition not_waited_for :: "ptr \<Rightarrow> sys \<Rightarrow> bool" where
  "not_waited_for r s \<longleftrightarrow>
     (case lock_waits s (lrq_owner (lhb_lrqs (lock_table s) r)) of None \<Rightarrow> True | Some wt \<Rightarrow> wait_request wt \<noteq> r)"

inductive lock_step :: "sys \<Rightarrow> sys \<Rightarrow> bool" where
  enq: "p \<in> set (lhb_owners (lock_table s)) \<Longrightarrow> lock_waits s p = None \<Longrightarrow> room (lock_table s) \<Longrightarrow> type \<le> LCK_EX \<Longrightarrow>
    (prior \<noteq> 0 \<longrightarrow> lrq_owner (lhb_lrqs (lock_table s) prior) = p) \<Longrightarrow>
    LOCK_enq remap prior par series value type ast arg data w p (lock_table s) = Inr (Enq r out, t') \<Longrightarrow>
    short_name series value \<Longrightarrow>
    lock_step s \<lparr>lock_table = t', lock_waits = (lock_waits s)(p := if out = Waiting then Some (Enq_wait r w) else None)\<rparr>"
| convert: "lrq_owner (lhb_lrqs (lock_table s) r) = p \<Longrightarrow> lock_waits s p = None \<Longrightarrow> type \<le> LCK_EX \<Longrightarrow>
    LOCK_convert r type w ast arg (lock_table s) = Inr (Some out, t') \<Longrightarrow>
    lock_step s \<lparr>lock_table = t', lock_waits = (lock_waits s)(p := if out = Waiting then Some (Convert_wait r w ast arg) else None)\<rparr>"
| convert_at_once: "not_waited_for r s \<Longrightarrow> type \<le> LCK_EX \<Longrightarrow>
    LOCK_convert r type w ast arg (lock_table s) = Inr (Some out, t') \<Longrightarrow> out \<noteq> Waiting \<Longrightarrow> lock_step s (s\<lparr>lock_table := t'\<rparr>)"
| deq: "not_waited_for r s \<Longrightarrow> LOCK_deq r (lock_table s) = Inr (res, t') \<Longrightarrow> lock_step s (s\<lparr>lock_table := t'\<rparr>)"
| downgrade: "not_waited_for r s \<Longrightarrow> LOCK_downgrade r (lock_table s) = Inr (st, t') \<Longrightarrow> lock_step s (s\<lparr>lock_table := t'\<rparr>)"
| write_data: "LOCK_write_data r data (lock_table s) = Inr (d, t') \<Longrightarrow> lock_step s (s\<lparr>lock_table := t'\<rparr>)"
| signal: "blocking_turn p (lock_table s) = (call, t') \<Longrightarrow> lock_step s (s\<lparr>lock_table := t'\<rparr>)"
| turn: "lock_waits s p = Some wt \<Longrightarrow> \<not> dead p \<Longrightarrow>
    wait_turn dead expired posted w (wait_request wt) (lock_table s) = Some t' \<Longrightarrow>
    lock_step s \<lparr>lock_table = t', lock_waits = remaining s t'\<rparr>"
| enq_resumed: "lock_waits s p = Some (Enq_wait r w) \<Longrightarrow> \<not> lrq_pending (lhb_lrqs (lock_table s) r) \<Longrightarrow>
    enq_resume r w (lock_table s) = (out, t') \<Longrightarrow> lock_step s \<lparr>lock_table = t', lock_waits = (lock_waits s)(p := None)\<rparr>"
| convert_resumed: "lock_waits s p = Some (Convert_wait r w ast arg) \<Longrightarrow> \<not> lrq_pending (lhb_lrqs (lock_table s) r) \<Longrightarrow>
    convert_resume r w ast arg (lock_table s) = (out, t') \<Longrightarrow>
    lock_step s \<lparr>lock_table = t', lock_waits = (lock_waits s)(p := None)\<rparr>"
| create: "create_owner remap dead owner_id owner_type (lock_table s) = Some (res, t') \<Longrightarrow>
    lock_step s \<lparr>lock_table = t', lock_waits = (\<lambda>p. if Some p = res then None else remaining s t' p)\<rparr>"
| fini: "p \<in> set (lhb_owners (lock_table s)) \<Longrightarrow> lock_waits s p = None \<Longrightarrow> LOCK_fini p (lock_table s) = Some t' \<Longrightarrow>
    lock_step s \<lparr>lock_table = t', lock_waits = remaining s t'\<rparr>"

inductive lock_reachable :: "sys \<Rightarrow> sys \<Rightarrow> bool" for s0 :: sys where
  start: "lock_reachable s0 s0"
| more: "lock_reachable s0 s \<Longrightarrow> lock_step s s' \<Longrightarrow> lock_reachable s0 s'"

definition wait_ok :: "lhb \<Rightarrow> ptr \<Rightarrow> waiter option \<Rightarrow> bool" where
  "wait_ok t p x \<longleftrightarrow>
     (case x of
        None \<Rightarrow> p \<in> set (lhb_owners t) \<longrightarrow> own_pending_request (lhb_owns t p) = 0
      | Some wt \<Rightarrow> p \<in> set (lhb_owners t) \<and> lrq_in_use (lhb_lrqs t (wait_request wt)) \<and>
          lrq_owner (lhb_lrqs t (wait_request wt)) = p \<and> own_pending_request (lhb_owns t p) \<in> {0, wait_request wt})"

definition waits_ok :: "sys \<Rightarrow> bool" where
  "waits_ok s \<longleftrightarrow> (\<forall>p. wait_ok (lock_table s) p (lock_waits s p))"

definition sys_ok :: "sys \<Rightarrow> bool" where
  "sys_ok s \<longleftrightarrow> table_ok (lock_table s) \<and> owned_ok (lock_table s) \<and> waits_ok s"

lemma sys_ok_after:
  assumes "sys_ok s" "table_ok t'" "after_op p w (lock_table s) t'" "p \<in> set (lhb_owners (lock_table s))"
    and "case x of None \<Rightarrow> w = 0 | Some y \<Rightarrow> w \<noteq> 0 \<and> wait_request y = w"
  shows "sys_ok \<lparr>lock_table = t', lock_waits = (lock_waits s)(p := x)\<rparr>"
proof -
  have a: "owned_ok t'" "by_owner p (lock_table s) t'" "own_pending_request (lhb_owns t' p) = w"
    "w \<noteq> 0 \<longrightarrow> lrq_in_use (lhb_lrqs t' w) \<and> lrq_owner (lhb_lrqs t' w) = p"
    using assms(3) by (simp_all add: after_op_def)
  have "wait_ok t' q (((lock_waits s)(p := x)) q)" for q
  proof (cases "q = p")
    case True
    then show ?thesis using a assms(4,5) by (cases x) (auto simp: wait_ok_def by_owner_def)
  next
    case False
    moreover have "wait_ok (lock_table s) q (lock_waits s q)" using assms(1) by (simp add: sys_ok_def waits_ok_def)
    ultimately show ?thesis using a(2) by (auto simp: wait_ok_def by_owner_def split: option.splits)
  qed
  then show ?thesis using assms(2) a(1) by (simp add: sys_ok_def waits_ok_def)
qed

lemma sys_ok_turned:
  assumes "sys_ok s" "table_ok t'" "owned_ok t'" "turned D (lock_table s) t'"
  shows "sys_ok \<lparr>lock_table = t', lock_waits = remaining s t'\<rparr>"
proof -
  have "wait_ok t' q (if q \<in> set (lhb_owners t') then lock_waits s q else None)" for q
  proof -
    have "wait_ok (lock_table s) q (lock_waits s q)" using assms(1) by (simp add: sys_ok_def waits_ok_def)
    then show ?thesis using assms(4) by (auto simp: wait_ok_def turned_def split: option.splits)
  qed
  then show ?thesis using assms(2,3) by (simp add: sys_ok_def waits_ok_def)
qed

lemma sys_ok_steady:
  assumes "sys_ok s" "table_ok t'" "owned_ok t'" "steady (lock_table s) t'"
  shows "sys_ok (s\<lparr>lock_table := t'\<rparr>)"
proof -
  have "wait_ok t' p x = wait_ok (lock_table s) p x" for p x using assms(4) by (cases x) (simp_all add: wait_ok_def steady_def)
  then show ?thesis using assms(1-3) by (simp add: sys_ok_def waits_ok_def)
qed

text \<open>The situation of an owner that is not waiting.\<close>

lemma sys_ok_idle:
  assumes "sys_ok s" "lock_waits s p = None" "p \<in> set (lhb_owners (lock_table s))"
  shows "idle p (lock_table s)"
proof -
  have "wait_ok (lock_table s) p None" using assms(1) unfolding sys_ok_def waits_ok_def assms(2) [symmetric] by blast
  then show ?thesis using assms(3) by (simp add: wait_ok_def idle_def)
qed

lemma owner_in_table:
  assumes "table_ok t" "owned_ok t" "lrq_in_use (lhb_lrqs t r)"
  shows "lrq_owner (lhb_lrqs t r) \<in> set (lhb_owners t)"
proof -
  have "r \<in> set (own_requests (lhb_owns t (lrq_owner (lhb_lrqs t r))))"
    using assms(1,3) by (simp add: table_ok_def structure_ok_def requests_linked_def)
  then have "own_requests (lhb_owns t (lrq_owner (lhb_lrqs t r))) \<noteq> []" by auto
  then show ?thesis using assms(2) by (simp add: owned_ok_def owners_ok_def)
qed

lemma idle_not_pending:
  assumes "owned_ok t" "idle (lrq_owner (lhb_lrqs t r)) t"
  shows "\<not> lrq_pending (lhb_lrqs t r)"
  using assms by (auto simp: owned_ok_def pending_ok_def idle_def)

lemma enter_owner_sys_ok:
  assumes "sys_ok s" "enter_owner remap dead oid otype (lock_table s) = Some (res, t')"
  shows "sys_ok \<lparr>lock_table = t', lock_waits = (\<lambda>p. if Some p = res then None else remaining s t' p)\<rparr>"
proof -
  let ?t = "lock_table s"
  have ok: "table_ok ?t" "owned_ok ?t" and w: "wait_ok ?t q (lock_waits s q)" for q
    using assms(1) by (simp_all add: sys_ok_def waits_ok_def)
  obtain res2 t2 where e: "enter_owner remap dead oid otype ?t = Some (res2, t2)" "table_ok t2" "owned_ok t2"
    "case res2 of None \<Rightarrow> t2 = ?t
      | Some p \<Rightarrow> p \<notin> set (lhb_owners ?t) \<and> set (lhb_owners t2) = insert p (set (lhb_owners ?t)) - {q. dead q} \<and>
          (\<not> dead p \<longrightarrow> own_pending_request (lhb_owns t2 p) = 0) \<and>
          (\<forall>q. q \<noteq> p \<longrightarrow> \<not> dead q \<longrightarrow> own_pending_request (lhb_owns t2 q) = own_pending_request (lhb_owns ?t q)) \<and>
          (\<forall>r. lrq_in_use (lhb_lrqs ?t r) \<longrightarrow> \<not> dead (lrq_owner (lhb_lrqs ?t r)) \<longrightarrow>
             lrq_in_use (lhb_lrqs t2 r) \<and> lrq_owner (lhb_lrqs t2 r) = lrq_owner (lhb_lrqs ?t r))"
    by (rule enter_owner_ok [OF ok])
  have eq: "res2 = res" "t2 = t'" using e(1) assms(2) by simp_all
  have "wait_ok t' q (if Some q = res then None else remaining s t' q)" for q
  proof (cases res)
    case None
    then have "t' = ?t" using e(4) eq by simp
    then show ?thesis using w [of q] None by (auto simp: wait_ok_def split: option.splits)
  next
    case (Some p)
    note r = e(4) [unfolded eq Some option.case]
    show ?thesis
    proof (cases "q = p")
      case True
      then show ?thesis using r Some by (simp add: wait_ok_def)
    next
      case False
      then show ?thesis using r Some w [of q] by (auto simp: wait_ok_def split: option.splits)
    qed
  qed
  then show ?thesis using e(2,3) by (simp add: sys_ok_def waits_ok_def eq)
qed

lemma purge_owner_sys_ok:
  assumes "sys_ok s" "p \<in> set (lhb_owners (lock_table s))" "purge_owner p (lock_table s) = Some t'"
  shows "sys_ok \<lparr>lock_table = t', lock_waits = remaining s t'\<rparr>" "set (lhb_owners t') = set (lhb_owners (lock_table s)) - {p}"
proof -
  have ok: "table_ok (lock_table s)" "owned_ok (lock_table s)" using assms(1) by (simp_all add: sys_ok_def)
  obtain t2 where "purge_owner p (lock_table s) = Some t2" "table_ok t2" "owned_ok t2" "purged {p} (lock_table s) t2"
    by (rule purge_owner_ok [OF ok assms(2)])
  then have t: "table_ok t'" "owned_ok t'" "purged {p} (lock_table s) t'" using assms(3) by simp_all
  show "sys_ok \<lparr>lock_table = t', lock_waits = remaining s t'\<rparr>" by (rule sys_ok_turned [OF assms(1) t(1,2) purged_turned [OF t(3)]])
  show "set (lhb_owners t') = set (lhb_owners (lock_table s)) - {p}" using t(3) by (simp add: purged_def)
qed

lemma create_owner_sys_ok:
  assumes "sys_ok s" "create_owner remap dead oid otype (lock_table s) = Some (res, t')"
  shows "sys_ok \<lparr>lock_table = t', lock_waits = (\<lambda>p. if Some p = res then None else remaining s t' p)\<rparr>"
proof (cases "List.find (\<lambda>p. own_owner_id (lhb_owns (lock_table s) p) = oid \<and> own_owner_type (lhb_owns (lock_table s) p) = otype)
    (lhb_owners (lock_table s))")
  case None
  then show ?thesis using enter_owner_sys_ok [OF assms(1)] assms(2) by (simp add: create_owner_def)
next
  case (Some p)
  then have p: "p \<in> set (lhb_owners (lock_table s))" by (auto simp: find_Some_iff)
  obtain t1 where t1: "purge_owner p (lock_table s) = Some t1" "enter_owner remap dead oid otype t1 = Some (res, t')"
    using assms(2) Some by (auto simp: create_owner_def bind_eq_Some_conv)
  note s1 = purge_owner_sys_ok [OF assms(1) p t1(1)]
  let ?s1 = "\<lparr>lock_table = t1, lock_waits = remaining s t1\<rparr>"
  have "sys_ok \<lparr>lock_table = t', lock_waits = (\<lambda>q. if Some q = res then None else remaining ?s1 t' q)\<rparr>"
    using enter_owner_sys_ok [OF s1(1)] t1(2) by simp
  moreover have "(if Some q = res then None else remaining ?s1 t' q) = (if Some q = res then None else remaining s t' q)" for q
  proof -
    obtain res2 t2 where e: "enter_owner remap dead oid otype t1 = Some (res2, t2)"
      "case res2 of None \<Rightarrow> t2 = t1 | Some p \<Rightarrow> set (lhb_owners t2) = insert p (set (lhb_owners t1)) - {q. dead q}"
      by (rule enter_owner_ok [of t1 remap dead oid otype]) (use s1(1) in \<open>auto simp: sys_ok_def split: option.splits\<close>)
    then have "q \<in> set (lhb_owners t1)" if "q \<in> set (lhb_owners t')" "Some q \<noteq> res"
      using t1(2) that by (auto split: option.splits)
    then show ?thesis by simp
  qed
  ultimately show ?thesis by simp
qed


lemma LOCK_fini_sys_ok:
  assumes "sys_ok s" "p \<in> set (lhb_owners (lock_table s))" "LOCK_fini p (lock_table s) = Some t'"
  shows "sys_ok \<lparr>lock_table = t', lock_waits = remaining s t'\<rparr>"
proof -
  let ?t = "lock_table s"
  let ?t1 = "upd_own p (\<lambda>ow. ow\<lparr>own_count := own_count ow - 1\<rparr>) ?t"
  have ok: "table_ok ?t" "owned_ok ?t" using assms(1) by (simp_all add: sys_ok_def)
  have c: "calm ?t ?t1" by simp
  have "light ?t ?t1" by (simp add: light_def)
  then have ok1: "table_ok ?t1" "owned_ok ?t1" using light_table_ok ok(1) calm_owned_ok [OF c ok(2)] by blast+
  have same: "lhb_owners ?t1 = lhb_owners ?t" by simp
  have "t' = ?t \<or> t' = ?t1 \<or> purge_owner p ?t1 = Some t'"
    using assms(3) unfolding LOCK_fini_def Let_def
    by (cases "p = 0 \<or> own_count (lhb_owns ?t p) = 0"; cases "own_count (lhb_owns ?t1 p) > 0") (simp_all only: if_True if_False option.inject simp_thms)
  then consider "t' = ?t" | "t' = ?t1" | "purge_owner p ?t1 = Some t'" by blast
  then show ?thesis
  proof cases
    case 1
    then show ?thesis using sys_ok_turned [OF assms(1) _ _ steady_turned [OF steady_refl]] ok by simp
  next
    case 2
    then show ?thesis using sys_ok_turned [OF assms(1) ok1 steady_turned [OF calm_steady [OF c]]] by simp
  next
    case 3
    have s1: "sys_ok (s\<lparr>lock_table := ?t1\<rparr>)" by (rule sys_ok_steady [OF assms(1) ok1 calm_steady [OF c]])
    have "remaining (s\<lparr>lock_table := ?t1\<rparr>) t' = remaining s t'" by (rule ext) simp
    moreover have "sys_ok \<lparr>lock_table = t', lock_waits = remaining (s\<lparr>lock_table := ?t1\<rparr>) t'\<rparr>"
      by (rule purge_owner_sys_ok(1) [OF s1, of p]) (use 3 assms(2) in simp_all)
    ultimately show ?thesis by (simp only:)
  qed
qed

lemma enq_request_Waiting:
  assumes "table_ok t" "owned_ok t" "enq_request remap parent series value type ast arg data w p t = (Enq r Waiting, t')"
  shows "r \<noteq> 0"
  using assms(1,3)
proof (cases rule: enq_request_cases)
  case (joins r' t1 l out)
  then show ?thesis using alloc_request_owners(1) [OF assms(1,2) joins(1)] by simp
qed simp_all

lemma LOCK_enq_Waiting:
  assumes "table_ok t" "owned_ok t" "idle p t" "prior \<noteq> 0 \<longrightarrow> lrq_owner (lhb_lrqs t prior) = p"
    and "LOCK_enq remap prior par series value type ast arg data w p t = Inr (Enq r Waiting, t')"
  shows "r \<noteq> 0"
proof -
  let ?t0 = "bump lhb_enqs t"
  obtain t1 parent where t1: "(if prior \<noteq> 0 then dequeue prior ?t0 else Inr ?t0) = Inr t1"
    and enq: "enq_request remap parent series value type ast arg data w p t1 = (Enq r Waiting, t')"
    using assms(5) by (auto simp: LOCK_enq_def split: if_splits)
  have b: "table_ok ?t0" "owned_ok ?t0" "idle p ?t0" using calm_bump_idle assms(1-3) by blast+
  have "table_ok t1 \<and> owned_ok t1"
  proof (cases "prior = 0")
    case False
    then have d: "dequeue prior ?t0 = Inr t1" using t1 by simp
    then show ?thesis using dequeue_ok [OF b(1) d] dequeue_after [OF b(1,2) _ b(3) d] False assms(4) by (simp add: after_op_def)
  qed (use t1 b in simp)
  then show ?thesis using enq_request_Waiting enq by blast
qed

lemma set_lock_data_table_ok:
  assumes "table_ok t"
  shows "table_ok (set_lock_data l d t)" (is "table_ok ?t")
proof -
  have "structure_ok ?t"
    using assms by (intro structure_ok_cong [of ?t t]) (simp_all add: table_ok_def resource_def)
  moreover have "lock_ok ?t k = lock_ok t k" for k
    by (simp add: lock_ok_def lock_shape_def lock_state_def)
  ultimately show ?thesis using assms by (simp add: table_ok_def locks_ok_def)
qed

text \<open>Operations that start no wait, on a request nobody waits for.\<close>

lemma not_waited_for_not_pending:
  assumes "sys_ok s" "lrq_in_use (lhb_lrqs (lock_table s) r)" "not_waited_for r s"
  shows "\<not> lrq_pending (lhb_lrqs (lock_table s) r)" and "\<forall>p wt. lock_waits s p = Some wt \<longrightarrow> wait_request wt \<noteq> r"
proof -
  let ?t = "lock_table s" and ?p = "lrq_owner (lhb_lrqs (lock_table s) r)"
  have o: "owned_ok ?t" and w: "wait_ok ?t p (lock_waits s p)" for p using assms(1) by (simp_all add: sys_ok_def waits_ok_def)
  show "\<not> lrq_pending (lhb_lrqs ?t r)"
  proof
    assume "lrq_pending (lhb_lrqs ?t r)"
    then have "r \<noteq> 0" "?p \<in> set (lhb_owners ?t)" "own_pending_request (lhb_owns ?t ?p) = r"
      using o by (simp_all add: owned_ok_def pending_ok_def)
    then have "own_pending_request (lhb_owns ?t ?p) \<noteq> 0" "?p \<in> set (lhb_owners ?t)"
      "\<not> (\<exists>wt. lock_waits s ?p = Some wt \<and> own_pending_request (lhb_owns ?t ?p) = wait_request wt)"
      using assms(3) by (simp_all add: not_waited_for_def split: option.splits)
    moreover have "case lock_waits s ?p of None \<Rightarrow> ?p \<in> set (lhb_owners ?t) \<longrightarrow> own_pending_request (lhb_owns ?t ?p) = 0
      | Some wt \<Rightarrow> own_pending_request (lhb_owns ?t ?p) = 0 \<or> own_pending_request (lhb_owns ?t ?p) = wait_request wt"
      using w [of ?p] by (simp add: wait_ok_def split: option.splits)
    ultimately show False by (simp split: option.splits)
  qed
  show "\<forall>p wt. lock_waits s p = Some wt \<longrightarrow> wait_request wt \<noteq> r"
  proof (intro allI impI notI)
    fix p wt assume a: "lock_waits s p = Some wt" "wait_request wt = r"
    then have "?p = p" using w [of p] by (simp add: wait_ok_def)
    then show False using a assms(3) by (simp add: not_waited_for_def)
  qed
qed

lemma request_op_sys_ok:
  assumes "sys_ok s" "lrq_in_use (lhb_lrqs (lock_table s) r)" "not_waited_for r s"
    and "table_ok (lock_table s) \<Longrightarrow> owned_ok (lock_table s) \<Longrightarrow> \<not> lrq_pending (lhb_lrqs (lock_table s) r) \<Longrightarrow>
      table_ok t' \<and> kept r (lock_table s) t'"
  shows "sys_ok (s\<lparr>lock_table := t'\<rparr>)"
proof -
  note n = not_waited_for_not_pending [OF assms(1-3)]
  have t': "table_ok t'" "kept r (lock_table s) t'" using assms(1,4) n(1) by (simp_all add: sys_ok_def)
  have "wait_ok t' p (lock_waits s p)" for p
  proof -
    have "wait_ok (lock_table s) p (lock_waits s p)" using assms(1) by (simp add: sys_ok_def waits_ok_def)
    then show ?thesis using t'(2) n(2) by (cases "lock_waits s p") (auto simp: wait_ok_def kept_def)
  qed
  then show ?thesis using t' by (simp add: sys_ok_def waits_ok_def kept_def)
qed

text \<open>A wait that is over.\<close>

lemma resume_sys_ok:
  assumes "sys_ok s" "lock_waits s p = Some wt" "wait_request wt = r"
    and "\<And>t. table_ok t \<Longrightarrow> owned_ok t \<Longrightarrow> lrq_in_use (lhb_lrqs t r) \<Longrightarrow> lrq_owner (lhb_lrqs t r) = p \<Longrightarrow>
      own_pending_request (lhb_owns t p) \<in> {0, r} \<Longrightarrow> p \<in> set (lhb_owners t) \<Longrightarrow> t = lock_table s \<Longrightarrow> table_ok t' \<and> after_op p 0 t t'"
  shows "sys_ok \<lparr>lock_table = t', lock_waits = (lock_waits s)(p := None)\<rparr>"
proof -
  have ok: "table_ok (lock_table s)" "owned_ok (lock_table s)" using assms(1) by (simp_all add: sys_ok_def)
  have "wait_ok (lock_table s) p (Some wt)" using assms(1) unfolding sys_ok_def waits_ok_def assms(2) [symmetric] by blast
  then have w: "p \<in> set (lhb_owners (lock_table s))" "lrq_in_use (lhb_lrqs (lock_table s) r)" "lrq_owner (lhb_lrqs (lock_table s) r) = p"
    "own_pending_request (lhb_owns (lock_table s) p) \<in> {0, r}" using assms(3) by (simp_all add: wait_ok_def)
  have "table_ok t'" "after_op p 0 (lock_table s) t'" using assms(4) [OF ok w(2-4,1) refl] by simp_all
  from sys_ok_after [OF assms(1) this w(1), of None] show ?thesis by simp
qed

text \<open>Every step keeps the invariant.\<close>

lemma lock_step_sys_ok:
  assumes "lock_step s s'" "sys_ok s"
  shows "sys_ok s'"
  using assms(1)
proof cases
  case (enq p type prior remap par series "value" ast arg data w r out t')
  have ok: "table_ok (lock_table s)" "owned_ok (lock_table s)" using assms(2) by (simp_all add: sys_ok_def)
  note i = sys_ok_idle [OF assms(2) enq(3,2)]
  have a: "after_op p (waits_after r out) (lock_table s) t'"
    using LOCK_enq_after [OF ok(1) enq(4,5) ok(2) i enq(6,7)] by simp
  have "r \<noteq> 0" if "out = Waiting" using LOCK_enq_Waiting [OF ok i enq(6)] enq(7) that by simp
  then show ?thesis
    unfolding enq(1) by (intro sys_ok_after [OF assms(2) LOCK_enq_ok [OF ok(1) enq(4,5,7,8)] a enq(2)]) (simp add: waits_after_def)
next
  case (convert r p type w ast arg out t')
  have ok: "table_ok (lock_table s)" "owned_ok (lock_table s)" using assms(2) by (simp_all add: sys_ok_def)
  have use: "lrq_in_use (lhb_lrqs (lock_table s) r)" using convert(5) by (auto simp: LOCK_convert_def dest: get_request_Inr)
  have p: "p \<in> set (lhb_owners (lock_table s))" using owner_in_table [OF ok use] convert(2) by simp
  note i = sys_ok_idle [OF assms(2) convert(3) p]
  have np: "\<not> lrq_pending (lhb_lrqs (lock_table s) r)" using idle_not_pending [OF ok(2)] i convert(2) by simp
  have a: "after_op p (waits_after r out) (lock_table s) t'"
    using LOCK_convert_after [OF ok convert(2) i np convert(4,5)] by simp
  show ?thesis
    unfolding convert(1) using nonzero_request [OF ok(2) use]
    by (intro sys_ok_after [OF assms(2) LOCK_convert_ok [OF ok(1) np convert(4,5)] a p]) (simp add: waits_after_def)
next
  case (convert_at_once r type w ast arg out t')
  have "lrq_in_use (lhb_lrqs (lock_table s) r)" using convert_at_once(4) by (auto simp: LOCK_convert_def dest: get_request_Inr)
  then show ?thesis unfolding convert_at_once(1)
    by (rule request_op_sys_ok [OF assms(2) _ convert_at_once(2)])
      (use LOCK_convert_ok LOCK_convert_kept convert_at_once(3-5) in blast)
next
  case (deq r res t')
  have "lrq_in_use (lhb_lrqs (lock_table s) r)" using deq(3) by (auto simp: LOCK_deq_def dest: get_request_Inr)
  then show ?thesis unfolding deq(1)
    by (rule request_op_sys_ok [OF assms(2) _ deq(2)]) (use LOCK_deq_ok LOCK_deq_kept deq(3) in blast)
next
  case (downgrade r st t')
  have "lrq_in_use (lhb_lrqs (lock_table s) r)" using downgrade(3) by (auto simp: LOCK_downgrade_def dest: get_request_Inr)
  then show ?thesis unfolding downgrade(1)
    by (rule request_op_sys_ok [OF assms(2) _ downgrade(2)]) (use LOCK_downgrade_ok LOCK_downgrade_kept downgrade(3) in blast)
next
  case (write_data r data d t')
  have ok: "table_ok (lock_table s)" "owned_ok (lock_table s)" using assms(2) by (simp_all add: sys_ok_def)
  obtain l where t': "t' = count_operation l (set_lock_data l data (bump lhb_write_data (lock_table s)))"
    using write_data(2) by (auto simp: LOCK_write_data_def)
  have "calm (lock_table s) t'" unfolding t' count_operation_def
    by (rule calm_trans [OF calm_trans [OF calm_updates(2) calm_set_lock_data] calm_updates(2)])
  moreover have "table_ok t'" unfolding t' count_operation_def
    by (intro calm_bump_idle(3) set_lock_data_table_ok ok(1))
  ultimately show ?thesis unfolding write_data(1) using calm_owned_ok ok(2) calm_steady by (intro sys_ok_steady [OF assms(2)]) blast+
next
  case (signal p call t')
  have ok: "table_ok (lock_table s)" "owned_ok (lock_table s)" using assms(2) by (simp_all add: sys_ok_def)
  show ?thesis unfolding signal(1) by (rule sys_ok_steady [OF assms(2) blocking_turn_ok [OF ok signal(2)]])
next
  case (turn p wt dead expired posted w t')
  have ok: "table_ok (lock_table s)" "owned_ok (lock_table s)" using assms(2) by (simp_all add: sys_ok_def)
  have "wait_ok (lock_table s) p (Some wt)" using assms(2) unfolding sys_ok_def waits_ok_def turn(2) [symmetric] by blast
  then have r: "lrq_in_use (lhb_lrqs (lock_table s) (wait_request wt))" "\<not> dead (lrq_owner (lhb_lrqs (lock_table s) (wait_request wt)))"
    using turn(3) by (simp_all add: wait_ok_def)
  obtain t2 D where "wait_turn dead expired posted w (wait_request wt) (lock_table s) = Some t2" "table_ok t2" "owned_ok t2"
    "turned D (lock_table s) t2" by (rule wait_turn_ok [where dead = dead, OF ok r])
  then show ?thesis unfolding turn(1) using sys_ok_turned [OF assms(2)] turn(4) by simp
next
  case (enq_resumed p r w out t')
  show ?thesis unfolding enq_resumed(1)
    by (rule resume_sys_ok [OF assms(2) enq_resumed(2), of r]) (use enq_resume_ok enq_resume_after enq_resumed(3,4) in \<open>simp, blast\<close>)
next
  case (convert_resumed p r w ast arg out t')
  show ?thesis unfolding convert_resumed(1)
    by (rule resume_sys_ok [OF assms(2) convert_resumed(2), of r])
      (use convert_resume_ok convert_resume_after convert_resumed(3,4) in \<open>simp, blast\<close>)
next
  case (create remap dead oid otype res t')
  then show ?thesis using create_owner_sys_ok [OF assms(2)] by simp
next
  case (fini p t')
  then show ?thesis using LOCK_fini_sys_ok [OF assms(2)] by simp
qed

lemma lock_reachable_sys_ok: "lock_reachable s0 s \<Longrightarrow> sys_ok s0 \<Longrightarrow> sys_ok s"
  by (induction rule: lock_reachable.induct) (simp_all add: lock_step_sys_ok)

end
