(* ===== verification/Lock_Example.thy ===== *)
theory Lock_Example
  imports Lock_Steps
begin

text \<open>
  The table of \<^verbatim>\<open>src/lock/lock.c\<close> as \<^verbatim>\<open>lock_initialize\<close> leaves it, and a run of the lock
  manager that ends in a deadlock of two owners, evaluated step by step.
\<close>

section \<open>The initial table\<close>

definition null_lrq :: lrq where
  "null_lrq = \<lparr>lrq_in_use = False, lrq_blocking = False, lrq_pending = False, lrq_rejected = False, lrq_deadlock = False,
     lrq_repost = False, lrq_scanned = False, lrq_requested = 0, lrq_state = 0, lrq_owner = 0, lrq_lock = 0, lrq_data = 0,
     lrq_ast_routine = 0, lrq_ast_argument = 0\<rparr>"

definition null_lbl :: lbl where
  "null_lbl = \<lparr>lbl_in_use = False, lbl_state = 0, lbl_size = 0, lbl_requests = [], lbl_data = 0, lbl_parent = 0, lbl_series = 0,
     lbl_pending_lrq_count = 0, lbl_counts = (\<lambda>_. 0), lbl_key = []\<rparr>"

definition null_own :: own where
  "null_own = \<lparr>own_count = 0, own_owner_id = 0, own_owner_type = 0, own_requests = [], own_blocks = [], own_pending_request = 0,
     own_semaphore = False, own_scanned = False, own_wakeup = False, own_signal = False, own_signaled = False\<rparr>"

text \<open>
  \<^verbatim>\<open>lock_initialize\<close> on a mapping of \<open>mapped\<close> bytes: \<open>used\<close> bytes are taken by the header, the hash
  chains, the secondary header and the history blocks.
\<close>

definition lock_initialize :: "nat \<Rightarrow> nat \<Rightarrow> nat \<Rightarrow> bool \<Rightarrow> lhb" where
  "lock_initialize used mapped hash_slots in_order =
     \<lparr>lhb_lrqs = (\<lambda>_. null_lrq), lhb_lbls = (\<lambda>_. null_lbl), lhb_owns = (\<lambda>_. null_own), lhb_owners = [], lhb_free_owners = [],
      lhb_free_locks = [], lhb_free_requests = [], lhb_length = mapped, lhb_used = used, lhb_hash_slots = hash_slots mod 65536,
      lhb_hash = (\<lambda>_. []), lhb_data = (\<lambda>_. []), lhb_statistics = (\<lambda>_. 0), LOCK_ordering = in_order\<rparr>"

definition lock_start :: "nat \<Rightarrow> nat \<Rightarrow> nat \<Rightarrow> bool \<Rightarrow> sys" where
  "lock_start used mapped hash_slots in_order =
     \<lparr>lock_table = lock_initialize used mapped hash_slots in_order, lock_waits = (\<lambda>_. None)\<rparr>"

lemma lock_start_sys_ok:
  assumes "0 < used"
  shows "sys_ok (lock_start used mapped hash_slots in_order)"
proof -
  let ?t = "lock_initialize used mapped hash_slots in_order"
  have "table_ok ?t"
    by (simp add: table_ok_def structure_ok_def requests_linked_def requests_owned_def free_lists_ok_def locks_hashed_def
      locks_unique_def locks_ok_def lock_initialize_def null_lrq_def null_lbl_def null_own_def)
  moreover have "owned_ok ?t"
    using assms by (simp add: owned_ok_def pending_ok_def blocks_ok_def owners_ok_def nonzero_ok_def lock_initialize_def
      null_lrq_def null_own_def)
  moreover have "waits_ok (lock_start used mapped hash_slots in_order)"
    by (simp add: waits_ok_def wait_ok_def lock_start_def lock_initialize_def)
  ultimately show ?thesis by (simp add: sys_ok_def lock_start_def)
qed

lemma reachable_ok:
  assumes "lock_reachable (lock_start used mapped hash_slots in_order) s" "0 < used"
  shows "table_ok (lock_table s)" "owned_ok (lock_table s)" "waits_ok s"
  using lock_reachable_sys_ok [OF assms(1) lock_start_sys_ok [OF assms(2)]] by (simp_all add: sys_ok_def)

section \<open>A run\<close>

lemma length_simps_upd [simp]:
  "lhb_length (upd_lrq r f t) = lhb_length t" "lhb_length (upd_lbl l g t) = lhb_length t" "lhb_length (upd_own p h t) = lhb_length t" "lhb_length (bump s t) = lhb_length t"
  by (simp_all add: upd_lrq_def upd_lbl_def upd_own_def bump_def)

lemma length_simps_que [simp]: "lhb_length (insert_data_que l t) = lhb_length t" "lhb_length (remove_data_que l t) = lhb_length t"
  "lhb_length (set_lock_data l d t) = lhb_length t" "lhb_length (post_wakeup p t) = lhb_length t"
  by (simp_all add: insert_data_que_def remove_data_que_def set_lock_data_def post_wakeup_def Let_def)

lemma length_simps_ops: "lhb_length (init_request r a b c p t) = lhb_length t" "lhb_length (hashed_lock l r parent series v ty d t) = lhb_length t" "lhb_length (grant r l t) = lhb_length t"
  by (simp_all add: init_request_def hashed_lock_def grant_def Let_def)

lemma owns_init: "lhb_owns (init_request r a b c p t) = (lhb_owns t)(p := (lhb_owns t p)\<lparr>own_requests := own_requests (lhb_owns t p) @ [r]\<rparr>)"
  by (simp add: init_request_def)

lemma owns_grant: "\<not> own_semaphore (lhb_owns t (lrq_owner (lhb_lrqs t r))) \<Longrightarrow> lhb_owns (grant r l t) = lhb_owns t"
  by (auto simp: grant_def post_wakeup_def Let_def)

lemma rest_grant: "lhb_owners (grant r l t) = lhb_owners t" "lhb_free_locks (grant r l t) = lhb_free_locks t" "lhb_free_requests (grant r l t) = lhb_free_requests t"
  "lhb_used (grant r l t) = lhb_used t" "lhb_hash_slots (grant r l t) = lhb_hash_slots t" "lhb_hash (grant r l t) = lhb_hash t" "LOCK_ordering (grant r l t) = LOCK_ordering t"
  using grant_simps(4) [of r l t] by (simp_all add: rest_def)

lemma free_grant: "lhb_free_owners (grant r l t) = lhb_free_owners t" using calm_grant [of t r l] by (simp add: calm_def)

lemma hashed_lock_owners: "lhb_owners (hashed_lock l r parent series v ty d t) = lhb_owners t" "lhb_free_owners (hashed_lock l r parent series v ty d t) = lhb_free_owners t"
  "LOCK_ordering (hashed_lock l r parent series v ty d t) = LOCK_ordering t"
   by (simp_all add: hashed_lock_def insert_data_que_def Let_def)

lemma init_request_owners: "lhb_owners (init_request r a b c p t) = lhb_owners t" "lhb_free_owners (init_request r a b c p t) = lhb_free_owners t" "LOCK_ordering (init_request r a b c p t) = LOCK_ordering t"
   by (simp_all add: init_request_def)

definition ex_table1 :: lhb where "ex_table1 = snd (the (create_owner (\<lambda>_. None) (\<lambda>_. False) 1 1 (lock_initialize 100 32768 3 True)))"

definition ex_table2 :: lhb where "ex_table2 = snd (the (create_owner (\<lambda>_. None) (\<lambda>_. False) 2 1 ex_table1))"

lemmas owner_eval = create_owner_def enter_owner_def alloc_owner_def alloc_def own_bytes_def init_owner_block_def probe_owners_def lock_initialize_def Let_def

definition ex_own :: "nat \<Rightarrow> own" where "ex_own i = null_own\<lparr>own_count := 1, own_owner_id := i, own_owner_type := 1\<rparr>"

lemma ex_table1: "create_owner (\<lambda>_. None) (\<lambda>_. False) 1 1 (lock_initialize 100 32768 3 True) = Some (Some 100, ex_table1)"
  "lhb_lrqs ex_table1 = (\<lambda>_. null_lrq)" "lhb_lbls ex_table1 = (\<lambda>_. null_lbl)" "lhb_owns ex_table1 = (\<lambda>_. null_own)(100 := ex_own 1)"
  "lhb_owners ex_table1 = [100]" "lhb_free_owners ex_table1 = []" "lhb_free_locks ex_table1 = []" "lhb_free_requests ex_table1 = []" "lhb_length ex_table1 = 32768"
  "lhb_used ex_table1 = 176" "lhb_hash_slots ex_table1 = 3" "lhb_hash ex_table1 = (\<lambda>_. [])" "LOCK_ordering ex_table1 = True"
  by (simp_all add: ex_table1_def owner_eval upd_own_def ex_own_def null_own_def)

lemma ex_table2: "create_owner (\<lambda>_. None) (\<lambda>_. False) 2 1 ex_table1 = Some (Some 176, ex_table2)"
  "lhb_lrqs ex_table2 = (\<lambda>_. null_lrq)" "lhb_lbls ex_table2 = (\<lambda>_. null_lbl)" "lhb_owns ex_table2 = (\<lambda>_. null_own)(100 := ex_own 1, 176 := ex_own 2)"
  "lhb_owners ex_table2 = [100, 176]" "lhb_free_owners ex_table2 = []" "lhb_free_locks ex_table2 = []" "lhb_free_requests ex_table2 = []" "lhb_length ex_table2 = 32768"
  "lhb_used ex_table2 = 252" "lhb_hash_slots ex_table2 = 3" "lhb_hash ex_table2 = (\<lambda>_. [])" "LOCK_ordering ex_table2 = True"
  by (simp_all add: ex_table2_def owner_eval ex_table1 ex_own_def null_own_def)

definition ex_table3 :: lhb where "ex_table3 = snd (projr (LOCK_enq (\<lambda>_. None) 0 0 1 [65] LCK_EX 0 0 0 1 100 ex_table2))"

definition ex_lrq :: "ptr \<Rightarrow> ptr \<Rightarrow> nat \<Rightarrow> nat \<Rightarrow> lrq" where
  "ex_lrq p l req st = null_lrq\<lparr>lrq_in_use := True, lrq_requested := req, lrq_state := st, lrq_owner := p, lrq_lock := l\<rparr>"

lemma hash_values: "hash_value [65] = 65" "hash_value [66] = 66" by (simp_all add: hash_value_def Let_def)

lemmas enq_eval = LOCK_enq_def enq_request_def alloc_request_def alloc_def lrq_bytes_def lbl_bytes_def alloc_lock_def init_request_simps find_lock_def lbl_length_def hash_slot_def
   new_lock_grant hashed_lock_simps hashed_lock_hash grant_simps(1,2) Let_def length_simps_ops owns_init owns_grant rest_grant free_grant hashed_lock_owners init_request_owners inc16_def state_of_counts_def granted_request_def granted_lock_def fresh_request_def

definition ex_lbl :: "byte list \<Rightarrow> ptr list \<Rightarrow> nat \<Rightarrow> nat \<Rightarrow> lbl" where
  "ex_lbl key que c pend = null_lbl\<lparr>lbl_in_use := True, lbl_state := LCK_EX, lbl_size := 4, lbl_requests := que, lbl_series := 1,
      lbl_pending_lrq_count := pend, lbl_counts := (\<lambda>_. 0)(LCK_EX := c), lbl_key := key\<rparr>"

lemma ex_table3: "LOCK_enq (\<lambda>_. None) 0 0 1 [65] LCK_EX 0 0 0 1 100 ex_table2 = Inr (Enq 252 Granted, ex_table3)" 
  "lhb_lrqs ex_table3 = (\<lambda>_. null_lrq)(252 := ex_lrq 100 300 6 6)" "lhb_lbls ex_table3 = (\<lambda>_. null_lbl)(300 := ex_lbl [65] [252] 1 0)"
  "lhb_owns ex_table3 = (\<lambda>_. null_own)(100 := (ex_own 1)\<lparr>own_requests := [252]\<rparr>, 176 := ex_own 2)"
  "lhb_owners ex_table3 = [100, 176]" "lhb_free_owners ex_table3 = []" "lhb_free_locks ex_table3 = []" "lhb_free_requests ex_table3 = []" "lhb_length ex_table3 = 32768"
  "lhb_used ex_table3 = 360" "lhb_hash_slots ex_table3 = 3" "lhb_hash ex_table3 = (\<lambda>_. [])(2 := [300])" "LOCK_ordering ex_table3 = True"
  by (simp_all add: ex_table3_def enq_eval ex_table2 hash_values ex_own_def ex_lrq_def ex_lbl_def null_own_def null_lrq_def null_lbl_def fun_eq_iff)

definition ex_table4 :: lhb where "ex_table4 = snd (projr (LOCK_enq (\<lambda>_. None) 0 0 1 [66] LCK_EX 0 0 0 1 176 ex_table3))"

lemmas ex_eval = ex_own_def ex_lrq_def ex_lbl_def null_own_def null_lrq_def null_lbl_def fun_eq_iff

lemma ex_table4: "LOCK_enq (\<lambda>_. None) 0 0 1 [66] LCK_EX 0 0 0 1 176 ex_table3 = Inr (Enq 360 Granted, ex_table4)" 
  "lhb_lrqs ex_table4 = (\<lambda>_. null_lrq)(252 := ex_lrq 100 300 6 6, 360 := ex_lrq 176 408 6 6)"
  "lhb_lbls ex_table4 = (\<lambda>_. null_lbl)(300 := ex_lbl [65] [252] 1 0, 408 := ex_lbl [66] [360] 1 0)"
  "lhb_owns ex_table4 = (\<lambda>_. null_own)(100 := (ex_own 1)\<lparr>own_requests := [252]\<rparr>, 176 := (ex_own 2)\<lparr>own_requests := [360]\<rparr>)"
  "lhb_owners ex_table4 = [100, 176]" "lhb_free_owners ex_table4 = []" "lhb_free_locks ex_table4 = []" "lhb_free_requests ex_table4 = []" "lhb_length ex_table4 = 32768"
  "lhb_used ex_table4 = 468" "lhb_hash_slots ex_table4 = 3" "lhb_hash ex_table4 = (\<lambda>_. [])(2 := [300], 0 := [408])" "LOCK_ordering ex_table4 = True"
  by (simp_all add: ex_table4_def enq_eval ex_table3 hash_values ex_eval)

lemmas wait_eval = grant_or_que_def COMPATIBLE_def compatibility_def wait_begin_def mark_pending_def post_blockage_def

definition ex_table5 :: lhb where "ex_table5 = snd (projr (LOCK_enq (\<lambda>_. None) 0 0 1 [66] LCK_EX 0 0 0 1 100 ex_table4))"

definition ex_wait :: "ptr \<Rightarrow> own \<Rightarrow> own" where
  "ex_wait r ow = ow\<lparr>own_requests := own_requests ow @ [r], own_pending_request := r, own_semaphore := True\<rparr>"

lemma ex_table5: "LOCK_enq (\<lambda>_. None) 0 0 1 [66] LCK_EX 0 0 0 1 100 ex_table4 = Inr (Enq 468 Waiting, ex_table5)" 
  "lhb_lrqs ex_table5 = (\<lambda>_. null_lrq)(252 := ex_lrq 100 300 6 6, 360 := ex_lrq 176 408 6 6, 468 := (ex_lrq 100 408 6 0)\<lparr>lrq_pending := True\<rparr>)"
  "lhb_lbls ex_table5 = (\<lambda>_. null_lbl)(300 := ex_lbl [65] [252] 1 0, 408 := ex_lbl [66] [360, 468] 1 1)"
  "lhb_owns ex_table5 = (\<lambda>_. null_own)(100 := ex_wait 468 ((ex_own 1)\<lparr>own_requests := [252]\<rparr>), 176 := (ex_own 2)\<lparr>own_requests := [360]\<rparr>)"
  "lhb_owners ex_table5 = [100, 176]" "lhb_free_owners ex_table5 = []" "lhb_free_locks ex_table5 = []" "lhb_free_requests ex_table5 = []" "lhb_length ex_table5 = 32768"
  "lhb_used ex_table5 = 516" "lhb_hash_slots ex_table5 = 3" "lhb_hash ex_table5 = (\<lambda>_. [])(2 := [300], 0 := [408])" "LOCK_ordering ex_table5 = True"
  by (simp_all add: ex_table5_def enq_eval ex_table4 hash_values ex_eval wait_eval ex_wait_def)

definition ex_table6 :: lhb where
  "ex_table6 = snd (projr (LOCK_enq (\<lambda>_. None) 0 0 1 [65] LCK_EX 0 0 0 1 176 ex_table5))"

lemma ex_table6: "LOCK_enq (\<lambda>_. None) 0 0 1 [65] LCK_EX 0 0 0 1 176 ex_table5 = Inr (Enq 516 Waiting, ex_table6)"
  "lhb_lrqs ex_table6 = (\<lambda>_. null_lrq)(252 := ex_lrq 100 300 6 6, 360 := ex_lrq 176 408 6 6,
     468 := (ex_lrq 100 408 6 0)\<lparr>lrq_pending := True\<rparr>, 516 := (ex_lrq 176 300 6 0)\<lparr>lrq_pending := True\<rparr>)"
  "lhb_lbls ex_table6 = (\<lambda>_. null_lbl)(300 := ex_lbl [65] [252, 516] 1 1, 408 := ex_lbl [66] [360, 468] 1 1)"
  "lhb_owns ex_table6 = (\<lambda>_. null_own)(100 := ex_wait 468 ((ex_own 1)\<lparr>own_requests := [252]\<rparr>),
     176 := ex_wait 516 ((ex_own 2)\<lparr>own_requests := [360]\<rparr>))"
  "lhb_owners ex_table6 = [100, 176]" "lhb_free_owners ex_table6 = []" "lhb_free_locks ex_table6 = []"
  "lhb_free_requests ex_table6 = []" "lhb_length ex_table6 = 32768"
  "lhb_used ex_table6 = 564" "lhb_hash_slots ex_table6 = 3" "lhb_hash ex_table6 = (\<lambda>_. [])(2 := [300], 0 := [408])"
  "LOCK_ordering ex_table6 = True"
  by (simp_all add: ex_table6_def enq_eval ex_table5 hash_values ex_eval wait_eval ex_wait_def)

text \<open>The run as steps of the system.\<close>

definition ex_sys :: "lhb \<Rightarrow> (ptr \<Rightarrow> waiter option) \<Rightarrow> sys" where
  "ex_sys t w = \<lparr>lock_table = t, lock_waits = w\<rparr>"

lemma ex_reach1: "lock_reachable (lock_start 100 32768 3 True) (ex_sys ex_table1 (\<lambda>_. None))"
proof -
  have "lock_step (lock_start 100 32768 3 True) \<lparr>lock_table = ex_table1,
      lock_waits = (\<lambda>p. if Some p = Some 100 then None else remaining (lock_start 100 32768 3 True) ex_table1 p)\<rparr>"
    using lock_step.create [of "\<lambda>_. None" "\<lambda>_. False" 1 1 "lock_start 100 32768 3 True"] ex_table1(1) by (simp add: lock_start_def)
  moreover have "(\<lambda>p. if Some p = Some 100 then None else remaining (lock_start 100 32768 3 True) ex_table1 p) = (\<lambda>_. None)"
    by (rule ext) (simp add: lock_start_def)
  ultimately show ?thesis unfolding ex_sys_def by (simp only: lock_reachable.more [OF lock_reachable.start])
qed

lemma ex_reach2: "lock_reachable (lock_start 100 32768 3 True) (ex_sys ex_table2 (\<lambda>_. None))"
proof -
  have "lock_step (ex_sys ex_table1 (\<lambda>_. None)) \<lparr>lock_table = ex_table2,
      lock_waits = (\<lambda>p. if Some p = Some 176 then None else remaining (ex_sys ex_table1 (\<lambda>_. None)) ex_table2 p)\<rparr>"
    using lock_step.create [of "\<lambda>_. None" "\<lambda>_. False" 2 1 "ex_sys ex_table1 (\<lambda>_. None)"] ex_table2(1) by (simp add: ex_sys_def)
  moreover have "(\<lambda>p. if Some p = Some 176 then None else remaining (ex_sys ex_table1 (\<lambda>_. None)) ex_table2 p) = (\<lambda>_. None)"
    by (rule ext) (simp add: ex_sys_def)
  ultimately show ?thesis unfolding ex_sys_def by (simp only: lock_reachable.more [OF ex_reach1 [unfolded ex_sys_def]])
qed

lemma ex_reach_enq:
  assumes "lock_reachable s0 (ex_sys t w)" "p \<in> set (lhb_owners t)" "w p = None" "room t"
    and "LOCK_enq (\<lambda>_. None) 0 0 1 v type 0 0 0 1 p t = Inr (Enq r out, t')" "type \<le> LCK_EX" "length v < 256"
  shows "lock_reachable s0 (ex_sys t' (w(p := if out = Waiting then Some (Enq_wait r 1) else None)))"
proof -
  have "lock_step (ex_sys t w) (ex_sys t' (w(p := if out = Waiting then Some (Enq_wait r 1) else None)))"
    unfolding ex_sys_def
    using lock_step.enq [of p "ex_sys t w" type 0 "\<lambda>_. None" 0 1 v 0 0 0 1 r out t'] assms(2-7) by (simp add: ex_sys_def short_name_def)
  with assms(1) show ?thesis by (rule lock_reachable.more)
qed

lemma ex_reach4: "lock_reachable (lock_start 100 32768 3 True) (ex_sys ex_table4 (\<lambda>_. None))"
proof -
  have r: "room ex_table2" "room ex_table3" by (simp_all add: room_def ex_table2 ex_table3 ex_lbl_def null_lbl_def)
  have "lock_reachable (lock_start 100 32768 3 True) (ex_sys ex_table3 ((\<lambda>_. None)(100 := None)))"
    using ex_reach_enq [OF ex_reach2 _ _ r(1) ex_table3(1)] by (simp add: ex_table2)
  then show ?thesis using ex_reach_enq [OF _ _ _ r(2) ex_table4(1)] by (simp add: ex_table3 fun_upd_idem)
qed

lemma ex_reach5: "lock_reachable (lock_start 100 32768 3 True) (ex_sys ex_table5 ((\<lambda>_. None)(100 := Some (Enq_wait 468 1))))"
proof -
  have "room ex_table4" by (simp add: room_def ex_table4 ex_lbl_def null_lbl_def)
  then show ?thesis using ex_reach_enq [OF ex_reach4 _ _ _ ex_table5(1)] by (simp add: ex_table4)
qed

lemma ex_reach6: "lock_reachable (lock_start 100 32768 3 True)
    (ex_sys ex_table6 ((\<lambda>_. None)(100 := Some (Enq_wait 468 1), 176 := Some (Enq_wait 516 1))))"
proof -
  have "room ex_table5" by (simp add: room_def ex_table5 ex_lbl_def null_lbl_def)
  then show ?thesis using ex_reach_enq [OF ex_reach5 _ _ _ ex_table6(1)] by (simp add: ex_table5)
qed

section \<open>Two owners sharing a lock\<close>

text \<open>Both owners hold the lock for shared write; the first one then waits for protected read.\<close>

definition sw_lbl :: "ptr list \<Rightarrow> nat \<Rightarrow> nat \<Rightarrow> lbl" where
  "sw_lbl que c pend = null_lbl\<lparr>lbl_in_use := True, lbl_state := LCK_SW, lbl_size := 4, lbl_requests := que, lbl_series := 1,
      lbl_pending_lrq_count := pend, lbl_counts := (\<lambda>_. 0)(LCK_SW := c), lbl_key := [65]\<rparr>"

definition sw_table3 :: lhb where
  "sw_table3 = snd (projr (LOCK_enq (\<lambda>_. None) 0 0 1 [65] LCK_SW 0 0 0 1 100 ex_table2))"

definition sw_table4 :: lhb where
  "sw_table4 = snd (projr (LOCK_enq (\<lambda>_. None) 0 0 1 [65] LCK_SW 0 0 0 1 176 sw_table3))"

definition sw_table5 :: lhb where
  "sw_table5 = snd (projr (LOCK_enq (\<lambda>_. None) 0 0 1 [65] LCK_PR 0 0 0 1 100 sw_table4))"

lemma sw_table3: "LOCK_enq (\<lambda>_. None) 0 0 1 [65] LCK_SW 0 0 0 1 100 ex_table2 = Inr (Enq 252 Granted, sw_table3)"
  "lhb_lrqs sw_table3 = (\<lambda>_. null_lrq)(252 := ex_lrq 100 300 4 4)" "lhb_lbls sw_table3 = (\<lambda>_. null_lbl)(300 := sw_lbl [252] 1 0)"
  "lhb_owns sw_table3 = (\<lambda>_. null_own)(100 := (ex_own 1)\<lparr>own_requests := [252]\<rparr>, 176 := ex_own 2)"
  "lhb_owners sw_table3 = [100, 176]" "lhb_free_owners sw_table3 = []" "lhb_free_locks sw_table3 = []"
  "lhb_free_requests sw_table3 = []" "lhb_length sw_table3 = 32768" "lhb_used sw_table3 = 360" "lhb_hash_slots sw_table3 = 3"
  "lhb_hash sw_table3 = (\<lambda>_. [])(2 := [300])" "LOCK_ordering sw_table3 = True"
  by (simp_all add: sw_table3_def enq_eval ex_table2 hash_values ex_eval sw_lbl_def)

lemma sw_table4: "LOCK_enq (\<lambda>_. None) 0 0 1 [65] LCK_SW 0 0 0 1 176 sw_table3 = Inr (Enq 360 Granted, sw_table4)"
  "lhb_lrqs sw_table4 = (\<lambda>_. null_lrq)(252 := ex_lrq 100 300 4 4, 360 := ex_lrq 176 300 4 4)"
  "lhb_lbls sw_table4 = (\<lambda>_. null_lbl)(300 := sw_lbl [252, 360] 2 0)"
  "lhb_owns sw_table4 = (\<lambda>_. null_own)(100 := (ex_own 1)\<lparr>own_requests := [252]\<rparr>, 176 := (ex_own 2)\<lparr>own_requests := [360]\<rparr>)"
  "lhb_owners sw_table4 = [100, 176]" "lhb_free_owners sw_table4 = []" "lhb_free_locks sw_table4 = []"
  "lhb_free_requests sw_table4 = []" "lhb_length sw_table4 = 32768" "lhb_used sw_table4 = 408" "lhb_hash_slots sw_table4 = 3"
  "lhb_hash sw_table4 = (\<lambda>_. [])(2 := [300])" "LOCK_ordering sw_table4 = True"
  by (simp_all add: sw_table4_def enq_eval sw_table3 hash_values ex_eval sw_lbl_def wait_eval post_pending_def)

lemma sw_table5: "LOCK_enq (\<lambda>_. None) 0 0 1 [65] LCK_PR 0 0 0 1 100 sw_table4 = Inr (Enq 408 Waiting, sw_table5)"
  "lhb_lrqs sw_table5 = (\<lambda>_. null_lrq)(252 := ex_lrq 100 300 4 4, 360 := ex_lrq 176 300 4 4,
     408 := (ex_lrq 100 300 3 0)\<lparr>lrq_pending := True\<rparr>)"
  "lhb_lbls sw_table5 = (\<lambda>_. null_lbl)(300 := sw_lbl [252, 360, 408] 2 1)"
  "lhb_owns sw_table5 = (\<lambda>_. null_own)(100 := ex_wait 408 ((ex_own 1)\<lparr>own_requests := [252]\<rparr>),
     176 := (ex_own 2)\<lparr>own_requests := [360]\<rparr>)"
  "lhb_owners sw_table5 = [100, 176]" "LOCK_ordering sw_table5 = True"
  by (simp_all add: sw_table5_def enq_eval sw_table4 hash_values ex_eval sw_lbl_def wait_eval ex_wait_def)

lemma sw_reach4: "lock_reachable (lock_start 100 32768 3 True) (ex_sys sw_table4 (\<lambda>_. None))"
proof -
  have r: "room ex_table2" "room sw_table3" by (simp_all add: room_def ex_table2 sw_table3 sw_lbl_def null_lbl_def)
  have "lock_reachable (lock_start 100 32768 3 True) (ex_sys sw_table3 ((\<lambda>_. None)(100 := None)))"
    using ex_reach_enq [OF ex_reach2 _ _ r(1) sw_table3(1)] by (simp add: ex_table2)
  then show ?thesis using ex_reach_enq [OF _ _ _ r(2) sw_table4(1)] by (simp add: sw_table3 fun_upd_idem)
qed

lemma sw_reach5: "lock_reachable (lock_start 100 32768 3 True) (ex_sys sw_table5 ((\<lambda>_. None)(100 := Some (Enq_wait 408 1))))"
proof -
  have "room sw_table4" by (simp add: room_def sw_table4 sw_lbl_def null_lbl_def)
  then show ?thesis using ex_reach_enq [OF sw_reach4 _ _ _ sw_table5(1)] by (simp add: sw_table4)
qed

lemma sw_downgrade: "\<exists>t'. LOCK_downgrade 360 sw_table5 = Inr (LCK_PR, t') \<and> state_in t' 360 = LCK_SW"
proof -
  have "downgrade_state 3 4 = 3" by (simp add: eval_nat_numeral COMPATIBLE_def compatibility_def)
  then show ?thesis
    by (simp add: LOCK_downgrade_def convert_def get_request_def sw_table5 ex_wait_def ex_eval sw_lbl_def Let_def count_down_def
      count_up_def dec16_def inc16_def lock_state_def state_of_counts_def COMPATIBLE_def compatibility_def deny_convert_def count_deny_def)
qed


end
