(* ===== verification/Lock_Outcome.thy ===== *)
theory Lock_Outcome
  imports Lock_Steps
begin

text \<open>
  What the operations of \<^verbatim>\<open>src/lock/lock.c\<close> come to: which request is granted, denied or left
  waiting, and what the others keep.
\<close>

section \<open>Requests that are not waiting\<close>

lemma grant_lrqs_other: "r \<noteq> q \<Longrightarrow> lhb_lrqs (grant q l t) r = lhb_lrqs t r"
  by (simp add: grant_simps)

lemma post_pending_loop_keeps: "\<not> lrq_pending (lhb_lrqs t r) \<Longrightarrow> lhb_lrqs (post_pending_loop l que t) r = lhb_lrqs t r"
proof (induction que arbitrary: t)
  case (Cons q que)
  have step: "lhb_lrqs (post_pending_loop l que t') r = lhb_lrqs t r" if "lhb_lrqs t' r = lhb_lrqs t r" for t'
    using Cons.IH [of t'] Cons.prems that by simp
  show ?case
  proof (cases "q = r")
    case True
    then show ?thesis using Cons.prems step by simp
  next
    case False
    then show ?thesis by (auto simp: Let_def grant_lrqs_other step)
  qed
qed simp

lemma post_pending_keeps: "\<not> lrq_pending (lhb_lrqs t r) \<Longrightarrow> lhb_lrqs (post_pending l t) r = lhb_lrqs t r"
  by (simp add: post_pending_def post_pending_loop_keeps)

section \<open>No grant is forgotten\<close>

text \<open>A waiting request that is kept out by another request of its lock.\<close>

definition held_up :: "lhb \<Rightarrow> ptr \<Rightarrow> ptr \<Rightarrow> bool" where
  "held_up t l r \<longleftrightarrow> lrq_pending (lhb_lrqs t r) \<and>
     (\<exists>q \<in> set (queue t l) - {r}. \<not> COMPATIBLE (lrq_requested (lhb_lrqs t r)) (state_in t q))"

text \<open>In queue order, everything up to the first waiting request has been granted, and that one is held up.\<close>

definition first_held_up :: "lhb \<Rightarrow> ptr \<Rightarrow> ptr list \<Rightarrow> bool" where
  "first_held_up t l que \<longleftrightarrow>
     (case dropWhile (\<lambda>q. \<not> lrq_pending (lhb_lrqs t q)) que of [] \<Rightarrow> True | r # _ \<Rightarrow> held_up t l r)"

lemma first_held_up_simps [simp]:
  "first_held_up t l []"
  "\<not> lrq_pending (lhb_lrqs t r) \<Longrightarrow> first_held_up t l (r # que) = first_held_up t l que"
  "lrq_pending (lhb_lrqs t r) \<Longrightarrow> first_held_up t l (r # que) = held_up t l r"
  by (simp_all add: first_held_up_def)

lemma held_up_pending: "held_up t l r \<Longrightarrow> first_held_up t l (r # que)"
  by (simp add: held_up_def)

lemma lock_open_holder:
  assumes "lock_open t l r" "\<not> COMPATIBLE x (lock_state (lhb_lbls t l))" "x \<le> LCK_EX"
  shows "\<exists>q \<in> set (queue t l) - {r}. \<not> COMPATIBLE x (state_in t q)"
proof -
  let ?R = "set (queue t l) - {r}"
  have "counts_ok (lbl_counts (lhb_lbls t l)) ?R (state_in t)" "finite ?R" "\<forall>q \<in> ?R. state_in t q \<le> LCK_EX"
    using assms(1) by (auto simp: lock_open_def lock_shape_def)
  from state_of_counts_spec(2) [OF this] have "lock_state (lhb_lbls t l) = 0 \<or> (\<exists>q \<in> ?R. state_in t q = lock_state (lhb_lbls t l))"
    by (simp add: lock_state_def)
  moreover have "lock_state (lhb_lbls t l) \<noteq> 0" using assms(2,3) ib.compat_bottom by metis
  ultimately show ?thesis using assms(2) by metis
qed

lemma held_up_cong:
  assumes "lhb_lrqs t' = lhb_lrqs t" "set (queue t' l) = set (queue t l)"
  shows "held_up t' l r = held_up t l r"
  by (simp add: held_up_def assms)

lemma post_pending_loop_complete:
  assumes "lock_ok t l" "set que \<subseteq> set (queue t l)" "distinct que" "LOCK_ordering t"
  shows "first_held_up (post_pending_loop l que t) l que"
  using assms
proof (induction que arbitrary: t)
  case (Cons r que)
  let ?req = "lhb_lrqs t r"
  have r: "r \<in> set (queue t l)" "set que \<subseteq> set (queue t l)" "distinct que" using Cons.prems by auto
  have x: "lrq_requested ?req \<le> LCK_EX" using lock_ok_bounds [OF Cons.prems(1) r(1)] by simp
  have step: "first_held_up (post_pending_loop l que t') l (r # que)"
    if "\<not> lrq_pending (lhb_lrqs t' r)" "lock_ok t' l" "grants_only l t t'" for t'
  proof -
    have "set que \<subseteq> set (queue t' l)" "LOCK_ordering t'"
      using r(2) that(3) Cons.prems(4) by (auto simp: grants_only_def rest_def)
    from Cons.IH [OF that(2) this(1) r(3) this(2)] show ?thesis using that(1) by (simp add: post_pending_loop_keeps)
  qed
  consider (skip) "\<not> lrq_pending ?req" | (conv) "lrq_pending ?req" "state_in t r \<noteq> 0" | (new) "lrq_pending ?req" "state_in t r = 0"
    by blast
  then show ?case
  proof cases
    case skip
    then show ?thesis using step [of t] Cons.prems(1) by simp
  next
    case conv
    let ?t1 = "upd_lbl l (count_down (state_in t r)) t"
    note op = lock_openI_count_down [OF Cons.prems(1) r(1)]
    show ?thesis
    proof (cases "COMPATIBLE (lrq_requested ?req) (lock_state (lhb_lbls ?t1 l))")
      case True
      have "grants_only l t (grant r l ?t1)"
        using grants_only_trans [OF _ grants_only_grant [of r ?t1 l]] r(1) by simp
      then show ?thesis using step [of "grant r l ?t1"] grant_lock_ok [OF op] True conv
        by (simp add: Let_def grant_simps granted_request_def)
    next
      case False
      from lock_open_holder [OF op this x] have "held_up t l r" using conv(1) by (simp add: held_up_def)
      then have "held_up (post_wakeup p (upd_lbl l (count_up (state_in t r)) ?t1)) l r" for p
        using held_up_cong [of "post_wakeup p (upd_lbl l (count_up (state_in t r)) ?t1)" t l r] by simp
      then show ?thesis using False conv Cons.prems(4) by (simp add: Let_def held_up_pending)
    qed
  next
    case new
    show ?thesis
    proof (cases "COMPATIBLE (lrq_requested ?req) (lbl_state (lhb_lbls t l))")
      case True
      then show ?thesis
        using step [of "grant r l t"] grants_only_grant [OF r(1)] new
          grant_lock_ok [OF lock_openI_state0 [OF Cons.prems(1) r(1)]] Cons.prems(1)
        by (simp add: lock_ok_def Let_def grant_simps granted_request_def)
    next
      case False
      then have "\<not> COMPATIBLE (lrq_requested ?req) (lock_state (lhb_lbls t l))" using Cons.prems(1) by (simp add: lock_ok_def)
      from lock_open_holder [OF lock_openI_state0 [OF Cons.prems(1) r(1) new(2)] this x] have "held_up t l r"
        using new(1) by (simp add: held_up_def)
      then have "held_up (post_wakeup p t) l r" for p using held_up_cong [of "post_wakeup p t" t l r] by simp
      then show ?thesis using False new Cons.prems(4) by (simp add: Let_def held_up_pending)
    qed
  qed
qed simp

lemma post_pending_loop_queue: "queue (post_pending_loop l que t) k = queue t k"
  by (induction que arbitrary: t) (auto simp: Let_def grant_simps granted_lock_def)

lemma post_pending_queue: "queue (post_pending l t) k = queue t k"
  by (simp add: post_pending_def post_pending_loop_queue)

lemma post_pending_complete:
  assumes "lock_ok t l" "LOCK_ordering t"
  shows "first_held_up (post_pending l t) l (queue (post_pending l t) l)"
proof (cases "lbl_pending_lrq_count (lhb_lbls t l) = 0")
  case True
  then have "\<forall>r \<in> set (queue t l). \<not> lrq_pending (lhb_lrqs t r)" using assms(1) by (auto simp: lock_ok_def lock_shape_def)
  then have "dropWhile (\<lambda>q. \<not> lrq_pending (lhb_lrqs t q)) (queue t l) = []" by simp
  then have "first_held_up t l (queue t l)" by (simp only: first_held_up_def list.case)
  then show ?thesis using True by (simp add: post_pending_def)
next
  case False
  have "distinct (queue t l)" using assms(1) by (simp add: lock_ok_def lock_shape_def)
  from post_pending_loop_complete [OF assms(1) subset_refl this assms(2)] False show ?thesis
    unfolding post_pending_def by (simp add: post_pending_loop_queue)
qed

lemma release_request_complete:
  assumes "table_ok t" "lrq_in_use (lhb_lrqs t r)" "LOCK_ordering t"
  defines "t' \<equiv> release_request r t" and "l \<equiv> lrq_lock (lhb_lrqs t r)"
  assumes "lbl_in_use (lhb_lbls t' l)"
  shows "first_held_up t' l (queue t' l)"
proof -
  note d = table_okD [OF assms(1,2)]
  let ?t2 = "uncount (state_in t r) l (unlink_request r t)"
  have "queue (unlink_request r t) l \<noteq> []"
    using assms(6) by (auto simp: t'_def l_def release_request_uncount Let_def free_lock_simps split: if_splits)
  then have t': "t' = post_pending l ?t2" by (simp add: t'_def l_def release_request_uncount Let_def)
  have "lock_ok ?t2 l" unfolding l_def using uncount_lock_ok [OF d(2,3)] by simp
  moreover have "LOCK_ordering ?t2"
    using unlink_simps(4) [of r t] uncount_simps(7) [of "state_in t r" l "unlink_request r t"] assms(3) by (simp add: rest_def)
  ultimately show ?thesis unfolding t' by (rule post_pending_complete)
qed

section \<open>The fate of a request\<close>

lemma release_request_locks:
  "lrq_lock (lhb_lrqs (release_request r t) q) = lrq_lock (lhb_lrqs t q)"
proof -
  have loop: "lrq_lock (lhb_lrqs (post_pending_loop l que t') q) = lrq_lock (lhb_lrqs t' q)" for l que t'
    by (induction que arbitrary: t') (auto simp: Let_def grant_simps granted_request_def)
  have "lrq_lock (lhb_lrqs (unlink_request r t) q) = lrq_lock (lhb_lrqs t q)" by (simp add: unlink_simps)
  then show ?thesis by (simp add: release_request_uncount Let_def free_lock_simps post_pending_def loop uncount_simps)
qed

text \<open>A request that was decided upon, as the caller of \<^verbatim>\<open>grant_or_que\<close> and \<^verbatim>\<open>LOCK_enq\<close> finds it.\<close>

definition fate :: "ptr \<Rightarrow> ptr \<Rightarrow> nat \<Rightarrow> ptr \<times> nat \<times> byte list \<Rightarrow> outcome \<Rightarrow> lhb \<Rightarrow> bool" where
  "fate r p type res out t' \<longleftrightarrow>
     (case out of
        Granted \<Rightarrow> lrq_in_use (lhb_lrqs t' r) \<and> lrq_owner (lhb_lrqs t' r) = p \<and> state_in t' r = type \<and>
          \<not> lrq_pending (lhb_lrqs t' r) \<and> resource (lhb_lbls t' (lrq_lock (lhb_lrqs t' r))) = res
      | Waiting \<Rightarrow> lrq_in_use (lhb_lrqs t' r) \<and> lrq_owner (lhb_lrqs t' r) = p \<and> state_in t' r = LCK_none \<and>
          lrq_requested (lhb_lrqs t' r) = type \<and> lrq_pending (lhb_lrqs t' r) \<and>
          own_pending_request (lhb_owns t' p) = r \<and> resource (lhb_lbls t' (lrq_lock (lhb_lrqs t' r))) = res
      | Denied _ \<Rightarrow> \<not> lrq_in_use (lhb_lrqs t' r))"

lemma wait_begin_fate:
  assumes "lrq_in_use (lhb_lrqs t r)"
  shows "core (lhb_lrqs (wait_begin r t) r) = (True, True, lrq_requested (lhb_lrqs t r), state_in t r, lrq_lock (lhb_lrqs t r))"
    and "lrq_owner (lhb_lrqs (wait_begin r t) r) = lrq_owner (lhb_lrqs t r)"
    and "own_pending_request (lhb_owns (wait_begin r t) (lrq_owner (lhb_lrqs t r))) = r"
    and "resource (lhb_lbls (wait_begin r t) l) = resource (lhb_lbls t l)"
proof -
  let ?p = "lrq_owner (lhb_lrqs t r)" and ?l = "lrq_lock (lhb_lrqs t r)"
  let ?t2 = "upd_own ?p (\<lambda>ow. ow\<lparr>own_pending_request := r, own_scanned := False, own_wakeup := False, own_semaphore := True\<rparr>)
    (mark_pending r t)"
  have eq: "wait_begin r t = post_blockage r ?l False ?t2" by (simp add: wait_begin_def Let_def)
  have l: "light ?t2 (wait_begin r t)" unfolding eq by simp
  then show "core (lhb_lrqs (wait_begin r t) r) = (True, True, lrq_requested (lhb_lrqs t r), state_in t r, ?l)"
    "lrq_owner (lhb_lrqs (wait_begin r t) r) = ?p"
    using assms by (simp_all add: light_def mark_pending_simps core_def)
  show "resource (lhb_lbls (wait_begin r t) l) = resource (lhb_lbls t l)"
    using l by (simp add: light_def mark_pending_simps resource_def)
  have "own_pending_request (lhb_owns (post_blockage_loop r que f t') ?p) = own_pending_request (lhb_owns t' ?p)" for que f t'
    by (induction que arbitrary: t') (auto simp: Let_def signal_owner_def)
  then show "own_pending_request (lhb_owns (wait_begin r t) ?p) = r" unfolding eq post_blockage_def by simp
qed

lemma grant_or_que_fate:
  assumes "table_ok t" "lrq_in_use (lhb_lrqs t r)" "lrq_lock (lhb_lrqs t r) = l" "state_in t r = 0"
    and "\<not> lrq_pending (lhb_lrqs t r)" "grant_or_que r l w t = (out, t')"
  shows "fate r (lrq_owner (lhb_lrqs t r)) (lrq_requested (lhb_lrqs t r)) (resource (lhb_lbls t l)) out t'"
proof -
  note d = table_okD [OF assms(1,2), unfolded assms(3)]
  have "(lhb_lrqs t r)\<lparr>lrq_lock := l\<rparr> = lhb_lrqs t r" by (rule lrq.equality) (simp_all add: assms(3))
  then have same: "upd_lrq r (\<lambda>q. q\<lparr>lrq_lock := l\<rparr>) t = t" by (simp add: upd_lrq_def)
  consider (granted) "COMPATIBLE (lrq_requested (lhb_lrqs t r)) (lbl_state (lhb_lbls t l))" "out = Granted" "t' = post_pending l (grant r l t)"
    | (waits) "out = Waiting" "t' = wait_begin r t" | (denied) st where "out = Denied st" "t' = release_request r (count_deny w t)"
    using assms(6) unfolding grant_or_que_def same by (auto simp: Let_def deny_request_def split: if_splits)
  then show ?thesis
  proof cases
    case granted
    have ok: "lock_ok (grant r l t) l"
      using grant_lock_ok [OF lock_openI_state0 [OF d(2,3) assms(4)]] granted(1) d(2) by (simp add: lock_ok_def)
    have q: "lhb_lrqs t' r = granted_request (lhb_lrqs t r)"
      unfolding granted(3) by (subst post_pending_keeps) (simp_all add: grant_simps granted_request_def)
    have "resource (lhb_lbls t' l) = resource (lhb_lbls (grant r l t) l)"
      using post_pending_ok(2) [OF ok] unfolding granted(3) grants_only_def by blast
    also have "\<dots> = resource (lhb_lbls t l)" by (simp add: grant_simps granted_lock_def resource_def Let_def)
    finally show ?thesis using assms(2,3) granted(2) q by (simp add: fate_def granted_request_def)
  next
    case waits
    then show ?thesis using wait_begin_fate [OF assms(2)] assms(3,4) by (simp add: fate_def core_def)
  next
    case denied
    have "table_ok (count_deny w t)" using light_table_ok [OF light_count_deny assms(1)] .
    moreover have "lrq_in_use (lhb_lrqs (count_deny w t) r)" using assms(2) by (simp add: count_deny_def Let_def)
    ultimately show ?thesis using release_request_frame(1) denied by (simp add: fate_def)
  qed
qed


lemma enq_request_fate:
  assumes "table_ok t" "room t" "type \<le> LCK_EX" "\<not> lrq_in_use (lhb_lrqs t 0)"
    and "enq_request remap parent series value type ast arg data w p t = (Enq r out, t')"
    and "short_name series value"
  shows "fate r p type (parent, series, value) out t'"
  using assms(1,5)
proof (cases rule: enq_request_cases)
  case no_block
  then show ?thesis using assms(4) by (simp add: fate_def)
next
  case (joins r' t1 l out')
  then have r: "r' = r" "out' = out" by simp_all
  note joins = joins [unfolded r]
  let ?t3 = "join_request r l series data (init_request r type ast arg p t1)"
  note i = init_request_spec(1,2) [OF assms(1) joins(1), where type = type and ast = ast and arg = arg and p = p]
  have "locks_hashed t" using assms(1) by (simp add: table_ok_def structure_ok_def)
  note res = find_lock_Some(2) [OF this joins(2)]
  have "fate r (lrq_owner (lhb_lrqs ?t3 r)) (lrq_requested (lhb_lrqs ?t3 r)) (resource (lhb_lbls ?t3 l)) out t'"
    using grant_or_que_fate [OF join_request_ok [OF assms(1-3) joins(1,2)] join_request_simps(1-4) [OF assms(1) joins(1)] joins(3)] .
  then show ?thesis using res by (simp add: join_request_def i resource_def)
next
  case (creates r' t1 l t3)
  then have r: "r' = r" "out = Granted" by simp_all
  note creates = creates [unfolded r]
  have "lhb_lrqs t3 = lhb_lrqs (init_request r type ast arg p t1)"
    using creates(3) alloc_spec(2) by (auto simp: alloc_lock_def Let_def split: option.splits)
  then have "lhb_lrqs t3 r = fresh_request r type ast arg p (lhb_lrqs t r)"
    using init_request_spec(1) [OF assms(1) creates(1)] by simp
  then show ?thesis unfolding r(2) creates(4) new_lock_grant
    using assms(6) by (simp add: fate_def grant_simps hashed_lock_simps granted_request_def granted_lock_def resource_def used_key_def
      lbl_length_def short_name_def Let_def)
next
  case (no_lock r' t1)
  have "alloc_request remap t = Some (r', t1) \<Longrightarrow> lhb_lrqs (init_request r' type ast arg p t1) 0 = lhb_lrqs t 0 \<or> r' = 0"
    using init_request_spec(1) [OF assms(1)] by simp
  then show ?thesis using no_lock assms(4) by (auto simp: fate_def unalloc_request_def)
qed

lemma LOCK_enq_fate:
  assumes "table_ok t" "owned_ok t" "room t" "type \<le> LCK_EX"
    and "LOCK_enq remap prior par series value type ast arg data w p t = Inr (Enq r out, t')"
    and "short_name series value"
  shows "fate r p type (if par = 0 then 0 else lrq_lock (lhb_lrqs t par), series, value) out t'"
proof -
  have p: "\<not> (p = 0 \<or> own_count (lhb_owns t p) = 0)" using assms(5) by (simp add: LOCK_enq_def split: if_splits)
  have b: "table_ok (bump lhb_enqs t)" "room (bump lhb_enqs t)"
    using light_table_ok [OF light_updates(1) assms(1)] assms(3) by (simp_all add: room_def)
  obtain t1 parent where t1: "(if prior \<noteq> 0 then dequeue prior (bump lhb_enqs t) else Inr (bump lhb_enqs t)) = Inr t1"
    and par: "(if par \<noteq> 0 then map_result lrq_lock (get_request par t1) else Inr 0) = Inr parent"
    and enq: "enq_request remap parent series value type ast arg data w p t1 = (Enq r out, t')"
    using assms(5) unfolding LOCK_enq_def if_not_P [OF p] bind_result_eq_Inr by auto
  have ok: "table_ok t1 \<and> room t1" using t1 b dequeue_ok dequeue_room by (auto split: if_splits)
  have z: "\<not> lrq_in_use (lhb_lrqs t 0)" using nonzero_request [OF assms(2)] by blast
  have t1D: "t1 = bump lhb_enqs t \<or> (lrq_in_use (lhb_lrqs t prior) \<and>
      t1 = release_request prior (upd_lrq prior (\<lambda>q. q\<lparr>lrq_ast_routine := 0\<rparr>) (bump lhb_enqs t)))"
    using t1 by (auto simp: dequeue_def dest: get_request_Inr split: if_splits)
  have keep: "\<not> lrq_in_use (lhb_lrqs t1 0) \<and> lrq_lock (lhb_lrqs t1 q) = lrq_lock (lhb_lrqs t q)" for q
  proof (cases "t1 = bump lhb_enqs t")
    case True
    then show ?thesis using z by simp
  next
    case False
    let ?t0 = "upd_lrq prior (\<lambda>q. q\<lparr>lrq_ast_routine := 0\<rparr>) (bump lhb_enqs t)"
    have d: "lrq_in_use (lhb_lrqs ?t0 prior)" "t1 = release_request prior ?t0" using t1D False by simp_all
    have "\<not> lrq_in_use (lhb_lrqs ?t0 0)" using z by simp
    then show ?thesis unfolding d(2)
      using release_request_frame(1) [OF light_table_ok [OF light_updates(14) b(1)] d(1)] by (simp add: release_request_locks)
  qed
  have "parent = (if par = 0 then 0 else lrq_lock (lhb_lrqs t par))"
    using par keep [of par] by (auto dest: get_request_Inr split: if_splits)
  then show ?thesis using enq_request_fate [OF _ _ assms(4) _ enq assms(6)] ok keep by simp
qed

text \<open>A conversion: the request has the new state, keeps the one it had, or waits with the one it had.\<close>

definition converted :: "ptr \<Rightarrow> nat \<Rightarrow> nat \<Rightarrow> outcome \<Rightarrow> lhb \<Rightarrow> bool" where
  "converted r old type out t' \<longleftrightarrow> lrq_in_use (lhb_lrqs t' r) \<and>
     state_in t' r = (if out = Granted then type else old) \<and>
     lrq_requested (lhb_lrqs t' r) = (case out of Denied _ \<Rightarrow> old | _ \<Rightarrow> type) \<and> (lrq_pending (lhb_lrqs t' r) \<longleftrightarrow> out = Waiting)"

lemma convert_fate:
  assumes "table_ok t" "\<not> lrq_pending (lhb_lrqs t r)" "convert r type w ast arg t = Inr (out, t')"
  shows "converted r (state_in t r) type out t'"
proof -
  let ?l = "lrq_lock (lhb_lrqs t r)"
  let ?t2 = "upd_lbl ?l (count_down (state_in t r)) (upd_lrq r (\<lambda>q. q\<lparr>lrq_requested := type\<rparr>) t)"
  let ?t3 = "upd_lbl ?l (count_up (state_in t r)) ?t2"
  have use: "lrq_in_use (lhb_lrqs t r)" using assms(3) by (auto simp: convert_def dest: get_request_Inr)
  consider (granted) "out = Granted" "t' = post_pending ?l (grant r ?l (upd_lrq r (set_ast ast arg) ?t2))"
    | (waits) "out = Waiting" "t' = wait_begin r ?t3" | (denied) st where "out = Denied st" "t' = deny_convert r w ?t3"
    using assms(3) get_request_ok [OF assms(1) use] by (auto simp: convert_def Let_def split: if_splits)
  then show ?thesis
  proof cases
    case granted
    have "lhb_lrqs t' r = lhb_lrqs (grant r ?l (upd_lrq r (set_ast ast arg) ?t2)) r"
      unfolding granted(2) by (rule post_pending_keeps) (simp add: grant_simps granted_request_def)
    then show ?thesis using granted(1) use by (simp add: converted_def grant_simps granted_request_def set_ast_def)
  next
    case waits
    have "lrq_in_use (lhb_lrqs ?t3 r)" using use by simp
    from wait_begin_fate(1) [OF this] show ?thesis using waits by (simp add: converted_def core_def)
  next
    case denied
    then show ?thesis using use assms(2) by (simp add: converted_def deny_convert_def count_deny_def Let_def)
  qed
qed


section \<open>Downgrading\<close>

lemma downgrade_state_spec:
  assumes "pending \<le> LCK_EX"
  shows "COMPATIBLE pending (downgrade_state pending st)"
    and "downgrade_state pending st < x \<Longrightarrow> x \<le> st \<Longrightarrow> \<not> COMPATIBLE pending x"
  using assms by (induction st) (auto simp: ib.compat_bottom le_Suc_eq split: if_splits)

lemma Max_merge:
  fixes a :: nat
  assumes "finite A"
  shows "Max (insert s (insert a A)) = Max (insert (max a s) A)"
  using assms by (cases "A = {}") (simp_all add: max.assoc max.left_commute)

lemma pending_state_spec:
  assumes "\<forall>q \<in> set que. lrq_requested (lrqs q) \<le> LCK_EX" "st \<le> LCK_EX"
  shows "pending_state lrqs r que st = Max (insert st (lrq_requested ` lrqs ` {q \<in> set que. lrq_pending (lrqs q) \<and> q \<noteq> r}))"
  using assms
proof (induction que arbitrary: st)
  case (Cons q que)
  let ?P = "\<lambda>que. {q \<in> set que. lrq_pending (lrqs q) \<and> q \<noteq> r}"
  show ?case
  proof (cases "lrq_pending (lrqs q) \<and> q \<noteq> r")
    case True
    define st1 where "st1 = max (lrq_requested (lrqs q)) st"
    have b: "st1 \<le> LCK_EX" using Cons.prems by (simp add: st1_def)
    have "?P (q # que) = insert q (?P que)" using True by auto
    then have "lrq_requested ` lrqs ` ?P (q # que) = insert (lrq_requested (lrqs q)) (lrq_requested ` lrqs ` ?P que)" by simp
    then have max: "Max (insert st (lrq_requested ` lrqs ` ?P (q # que))) = Max (insert st1 (lrq_requested ` lrqs ` ?P que))"
      unfolding st1_def by (simp only:) (rule Max_merge, simp)
    show ?thesis
    proof (cases "st1 = LCK_EX")
      case True
      then have "Max (insert st1 (lrq_requested ` lrqs ` ?P que)) = LCK_EX" using Cons.prems(1) by (intro Max_eqI) auto
      then show ?thesis using True \<open>lrq_pending (lrqs q) \<and> q \<noteq> r\<close> max by (simp add: st1_def Let_def)
    next
      case False
      then show ?thesis using Cons.IH [of st1] Cons.prems(1) b max True by (simp add: st1_def [symmetric] Let_def)
    qed
  next
    case False
    then have eq: "?P (q # que) = ?P que" "pending_state lrqs r (q # que) st = pending_state lrqs r que st" by auto
    have "pending_state lrqs r que st = Max (insert st (lrq_requested ` lrqs ` ?P que))"
      using Cons.IH [OF _ Cons.prems(2)] Cons.prems(1) by simp
    then show ?thesis unfolding eq .
  qed
qed simp

lemma lower_incompatible:
  assumes "st \<le> old" "old \<le> LCK_EX" "x \<le> LCK_EX" "COMPATIBLE old x" "\<not> COMPATIBLE st x"
  shows "old = LCK_SW" "st = LCK_PR" "x = LCK_SW"
proof -
  have "st \<le> LCK_EX" using assms(1,2) by simp
  with assms have "old = LCK_SW \<and> st = LCK_PR \<and> x = LCK_SW"
    unfolding less_7_cases by (elim insertE emptyE; simp add: COMPATIBLE_def compatibility_def)
  then show "old = LCK_SW" "st = LCK_PR" "x = LCK_SW" by simp_all
qed

lemma convert_lower:
  assumes "table_ok t" "\<not> lrq_pending (lhb_lrqs t r)" "st \<le> state_in t r" "convert r st 0 ast arg t = Inr (out, t')"
  shows "state_in t' r = st \<or>
    (state_in t r = LCK_SW \<and> st = LCK_PR \<and> state_in t' r = LCK_SW \<and>
       (\<exists>q \<in> set (queue t (lrq_lock (lhb_lrqs t r))) - {r}. state_in t q = LCK_SW))"
proof (cases "out = Granted")
  case True
  then show ?thesis using convert_fate [OF assms(1,2,4)] by (simp add: converted_def)
next
  case False
  let ?l = "lrq_lock (lhb_lrqs t r)"
  let ?t1 = "upd_lbl ?l (count_down (state_in t r)) t"
  have use: "lrq_in_use (lhb_lrqs t r)" using assms(4) by (auto simp: convert_def dest: get_request_Inr)
  note d = table_okD [OF assms(1) use]
  have old: "state_in t r \<le> LCK_EX" using lock_ok_bounds [OF d(2,3)] by simp
  have "\<not> COMPATIBLE st (lock_state (lhb_lbls ?t1 ?l))"
    using assms(4) get_request_ok [OF assms(1) use] False by (auto simp: convert_def Let_def split: if_splits)
  from lock_open_holder [OF lock_openI_count_down [OF d(2,3)] this] assms(3) old
  obtain q where q: "q \<in> set (queue t ?l) - {r}" "\<not> COMPATIBLE st (state_in t q)" by auto
  have "COMPATIBLE (state_in t r) (state_in t q)" "state_in t q \<le> LCK_EX"
    using d(2,3) q(1) by (auto simp: lock_ok_def ib.held_def)
  note low = lower_incompatible [OF assms(3) old this(2,1) q(2)]
  have "state_in t' r = state_in t r" using convert_fate [OF assms(1,2,4)] False by (simp add: converted_def)
  then show ?thesis using low q(1) by auto
qed

text \<open>The state \<^verbatim>\<open>LOCK_downgrade\<close> looks for.\<close>

definition downgrade_target :: "lhb \<Rightarrow> ptr \<Rightarrow> nat" where
  "downgrade_target t r =
     (let q = lhb_lrqs t r;
          pending = Max (insert LCK_none (lrq_requested ` lhb_lrqs t `
            {p \<in> set (queue t (lrq_lock q)). lrq_pending (lhb_lrqs t p) \<and> p \<noteq> r}))
      in Max {x. x \<le> lrq_state q \<and> COMPATIBLE pending x})"

lemma LOCK_downgrade_cases:
  assumes "table_ok t" "lrq_in_use (lhb_lrqs t r)" "own_count (lhb_owns t (lrq_owner (lhb_lrqs t r))) \<noteq> 0"
    and "LOCK_downgrade r t = Inr (st, t')"
  obtains (release) "downgrade_target t r \<le> LCK_null" "st = LCK_none" "dequeue r (bump lhb_downgrades t) = Inr t'"
  | (lower) out where "LCK_null < st" "st = downgrade_target t r" "st \<le> state_in t r"
      "convert r st 0 (lrq_ast_routine (lhb_lrqs t r)) (lrq_ast_argument (lhb_lrqs t r)) (bump lhb_downgrades t) = Inr (out, t')"
proof -
  let ?l = "lrq_lock (lhb_lrqs t r)"
  define pending where "pending = pending_state (lhb_lrqs t) r (queue t ?l) LCK_none"
  define x where "x = downgrade_state pending (state_in t r)"
  note d = table_okD [OF assms(1,2)]
  have req: "\<forall>q \<in> set (queue t ?l). lrq_requested (lhb_lrqs t q) \<le> LCK_EX" using lock_ok_bounds [OF d(2)] by blast
  have max: "pending = Max (insert LCK_none (lrq_requested ` lhb_lrqs t ` {p \<in> set (queue t ?l). lrq_pending (lhb_lrqs t p) \<and> p \<noteq> r}))"
    unfolding pending_def by (rule pending_state_spec [OF req]) simp
  then have "pending \<le> LCK_EX" using req by simp
  note s = downgrade_state_spec [OF this, of "state_in t r", folded x_def]
  have le: "x \<le> state_in t r" unfolding x_def by (rule downgrade_state_le)
  have "Max {x. x \<le> state_in t r \<and> COMPATIBLE pending x} = x"
    using s le by (intro Max_eqI) (auto simp: not_le [symmetric])
  then have tgt: "downgrade_target t r = x" by (simp add: downgrade_target_def max Let_def)
  have eq: "LOCK_downgrade r t = (if x = LCK_none \<or> x = LCK_null then map_result (Pair LCK_none) (dequeue r (bump lhb_downgrades t))
      else map_result (\<lambda>(_, t2). (x, t2)) (convert r x 0 (lrq_ast_routine (lhb_lrqs t r)) (lrq_ast_argument (lhb_lrqs t r))
        (bump lhb_downgrades t)))"
    using assms(3) get_request_ok [OF assms(1,2)] by (simp add: LOCK_downgrade_def pending_def x_def Let_def)
  show ?thesis
  proof (cases "x = LCK_none \<or> x = LCK_null")
    case True
    then show ?thesis using release tgt assms(4) unfolding eq by auto
  next
    case False
    then show ?thesis using lower tgt le assms(4) unfolding eq by auto
  qed
qed


end
