(* ===== verification/Lock_Props.thy ===== *)
theory Lock_Props
  imports Lock_Example Lock_Outcome
begin

text \<open>
  What the lock manager of \<^verbatim>\<open>src/lock/lock.c\<close> guarantees in every table it can reach from a
  freshly initialized one.
\<close>

section \<open>The invariant in use\<close>

lemma reachable_lock_ok:
  assumes "lock_reachable (lock_start used mapped hash_slots in_order) s" "0 < used" "lrq_in_use (lhb_lrqs (lock_table s) r)"
  defines "l \<equiv> lrq_lock (lhb_lrqs (lock_table s) r)"
  shows "lbl_in_use (lhb_lbls (lock_table s) l)" "lock_ok (lock_table s) l" "r \<in> set (queue (lock_table s) l)"
  using table_okD [OF reachable_ok(1) [OF assms(1,2)] assms(3)] by (simp_all add: l_def)

text \<open>
  (C1) No two requests for one resource are ever held in incompatible states, however the
  owners' calls, waits, signals, timeouts, deadlock victims and deaths are interleaved.  The calls
  of \<open>lock_step\<close> name resources by a series below 256 and a key of less than 256 bytes, as the
  engine's do: a longer key does not fit the block and is not protected (\<open>LOCK_enq_long_key\<close>).
\<close>

theorem lock_exclusion:
  assumes "lock_reachable (lock_start used mapped hash_slots in_order) s" "0 < used"
    and "lrq_in_use (lhb_lrqs (lock_table s) r)" "lrq_in_use (lhb_lrqs (lock_table s) q)" "r \<noteq> q"
    and "resource (lhb_lbls (lock_table s) (lrq_lock (lhb_lrqs (lock_table s) r))) =
         resource (lhb_lbls (lock_table s) (lrq_lock (lhb_lrqs (lock_table s) q)))"
  shows "COMPATIBLE (state_in (lock_table s) r) (state_in (lock_table s) q)"
proof -
  note r = reachable_lock_ok [OF assms(1,2,3)] and q = reachable_lock_ok [OF assms(1,2,4)]
  have "locks_unique (lock_table s)"
    using reachable_ok(1) [OF assms(1,2)] by (simp add: table_ok_def structure_ok_def)
  then have "lrq_lock (lhb_lrqs (lock_table s) r) = lrq_lock (lhb_lrqs (lock_table s) q)"
    using r(1) q(1) assms(6) by (simp add: locks_unique_def)
  then show ?thesis using r(2,3) q(3) assms(5) by (auto simp: lock_ok_def ib.held_def)
qed

theorem lock_exclusion_witness:
  "COMPATIBLE (state_in ex_table6 252) (state_in ex_table6 516)"
  using lock_exclusion [OF ex_reach6, of 252 516] by (simp add: ex_sys_def ex_table6 ex_eval)

text \<open>
  (C4) The book-keeping of a lock is exact: its counts are the numbers of requests in each
  state, its pending count is the number of waiting requests, and its state is the highest
  state any of its requests holds.
\<close>

theorem lock_counts_exact:
  assumes "lock_reachable (lock_start used mapped hash_slots in_order) s" "0 < used" "lbl_in_use (lhb_lbls (lock_table s) l)"
  shows "(\<forall>st. 1 \<le> st \<and> st \<le> LCK_EX \<longrightarrow>
      lbl_counts (lhb_lbls (lock_table s) l) st = card {r \<in> set (queue (lock_table s) l). state_in (lock_table s) r = st})
    \<and> lbl_pending_lrq_count (lhb_lbls (lock_table s) l) = card {r \<in> set (queue (lock_table s) l). lrq_pending (lhb_lrqs (lock_table s) r)}
    \<and> lbl_state (lhb_lbls (lock_table s) l) = Max (insert 0 (state_in (lock_table s) ` set (queue (lock_table s) l)))"
proof -
  let ?t = "lock_table s"
  have ok: "lock_ok ?t l" using reachable_ok(1) [OF assms(1,2)] assms(3) by (simp add: table_ok_def locks_ok_def)
  then have c: "counts_ok (lbl_counts (lhb_lbls ?t l)) (set (queue ?t l)) (state_in ?t)"
    and b: "\<forall>r \<in> set (queue ?t l). state_in ?t r \<le> LCK_EX" by (auto simp: lock_ok_def lock_shape_def)
  note spec = state_of_counts_spec [OF c finite_set b]
  have st: "lbl_state (lhb_lbls ?t l) = state_of_counts (lbl_counts (lhb_lbls ?t l))" using ok by (simp add: lock_ok_def lock_state_def)
  have "state_of_counts (lbl_counts (lhb_lbls ?t l)) \<in> insert 0 (state_in ?t ` set (queue ?t l))"
    using spec(2) unfolding image_iff insert_iff by metis
  then have "Max (insert 0 (state_in ?t ` set (queue ?t l))) = state_of_counts (lbl_counts (lhb_lbls ?t l))"
    using spec(1) by (intro Max_eqI) auto
  then show ?thesis using ok c st by (auto simp: lock_ok_def lock_shape_def counts_ok_def)
qed

theorem lock_counts_exact_witness:
  "lbl_state (lhb_lbls ex_table6 408) = Max (insert 0 (state_in ex_table6 ` {360, 468}))"
  using lock_counts_exact [OF ex_reach6, of 408] by (simp add: ex_sys_def ex_table6 ex_eval)

text \<open>
  Looking a resource up finds the one lock block in use for it, and nothing when there
  is none.
\<close>

theorem find_lock_correct:
  assumes "lock_reachable (lock_start used mapped hash_slots in_order) s" "0 < used"
  shows "find_lock parent series value (lock_table s) = Some l \<longleftrightarrow>
    lbl_in_use (lhb_lbls (lock_table s) l) \<and> resource (lhb_lbls (lock_table s) l) = (parent, series, value)"
proof -
  have s: "locks_hashed (lock_table s)" "locks_unique (lock_table s)"
    using reachable_ok(1) [OF assms] by (simp_all add: table_ok_def structure_ok_def)
  show ?thesis
  proof (cases "find_lock parent series value (lock_table s)")
    case None
    then show ?thesis using find_lock_None [OF s(1) None] by auto
  next
    case (Some k)
    note k = find_lock_Some [OF s(1) Some]
    then show ?thesis using Some s(2) by (auto simp: locks_unique_def)
  qed
qed

theorem find_lock_correct_witness: "find_lock 0 1 [66] ex_table6 = Some 408"
  using find_lock_correct [OF ex_reach6, of 0 1 "[66]" 408]
  by (simp add: ex_sys_def ex_table6 ex_eval resource_def used_key_def lbl_length_def)

text \<open>
  A key of 256 bytes and more is never found again: its length does not fit \<^verbatim>\<open>lbl_length\<close>.
\<close>

lemma find_lock_long:
  assumes "256 \<le> length value"
  shows "find_lock parent series value t = None"
proof -
  have "lbl_length k \<noteq> length value" for k
    using assms mod_less_divisor [of 256 "length (lbl_key k)"] unfolding lbl_length_def by linarith
  then show ?thesis by (auto simp: find_lock_def find_None_iff Let_def)
qed

lemma alloc_lock_lrqs:
  assumes "alloc_lock remap n t = Some (l, t')"
  shows "lhb_lrqs t' = lhb_lrqs t"
proof -
  define bytes where "bytes = (n + 3) div 4 * 4 mod 65536"
  show ?thesis
    using assms alloc_spec(2) unfolding alloc_lock_def bytes_def [symmetric] by (auto simp: Let_def split: option.splits)
qed

text \<open>
  A request for a resource whose key has 256 bytes or more is granted at once, in whatever
  state others hold a lock on the same resource, unless there is no room for its blocks: it
  never waits, and is never refused in favour of another request.
\<close>

theorem LOCK_enq_long_key:
  assumes "256 \<le> length value"
    and "LOCK_enq remap prior par series value type ast arg data w p t = Inr (Enq r out, t')"
  shows "(out = Granted \<and> lrq_in_use (lhb_lrqs t' r) \<and> lrq_owner (lhb_lrqs t' r) = p \<and> state_in t' r = type) \<or>
    out = Denied lock_manager_out_of_room"
proof -
  obtain t1 parent where enq: "enq_request remap parent series value type ast arg data w p t1 = (Enq r out, t')"
    using assms(2) by (auto simp: LOCK_enq_def split: if_splits)
  have new: "lhb_lrqs (new_lock l r' parent series value type data t3) r' = granted_request ((lhb_lrqs t3 r')\<lparr>lrq_lock := l\<rparr>)" for l r' t3
    by (simp add: new_lock_grant grant_simps hashed_lock_simps)
  show ?thesis
    using enq find_lock_long [OF assms(1)]
    by (auto simp: enq_request_def Let_def new granted_request_def init_request_simps dest!: alloc_lock_lrqs split: option.splits)
qed

theorem LOCK_enq_long_key_witness:
  "\<exists>r t'. LOCK_enq (\<lambda>_. None) 0 0 1 (replicate 256 65) LCK_EX 0 0 0 1 100 ex_table2 = Inr (Enq r Granted, t') \<and>
     state_in t' r = LCK_EX"
proof -
  let ?v = "replicate 256 65 :: byte list"
  obtain r t' where t': "LOCK_enq (\<lambda>_. None) 0 0 1 ?v LCK_EX 0 0 0 1 100 ex_table2 = Inr (Enq r Granted, t')"
    using find_lock_long [of ?v]
    by (simp add: LOCK_enq_def enq_request_def alloc_request_def alloc_def alloc_lock_def ex_table2 lrq_bytes_def lbl_bytes_def
      init_request_simps length_simps_ops free_grant ex_eval Let_def)
  then show ?thesis using LOCK_enq_long_key [OF _ t'] by auto
qed

section \<open>Deadlocks\<close>

text \<open>
  (C2) The search for deadlocks started by a waiting request always ends, and a victim it
  names is a pending request on a cycle of the wait-for graph that the request waits on:
  nobody is rejected who is not in a deadlock.
\<close>

theorem deadlock_victim_on_cycle:
  assumes "lock_reachable (lock_start used mapped hash_slots in_order) s" "0 < used"
    and "lrq_pending (lhb_lrqs (lock_table s) r)"
  shows "\<exists>v t'. deadlock_scan p r (lock_table s) = Some (v, t') \<and>
    (\<forall>q. v = Some q \<longrightarrow> lrq_pending (lhb_lrqs (lock_table s) q) \<and>
       (q, q) \<in> (waits_for (lock_table s))\<^sup>+ \<and> (r, q) \<in> (waits_for (lock_table s))\<^sup>*)"
proof -
  let ?t = "lock_table s"
  have ok: "table_ok ?t" "pending_ok ?t" using reachable_ok(1,2) [OF assms(1,2)] by (simp_all add: owned_ok_def)
  have "r \<in> waiting ?t" using assms(3) by (simp add: waiting_def)
  then obtain v t' where s: "deadlock_scan p r ?t = Some (v, t')" "\<And>q. v = Some q \<Longrightarrow> cycle_at ?t r q"
    using deadlock_scan_spec [OF ok] by (metis (no_types, lifting))
  have "lrq_pending (lhb_lrqs ?t q) \<and> (q, q) \<in> (waits_for ?t)\<^sup>+ \<and> (r, q) \<in> (waits_for ?t)\<^sup>*" if "v = Some q" for q
  proof -
    have c: "(q, q) \<in> (stalled_for ?t)\<^sup>+" "(r, q) \<in> (stalled_for ?t)\<^sup>*" using s(2) [OF that] by (simp_all add: cycle_at_def)
    then obtain x where "(x, q) \<in> stalled_for ?t" by (meson tranclD2)
    then have "lrq_pending (lhb_lrqs ?t q)" by (auto simp: stalled_for_def stalled_via_def awaits_def)
    moreover have "(q, q) \<in> (waits_for ?t)\<^sup>+" using trancl_mono [OF c(1) stalled_waits] .
    moreover have "(r, q) \<in> (waits_for ?t)\<^sup>*" using rtrancl_mono [OF stalled_waits] c(2) by blast
    ultimately show ?thesis by simp
  qed
  then show ?thesis using s(1) by blast
qed

theorem deadlock_victim_on_cycle_witness:
  "\<exists>v t'. deadlock_scan 100 468 ex_table6 = Some (v, t') \<and> (\<forall>q. v = Some q \<longrightarrow> (q, q) \<in> (waits_for ex_table6)\<^sup>+)"
  using deadlock_victim_on_cycle [OF ex_reach6, of 468 100] by (auto simp: ex_sys_def ex_table6 ex_eval)




section \<open>What the operations come to\<close>

lemma reachable_idle:
  assumes "lock_reachable (lock_start used mapped hash_slots in_order) s" "0 < used"
    and "lrq_in_use (lhb_lrqs (lock_table s) r)" "lock_waits s (lrq_owner (lhb_lrqs (lock_table s) r)) = None"
  shows "\<not> lrq_pending (lhb_lrqs (lock_table s) r)"
proof -
  note ok = reachable_ok [OF assms(1,2)]
  have "sys_ok s" using ok by (simp add: sys_ok_def)
  from sys_ok_idle [OF this assms(4) owner_in_table [OF ok(1,2) assms(3)]] show ?thesis using idle_not_pending ok(2) by blast
qed

text \<open>
  (C7) A request for a lock that is granted is held in the state asked for, by the owner that
  asked and on the resource it named; one that has to wait is pending and holds nothing;
  and of one that is denied nothing is left.  The series is below 256 and the key has less than
  256 bytes, so that both fit the lock block.
\<close>

theorem LOCK_enq_outcome:
  assumes "lock_reachable (lock_start used mapped hash_slots in_order) s" "0 < used"
    and "room (lock_table s)" "type \<le> LCK_EX"
    and "LOCK_enq remap prior par series value type ast arg data w p (lock_table s) = Inr (Enq r out, t')"
    and "short_name series value"
  shows "fate r p type (if par = 0 then 0 else lrq_lock (lhb_lrqs (lock_table s) par), series, value) out t'"
  by (rule LOCK_enq_fate [OF reachable_ok(1,2) [OF assms(1,2)] assms(3-6)])

theorem LOCK_enq_outcome_witness: "fate 408 100 LCK_PR (0, 1, [65]) Waiting sw_table5"
proof -
  have "room sw_table4" by (simp add: room_def sw_table4 sw_lbl_def null_lbl_def)
  then show ?thesis using LOCK_enq_outcome [OF sw_reach4, of LCK_PR "\<lambda>_. None" 0 0 1 "[65]" 0 0 0 1 100 408 Waiting sw_table5] sw_table5(1)
    by (simp add: ex_sys_def short_name_def)
qed

text \<open>
  (C8) A conversion that is granted leaves the request in the new state, a denied one in the
  state it had, and a waiting one holds its old state while it is pending for the new one.
\<close>

theorem LOCK_convert_outcome:
  assumes "lock_reachable (lock_start used mapped hash_slots in_order) s" "0 < used"
    and "lock_waits s (lrq_owner (lhb_lrqs (lock_table s) r)) = None"
    and "LOCK_convert r type w ast arg (lock_table s) = Inr (Some out, t')"
  shows "converted r (state_in (lock_table s) r) type out t'"
proof -
  let ?t = "lock_table s"
  have b: "table_ok (bump a (bump b ?t))" for a b
    using light_table_ok [OF light_trans [OF light_updates(1) light_updates(1)] reachable_ok(1) [OF assms(1,2)]] .
  have use: "lrq_in_use (lhb_lrqs ?t r)" using assms(4) by (auto simp: LOCK_convert_def dest: get_request_Inr)
  have np: "\<not> lrq_pending (lhb_lrqs (bump a (bump b ?t)) r)" for a b using reachable_idle [OF assms(1,2) use assms(3)] by simp
  obtain a b where "convert r type w ast arg (bump a (bump b ?t)) = Inr (out, t')"
    using assms(4) by (auto simp: LOCK_convert_def split: if_splits)
  from convert_fate [OF b np this] show ?thesis by simp
qed

theorem LOCK_convert_outcome_witness:
  "\<exists>t'. LOCK_convert 360 LCK_PR 0 0 0 sw_table5 = Inr (Some (Denied gds_lock_conflict), t') \<and>
     converted 360 LCK_SW LCK_PR (Denied gds_lock_conflict) t'"
proof -
  obtain t' where c: "LOCK_convert 360 LCK_PR 0 0 0 sw_table5 = Inr (Some (Denied gds_lock_conflict), t')"
    by (simp add: LOCK_convert_def convert_def get_request_def sw_table5 ex_wait_def ex_eval sw_lbl_def Let_def count_down_def
      dec16_def lock_state_def state_of_counts_def COMPATIBLE_def compatibility_def wait_status_def)
  then show ?thesis
    using LOCK_convert_outcome [OF sw_reach5, of 360 LCK_PR 0 0 0 _ t'] by (simp add: ex_sys_def sw_table5(4) sw_table5(2) ex_eval)
qed

text \<open>
  (C9) \<^verbatim>\<open>LOCK_downgrade\<close> takes the highest state not above the current one that is compatible
  with the highest state waited for: it releases the request when that is none or null, and
  otherwise the request ends up in the state returned, but for a request that shares the lock
  with another shared-write request and is to go down to protected read.
\<close>

theorem LOCK_downgrade_outcome:
  assumes "lock_reachable (lock_start used mapped hash_slots in_order) s" "0 < used"
    and "lock_waits s (lrq_owner (lhb_lrqs (lock_table s) r)) = None"
    and "own_count (lhb_owns (lock_table s) (lrq_owner (lhb_lrqs (lock_table s) r))) \<noteq> 0"
    and "LOCK_downgrade r (lock_table s) = Inr (st, t')"
  defines "l \<equiv> lrq_lock (lhb_lrqs (lock_table s) r)"
  shows "if downgrade_target (lock_table s) r \<le> LCK_null then st = LCK_none \<and> \<not> lrq_in_use (lhb_lrqs t' r)
    else st = downgrade_target (lock_table s) r \<and> lrq_in_use (lhb_lrqs t' r) \<and> \<not> lrq_pending (lhb_lrqs t' r) \<and>
      (state_in t' r = st \<or> (st = LCK_PR \<and> state_in t' r = LCK_SW \<and>
         (\<exists>q \<in> set (queue (lock_table s) l) - {r}. state_in (lock_table s) q = LCK_SW)))"
proof -
  let ?t = "lock_table s" and ?u = "bump lhb_downgrades (lock_table s)"
  note ok = reachable_ok(1) [OF assms(1,2)]
  have b: "table_ok ?u" using light_table_ok [OF light_updates(1) ok] .
  have use: "lrq_in_use (lhb_lrqs ?t r)" using assms(5) by (auto simp: LOCK_downgrade_def dest: get_request_Inr)
  have np: "\<not> lrq_pending (lhb_lrqs ?u r)" using reachable_idle [OF assms(1,2) use assms(3)] by simp
  from ok use assms(4,5) show ?thesis
  proof (cases rule: LOCK_downgrade_cases)
    case release
    then have t': "t' = release_request r (upd_lrq r (\<lambda>q. q\<lparr>lrq_ast_routine := 0\<rparr>) ?u)" by (auto simp: dequeue_def)
    have "lrq_in_use (lhb_lrqs (upd_lrq r (\<lambda>q. q\<lparr>lrq_ast_routine := 0\<rparr>) ?u) r)" using use by simp
    from release_request_frame(1) [OF light_table_ok [OF light_updates(14) b] this] release show ?thesis by (simp add: t')
  next
    case (lower out)
    have fate: "lrq_in_use (lhb_lrqs t' r)" "\<not> lrq_pending (lhb_lrqs t' r)"
      using convert_fate [OF b np lower(4)] lower(4) by (auto simp: converted_def convert_def Let_def split: if_splits)
    have "state_in t' r = st \<or> (state_in ?u r = LCK_SW \<and> st = LCK_PR \<and> state_in t' r = LCK_SW \<and>
        (\<exists>q \<in> set (queue ?u (lrq_lock (lhb_lrqs ?u r))) - {r}. state_in ?u q = LCK_SW))"
      using convert_lower [OF b np _ lower(4)] lower(3) by simp
    then show ?thesis using lower(1,2) fate unfolding l_def by auto
  qed
qed

theorem LOCK_downgrade_outcome_witness:
  "\<exists>t'. LOCK_downgrade 360 sw_table5 = Inr (LCK_PR, t') \<and> lrq_in_use (lhb_lrqs t' 360) \<and> \<not> lrq_pending (lhb_lrqs t' 360)"
proof -
  obtain t' where t': "LOCK_downgrade 360 sw_table5 = Inr (LCK_PR, t')" using sw_downgrade by blast
  then show ?thesis
    using LOCK_downgrade_outcome [OF sw_reach5, of 360 LCK_PR t'] by (auto simp: ex_sys_def sw_table5(4) sw_table5(2) ex_eval split: if_splits)
qed

text \<open>
  (C10) The exception is real: with two owners sharing a lock for write and somebody waiting
  to read, \<^verbatim>\<open>LOCK_downgrade\<close> tells an owner that it went down to protected read while its
  request still holds shared write.
\<close>

theorem LOCK_downgrade_misreports:
  "\<exists>s r t'. lock_reachable (lock_start 100 32768 3 True) s \<and> lock_waits s (lrq_owner (lhb_lrqs (lock_table s) r)) = None \<and>
     LOCK_downgrade r (lock_table s) = Inr (LCK_PR, t') \<and> state_in t' r = LCK_SW"
proof -
  obtain t' where "LOCK_downgrade 360 sw_table5 = Inr (LCK_PR, t')" "state_in t' 360 = LCK_SW" using sw_downgrade by blast
  moreover have "lrq_owner (lhb_lrqs sw_table5 360) = 176" by (simp add: sw_table5 ex_eval)
  ultimately show ?thesis using sw_reach5
    by (intro exI [of _ "ex_sys sw_table5 ((\<lambda>_. None)(100 := Some (Enq_wait 408 1)))"] exI [of _ 360] exI [of _ t']) (simp add: ex_sys_def)
qed


text \<open>
  (C5) When waiting requests are granted in order (\<open>LOCK_ordering\<close>, which the configuration
  value \<^verbatim>\<open>V4_LOCK_GRANT_ORDER\<close> sets and which is the default), a release forgets nobody: everything
  in front of the first request that still waits has been granted, and that request is kept out
  by the state of another request of the lock.  It is not so when they are granted in any order:
  a conversion granted later in the same pass can make room for a request already looked at.
\<close>

theorem LOCK_deq_grants_waiters:
  assumes "lock_reachable (lock_start used mapped hash_slots in_order) s" "0 < used" "LOCK_ordering (lock_table s)"
    and "LOCK_deq r (lock_table s) = Inr (True, t')"
  defines "l \<equiv> lrq_lock (lhb_lrqs (lock_table s) r)"
  assumes "lbl_in_use (lhb_lbls t' l)" "queue t' l = pre @ q # post"
    and "\<forall>x \<in> set pre. \<not> lrq_pending (lhb_lrqs t' x)" "lrq_pending (lhb_lrqs t' q)"
  shows "\<exists>x \<in> set (queue t' l) - {q}. \<not> COMPATIBLE (lrq_requested (lhb_lrqs t' q)) (state_in t' x)"
proof -
  let ?t = "lock_table s"
  obtain a b where d: "dequeue r (bump a (bump b ?t)) = Inr t'"
    using assms(4) by (auto simp: LOCK_deq_def split: if_splits)
  let ?u = "upd_lrq r (\<lambda>q. q\<lparr>lrq_ast_routine := 0\<rparr>) (bump a (bump b ?t))"
  have ok: "table_ok ?u"
    using light_table_ok [OF light_trans [OF light_trans [OF light_updates(1) light_updates(1)] light_updates(14)] reachable_ok(1) [OF assms(1,2)]] .
  have use: "lrq_in_use (lhb_lrqs ?u r)" and t': "t' = release_request r ?u"
    using d by (auto simp: dequeue_def dest: get_request_Inr)
  have "first_held_up t' l (queue t' l)"
    using release_request_complete [OF ok use] assms(3,6) by (simp add: t' l_def)
  moreover have "dropWhile (\<lambda>q. \<not> lrq_pending (lhb_lrqs t' q)) (pre @ q # post) = q # post"
    using assms(8,9) by (simp add: dropWhile_append)
  ultimately show ?thesis unfolding first_held_up_def assms(7) by (simp add: held_up_def assms(7))
qed

theorem LOCK_deq_grants_waiters_witness:
  "\<exists>t'. LOCK_deq 252 sw_table5 = Inr (True, t') \<and> (\<exists>x \<in> {360, 408} - {408}. \<not> COMPATIBLE LCK_PR (state_in t' x))"
proof -
  obtain t' where t': "LOCK_deq 252 sw_table5 = Inr (True, t')" "queue t' 300 = [360] @ 408 # []" "lbl_in_use (lhb_lbls t' 300)"
    "\<not> lrq_pending (lhb_lrqs t' 360)" "lrq_pending (lhb_lrqs t' 408)" "lrq_requested (lhb_lrqs t' 408) = LCK_PR"
    by (simp add: LOCK_deq_def dequeue_def get_request_def release_request_uncount unlink_simps uncount_def post_pending_def sw_table5
      ex_wait_def ex_eval sw_lbl_def Let_def COMPATIBLE_def compatibility_def count_down_def dec16_def post_wakeup_def)
  have "lrq_lock (lhb_lrqs sw_table5 252) = 300" by (simp add: sw_table5 ex_eval)
  then show ?thesis
    using LOCK_deq_grants_waiters [OF sw_reach5, of 252 t' "[360]" 408 "[]"] t' sw_table5(6) by (auto simp: ex_sys_def)
qed

section \<open>Waiting and leaving\<close>

text \<open>
  (C6) The turn a waiting owner takes when it wakes up always comes to an end: purging dead
  owners and the search for deadlocks terminate in every reachable table.
\<close>

theorem wait_turn_returns:
  assumes "lock_reachable (lock_start used mapped hash_slots in_order) s" "0 < used"
    and "lock_waits s p = Some wt" "\<not> dead p"
  shows "\<exists>t'. wait_turn dead expired posted w (wait_request wt) (lock_table s) = Some t'"
proof -
  note ok = reachable_ok [OF assms(1,2)]
  have "wait_ok (lock_table s) p (Some wt)" using ok(3) assms(3) unfolding waits_ok_def by metis
  then have r: "lrq_in_use (lhb_lrqs (lock_table s) (wait_request wt))" "lrq_owner (lhb_lrqs (lock_table s) (wait_request wt)) = p"
    by (simp_all add: wait_ok_def)
  have "\<not> dead (lrq_owner (lhb_lrqs (lock_table s) (wait_request wt)))" using assms(4) r(2) by simp
  from ok(1,2) r(1) this obtain t' D where "wait_turn dead expired posted w (wait_request wt) (lock_table s) = Some t'"
    by (rule wait_turn_ok)
  then show ?thesis ..
qed

theorem wait_turn_returns_witness: "\<exists>t'. wait_turn (\<lambda>_. False) False False 1 468 ex_table6 = Some t'"
  using wait_turn_returns [OF ex_reach6, of 100 "Enq_wait 468 1" "\<lambda>_. False" False False 1] by (simp add: ex_sys_def)

text \<open>
  (C11) Purging an owner, when it detaches or its process is found dead, comes to an end and
  releases exactly what it had: no request of it is left, and the others keep theirs.
\<close>

theorem purge_owner_releases:
  assumes "lock_reachable (lock_start used mapped hash_slots in_order) s" "0 < used" "p \<in> set (lhb_owners (lock_table s))"
  shows "\<exists>t'. purge_owner p (lock_table s) = Some t' \<and> set (lhb_owners t') = set (lhb_owners (lock_table s)) - {p} \<and>
    (\<forall>r. lrq_in_use (lhb_lrqs t' r) \<longrightarrow> lrq_owner (lhb_lrqs t' r) \<noteq> p) \<and>
    (\<forall>r. lrq_in_use (lhb_lrqs (lock_table s) r) \<and> lrq_owner (lhb_lrqs (lock_table s) r) \<noteq> p \<longrightarrow>
        lrq_in_use (lhb_lrqs t' r) \<and> lrq_owner (lhb_lrqs t' r) = lrq_owner (lhb_lrqs (lock_table s) r))"
proof -
  note ok = reachable_ok [OF assms(1,2)]
  obtain t' where t': "purge_owner p (lock_table s) = Some t'" "table_ok t'" "owned_ok t'" "purged {p} (lock_table s) t'"
    using purge_owner_ok [OF ok(1,2) assms(3)] .
  then have "set (lhb_owners t') = set (lhb_owners (lock_table s)) - {p}" by (simp add: purged_def)
  then have "lrq_owner (lhb_lrqs t' r) \<noteq> p" if "lrq_in_use (lhb_lrqs t' r)" for r
    using owner_in_table [OF t'(2,3) that] by auto
  then show ?thesis using t'(1,4) by (auto simp: purged_def)
qed

theorem purge_owner_releases_witness:
  "\<exists>t'. purge_owner 100 ex_table6 = Some t' \<and> set (lhb_owners t') = {176} \<and> lrq_in_use (lhb_lrqs t' 360)"
  using purge_owner_releases [OF ex_reach6, of 100] by (auto simp: ex_sys_def ex_table6 ex_eval)


end
