(* ===== verification/Tip.thy ===== *)
theory Tip
  imports Sbm
begin

text \<open>
  The states of transactions: the transaction inventory pages (TIP) and the snapshots taken
  from them, \<^verbatim>\<open>src/jrd/tra.c\<close>, and the cache of inventory pages, \<^verbatim>\<open>src/jrd/tpc.c\<close>.

  The model is the UNIX classic configuration.  The page cache is left out: fetching a page
  is reading its current contents.  The lock manager is a parameter: \<open>granted n\<close> says whether
  a lock on transaction \<open>n\<close> can be had at once.  Transaction numbers stay below \<^verbatim>\<open>0x7fffffff\<close>.
\<close>

section \<open>Two bits per transaction\<close>

abbreviation (input) TRA_MASK :: nat where "TRA_MASK \<equiv> 3"

abbreviation (input) tra_active :: nat where "tra_active \<equiv> 0"
abbreviation (input) tra_limbo :: nat where "tra_limbo \<equiv> 1"
abbreviation (input) tra_dead :: nat where "tra_dead \<equiv> 2"
abbreviation (input) tra_committed :: nat where "tra_committed \<equiv> 3"
abbreviation (input) tra_us :: nat where "tra_us \<equiv> 4"
abbreviation (input) tra_precommitted :: nat where "tra_precommitted \<equiv> 5"

definition TRANS_SHIFT :: "nat \<Rightarrow> nat" where
  "TRANS_SHIFT number = number mod 4 * 2"

definition TRANS_OFFSET :: "nat \<Rightarrow> nat" where
  "TRANS_OFFSET number = number div 4"

definition state_bits :: "byte \<Rightarrow> nat \<Rightarrow> nat" where
  "state_bits b shift = unat (drop_bit shift b AND 3)"

definition put_bits :: "nat \<Rightarrow> nat \<Rightarrow> byte \<Rightarrow> byte" where
  "put_bits shift state b = (b AND NOT (push_bit shift 3)) OR push_bit shift (of_nat state)"

text \<open>
  The differences are those of \<^verbatim>\<open>ULONG\<close>: below the base of the vector they wrap around.
\<close>

definition TRA_state :: "byte list \<Rightarrow> nat \<Rightarrow> nat \<Rightarrow> nat result" where
  "TRA_state bit_vector oldest number =
     (let base = oldest div 4 * 4;
          offset = TRANS_OFFSET ((number + 4294967296 - base) mod 4294967296)
      in if offset < length bit_vector then Inr (state_bits (bit_vector ! offset) (TRANS_SHIFT number)) else Inl OUT_OF_BOUNDS)"

definition set_bits_at :: "nat \<Rightarrow> nat \<Rightarrow> nat \<Rightarrow> byte list \<Rightarrow> byte list" where
  "set_bits_at byte shift state bits = bits[byte := put_bits shift state (bits ! byte)]"

section \<open>The database\<close>

record tpc =
  tpc_base :: nat
  tpc_transactions :: "byte list"

text \<open>
  The header page and the inventory pages are on disk and shared; the fields after them
  belong to the process.  \<^verbatim>\<open>dbb_tip_cache\<close> is the chain of cache blocks.
\<close>

record dbb =
  hdr_next_transaction :: nat
  hdr_oldest_transaction :: nat
  hdr_oldest_active :: nat
  hdr_oldest_snapshot :: nat
  tip_pages :: "byte list list"
  pgc_tpt :: nat
  dbb_read_only :: bool
  dbb_next_transaction :: nat
  dbb_oldest_transaction :: nat
  dbb_oldest_active :: nat
  dbb_oldest_snapshot :: nat
  dbb_tip_cache :: "tpc list"
  dbb_pc_transactions :: "nat list option"

text \<open>The vector of precommitted transactions; a 0 in it is a free slot.\<close>

fun swap_precommitted :: "nat \<Rightarrow> nat \<Rightarrow> nat list \<Rightarrow> nat list option" where
  "swap_precommitted old_number new_number [] = None"
| "swap_precommitted old_number new_number (p # vector) =
     (if p = old_number then Some (new_number # vector)
      else map_option (Cons p) (swap_precommitted old_number new_number vector))"

definition TRA_precommited :: "nat \<Rightarrow> nat \<Rightarrow> dbb \<Rightarrow> bool \<times> dbb" where
  "TRA_precommited old_number new_number d =
     (if dbb_pc_transactions d = None \<and> old_number = new_number then (False, d)
      else let vector = (case dbb_pc_transactions d of None \<Rightarrow> [0] | Some v \<Rightarrow> v);
               d1 = d\<lparr>dbb_pc_transactions := Some vector\<rparr>
           in case swap_precommitted old_number new_number vector of
                Some v \<Rightarrow> (new_number \<noteq> 0, d1\<lparr>dbb_pc_transactions := Some v\<rparr>)
              | None \<Rightarrow>
                  (if old_number = new_number \<or> new_number = 0 then (False, d1)
                   else case swap_precommitted 0 new_number vector of
                          Some v \<Rightarrow> (True, d1\<lparr>dbb_pc_transactions := Some v\<rparr>)
                        | None \<Rightarrow> (True, d1\<lparr>dbb_pc_transactions := Some (vector @ [new_number])\<rparr>)))"

definition precommitted :: "nat \<Rightarrow> dbb \<Rightarrow> bool" where
  "precommitted number d = (number \<noteq> 0 \<and> dbb_pc_transactions d \<noteq> None \<and> fst (TRA_precommited number number d))"

section \<open>The cache of inventory pages\<close>

text \<open>Blocks whose transactions are all older than the oldest interesting one are released.\<close>

fun release_blocks :: "nat \<Rightarrow> nat \<Rightarrow> tpc list \<Rightarrow> tpc list" where
  "release_blocks oldest trans_per_tip [] = []"
| "release_blocks oldest trans_per_tip (tip_cache # cache) =
     (if oldest \<ge> tpc_base tip_cache + trans_per_tip then release_blocks oldest trans_per_tip cache else tip_cache # cache)"

fun assign_block :: "nat \<Rightarrow> byte list \<Rightarrow> tpc list \<Rightarrow> tpc list" where
  "assign_block first_trans bits [] = []"
| "assign_block first_trans bits (tip_cache # cache) =
     (if first_trans = tpc_base tip_cache
      then tip_cache\<lparr>tpc_transactions := bits @ drop (length bits) (tpc_transactions tip_cache)\<rparr> # cache
      else tip_cache # assign_block first_trans bits cache)"

definition TPC_update_cache :: "byte list \<Rightarrow> nat \<Rightarrow> dbb \<Rightarrow> dbb" where
  "TPC_update_cache tip_page sequence d =
     (let trans_per_tip = pgc_tpt d; first_trans = sequence * trans_per_tip;
          cache = release_blocks (dbb_oldest_transaction d) trans_per_tip (dbb_tip_cache d)
      in d\<lparr>dbb_tip_cache := assign_block first_trans (take (TRANS_OFFSET trans_per_tip) tip_page) cache\<rparr>)"

text \<open>\<^verbatim>\<open>fetch_inventory_page\<close>; \<^verbatim>\<open>BUGCHECK (165)\<close> is "cannot find tip page".\<close>

definition fetch_inventory_page :: "nat \<Rightarrow> dbb \<Rightarrow> (byte list \<times> dbb) result" where
  "fetch_inventory_page sequence d =
     (if sequence < length (tip_pages d)
      then Inr (tip_pages d ! sequence, TPC_update_cache (tip_pages d ! sequence) sequence d)
      else Inl (BUGCHECK 165))"

definition TRA_fetch_state :: "nat \<Rightarrow> dbb \<Rightarrow> (nat \<times> dbb) result" where
  "TRA_fetch_state number d =
     map_result (\<lambda>(tip, d1). (state_bits (tip ! TRANS_OFFSET (number mod pgc_tpt d)) (TRANS_SHIFT number), d1))
       (fetch_inventory_page (number div pgc_tpt d) d)"

text \<open>
  \<^verbatim>\<open>TRA_get_inventory\<close>: the pages from that of \<open>base\<close> to that of \<open>newest\<close>, one after the other; the
  result is what is moved into the bit vector, if there is one.
\<close>

fun inventory_pages :: "nat \<Rightarrow> nat \<Rightarrow> nat \<Rightarrow> dbb \<Rightarrow> (byte list \<times> dbb) result" where
  "inventory_pages 0 sequence newest d = Inr ([], d)"
| "inventory_pages (Suc n) sequence newest d =
     bind_result (fetch_inventory_page sequence d)
       (\<lambda>(tip, d1). map_result (\<lambda>(bits, d2).
            (take (TRANS_OFFSET (min (newest + TRA_MASK - sequence * pgc_tpt d) (pgc_tpt d))) tip @ bits, d2))
          (inventory_pages n (Suc sequence) newest d1))"

definition TRA_get_inventory :: "nat \<Rightarrow> nat \<Rightarrow> dbb \<Rightarrow> (byte list \<times> dbb) result" where
  "TRA_get_inventory base newest d =
     (let trans_per_tip = pgc_tpt d; sequence = base div trans_per_tip; last = newest div trans_per_tip;
          l = base mod trans_per_tip
      in bind_result (fetch_inventory_page sequence d)
           (\<lambda>(tip, d1). map_result (\<lambda>(bits, d2).
                (take (TRANS_OFFSET (min (newest + TRA_MASK - base) (trans_per_tip - l))) (drop (TRANS_OFFSET l) tip) @ bits, d2))
              (inventory_pages (last - sequence) (Suc sequence) newest d1)))"

definition allocate_tpc :: "nat \<Rightarrow> nat \<Rightarrow> tpc" where
  "allocate_tpc trans_per_tip base = \<lparr>tpc_base = base, tpc_transactions = replicate (trans_per_tip div 4) 0\<rparr>"

text \<open>
  The new blocks go to the end of the chain; at the first call the chain is empty.
\<close>

definition cache_transactions :: "nat \<Rightarrow> dbb \<Rightarrow> dbb result" where
  "cache_transactions oldest d =
     (let newest = hdr_next_transaction d;
          oldest1 = max oldest (hdr_oldest_transaction d);
          trans_per_tip = pgc_tpt d;
          bases = map (\<lambda>i. i * trans_per_tip) [oldest1 div trans_per_tip ..< Suc (newest div trans_per_tip)]
      in map_result snd (TRA_get_inventory oldest1 newest
           (d\<lparr>dbb_tip_cache := dbb_tip_cache d @ map (allocate_tpc trans_per_tip) bases\<rparr>)))"

definition TPC_initialize_tpc :: "nat \<Rightarrow> dbb \<Rightarrow> dbb result" where
  "TPC_initialize_tpc number d =
     (if dbb_tip_cache d = [] then cache_transactions 0 d
      else let tip_cache = last (dbb_tip_cache d) in
           if number < tpc_base tip_cache + pgc_tpt d then Inr d
           else cache_transactions (tpc_base tip_cache + pgc_tpt d) d)"

text \<open>The block a transaction is looked up in: the first that ends behind it.\<close>

definition find_block :: "nat \<Rightarrow> dbb \<Rightarrow> tpc option" where
  "find_block number d = List.find (\<lambda>tip_cache. number < tpc_base tip_cache + pgc_tpt d) (dbb_tip_cache d)"

definition block_state :: "tpc \<Rightarrow> nat \<Rightarrow> nat result" where
  "block_state tip_cache number = TRA_state (tpc_transactions tip_cache) (tpc_base tip_cache) number"

definition TPC_cache_state :: "nat \<Rightarrow> dbb \<Rightarrow> (nat \<times> dbb) result" where
  "TPC_cache_state number d =
     bind_result (if dbb_tip_cache d = [] then TPC_initialize_tpc number d else Inr d)
       (\<lambda>d1. if precommitted number d1 then Inr (tra_precommitted, d1)
             else case dbb_tip_cache d1 of
                    [] \<Rightarrow> Inl OUT_OF_BOUNDS
                  | tip_cache # _ \<Rightarrow>
                      (if number < tpc_base tip_cache then Inr (tra_committed, d1)
                       else case find_block number d1 of
                              Some block \<Rightarrow> map_result (\<lambda>state. (state, d1)) (block_state block number)
                            | None \<Rightarrow> Inr (tra_active, d1)))"

fun set_block_state :: "nat \<Rightarrow> nat \<Rightarrow> nat \<Rightarrow> tpc list \<Rightarrow> tpc list" where
  "set_block_state trans_per_tip number state [] = []"
| "set_block_state trans_per_tip number state (tip_cache # cache) =
     (if number < tpc_base tip_cache + trans_per_tip
      then tip_cache\<lparr>tpc_transactions := set_bits_at (TRANS_OFFSET (number mod trans_per_tip)) (TRANS_SHIFT number) state (tpc_transactions tip_cache)\<rparr> # cache
      else tip_cache # set_block_state trans_per_tip number state cache)"

definition TPC_set_state :: "nat \<Rightarrow> nat \<Rightarrow> dbb \<Rightarrow> dbb" where
  "TPC_set_state number state d = d\<lparr>dbb_tip_cache := set_block_state (pgc_tpt d) number state (dbb_tip_cache d)\<rparr>"

definition extend_cache :: "nat \<Rightarrow> dbb \<Rightarrow> (nat \<times> dbb) result" where
  "extend_cache number d =
     bind_result (cache_transactions (tpc_base (last (dbb_tip_cache d)) + pgc_tpt d) d)
       (\<lambda>d1. case find_block number d1 of
               Some block \<Rightarrow> map_result (\<lambda>state. (state, d1)) (block_state block number)
             | None \<Rightarrow> Inr (tra_active, d1))"

definition TPC_snapshot_state :: "(nat \<Rightarrow> bool) \<Rightarrow> nat \<Rightarrow> dbb \<Rightarrow> (nat \<times> dbb) result" where
  "TPC_snapshot_state granted number d =
     bind_result (if dbb_tip_cache d = [] then cache_transactions 0 d else Inr d)
       (\<lambda>d1. if precommitted number d1 then Inr (tra_precommitted, d1)
             else case dbb_tip_cache d1 of
                    [] \<Rightarrow> Inl OUT_OF_BOUNDS
                  | tip_cache # _ \<Rightarrow>
                      (if number < tpc_base tip_cache then Inr (tra_committed, d1)
                       else case find_block number d1 of
                              Some block \<Rightarrow>
                                bind_result (block_state block number)
                                  (\<lambda>state. if state = tra_committed \<or> state = tra_dead then Inr (state, d1)
                                           else if \<not> granted number then Inr (tra_active, d1)
                                           else TRA_fetch_state number d1)
                            | None \<Rightarrow> extend_cache number d1))"

definition TRA_get_state :: "(nat \<Rightarrow> bool) \<Rightarrow> nat \<Rightarrow> dbb \<Rightarrow> (nat \<times> dbb) result" where
  "TRA_get_state granted number d =
     (if dbb_tip_cache d \<noteq> [] then TPC_snapshot_state granted number d
      else if precommitted number d then Inr (tra_precommitted, d)
      else TRA_fetch_state number d)"

end
