(* ===== verification/Tra.thy ===== *)
theory Tra
  imports Tip
begin

text \<open>
  Transactions of \<^verbatim>\<open>src/jrd/tra.c\<close>: how one is started and takes its snapshot, how states are
  changed and looked up, how the dead are found, and the clean-up of the inventory pages.

  What the lock manager and the parameter buffer contribute is an argument: the options of the
  transaction, whether its own lock is granted, \<open>granted\<close> as in \<open>Tip\<close>, \<open>lock_data n\<close> for
  \<^verbatim>\<open>LCK_read_data\<close> on transaction \<open>n\<close> (0 when there is none) and \<open>query_min\<close> for
  \<^verbatim>\<open>LCK_query_data (.., LCK_MIN)\<close>.  The sweep, external files and savepoints are left out.
\<close>

section \<open>Transaction blocks\<close>

record tra =
  tra_number :: nat
  tra_newest :: nat
  tra_oldest :: nat
  tra_oldest_active :: nat
  tra_transactions :: "byte list"
  tra_commit_sub_trans :: "bitmap option"
  TRA_system :: bool
  TRA_read_committed :: bool
  TRA_readonly :: bool
  TRA_precommitted :: bool

text \<open>Where the state of a transaction stands in the snapshot.\<close>

definition snapshot_offset :: "tra \<Rightarrow> nat \<Rightarrow> nat" where
  "snapshot_offset tx number =
     TRANS_OFFSET ((number + 4294967296 - tra_oldest tx div 4 * 4) mod 4294967296)"

section \<open>Changing and reading states\<close>

definition TRA_set_state :: "tra option \<Rightarrow> nat \<Rightarrow> nat \<Rightarrow> dbb \<Rightarrow> dbb result" where
  "TRA_set_state transaction number state d =
     (if (case transaction of None \<Rightarrow> False | Some t \<Rightarrow> tra_number t = number \<and> TRA_precommitted t) then Inr d
      else if dbb_read_only d \<and> dbb_tip_cache d \<noteq> [] then Inr (TPC_set_state number state d)
      else let sequence = number div pgc_tpt d; byte = TRANS_OFFSET (number mod pgc_tpt d) in
           map_result (\<lambda>(tip, d1).
               let d2 = d1\<lparr>tip_pages := (tip_pages d1)[sequence := set_bits_at byte (TRANS_SHIFT number) state tip]\<rparr>
               in if dbb_tip_cache d2 \<noteq> [] then TPC_set_state number state d2 else d2)
             (fetch_inventory_page sequence d))"

definition TRA_snapshot_state :: "(nat \<Rightarrow> bool) \<Rightarrow> tra \<Rightarrow> nat \<Rightarrow> dbb \<Rightarrow> (nat \<times> dbb) result" where
  "TRA_snapshot_state granted tx number d =
     (if number \<noteq> 0 \<and> fst (TRA_precommited number number d) then Inr (tra_precommitted, d)
      else if number = tra_number tx then Inr (tra_us, d)
      else if number < tra_oldest tx then Inr (tra_committed, d)
      else if number = 0 \<or> TRA_system tx then Inr (tra_committed, d)
      else if TRA_read_committed tx then TPC_snapshot_state granted number d
      else if tra_commit_sub_trans tx \<noteq> None \<and> SBM_test (tra_commit_sub_trans tx) (int number)
      then Inr (tra_committed, d)
      else if number > tra_newest tx then Inr (tra_active, d)
      else map_result (\<lambda>state. (state, d)) (TRA_state (tra_transactions tx) (tra_oldest tx) number))"

text \<open>
  \<open>got\<close> says whether the lock on the transaction was obtained after the wait; without \<open>wait\<close>
  no lock is asked for.
\<close>

definition TRA_wait :: "(nat \<Rightarrow> bool) \<Rightarrow> bool \<Rightarrow> tra \<Rightarrow> nat \<Rightarrow> bool \<Rightarrow> dbb \<Rightarrow> (nat \<times> tra \<times> dbb) result" where
  "TRA_wait granted got tx number wait d =
     (if wait \<and> \<not> got then Inr (tra_active, tx, d)
      else bind_result (TRA_get_state granted number d)
        (\<lambda>(state, d1).
           if wait \<and> state = tra_committed \<or> state = tra_precommitted then Inr (state, tx, d1)
           else let state1 = (if state = tra_active then tra_dead else state) in
                bind_result (if state = tra_active then TRA_set_state None number tra_dead d1 else Inr d1)
                  (\<lambda>d2.
                     if number > tra_newest tx then Inr (state1, tx, d2)
                     else if TRA_read_committed tx then Inr (state1, tx, TPC_set_state number state1 d2)
                     else if snapshot_offset tx number < length (tra_transactions tx)
                     then Inr (state1, tx\<lparr>tra_transactions := set_bits_at (snapshot_offset tx number) (TRANS_SHIFT number)
                            state1 (tra_transactions tx)\<rparr>, d2)
                     else Inl OUT_OF_BOUNDS)))"

section \<open>Starting a transaction\<close>

definition TRA_extend_tip :: "nat \<Rightarrow> dbb \<Rightarrow> dbb result" where
  "TRA_extend_tip sequence d =
     map_result (\<lambda>d1. d1\<lparr>tip_pages := take sequence (tip_pages d1) @ [replicate (pgc_tpt d1 div 4) 0] @ drop (Suc sequence) (tip_pages d1)\<rparr>)
       (if sequence \<noteq> 0 then map_result snd (fetch_inventory_page (sequence - 1) d) else Inr d)"

definition bump_transaction_id :: "dbb \<Rightarrow> (nat \<times> dbb) result" where
  "bump_transaction_id d =
     (if hdr_next_transaction d \<noteq> 0 \<and> hdr_oldest_active d > hdr_next_transaction d then Inl (BUGCHECK 266)
      else if hdr_next_transaction d \<noteq> 0 \<and> hdr_oldest_transaction d > hdr_next_transaction d then Inl (BUGCHECK 267)
      else let number = hdr_next_transaction d + 1 in
           map_result (\<lambda>d1. (number, d1\<lparr>hdr_next_transaction := number,
               hdr_oldest_active := max (hdr_oldest_active d1) (dbb_oldest_active d1),
               hdr_oldest_transaction := max (hdr_oldest_transaction d1) (dbb_oldest_transaction d1),
               hdr_oldest_snapshot := max (hdr_oldest_snapshot d1) (dbb_oldest_snapshot d1)\<rparr>))
             (if number = 1 \<or> number mod pgc_tpt d = 0 then TRA_extend_tip (number div pgc_tpt d) d else Inr d))"

text \<open>The number of the transaction, the oldest interesting one, the oldest active and the oldest snapshot.\<close>

definition start_numbers :: "dbb \<Rightarrow> ((nat \<times> nat \<times> nat \<times> nat) \<times> dbb) result" where
  "start_numbers d =
     (if dbb_read_only d
      then let d1 = d\<lparr>dbb_next_transaction := dbb_next_transaction d + 1\<rparr>
           in Inr ((dbb_next_transaction d1, dbb_oldest_transaction d1,
                max (dbb_oldest_active d1) (dbb_oldest_transaction d1), dbb_oldest_snapshot d1), d1)
      else map_result (\<lambda>(number, d1). ((number, hdr_oldest_transaction d1,
                max (hdr_oldest_active d1) (hdr_oldest_transaction d1), hdr_oldest_snapshot d1), d1))
             (bump_transaction_id d))"

text \<open>The snapshot of everything between the oldest interesting transaction and this one.\<close>

definition take_snapshot :: "tra \<Rightarrow> dbb \<Rightarrow> (tra \<times> dbb) result" where
  "take_snapshot tx d =
     (if TRA_read_committed tx then map_result (\<lambda>d1. (tx, d1)) (TPC_initialize_tpc (tra_number tx) d)
      else let base = tra_oldest tx div 4 * 4; room = (tra_number tx - base + TRA_MASK) div 4 in
           bind_result (TRA_get_inventory base (tra_number tx) d)
             (\<lambda>(bits, d1). if length bits \<le> room
                then Inr (tx\<lparr>tra_transactions := bits @ replicate (room - length bits) 0\<rparr>, d1) else Inl OUT_OF_BOUNDS))"

text \<open>The state of an older transaction, as the loops of \<^verbatim>\<open>TRA_start\<close> read it.\<close>

definition seen_state :: "tra \<Rightarrow> nat \<Rightarrow> dbb \<Rightarrow> (nat \<times> dbb) result" where
  "seen_state tx number d =
     (if TRA_read_committed tx then TPC_cache_state number d
      else if snapshot_offset tx number < length (tra_transactions tx)
      then Inr (state_bits (tra_transactions tx ! snapshot_offset tx number) (TRANS_SHIFT number), d)
      else Inl OUT_OF_BOUNDS)"

text \<open>
  The search for the oldest active transaction: \<open>n\<close> transactions from \<open>active\<close> on.  A
  transaction without a lock is no longer there; every hundredth start marks it dead.
\<close>

fun scan_active ::
  "(nat \<Rightarrow> bool) \<Rightarrow> (nat \<Rightarrow> nat) \<Rightarrow> nat \<Rightarrow> nat \<Rightarrow> nat \<Rightarrow> nat \<Rightarrow> nat \<Rightarrow> bool \<Rightarrow> tra \<Rightarrow> dbb \<Rightarrow> (nat \<times> tra \<times> dbb) result" where
  "scan_active granted lock_data query_min oldest_snapshot 0 active oldest_active cleanup tx d = Inr (oldest_active, tx, d)"
| "scan_active granted lock_data query_min oldest_snapshot (Suc n) active oldest_active cleanup tx d =
     bind_result (seen_state tx active d)
       (\<lambda>(state, d1).
          if state \<noteq> tra_active
          then scan_active granted lock_data query_min oldest_snapshot n (Suc active) oldest_active cleanup tx d1
          else if lock_data active = 0 \<and> cleanup
          then bind_result (TRA_wait granted True tx active False d1)
                 (\<lambda>(state1, tx1, d2). scan_active granted lock_data query_min oldest_snapshot n (Suc active) oldest_active
                    (cleanup \<and> state1 \<noteq> tra_committed) tx1 d2)
          else let data = (if lock_data active = 0 then active else lock_data active);
                   snapshot = min (tra_oldest_active tx) data;
                   snapshot1 = (if snapshot \<noteq> oldest_snapshot \<and> query_min \<noteq> 0 then min snapshot query_min else snapshot)
               in Inr (min oldest_active active, tx\<lparr>tra_oldest_active := snapshot1\<rparr>, d1))"

text \<open>The search for the oldest interesting one: the first that is not committed.\<close>

fun scan_oldest :: "nat \<Rightarrow> nat \<Rightarrow> tra \<Rightarrow> dbb \<Rightarrow> (nat \<times> dbb) result" where
  "scan_oldest 0 oldest tx d = Inr (oldest, d)"
| "scan_oldest (Suc n) oldest tx d =
     bind_result (seen_state tx oldest d)
       (\<lambda>(state, d1). if state \<noteq> tra_committed \<and> state \<noteq> tra_precommitted then Inr (oldest, d1)
          else scan_oldest n (Suc oldest) tx d1)"

definition start_scans :: "(nat \<Rightarrow> bool) \<Rightarrow> (nat \<Rightarrow> nat) \<Rightarrow> nat \<Rightarrow> nat \<Rightarrow> nat \<Rightarrow> tra \<Rightarrow> dbb \<Rightarrow> (tra \<times> dbb) result" where
  "start_scans granted lock_data query_min oldest_snapshot active tx d =
     (let number = tra_number tx in
      bind_result (scan_active granted lock_data query_min oldest_snapshot (number - active) active number
          (number mod 100 = 0) (tx\<lparr>tra_oldest_active := number\<rparr>) d)
        (\<lambda>(oldest_active, tx1, d1). map_result (\<lambda>(oldest, d2).
             (tx1, d2\<lparr>dbb_oldest_transaction := (oldest + 4294967295) mod 4294967296, dbb_oldest_active := oldest_active,
                dbb_oldest_snapshot := max (dbb_oldest_snapshot d2) (tra_oldest_active tx1)\<rparr>))
           (scan_oldest (number - tra_oldest tx1) (tra_oldest tx1) tx1 d1)))"

text \<open>\<open>None\<close> stands for the error \<^verbatim>\<open>gds__lock_conflict\<close>.\<close>

definition TRA_start ::
  "bool \<Rightarrow> (nat \<Rightarrow> bool) \<Rightarrow> (nat \<Rightarrow> nat) \<Rightarrow> nat \<Rightarrow> tra \<Rightarrow> dbb \<Rightarrow> (tra option \<times> dbb) result" where
  "TRA_start lock_granted granted lock_data query_min temp d =
     bind_result (start_numbers d)
       (\<lambda>((number, oldest, active, oldest_snapshot), d1).
          if \<not> lock_granted then Inr (None, d1)
          else let tx = temp\<lparr>tra_number := number, tra_newest := number, tra_oldest := oldest, tra_oldest_active := active,
                     tra_transactions := [], tra_commit_sub_trans := None\<rparr>;
                   tx1 = (if dbb_read_only d1 then tx\<lparr>TRA_readonly := True, TRA_precommitted := True\<rparr> else tx)
               in bind_result (take_snapshot tx1 d1)
                 (\<lambda>(tx2, d2). bind_result (start_scans granted lock_data query_min oldest_snapshot active tx2 d2)
                    (\<lambda>(tx3, d3). map_result (\<lambda>(tx4, d4).
                         (Some tx4, if TRA_precommitted tx4 then snd (TRA_precommited 0 number d4) else d4))
                       (if TRA_readonly tx3 \<and> TRA_read_committed tx3
                        then map_result (\<lambda>d4. (tx3\<lparr>TRA_precommitted := True\<rparr>, d4))
                               (TRA_set_state (Some tx3) number tra_committed d3)
                        else Inr (tx3, d3)))))"

section \<open>Cleaning up\<close>

text \<open>The loop over the \<open>n\<close> transactions of a page from \<open>number\<close> on.\<close>

fun cleanup_bits :: "nat \<Rightarrow> nat \<Rightarrow> byte list \<Rightarrow> byte list result" where
  "cleanup_bits 0 number tip = Inr tip"
| "cleanup_bits (Suc n) number tip =
     (if TRANS_OFFSET number < length tip
      then cleanup_bits n (Suc number)
             (if state_bits (tip ! TRANS_OFFSET number) (TRANS_SHIFT number) = tra_active
              then set_bits_at (TRANS_OFFSET number) (TRANS_SHIFT number) tra_dead tip else tip)
      else Inl OUT_OF_BOUNDS)"

fun cleanup_pages :: "nat \<Rightarrow> nat \<Rightarrow> nat \<Rightarrow> nat \<Rightarrow> dbb \<Rightarrow> dbb result" where
  "cleanup_pages 0 sequence number ceiling d = Inr d"
| "cleanup_pages (Suc n) sequence number ceiling d =
     (if sequence < length (tip_pages d)
      then let trans_per_tip = pgc_tpt d;
               max1 = ceiling - sequence * trans_per_tip;
               max2 = (if max1 > trans_per_tip then trans_per_tip - 1 else max1)
           in bind_result (cleanup_bits (Suc max2 - number) number (tip_pages d ! sequence))
                (\<lambda>tip. cleanup_pages n (Suc sequence) 0 ceiling (d\<lparr>tip_pages := (tip_pages d)[sequence := tip]\<rparr>))
      else Inl (BUGCHECK 165))"

text \<open>\<open>attached\<close>: some attachment still has a transaction.\<close>

definition TRA_cleanup :: "bool \<Rightarrow> dbb \<Rightarrow> dbb result" where
  "TRA_cleanup attached d =
     (let ceiling = hdr_next_transaction d; active = hdr_oldest_active d; trans_per_tip = pgc_tpt d in
      if dbb_read_only d \<or> attached \<or> ceiling = 0 then Inr d
      else cleanup_pages (Suc (ceiling div trans_per_tip) - active div trans_per_tip) (active div trans_per_tip)
             (active mod trans_per_tip) ceiling d)"

end
