(* ===== verification/Tip_Inv.thy ===== *)
theory Tip_Inv
  imports Tra
begin

text \<open>
  The states on the inventory pages of \<^verbatim>\<open>src/jrd/tra.c\<close> as a function of the transaction
  number, the snapshots as segments of the pages, and the cache of \<^verbatim>\<open>src/jrd/tpc.c\<close> as an
  approximation of them.
\<close>

section \<open>Bits\<close>

lemma replaced_bits:
  fixes b v :: byte
  assumes "p \<le> 6" "p' \<le> 6" "even p" "even p'"
  shows "drop_bit p' ((b AND NOT (push_bit p (mask 2))) OR push_bit p (v AND mask 2)) AND mask 2 =
    (if p = p' then v AND mask 2 else drop_bit p' b AND mask 2)"
proof (rule bit_word_eqI)
  fix k assume "k < LENGTH(8)"
  show "bit (drop_bit p' ((b AND NOT (push_bit p (mask 2))) OR push_bit p (v AND mask 2)) AND mask 2) k =
    bit (if p = p' then v AND mask 2 else drop_bit p' b AND mask 2) k"
  proof (cases "k < 2")
    case True
    then have k: "p' + k < 8" using assms(2) by simp
    show ?thesis
    proof (cases "p = p'")
      case True
      then show ?thesis using \<open>k < 2\<close> k by (simp add: bit_simps)
    next
      case False
      then have "\<not> (p \<le> p' + k \<and> p' + k - p < 2)" using assms(3,4) True by presburger
      then show ?thesis using \<open>k < 2\<close> k False by (auto simp: bit_simps)
    qed
  qed (simp add: bit_simps)
qed

lemma state_bits_put:
  assumes "st < 4"
  shows "state_bits (put_bits (TRANS_SHIFT m) st b) (TRANS_SHIFT n) =
    (if m mod 4 = n mod 4 then st else state_bits b (TRANS_SHIFT n))"
proof -
  have st: "(of_nat st :: byte) = (of_nat st :: byte) AND mask 2" "unat (of_nat st :: byte) = st"
  proof -
    have "st = 0 \<or> st = 1 \<or> st = 2 \<or> st = 3" using assms by arith
    then show "(of_nat st :: byte) = (of_nat st :: byte) AND mask 2" "unat (of_nat st :: byte) = st"
      by (elim disjE; simp add: mask_eq_exp_minus_1)+
  qed
  have three: "(3 :: byte) = mask 2" by (simp add: mask_eq_exp_minus_1)
  have "drop_bit (TRANS_SHIFT n) ((b AND NOT (push_bit (TRANS_SHIFT m) (mask 2))) OR push_bit (TRANS_SHIFT m) (of_nat st AND mask 2)) AND mask 2 =
    (if TRANS_SHIFT m = TRANS_SHIFT n then of_nat st AND mask 2 else drop_bit (TRANS_SHIFT n) b AND mask 2)"
    by (rule replaced_bits) (simp_all add: TRANS_SHIFT_def)
  moreover have "TRANS_SHIFT m = TRANS_SHIFT n \<longleftrightarrow> m mod 4 = n mod 4" by (simp add: TRANS_SHIFT_def)
  ultimately show ?thesis using st by (simp add: state_bits_def put_bits_def three)
qed

lemma state_bits_less: "state_bits b s < 4"
proof -
  have "drop_bit s b AND 3 \<le> 3" by (rule word_and_le1)
  then have "unat (drop_bit s b AND 3) \<le> 3" using unat_mono[of 3 "drop_bit s b AND 3"] by (simp add: word_le_nat_alt)
  then show ?thesis by (simp add: state_bits_def)
qed

section \<open>The inventory\<close>

definition tips_ok :: "dbb \<Rightarrow> bool" where
  "tips_ok d \<longleftrightarrow> pgc_tpt d \<noteq> 0 \<and> pgc_tpt d mod 4 = 0 \<and> (\<forall>tip \<in> set (tip_pages d). length tip = pgc_tpt d div 4)"

definition tip_state :: "dbb \<Rightarrow> nat \<Rightarrow> nat" where
  "tip_state d n = state_bits (tip_pages d ! (n div pgc_tpt d) ! TRANS_OFFSET (n mod pgc_tpt d)) (TRANS_SHIFT n)"

text \<open>The number of transactions there is room for on the pages.\<close>

definition recorded :: "dbb \<Rightarrow> nat \<Rightarrow> bool" where
  "recorded d n \<longleftrightarrow> n div pgc_tpt d < length (tip_pages d)"

text \<open>What the operations on the cache leave as it is.\<close>

definition same_tips :: "dbb \<Rightarrow> dbb \<Rightarrow> bool" where
  "same_tips d d' \<longleftrightarrow> d' = d\<lparr>dbb_tip_cache := dbb_tip_cache d'\<rparr>"

lemma same_tips_refl [simp]: "same_tips d d"
  by (simp add: same_tips_def)

lemma same_tips_trans: "same_tips d d' \<Longrightarrow> same_tips d' d'' \<Longrightarrow> same_tips d d''"
  unfolding same_tips_def by (metis dbb.surjective dbb.update_convs(12))

lemma same_tipsD:
  assumes "same_tips d d'"
  shows "tip_pages d' = tip_pages d" "pgc_tpt d' = pgc_tpt d" "tip_state d' n = tip_state d n" "tips_ok d' = tips_ok d"
    and "recorded d' n = recorded d n" "dbb_read_only d' = dbb_read_only d" "hdr_next_transaction d' = hdr_next_transaction d"
    and "dbb_pc_transactions d' = dbb_pc_transactions d" "dbb_oldest_transaction d' = dbb_oldest_transaction d"
    and "hdr_oldest_transaction d' = hdr_oldest_transaction d" "hdr_oldest_active d' = hdr_oldest_active d"
    and "dbb_oldest_active d' = dbb_oldest_active d"
proof -
  have e: "d' = d\<lparr>dbb_tip_cache := dbb_tip_cache d'\<rparr>" using assms by (simp add: same_tips_def)
  show "tip_pages d' = tip_pages d" "pgc_tpt d' = pgc_tpt d" "tip_state d' n = tip_state d n" "tips_ok d' = tips_ok d"
    "recorded d' n = recorded d n" "dbb_read_only d' = dbb_read_only d" "hdr_next_transaction d' = hdr_next_transaction d"
    "dbb_pc_transactions d' = dbb_pc_transactions d" "dbb_oldest_transaction d' = dbb_oldest_transaction d"
    "hdr_oldest_transaction d' = hdr_oldest_transaction d" "hdr_oldest_active d' = hdr_oldest_active d"
    "dbb_oldest_active d' = dbb_oldest_active d"
    by (subst e, simp add: tip_state_def tips_ok_def recorded_def)+
qed

lemma same_tips_update [simp]: "same_tips d (TPC_update_cache tip seq d)" "same_tips d (TPC_set_state n st d)"
  "same_tips d (d\<lparr>dbb_tip_cache := c\<rparr>)"
  by (simp_all add: same_tips_def TPC_update_cache_def TPC_set_state_def Let_def)

lemma fetch_inventory_page_eq:
  "fetch_inventory_page seq d = Inr (tip, d') \<longleftrightarrow>
     seq < length (tip_pages d) \<and> tip = tip_pages d ! seq \<and> d' = TPC_update_cache tip seq d"
  by (auto simp: fetch_inventory_page_def)

lemma fetch_same: "fetch_inventory_page seq d = Inr (tip, d') \<Longrightarrow> same_tips d d' \<and> seq < length (tip_pages d) \<and> tip = tip_pages d ! seq"
  by (simp add: fetch_inventory_page_eq)

lemma TRA_fetch_state_spec:
  "TRA_fetch_state n d = Inr (st, d') \<Longrightarrow> recorded d n \<and> st = tip_state d n \<and> same_tips d d'"
  by (auto simp: TRA_fetch_state_def fetch_inventory_page_eq recorded_def tip_state_def)

lemma TRA_fetch_state_total: "recorded d n \<Longrightarrow> \<exists>d'. TRA_fetch_state n d = Inr (tip_state d n, d')"
  by (simp add: TRA_fetch_state_def fetch_inventory_page_def recorded_def tip_state_def)

text \<open>All pages in a row: byte \<open>n div 4\<close> holds the state of transaction \<open>n\<close>.\<close>

definition all_tips :: "dbb \<Rightarrow> byte list" where
  "all_tips d = concat (tip_pages d)"

lemma concat_chunks:
  assumes "\<forall>x \<in> set xs. length x = q" "i < length xs"
  shows "drop (i * q) (concat xs) = xs ! i @ drop (Suc i * q) (concat xs)"
  using assms
proof (induction xs arbitrary: i)
  case (Cons x xs)
  show ?case
  proof (cases i)
    case 0
    then show ?thesis using Cons.prems(1) by simp
  next
    case (Suc j)
    then have "drop (j * q) (concat xs) = xs ! j @ drop (Suc j * q) (concat xs)" using Cons by simp
    then show ?thesis using Suc Cons.prems(1) by simp
  qed
qed simp

lemma length_chunks: "\<forall>x \<in> set xs. length x = q \<Longrightarrow> length (concat xs) = length xs * q"
  by (induction xs) simp_all

lemma nth_chunks:
  assumes "\<forall>x \<in> set xs. length x = q" "i < length xs" "k < q"
  shows "concat xs ! (i * q + k) = xs ! i ! k"
proof -
  have "drop (i * q) (concat xs) ! k = (xs ! i @ drop (Suc i * q) (concat xs)) ! k" using concat_chunks [OF assms(1,2)] by simp
  moreover have "length (xs ! i) = q" using assms(1,2) by simp
  moreover have "i * q \<le> length (concat xs)" using assms(2) unfolding length_chunks [OF assms(1)] by simp
  ultimately show ?thesis using assms(3) by (simp add: nth_append)
qed

lemma tip_byte:
  assumes "tips_ok d" "recorded d n"
  shows "tip_state d n = state_bits (all_tips d ! (n div 4)) (TRANS_SHIFT n)" "n div 4 < length (all_tips d)"
proof -
  let ?q = "pgc_tpt d div 4"
  have t: "pgc_tpt d = 4 * ?q" "?q \<noteq> 0" using assms(1) by (auto simp: tips_ok_def)
  have pages: "\<forall>x \<in> set (tip_pages d). length x = ?q" using assms(1) by (simp add: tips_ok_def)
  have div: "n div 4 div ?q = n div pgc_tpt d" using t(1) by (metis div_mult2_eq)
  have mod: "n mod pgc_tpt d div 4 = n div 4 mod ?q"
    using t(1) by (metis mod_mult2_eq add.commute add_cancel_right_right div_mult_self2 mod_div_trivial zero_neq_numeral)
  have "n div 4 = n div pgc_tpt d * ?q + n div 4 mod ?q" using div by (metis div_mult_mod_eq)
  moreover have "n div 4 mod ?q < ?q" using t(2) by simp
  moreover have i: "n div pgc_tpt d < length (tip_pages d)" using assms(2) by (simp add: recorded_def)
  ultimately have "all_tips d ! (n div 4) = tip_pages d ! (n div pgc_tpt d) ! (n div 4 mod ?q)"
    unfolding all_tips_def using nth_chunks [OF pages] by metis
  then show "tip_state d n = state_bits (all_tips d ! (n div 4)) (TRANS_SHIFT n)"
    by (simp add: tip_state_def TRANS_OFFSET_def mod)
  show "n div 4 < length (all_tips d)"
    unfolding all_tips_def length_chunks [OF pages] using i div t(2) by (metis less_mult_imp_div_less div_less_iff_less_mult neq0_conv)
qed

section \<open>Changing a state\<close>

lemma set_bits_at_length [simp]: "length (set_bits_at k s st bits) = length bits"
  by (simp add: set_bits_at_def)

lemma set_bits_at_state:
  assumes "st < 4" "m div 4 < length bits" "n div 4 < length bits"
  shows "state_bits (set_bits_at (m div 4) (TRANS_SHIFT m) st bits ! (n div 4)) (TRANS_SHIFT n) =
    (if m = n then st else state_bits (bits ! (n div 4)) (TRANS_SHIFT n))"
proof (cases "m div 4 = n div 4")
  case True
  have "m = n \<longleftrightarrow> m mod 4 = n mod 4" using True by (metis div_mult_mod_eq)
  then show ?thesis using True assms state_bits_put [OF assms(1), of m "bits ! (m div 4)" n] by (simp add: set_bits_at_def)
next
  case False
  then show ?thesis by (auto simp: set_bits_at_def)
qed

text \<open>The page of a transaction, and its place there.\<close>

lemma TRANS_SHIFT_mod: "m mod 4 = 0 \<Longrightarrow> TRANS_SHIFT (n mod m) = TRANS_SHIFT n"
  by (simp add: TRANS_SHIFT_def mod_mod_cancel mod_eq_0_iff_dvd)

definition set_tip :: "nat \<Rightarrow> nat \<Rightarrow> dbb \<Rightarrow> dbb" where
  "set_tip m st d = d\<lparr>tip_pages := (tip_pages d)[m div pgc_tpt d :=
     set_bits_at (TRANS_OFFSET (m mod pgc_tpt d)) (TRANS_SHIFT m) st (tip_pages d ! (m div pgc_tpt d))]\<rparr>"

lemma set_tip_spec:
  assumes "tips_ok d" "recorded d m" "st < 4"
  shows "tips_ok (set_tip m st d)" "recorded (set_tip m st d) n = recorded d n"
    and "recorded d n \<Longrightarrow> tip_state (set_tip m st d) n = (if n = m then st else tip_state d n)"
proof -
  let ?t = "pgc_tpt d"
  let ?tip = "tip_pages d ! (m div ?t)"
  have t: "?t mod 4 = 0" "?t \<noteq> 0" and len: "\<forall>tip \<in> set (tip_pages d). length tip = ?t div 4"
    using assms(1) by (simp_all add: tips_ok_def)
  have m: "m div ?t < length (tip_pages d)" using assms(2) by (simp add: recorded_def)
  then have lt: "length ?tip = ?t div 4" using len by simp
  show "tips_ok (set_tip m st d)" "recorded (set_tip m st d) n = recorded d n"
    using t len lt by (auto simp: tips_ok_def set_tip_def recorded_def dest: set_update_subset_insert [THEN subsetD])
  show "tip_state (set_tip m st d) n = (if n = m then st else tip_state d n)" if n: "recorded d n"
  proof (cases "n div ?t = m div ?t")
    case True
    have "?t div 4 * 4 = ?t" using t(1) by presburger
    then have "k mod ?t div 4 < ?t div 4" for k using t(2) by (intro less_mult_imp_div_less) simp
    moreover have "m mod ?t = n mod ?t \<longleftrightarrow> m = n" using True by (metis div_mult_mod_eq)
    ultimately show ?thesis
      using set_bits_at_state [OF assms(3), of "m mod ?t" ?tip "n mod ?t"] True m lt TRANS_SHIFT_mod [OF t(1)]
      by (simp add: tip_state_def set_tip_def TRANS_OFFSET_def eq_commute)
  next
    case False
    then show ?thesis by (auto simp: tip_state_def set_tip_def)
  qed
qed

lemma set_tip_cache: "set_tip m st (d\<lparr>dbb_tip_cache := c\<rparr>) = (set_tip m st d)\<lparr>dbb_tip_cache := c\<rparr>"
  by (simp add: set_tip_def)

lemma TRA_set_state_eq:
  assumes "\<not> (dbb_read_only d \<and> dbb_tip_cache d \<noteq> [])" "recorded d m"
  obtains c where "TRA_set_state None m st d = Inr ((set_tip m st d)\<lparr>dbb_tip_cache := c\<rparr>)"
proof -
  let ?seq = "m div pgc_tpt d"
  define c1 where "c1 = dbb_tip_cache (TPC_update_cache (tip_pages d ! ?seq) ?seq d)"
  have "TPC_update_cache (tip_pages d ! ?seq) ?seq d = d\<lparr>dbb_tip_cache := c1\<rparr>"
    by (simp add: c1_def TPC_update_cache_def Let_def)
  then have f: "fetch_inventory_page ?seq d = Inr (tip_pages d ! ?seq, d\<lparr>dbb_tip_cache := c1\<rparr>)"
    using assms(2) by (simp add: fetch_inventory_page_def recorded_def)
  have no: "\<not> (case None of None \<Rightarrow> False | Some t \<Rightarrow> tra_number t = m \<and> TRA_precommitted t)" by simp
  define d2 where "d2 = set_tip m st (d\<lparr>dbb_tip_cache := c1\<rparr>)"
  have "TRA_set_state None m st d = Inr (if dbb_tip_cache d2 \<noteq> [] then TPC_set_state m st d2 else d2)"
    unfolding TRA_set_state_def if_not_P [OF no] if_not_P [OF assms(1)] Let_def f by (simp add: d2_def set_tip_def)
  moreover have "\<exists>c. (if dbb_tip_cache d2 \<noteq> [] then TPC_set_state m st d2 else d2) = (set_tip m st d)\<lparr>dbb_tip_cache := c\<rparr>"
    by (cases "c1 = []") (auto simp: d2_def set_tip_cache TPC_set_state_def)
  ultimately show ?thesis using that by metis
qed

lemma TRA_set_state_spec:
  assumes "recorded d m" "\<not> (dbb_read_only d \<and> dbb_tip_cache d \<noteq> [])"
  obtains d' where "TRA_set_state None m st d = Inr d'" "same_tips (set_tip m st d) d'"
  using TRA_set_state_eq [OF assms(2,1)] same_tips_update(3) by metis

section \<open>Snapshots\<close>

lemma take_chunk:
  assumes "length x = q" "t = 4 * q" "t \<le> m + t"
  shows "take (TRANS_OFFSET (min m t)) x @ take (TRANS_OFFSET (m - t)) ys = take (TRANS_OFFSET m) (x @ ys)"
proof (cases "m \<le> t")
  case True
  then have "m div 4 \<le> q" using assms(2) by simp
  then show ?thesis using True assms(1) by (simp add: TRANS_OFFSET_def)
next
  case False
  then have "m div 4 = q + (m - t) div 4" using assms(2) by presburger
  then show ?thesis using False assms(1,2) by (simp add: TRANS_OFFSET_def)
qed

lemma inventory_pages_spec:
  assumes "tips_ok d" "inventory_pages n seq newest d = Inr (bits, d')" "n + seq = Suc (newest div pgc_tpt d)"
  shows "same_tips d d' \<and> (n = 0 \<or> n + seq \<le> length (tip_pages d)) \<and>
    bits = take (TRANS_OFFSET (newest + 3 - seq * pgc_tpt d)) (drop (seq * (pgc_tpt d div 4)) (all_tips d))"
  using assms
proof (induction n arbitrary: seq d bits)
  case 0
  have "newest < seq * pgc_tpt d" using 0 by (simp add: tips_ok_def dividend_less_div_times)
  then have "TRANS_OFFSET (newest + 3 - seq * pgc_tpt d) = 0" by (simp add: TRANS_OFFSET_def)
  then show ?case using 0(2) by simp
next
  case (Suc n)
  let ?q = "pgc_tpt d div 4"
  from Suc.prems(2) obtain d1 rest where f: "fetch_inventory_page seq d = Inr (tip_pages d ! seq, d1)"
    and r: "inventory_pages n (Suc seq) newest d1 = Inr (rest, d')"
    and bits: "bits = take (TRANS_OFFSET (min (newest + 3 - seq * pgc_tpt d) (pgc_tpt d))) (tip_pages d ! seq) @ rest"
    by (auto dest: fetch_same)
  have s: "same_tips d d1" "seq < length (tip_pages d)" using fetch_same [OF f] by auto
  have p: "tips_ok d1" "n + Suc seq = Suc (newest div pgc_tpt d1)" using Suc.prems(1,3) same_tipsD(2,4) [OF s(1)] by simp_all
  have ih: "same_tips d1 d'" "n = 0 \<or> n + Suc seq \<le> length (tip_pages d)"
    "rest = take (TRANS_OFFSET (newest + 3 - Suc seq * pgc_tpt d)) (drop (Suc seq * ?q) (all_tips d))"
    using Suc.IH [OF p(1) r p(2)] same_tipsD(1,2) [OF s(1)] by (simp_all add: all_tips_def)
  have len: "\<forall>tip \<in> set (tip_pages d). length tip = ?q" and t: "pgc_tpt d = 4 * ?q" using Suc.prems(1) by (auto simp: tips_ok_def)
  have "length (tip_pages d ! seq) = ?q" using len s(2) by simp
  from take_chunk [OF this t, of "newest + 3 - seq * pgc_tpt d" "drop (Suc seq * ?q) (all_tips d)"]
  have "bits = take (TRANS_OFFSET (newest + 3 - seq * pgc_tpt d)) (tip_pages d ! seq @ drop (Suc seq * ?q) (all_tips d))"
    unfolding bits ih(3) by (simp add: diff_diff_add add.commute)
  then show ?case using concat_chunks [OF len s(2)] same_tips_trans [OF s(1) ih(1)] ih(2) s(2) by (auto simp: all_tips_def)
qed


text \<open>The whole inventory from \<open>base\<close> up to \<open>newest\<close> is one segment of the row of pages.\<close>

lemma TRA_get_inventory_spec:
  assumes "tips_ok d" "TRA_get_inventory base newest d = Inr (bits, d')" "base mod 4 = 0" "base \<le> newest"
  shows "same_tips d d'" "bits = take (TRANS_OFFSET (newest + 3 - base)) (drop (base div 4) (all_tips d))"
    and "recorded d newest"
proof -
  let ?t = "pgc_tpt d" and ?q = "pgc_tpt d div 4"
  let ?seq = "base div ?t" and ?l = "base mod ?t"
  from assms(2) obtain d1 rest where f: "fetch_inventory_page ?seq d = Inr (tip_pages d ! ?seq, d1)"
    and r: "inventory_pages (newest div ?t - ?seq) (Suc ?seq) newest d1 = Inr (rest, d')"
    and bits: "bits = take (TRANS_OFFSET (min (newest + 3 - base) (?t - ?l))) (drop (TRANS_OFFSET ?l) (tip_pages d ! ?seq)) @ rest"
    by (auto simp: TRA_get_inventory_def Let_def dest: fetch_same)
  have s: "same_tips d d1" "?seq < length (tip_pages d)" using fetch_same [OF f] by auto
  have len: "\<forall>tip \<in> set (tip_pages d). length tip = ?q" and t: "?t = 4 * ?q" "?q \<noteq> 0" using assms(1) by (auto simp: tips_ok_def)
  have le: "?seq \<le> newest div ?t" using assms(4) by (rule div_le_mono)
  then have p: "tips_ok d1" "newest div ?t - ?seq + Suc ?seq = Suc (newest div pgc_tpt d1)"
    using assms(1) same_tipsD(2,4) [OF s(1)] by simp_all
  have ih: "same_tips d1 d'" "rest = take (TRANS_OFFSET (newest + 3 - Suc ?seq * ?t)) (drop (Suc ?seq * ?q) (all_tips d))"
    using inventory_pages_spec [OF p(1) r p(2)] same_tipsD(1,2) [OF s(1)] by (simp_all add: all_tips_def)
  show "same_tips d d'" using same_tips_trans [OF s(1) ih(1)] .
  have l: "?l div 4 \<le> ?q" "base = ?seq * ?t + ?l" "?l mod 4 = 0"
  proof -
    have "?l < ?t" using t by simp
    then show "?l div 4 \<le> ?q" by (simp add: div_le_mono)
    show "?l mod 4 = 0" using assms(3) t(1) by (metis mod_mod_cancel dvd_triv_left)
  qed simp
  have lp: "length (tip_pages d ! ?seq) = ?q" using len nth_mem [OF s(2)] by blast
  then have chunk: "length (drop (TRANS_OFFSET ?l) (tip_pages d ! ?seq)) = ?q - ?l div 4" by (simp only: length_drop TRANS_OFFSET_def)
  have "t - l = 4 * (q - l div 4)" if "t = 4 * q" "l mod 4 = 0" for t q l :: nat using that by presburger
  note len4 = this [OF t(1) l(3)]
  have "b + (t - l) = Suc s * t" if "b = s * t + l" "l < t" for b s l t :: nat using that by simp
  from this [OF l(2)] have "base + (?t - ?l) = Suc ?seq * ?t" using t by simp
  then have "newest + 3 - base - (?t - ?l) = newest + 3 - Suc ?seq * ?t" by (simp only: diff_diff_left)
  with take_chunk [OF chunk len4, of "newest + 3 - base" "drop (Suc ?seq * ?q) (all_tips d)"]
  have "bits = take (TRANS_OFFSET (newest + 3 - base)) (drop (?l div 4) (tip_pages d ! ?seq) @ drop (Suc ?seq * ?q) (all_tips d))"
    unfolding bits ih(2) by (simp add: TRANS_OFFSET_def)
  also have "drop (?l div 4) (tip_pages d ! ?seq) @ drop (Suc ?seq * ?q) (all_tips d) =
      drop (?l div 4) (tip_pages d ! ?seq @ drop (Suc ?seq * ?q) (all_tips d))" using l(1) lp by (simp only: drop_append) simp
  also have "\<dots> = drop (?l div 4) (drop (?seq * ?q) (all_tips d))"
    unfolding all_tips_def using concat_chunks [OF len s(2)] by simp
  also have "\<dots> = drop (base div 4) (all_tips d)"
  proof -
    have "b div 4 = l div 4 + s * q" if "b = s * t + l" "t = 4 * q" for b l s t q :: nat
    proof -
      have "b = l + 4 * (s * q)" using that by simp
      then show ?thesis by simp
    qed
    from this [OF l(2) t(1)] show ?thesis by simp
  qed
  finally show "bits = take (TRANS_OFFSET (newest + 3 - base)) (drop (base div 4) (all_tips d))" .
  show "recorded d newest"
    using inventory_pages_spec [OF p(1) r p(2)] same_tipsD(1) [OF s(1)] s(2) le by (auto simp: recorded_def)
qed


text \<open>The state a snapshot has for a transaction.\<close>

definition snapshot_bits :: "tra \<Rightarrow> nat \<Rightarrow> nat" where
  "snapshot_bits tx n = state_bits (tra_transactions tx ! snapshot_offset tx n) (TRANS_SHIFT n)"

text \<open>The transactions a snapshot has to know the state of.\<close>

abbreviation interesting :: "tra \<Rightarrow> nat set" where
  "interesting tx \<equiv> {tra_oldest tx ..< tra_number tx}"

definition snapshot_covers :: "tra \<Rightarrow> bool" where
  "snapshot_covers tx \<longleftrightarrow> tra_number tx < 2147483648 \<and> (\<forall>n \<in> interesting tx. snapshot_offset tx n < length (tra_transactions tx))"

lemma snapshot_offset_eq:
  assumes "tra_oldest tx div 4 * 4 \<le> n" "n < 4294967296"
  shows "snapshot_offset tx n = (n - tra_oldest tx div 4 * 4) div 4" "n div 4 = tra_oldest tx div 4 + snapshot_offset tx n"
proof -
  let ?b = "tra_oldest tx div 4 * 4"
  have "(n + 4294967296 - ?b) mod 4294967296 = (n - ?b + 4294967296) mod 4294967296"
    using assms(1) by (simp add: Nat.diff_add_assoc2 [symmetric] del: Nat.diff_add_assoc2)
  also have "\<dots> = n - ?b" using assms(2) by (simp only: mod_add_self2) simp
  finally show eq: "snapshot_offset tx n = (n - ?b) div 4" by (simp add: snapshot_offset_def TRANS_OFFSET_def)
  have "n = (n - ?b) + tra_oldest tx div 4 * 4" using assms(1) by simp
  then have "n div 4 = tra_oldest tx div 4 + (n - ?b) div 4" by (metis add.commute div_mult_self1 zero_neq_numeral)
  then show "n div 4 = tra_oldest tx div 4 + snapshot_offset tx n" using eq by simp
qed

lemma take_snapshot_spec:
  assumes "tips_ok d" "take_snapshot tx d = Inr (tx', d')" "\<not> TRA_read_committed tx" "tra_oldest tx \<le> tra_number tx"
    and "tra_number tx < 2147483648"
  shows "same_tips d d'" "\<exists>bits. tx' = tx\<lparr>tra_transactions := bits\<rparr>" "snapshot_covers tx'" "recorded d (tra_number tx)"
    and "\<And>n. n \<in> interesting tx \<Longrightarrow> snapshot_bits tx' n = tip_state d n"
proof -
  let ?base = "tra_oldest tx div 4 * 4" and ?number = "tra_number tx"
  define room where "room = (?number - ?base + 3) div 4"
  obtain bits where g: "TRA_get_inventory ?base ?number d = Inr (bits, d')" "length bits \<le> room"
    and tx': "tx' = tx\<lparr>tra_transactions := bits @ replicate (room - length bits) 0\<rparr>"
    using assms(2,3) by (auto simp: take_snapshot_def room_def Let_def split: if_splits)
  have "?base mod 4 = 0" "?base \<le> ?number" using assms(4) by simp_all
  note s = TRA_get_inventory_spec [OF assms(1) g(1) this]
  show "same_tips d d'" "recorded d ?number" using s(1,3) by simp_all
  show "\<exists>bits. tx' = tx\<lparr>tra_transactions := bits\<rparr>" using tx' by blast
  have bits: "bits = take room (drop (tra_oldest tx div 4) (all_tips d))"
    unfolding s(2) diff_add_assoc2 [OF \<open>?base \<le> ?number\<close>] TRANS_OFFSET_def room_def by simp
  have n: "snapshot_offset tx' n < room" "n div 4 < length (all_tips d)" "n div 4 = tra_oldest tx div 4 + snapshot_offset tx' n"
    "tip_state d n = state_bits (all_tips d ! (n div 4)) (TRANS_SHIFT n)" if "n \<in> interesting tx" for n
  proof -
    have b: "?base \<le> n" "n < ?number" using that by auto
    have off: "snapshot_offset tx' n = snapshot_offset tx n" by (simp add: snapshot_offset_def tx')
    have "n < 4294967296" using b(2) assms(5) by simp
    note e = snapshot_offset_eq [OF b(1) this, folded off]
    show "n div 4 = tra_oldest tx div 4 + snapshot_offset tx' n" using e(2) .
    have "(n - ?base) div 4 < room" using b by (simp add: room_def)
    then show "snapshot_offset tx' n < room" using e(1) by simp
    have "n div pgc_tpt d \<le> ?number div pgc_tpt d" using b(2) by (simp add: div_le_mono)
    then have "recorded d n" using s(3) by (simp add: recorded_def)
    then show "tip_state d n = state_bits (all_tips d ! (n div 4)) (TRANS_SHIFT n)" "n div 4 < length (all_tips d)"
      using tip_byte [OF assms(1)] by simp_all
  qed
  have len: "snapshot_offset tx' n < length bits" if "n \<in> interesting tx" for n
    using n(1-3) [OF that] by (simp add: bits less_diff_conv add.commute)
  have "length bits \<le> length (tra_transactions tx')" "tra_number tx' = ?number" "tra_oldest tx' = tra_oldest tx" by (simp_all add: tx')
  then have "snapshot_offset tx' n < length (tra_transactions tx')" if "n \<in> interesting tx'" for n
    using len [of n] that by simp
  then show "snapshot_covers tx'" using assms(5) by (simp add: snapshot_covers_def tx')
  show "snapshot_bits tx' n = tip_state d n" if "n \<in> interesting tx" for n
  proof -
    have "tra_transactions tx' ! snapshot_offset tx' n = bits ! snapshot_offset tx' n"
      using len [OF that] by (simp add: tx' nth_append)
    also have "\<dots> = all_tips d ! (n div 4)" using n(1-3) [OF that] by (simp add: bits)
    finally show ?thesis using n(4) [OF that] by (simp add: snapshot_bits_def)
  qed
qed

text \<open>Reading a snapshot.\<close>

lemma seen_state_spec:
  assumes "snapshot_covers tx" "\<not> TRA_read_committed tx" "n \<in> interesting tx"
  shows "seen_state tx n d = Inr (snapshot_bits tx n, d)"
  using assms by (auto simp: seen_state_def snapshot_covers_def snapshot_bits_def)

lemma TRA_snapshot_state_spec:
  assumes "snapshot_covers tx" "tra_newest tx = tra_number tx" "tra_commit_sub_trans tx = None"
    and "\<not> TRA_read_committed tx" "\<not> TRA_system tx" "\<not> precommitted n d"
  shows "TRA_snapshot_state granted tx n d = Inr
    (if n = tra_number tx then tra_us
     else if n < tra_oldest tx \<or> n = 0 then tra_committed
     else if n > tra_number tx then tra_active
     else snapshot_bits tx n, d)"
proof -
  have np: "\<not> (n \<noteq> 0 \<and> fst (TRA_precommited n n d))"
    using assms(6) by (auto simp: precommitted_def TRA_precommited_def)
  have "TRA_state (tra_transactions tx) (tra_oldest tx) n = Inr (snapshot_bits tx n)"
    if "\<not> n < tra_oldest tx" "n \<noteq> tra_number tx" "\<not> n > tra_number tx"
  proof -
    have "n \<in> interesting tx" using that by simp
    then show ?thesis using assms(1)
      by (auto simp: TRA_state_def snapshot_covers_def snapshot_bits_def snapshot_offset_def Let_def)
  qed
  then show ?thesis using assms(2-5) np by (auto simp: TRA_snapshot_state_def)
qed


section \<open>The scans of TRA\_start\<close>

text \<open>The parts of a transaction block the scans leave as they are.\<close>

definition same_start :: "tra \<Rightarrow> tra \<Rightarrow> bool" where
  "same_start tx tx' \<longleftrightarrow>
     tx' = tx\<lparr>tra_oldest_active := tra_oldest_active tx', tra_transactions := tra_transactions tx'\<rparr> \<and>
     length (tra_transactions tx') = length (tra_transactions tx)"

lemma same_start_refl [simp]: "same_start tx tx" "same_start tx (tx\<lparr>tra_oldest_active := a\<rparr>)"
  by (simp_all add: same_start_def)

lemma same_startD:
  assumes "same_start tx tx'"
  shows "tra_number tx' = tra_number tx" "tra_newest tx' = tra_newest tx" "tra_oldest tx' = tra_oldest tx"
    and "tra_commit_sub_trans tx' = tra_commit_sub_trans tx" "TRA_system tx' = TRA_system tx"
    and "TRA_read_committed tx' = TRA_read_committed tx" "TRA_readonly tx' = TRA_readonly tx"
    and "TRA_precommitted tx' = TRA_precommitted tx" "length (tra_transactions tx') = length (tra_transactions tx)"
    and "snapshot_offset tx' n = snapshot_offset tx n"
proof -
  have e: "tx' = tx\<lparr>tra_oldest_active := tra_oldest_active tx', tra_transactions := tra_transactions tx'\<rparr>"
    and l: "length (tra_transactions tx') = length (tra_transactions tx)" using assms by (simp_all add: same_start_def)
  show "tra_number tx' = tra_number tx" "tra_newest tx' = tra_newest tx" "tra_oldest tx' = tra_oldest tx"
    "tra_commit_sub_trans tx' = tra_commit_sub_trans tx" "TRA_system tx' = TRA_system tx"
    "TRA_read_committed tx' = TRA_read_committed tx" "TRA_readonly tx' = TRA_readonly tx"
    "TRA_precommitted tx' = TRA_precommitted tx" "snapshot_offset tx' n = snapshot_offset tx n"
    by (subst e, simp add: snapshot_offset_def)+
  show "length (tra_transactions tx') = length (tra_transactions tx)" by (fact l)
qed

lemma same_start_trans:
  assumes "same_start tx tx1" "same_start tx1 tx2"
  shows "same_start tx tx2"
proof -
  have "tx1 = tx\<lparr>tra_oldest_active := tra_oldest_active tx1, tra_transactions := tra_transactions tx1\<rparr>"
    "tx2 = tx1\<lparr>tra_oldest_active := tra_oldest_active tx2, tra_transactions := tra_transactions tx2\<rparr>"
    using assms by (simp_all add: same_start_def)
  then have "tx2 = tx\<lparr>tra_oldest_active := tra_oldest_active tx2, tra_transactions := tra_transactions tx2\<rparr>"
    by (metis tra.surjective tra.update_convs(4,5))
  then show ?thesis using assms by (simp add: same_start_def)
qed

lemma same_start_covers: "same_start tx tx' \<Longrightarrow> snapshot_covers tx' = snapshot_covers tx"
  by (simp add: snapshot_covers_def same_startD)

lemma snapshot_bits_set:
  assumes "snapshot_covers tx" "n \<in> interesting tx" "m \<in> interesting tx" "m \<noteq> n" "st < 4"
  shows "snapshot_bits (tx\<lparr>tra_transactions := set_bits_at (snapshot_offset tx n) (TRANS_SHIFT n) st (tra_transactions tx)\<rparr>) m = snapshot_bits tx m"
proof (cases "snapshot_offset tx n = snapshot_offset tx m")
  case True
  have b: "tra_oldest tx div 4 * 4 \<le> n" "tra_oldest tx div 4 * 4 \<le> m" "n < 4294967296" "m < 4294967296"
    using assms(1-3) by (auto simp: snapshot_covers_def)
  have "n div 4 = m div 4" using snapshot_offset_eq(2) [OF b(1,3)] snapshot_offset_eq(2) [OF b(2,4)] True by simp
  then have "n mod 4 \<noteq> m mod 4" using assms(4) by (metis div_mult_mod_eq)
  moreover have "snapshot_offset tx m < length (tra_transactions tx)" using assms(1,3) by (simp add: snapshot_covers_def)
  ultimately show ?thesis
    using True state_bits_put [OF assms(5), of n "tra_transactions tx ! snapshot_offset tx m" m]
    by (simp add: snapshot_bits_def set_bits_at_def snapshot_offset_def)
next
  case False
  then show ?thesis by (simp add: snapshot_bits_def set_bits_at_def snapshot_offset_def)
qed

lemma TRA_get_state_less:
  assumes "TRA_get_state granted n d = Inr (st, d')" "st \<noteq> tra_precommitted"
  shows "st < 4"
proof -
  have s: "TRA_state v old k = Inr st' \<Longrightarrow> st' < 4" for v old k st'
    by (auto simp: TRA_state_def state_bits_less Let_def split: if_splits)
  have f: "TRA_fetch_state k e = Inr (st', e') \<Longrightarrow> st' < 4" for k e st' e'
    by (auto simp: TRA_fetch_state_def state_bits_less)
  show ?thesis
    using assms unfolding TRA_get_state_def TPC_snapshot_state_def extend_cache_def block_state_def
    by (auto split: if_splits list.splits option.splits dest: s f)
qed

lemma TRA_wait_spec:
  assumes "TRA_wait granted got tx n False d = Inr (st, tx', d')" "snapshot_covers tx" "n \<in> interesting tx"
    and "tra_newest tx = tra_number tx" "\<not> TRA_read_committed tx"
  shows "same_start tx tx'" "\<And>m. m \<in> interesting tx \<Longrightarrow> m \<noteq> n \<Longrightarrow> snapshot_bits tx' m = snapshot_bits tx m"
proof -
  obtain st1 d1 where g: "TRA_get_state granted n d = Inr (st1, d1)" using assms(1) by (auto simp: TRA_wait_def)
  define st2 where "st2 = (if st1 = tra_active then tra_dead else st1)"
  have "tx' = tx \<or> (st1 \<noteq> tra_precommitted \<and>
      tx' = tx\<lparr>tra_transactions := set_bits_at (snapshot_offset tx n) (TRANS_SHIFT n) st2 (tra_transactions tx)\<rparr>)"
    using assms(1,5) g by (auto simp: TRA_wait_def st2_def Let_def split: if_splits)
  moreover have "st1 \<noteq> tra_precommitted \<Longrightarrow> st2 < 4" using TRA_get_state_less [OF g] by (simp add: st2_def)
  ultimately have "tx' = tx \<or> (st2 < 4 \<and>
      tx' = tx\<lparr>tra_transactions := set_bits_at (snapshot_offset tx n) (TRANS_SHIFT n) st2 (tra_transactions tx)\<rparr>)" by blast
  then show "same_start tx tx'" "\<And>m. m \<in> interesting tx \<Longrightarrow> m \<noteq> n \<Longrightarrow> snapshot_bits tx' m = snapshot_bits tx m"
    using snapshot_bits_set [OF assms(2,3)] by (auto simp: same_start_def)
qed

text \<open>
  The block of a running transaction after it has waited for the locks of other transactions,
  whatever the database was at the time: \<^verbatim>\<open>TRA_wait\<close> tweaks its snapshot.
\<close>

inductive waited :: "tra \<Rightarrow> tra \<Rightarrow> bool" for tx :: tra where
  start: "waited tx tx"
| wait: "waited tx tx1 \<Longrightarrow> tra_oldest tx \<le> n \<Longrightarrow> n \<noteq> tra_number tx \<Longrightarrow>
    TRA_wait granted got tx1 n True d = Inr (st, tx2, d') \<Longrightarrow> waited tx tx2"

lemma TRA_wait_tweaks:
  assumes "TRA_wait granted got tx n True d = Inr (st, tx', d')" "snapshot_covers tx" "tra_newest tx = tra_number tx"
    and "\<not> TRA_read_committed tx" "tra_oldest tx \<le> n" "n \<noteq> tra_number tx" "m \<in> interesting tx"
  shows "same_start tx tx' \<and> snapshot_bits tx' m \<in> {snapshot_bits tx m, tra_limbo, tra_dead}"
proof (cases "tx' = tx")
  case False
  then obtain st1 d1 where g: "TRA_get_state granted n d = Inr (st1, d1)" using assms(1) by (auto simp: TRA_wait_def split: if_splits)
  define st2 where "st2 = (if st1 = tra_active then tra_dead else st1)"
  have *: "st1 \<noteq> tra_precommitted" "st1 \<noteq> tra_committed" "n \<le> tra_newest tx"
    "tx' = tx\<lparr>tra_transactions := set_bits_at (snapshot_offset tx n) (TRANS_SHIFT n) st2 (tra_transactions tx)\<rparr>"
    using assms(1,4) g False by (auto simp: TRA_wait_def st2_def Let_def split: if_splits)
  then have st2: "st2 \<in> {tra_limbo, tra_dead}" using TRA_get_state_less [OF g] by (auto simp: st2_def less_Suc_eq numeral_eq_Suc)
  have n: "n \<in> interesting tx" using *(3) assms(3,5,6) by simp
  have "snapshot_bits tx' n = st2"
  proof -
    have "snapshot_offset tx n < length (tra_transactions tx)" using assms(2) n by (simp add: snapshot_covers_def)
    then show ?thesis using st2 state_bits_put [of st2 n "tra_transactions tx ! snapshot_offset tx n" n]
      by (auto simp: *(4) snapshot_bits_def set_bits_at_def snapshot_offset_def)
  qed
  moreover have "snapshot_bits tx' m = snapshot_bits tx m" if "m \<noteq> n"
    unfolding *(4) using snapshot_bits_set [OF assms(2) n assms(7) that, of st2] st2 by auto
  ultimately show ?thesis using st2 *(4) by (cases "m = n") (auto simp: same_start_def)
qed simp

lemma waited_spec:
  assumes "waited tx tx'" "snapshot_covers tx" "tra_newest tx = tra_number tx" "\<not> TRA_read_committed tx" "tra_oldest tx < tra_number tx"
  shows "same_start tx tx' \<and> (\<forall>m \<in> interesting tx. snapshot_bits tx' m \<in> {snapshot_bits tx m, tra_limbo, tra_dead})"
  using assms(1)
proof induction
  case (wait tx1 n granted got d st tx2 d')
  then have s: "same_start tx tx1" by simp
  note e = same_startD [OF s] same_start_covers [OF s]
  have "same_start tx1 tx2 \<and> snapshot_bits tx2 m \<in> {snapshot_bits tx1 m, tra_limbo, tra_dead}" if "m \<in> interesting tx" for m
    using TRA_wait_tweaks [OF wait.hyps(4), of m] assms(2-4) wait.hyps(2,3) that by (simp add: e)
  then show ?case using wait.IH same_start_trans [OF s] assms(5) by fastforce
qed simp

text \<open>Transactions that are marked active although nobody holds their lock any more.\<close>

abbreviation (input) abandoned :: "(nat \<Rightarrow> nat) \<Rightarrow> tra \<Rightarrow> nat \<Rightarrow> bool" where
  "abandoned lock_data tx m \<equiv> snapshot_bits tx m = tra_active \<and> lock_data m = 0"

definition active_scanned :: "(nat \<Rightarrow> nat) \<Rightarrow> bool \<Rightarrow> nat \<Rightarrow> nat \<Rightarrow> tra \<Rightarrow> nat \<Rightarrow> tra \<Rightarrow> bool" where
  "active_scanned lock_data cleanup active end tx oa tx' \<longleftrightarrow>
     same_start tx tx' \<and>
     (\<forall>m \<in> interesting tx. snapshot_bits tx' m = snapshot_bits tx m \<or> (cleanup \<and> active \<le> m \<and> abandoned lock_data tx m)) \<and>
     (\<forall>m. active \<le> m \<and> m < end \<and> m < oa \<longrightarrow> snapshot_bits tx m \<noteq> tra_active \<or> (cleanup \<and> abandoned lock_data tx m))"

lemma active_scanned_skip:
  assumes "active_scanned lock_data cleanup (Suc active) end tx oa tx'" "snapshot_bits tx active \<noteq> tra_active"
  shows "active_scanned lock_data cleanup active end tx oa tx'"
proof -
  have "snapshot_bits tx m \<noteq> tra_active \<or> (cleanup \<and> abandoned lock_data tx m)" if "active \<le> m" "m < end" "m < oa" for m
    using assms that by (cases "m = active") (auto simp: active_scanned_def)
  moreover have "\<forall>m \<in> interesting tx. snapshot_bits tx' m = snapshot_bits tx m \<or> (cleanup \<and> active \<le> m \<and> abandoned lock_data tx m)"
    using assms(1) unfolding active_scanned_def by (meson Suc_leD)
  ultimately show ?thesis using assms(1) unfolding active_scanned_def by blast
qed

lemma active_scanned_gone:
  assumes "active_scanned lock_data b (Suc active) end tx1 oa tx'" "same_start tx tx1" "abandoned lock_data tx active"
    and "\<And>m. m \<in> interesting tx \<Longrightarrow> m \<noteq> active \<Longrightarrow> snapshot_bits tx1 m = snapshot_bits tx m"
    and "tra_oldest tx \<le> active" "end \<le> tra_number tx"
  shows "active_scanned lock_data True active end tx oa tx'"
proof -
  note e = same_startD [OF assms(2)]
  have "snapshot_bits tx' m = snapshot_bits tx m \<or> (active \<le> m \<and> abandoned lock_data tx m)" if "m \<in> interesting tx" for m
  proof (cases "m = active")
    case False
    have "snapshot_bits tx' m = snapshot_bits tx1 m \<or> (Suc active \<le> m \<and> abandoned lock_data tx1 m)"
      using assms(1) that unfolding active_scanned_def e by blast
    then show ?thesis using assms(4) [OF that False] by auto
  qed (use assms(3) in simp)
  moreover have "snapshot_bits tx m \<noteq> tra_active \<or> abandoned lock_data tx m" if "active \<le> m" "m < end" "m < oa" for m
  proof (cases "m = active")
    case False
    then have "m \<in> interesting tx" using that assms(5,6) by simp
    moreover have "snapshot_bits tx1 m \<noteq> tra_active \<or> abandoned lock_data tx1 m"
      using assms(1) that False unfolding active_scanned_def by (metis Suc_leI le_neq_implies_less)
    ultimately show ?thesis using assms(4) False by simp
  qed (use assms(3) in simp)
  ultimately show ?thesis using assms(1) same_start_trans [OF assms(2)] unfolding active_scanned_def by blast
qed

lemma scan_active_spec:
  assumes "scan_active granted lock_data query_min oldest_snapshot n active oa cleanup tx d = Inr (oa', tx', d')"
    and "snapshot_covers tx" "tra_newest tx = tra_number tx" "\<not> TRA_read_committed tx"
    and "tra_oldest tx \<le> active" "active + n = tra_number tx" "tra_number tx \<le> oa"
  shows "active_scanned lock_data cleanup active (tra_number tx) tx oa' tx'"
  using assms
proof (induction n arbitrary: active cleanup tx d)
  case 0
  then show ?case by (auto simp: active_scanned_def)
next
  case (Suc n)
  let ?go = "scan_active granted lock_data query_min oldest_snapshot n (Suc active) oa"
  have a: "active \<in> interesting tx" using Suc.prems(5,6) by simp
  have p: "tra_oldest tx \<le> Suc active" "Suc active + n = tra_number tx" using Suc.prems(5,6) by simp_all
  note seen = seen_state_spec [OF Suc.prems(2,4) a, of d]
  consider (other) "snapshot_bits tx active \<noteq> tra_active" "?go cleanup tx d = Inr (oa', tx', d')"
    | (gone) st1 tx1 d2 where "cleanup" "abandoned lock_data tx active" "TRA_wait granted True tx active False d = Inr (st1, tx1, d2)"
        "?go (cleanup \<and> st1 \<noteq> tra_committed) tx1 d2 = Inr (oa', tx', d')"
    | (found) a' where "oa' = min oa active" "tx' = tx\<lparr>tra_oldest_active := a'\<rparr>"
    using Suc.prems(1) seen by (auto simp: Let_def split: if_splits)
  then show ?case
  proof cases
    case other
    from active_scanned_skip [OF Suc.IH [OF other(2) Suc.prems(2-4) p Suc.prems(7)] other(1)] show ?thesis .
  next
    case gone
    note w = TRA_wait_spec [OF gone(3) Suc.prems(2) a Suc.prems(3,4)]
    note e = same_startD [OF w(1)]
    have q: "snapshot_covers tx1" "tra_newest tx1 = tra_number tx1" "\<not> TRA_read_committed tx1" "tra_oldest tx1 \<le> Suc active"
      "Suc active + n = tra_number tx1" "tra_number tx1 \<le> oa"
      using Suc.prems(2-7) same_start_covers [OF w(1)] by (simp_all add: e)
    from active_scanned_gone [OF Suc.IH [OF gone(4) q] w(1) gone(2) w(2) Suc.prems(5)] show ?thesis using gone(1) by (simp add: e)
  next
    case found
    then have "oa' = active" using a Suc.prems(7) by simp
    then show ?thesis using found(2) by (auto simp: active_scanned_def snapshot_bits_def snapshot_offset_def)
  qed
qed

lemma scan_oldest_spec:
  assumes "scan_oldest n k tx d = Inr (oldest, d')" "snapshot_covers tx" "\<not> TRA_read_committed tx"
    and "tra_oldest tx \<le> k" "k + n = tra_number tx"
  shows "d' = d \<and> k \<le> oldest \<and> oldest \<le> tra_number tx \<and> (\<forall>m. k \<le> m \<and> m < oldest \<longrightarrow> snapshot_bits tx m = tra_committed) \<and>
    (oldest < tra_number tx \<longrightarrow> snapshot_bits tx oldest \<noteq> tra_committed)"
  using assms
proof (induction n arbitrary: k)
  case (Suc n)
  have a: "k \<in> interesting tx" using Suc.prems(4,5) by simp
  note seen = seen_state_spec [OF Suc.prems(2,3) a, of d]
  show ?case
  proof (cases "snapshot_bits tx k = tra_committed")
    case True
    then have "scan_oldest n (Suc k) tx d = Inr (oldest, d')" using Suc.prems(1) seen by simp
    then have "d' = d \<and> Suc k \<le> oldest \<and> oldest \<le> tra_number tx \<and>
        (\<forall>m. Suc k \<le> m \<and> m < oldest \<longrightarrow> snapshot_bits tx m = tra_committed) \<and>
        (oldest < tra_number tx \<longrightarrow> snapshot_bits tx oldest \<noteq> tra_committed)"
      using Suc.IH [of "Suc k"] Suc.prems by simp
    then show ?thesis using True by (metis Suc_leD Suc_leI le_neq_implies_less)
  next
    case False
    moreover have "snapshot_bits tx k < 4" by (simp add: snapshot_bits_def state_bits_less)
    ultimately show ?thesis using Suc.prems seen a by (auto split: if_splits)
  qed
qed simp


section \<open>TRA\_start\<close>

lemma tip_state_pages:
  assumes "pgc_tpt d' = pgc_tpt d" "tip_pages d' ! (n div pgc_tpt d) = tip_pages d ! (n div pgc_tpt d)"
  shows "tip_state d' n = tip_state d n"
  using assms by (simp add: tip_state_def)

lemma TRA_extend_tip_spec:
  assumes "tips_ok d" "TRA_extend_tip seq d = Inr d'"
  shows "tips_ok d'" "pgc_tpt d' = pgc_tpt d" "n div pgc_tpt d < seq \<Longrightarrow> tip_state d' n = tip_state d n"
    and "dbb_read_only d' = dbb_read_only d" "hdr_oldest_transaction d' = hdr_oldest_transaction d"
    and "dbb_oldest_transaction d' = dbb_oldest_transaction d" "hdr_oldest_active d' = hdr_oldest_active d"
    and "dbb_oldest_active d' = dbb_oldest_active d"
proof -
  obtain d1 where d1: "same_tips d d1" "seq \<le> length (tip_pages d)"
    "d' = d1\<lparr>tip_pages := take seq (tip_pages d1) @ [replicate (pgc_tpt d1 div 4) 0] @ drop (Suc seq) (tip_pages d1)\<rparr>"
  proof (cases "seq = 0")
    case True
    then show ?thesis using that [of d] assms(2) by (simp add: TRA_extend_tip_def)
  next
    case False
    then obtain tip d1 where f: "fetch_inventory_page (seq - 1) d = Inr (tip, d1)"
      "d' = d1\<lparr>tip_pages := take seq (tip_pages d1) @ [replicate (pgc_tpt d1 div 4) 0] @ drop (Suc seq) (tip_pages d1)\<rparr>"
      using assms(2) by (auto simp: TRA_extend_tip_def)
    have "same_tips d d1" "seq \<le> length (tip_pages d)" using fetch_same [OF f(1)] by auto
    then show ?thesis using that f(2) by blast
  qed
  have e: "pgc_tpt d' = pgc_tpt d" "tip_pages d' = take seq (tip_pages d) @ [replicate (pgc_tpt d div 4) 0] @ drop (Suc seq) (tip_pages d)"
    "dbb_read_only d' = dbb_read_only d" "hdr_oldest_transaction d' = hdr_oldest_transaction d"
    "dbb_oldest_transaction d' = dbb_oldest_transaction d" "hdr_oldest_active d' = hdr_oldest_active d"
    "dbb_oldest_active d' = dbb_oldest_active d"
    using same_tipsD [OF d1(1)] by (simp_all add: d1(3))
  then show "pgc_tpt d' = pgc_tpt d" "dbb_read_only d' = dbb_read_only d" "hdr_oldest_transaction d' = hdr_oldest_transaction d"
    "dbb_oldest_transaction d' = dbb_oldest_transaction d" "hdr_oldest_active d' = hdr_oldest_active d"
    "dbb_oldest_active d' = dbb_oldest_active d" by simp_all
  show "tips_ok d'" using assms(1) by (auto simp: tips_ok_def e(1,2) dest: in_set_takeD in_set_dropD)
  show "tip_state d' n = tip_state d n" if "n div pgc_tpt d < seq"
    using that d1(2) by (intro tip_state_pages) (simp_all add: e(1,2) nth_append)
qed

lemma bump_transaction_id_spec:
  assumes "tips_ok d" "bump_transaction_id d = Inr (number, d')"
  shows "tips_ok d'" "number = hdr_next_transaction d + 1" "dbb_read_only d' = dbb_read_only d"
    and "hdr_oldest_transaction d' = max (hdr_oldest_transaction d) (dbb_oldest_transaction d)"
    and "hdr_oldest_active d' = max (hdr_oldest_active d) (dbb_oldest_active d)"
    and "\<And>n. 0 < n \<Longrightarrow> n < number \<Longrightarrow> tip_state d' n = tip_state d n"
proof -
  let ?number = "hdr_next_transaction d + 1"
  have num: "number = ?number" using assms(2) by (auto simp: bump_transaction_id_def Let_def split: if_splits)
  obtain d1 where d1: "(if number = 1 \<or> number mod pgc_tpt d = 0 then TRA_extend_tip (number div pgc_tpt d) d else Inr d) = Inr d1"
    and d': "d' = d1\<lparr>hdr_next_transaction := number,
        hdr_oldest_active := max (hdr_oldest_active d1) (dbb_oldest_active d1),
        hdr_oldest_transaction := max (hdr_oldest_transaction d1) (dbb_oldest_transaction d1),
        hdr_oldest_snapshot := max (hdr_oldest_snapshot d1) (dbb_oldest_snapshot d1)\<rparr>"
    using assms(2) num by (auto simp: bump_transaction_id_def Let_def split: if_splits)
  have t: "tips_ok d' = tips_ok d1" "tip_state d' n = tip_state d1 n" for n by (simp_all add: d' tips_ok_def tip_state_def)
  have main: "tips_ok d1 \<and> dbb_read_only d1 = dbb_read_only d \<and> hdr_oldest_transaction d1 = hdr_oldest_transaction d \<and>
      dbb_oldest_transaction d1 = dbb_oldest_transaction d \<and> hdr_oldest_active d1 = hdr_oldest_active d \<and>
      dbb_oldest_active d1 = dbb_oldest_active d \<and> (\<forall>n. 0 < n \<and> n < number \<longrightarrow> tip_state d1 n = tip_state d n)"
  proof (cases "number = 1 \<or> number mod pgc_tpt d = 0")
    case True
    then have ext: "TRA_extend_tip (number div pgc_tpt d) d = Inr d1" using d1 by simp
    note x = TRA_extend_tip_spec [OF assms(1) ext]
    have "n div pgc_tpt d < number div pgc_tpt d" if "0 < n" "n < number" for n
    proof -
      have "number = number div pgc_tpt d * pgc_tpt d" using True that by auto
      then have "n < number div pgc_tpt d * pgc_tpt d" using that(2) by simp
      then show ?thesis by (rule less_mult_imp_div_less)
    qed
    then show ?thesis using x by blast
  qed (use d1 assms(1) in auto)
  show "tips_ok d'" "number = ?number" using main t num by simp_all
  show "dbb_read_only d' = dbb_read_only d" "hdr_oldest_transaction d' = max (hdr_oldest_transaction d) (dbb_oldest_transaction d)"
    "hdr_oldest_active d' = max (hdr_oldest_active d) (dbb_oldest_active d)"
    using main by (simp_all add: d')
  show "tip_state d' n = tip_state d n" if "0 < n" "n < number" for n using main t(2) that by simp
qed

text \<open>The transaction block before its snapshot is taken.\<close>

definition fresh_tra :: "tra \<Rightarrow> nat \<Rightarrow> dbb \<Rightarrow> tra" where
  "fresh_tra temp number d =
     temp\<lparr>tra_number := number, tra_newest := number, tra_oldest := hdr_oldest_transaction d,
       tra_oldest_active := max (hdr_oldest_active d) (hdr_oldest_transaction d), tra_transactions := [], tra_commit_sub_trans := None\<rparr>"

lemma start_scans_same:
  assumes "start_scans granted lock_data query_min oldest_snapshot active tx d = Inr (tx', d')"
    and "snapshot_covers tx" "tra_newest tx = tra_number tx" "\<not> TRA_read_committed tx" "tra_oldest tx \<le> active"
    and "tra_oldest tx \<le> tra_number tx" "0 < tra_oldest tx"
  shows "active_scanned lock_data (tra_number tx mod 100 = 0) active (tra_number tx) tx (dbb_oldest_active d') tx'"
    and "\<And>m. m \<in> interesting tx \<Longrightarrow> m \<le> dbb_oldest_transaction d' \<Longrightarrow> snapshot_bits tx' m = tra_committed"
proof -
  let ?number = "tra_number tx" and ?tx = "tx\<lparr>tra_oldest_active := tra_number tx\<rparr>"
  obtain oa d1 oldest d2 where sa: "scan_active granted lock_data query_min oldest_snapshot (?number - active) active ?number
      (?number mod 100 = 0) ?tx d = Inr (oa, tx', d1)"
    and so: "scan_oldest (?number - tra_oldest tx') (tra_oldest tx') tx' d1 = Inr (oldest, d2)"
    and d': "d' = d2\<lparr>dbb_oldest_transaction := (oldest + 4294967295) mod 4294967296, dbb_oldest_active := oa,
      dbb_oldest_snapshot := max (dbb_oldest_snapshot d2) (tra_oldest_active tx')\<rparr>"
    using assms(1) by (auto simp: start_scans_def Let_def)
  have cov: "snapshot_covers ?tx" using same_start_covers [OF same_start_refl(2)] assms(2) by blast
  have bits: "snapshot_bits ?tx m = snapshot_bits tx m" for m by (simp add: snapshot_bits_def snapshot_offset_def)
  have scanned: "active_scanned lock_data (?number mod 100 = 0) active ?number ?tx oa tx'"
  proof (cases "active \<le> ?number")
    case True
    then show ?thesis using scan_active_spec [OF sa cov] assms(3-5) by simp
  next
    case False
    then have "tx' = ?tx" "oa = ?number" using sa by auto
    then show ?thesis using False by (auto simp: active_scanned_def)
  qed
  then have "same_start ?tx tx'" by (simp add: active_scanned_def)
  then have same: "same_start tx tx'" by (rule same_start_trans [OF same_start_refl(2)])
  note e = same_startD [OF same]
  show "active_scanned lock_data (?number mod 100 = 0) active ?number tx (dbb_oldest_active d') tx'"
    using scanned same by (simp add: active_scanned_def bits d')
  have c: "snapshot_covers tx'" "\<not> TRA_read_committed tx'" "tra_oldest tx' + (?number - tra_oldest tx') = tra_number tx'"
    using assms(2,4,6) same_start_covers [OF same] by (simp_all add: e)
  note o = scan_oldest_spec [OF so c(1,2) le_refl c(3)]
  have b: "0 < oldest" "oldest < 4294967296"
    using o assms(7) cov by (auto simp: e snapshot_covers_def)
  then have "dbb_oldest_transaction d' = oldest - 1"
    unfolding d' by (simp add: mod_if)
  then show "snapshot_bits tx' m = tra_committed" if "m \<in> interesting tx" "m \<le> dbb_oldest_transaction d'" for m
    using that o b(1) by (auto simp: e)
qed

lemma precommited_oldest:
  "dbb_oldest_transaction (snd (TRA_precommited a b d)) = dbb_oldest_transaction d"
  "dbb_oldest_active (snd (TRA_precommited a b d)) = dbb_oldest_active d"
  by (simp_all add: TRA_precommited_def Let_def split: option.splits)

lemma TRA_start_spec:
  assumes "tips_ok d" "TRA_start lock_granted granted lock_data query_min temp d = Inr (Some tx, d')"
    and "\<not> TRA_read_committed temp" "\<not> dbb_read_only d" "hdr_next_transaction d < 2147483647" "0 < hdr_oldest_transaction d"
    and "max (hdr_oldest_transaction d) (dbb_oldest_transaction d) \<le> hdr_next_transaction d"
  shows "snapshot_covers tx" "tra_number tx = hdr_next_transaction d + 1" "tra_newest tx = tra_number tx"
    and "tra_oldest tx = max (hdr_oldest_transaction d) (dbb_oldest_transaction d)"
    and "tra_commit_sub_trans tx = None" "TRA_system tx = TRA_system temp" "\<not> TRA_read_committed tx"
    and "\<And>m. m \<in> interesting tx \<Longrightarrow> snapshot_bits tx m = tip_state d m \<or>
      (tra_number tx mod 100 = 0 \<and> tip_state d m = tra_active \<and> lock_data m = 0)"
    and "\<And>m. m \<in> interesting tx \<Longrightarrow> m \<le> dbb_oldest_transaction d' \<Longrightarrow> snapshot_bits tx m = tra_committed"
    and "\<And>m. m \<in> interesting tx \<Longrightarrow> hdr_oldest_active d \<le> m \<Longrightarrow> dbb_oldest_active d \<le> m \<Longrightarrow> m < dbb_oldest_active d' \<Longrightarrow>
      tip_state d m \<noteq> tra_active \<or> (tra_number tx mod 100 = 0 \<and> lock_data m = 0)"
proof -
  obtain number d1 where bump: "bump_transaction_id d = Inr (number, d1)"
    using assms(2,4) by (auto simp: TRA_start_def start_numbers_def)
  note bs = bump_transaction_id_spec [OF assms(1) bump]
  have ro: "\<not> dbb_read_only d1" using bs(3) assms(4) by simp
  let ?tx0 = "fresh_tra temp number d1" and ?active = "max (hdr_oldest_active d1) (hdr_oldest_transaction d1)"
  have sn: "start_numbers d = Inr ((number, hdr_oldest_transaction d1, ?active, hdr_oldest_snapshot d1), d1)"
    using bump assms(4) by (simp add: start_numbers_def)
  have "lock_granted" using assms(2) sn by (cases lock_granted) (simp_all add: TRA_start_def)
  then obtain tx1 d2 tx3 d3 where snap: "take_snapshot ?tx0 d1 = Inr (tx1, d2)"
    and scans: "start_scans granted lock_data query_min (hdr_oldest_snapshot d1) ?active tx1 d2 = Inr (tx3, d3)"
    and fin: "map_result (\<lambda>(tx4, d4). (Some tx4, if TRA_precommitted tx4 then snd (TRA_precommited 0 number d4) else d4))
      (if TRA_readonly tx3 \<and> TRA_read_committed tx3
       then map_result (\<lambda>d4. (tx3\<lparr>TRA_precommitted := True\<rparr>, d4)) (TRA_set_state (Some tx3) number tra_committed d3)
       else Inr (tx3, d3)) = Inr (Some tx, d')"
    using assms(2) ro unfolding TRA_start_def sn fresh_tra_def Let_def bind_result_simps prod.case
    by (auto simp del: map_result_eq_Inr)
  have rc: "\<not> TRA_read_committed ?tx0" using assms(3) by (simp add: fresh_tra_def)
  have lt: "tra_oldest ?tx0 \<le> tra_number ?tx0" "tra_number ?tx0 < 2147483648" "0 < tra_oldest ?tx0"
    using bs(2,4) assms(5-7) by (auto simp: fresh_tra_def)
  note s = take_snapshot_spec [OF bs(1) snap rc lt(1,2)]
  obtain bits where tx1: "tx1 = ?tx0\<lparr>tra_transactions := bits\<rparr>" using s(2) by blast
  have i: "tra_newest tx1 = tra_number tx1" "\<not> TRA_read_committed tx1" "tra_oldest tx1 \<le> ?active"
    "tra_oldest tx1 \<le> tra_number tx1" "0 < tra_oldest tx1" "tra_number tx1 = number" "tra_oldest tx1 = hdr_oldest_transaction d1"
    using rc lt by (simp_all add: tx1 fresh_tra_def)
  note sc3 = start_scans_same [OF scans s(3) i(1-5)]
  have same3: "same_start tx1 tx3" using sc3(1) by (simp add: active_scanned_def)
  then have "\<not> TRA_read_committed tx3" using i(2) by (simp add: same_startD)
  then have tx: "tx = tx3" and d': "dbb_oldest_transaction d' = dbb_oldest_transaction d3" "dbb_oldest_active d' = dbb_oldest_active d3"
    using fin by (auto simp: precommited_oldest)
  note sc = sc3 [folded tx] and same = same3 [folded tx]
  note e = same_startD [OF same]
  show "snapshot_covers tx" using s(3) same_start_covers [OF same] by simp
  show "tra_number tx = hdr_next_transaction d + 1" "tra_newest tx = tra_number tx"
    "tra_oldest tx = max (hdr_oldest_transaction d) (dbb_oldest_transaction d)"
    "tra_commit_sub_trans tx = None" "TRA_system tx = TRA_system temp" "\<not> TRA_read_committed tx"
    using bs(2,4) i rc by (simp_all add: e) (simp_all add: tx1 fresh_tra_def)
  have tip: "snapshot_bits tx1 m = tip_state d m" if "m \<in> interesting tx" for m
  proof -
    have "m \<in> interesting ?tx0" "0 < m" "m < number" using that lt(3) by (auto simp: e i tx1 fresh_tra_def)
    then show ?thesis using s(5) bs(6) by simp
  qed
  show "snapshot_bits tx m = tip_state d m \<or> (tra_number tx mod 100 = 0 \<and> tip_state d m = tra_active \<and> lock_data m = 0)"
    if "m \<in> interesting tx" for m
  proof -
    have "m \<in> interesting tx1" using that by (simp add: e)
    then have "snapshot_bits tx m = snapshot_bits tx1 m \<or> (tra_number tx1 mod 100 = 0 \<and> abandoned lock_data tx1 m)"
      using sc(1) unfolding active_scanned_def by blast
    then show ?thesis using tip [OF that] by (auto simp: e)
  qed
  show "snapshot_bits tx m = tra_committed" if "m \<in> interesting tx" "m \<le> dbb_oldest_transaction d'" for m
    using sc(2) [of m] that by (simp add: d' e)
  show "tip_state d m \<noteq> tra_active \<or> (tra_number tx mod 100 = 0 \<and> lock_data m = 0)"
    if "m \<in> interesting tx" "hdr_oldest_active d \<le> m" "dbb_oldest_active d \<le> m" "m < dbb_oldest_active d'" for m
  proof -
    have "?active \<le> m" using that(1-3) bs(4,5) by (auto simp: e i)
    then have "snapshot_bits tx1 m \<noteq> tra_active \<or> (tra_number tx1 mod 100 = 0 \<and> abandoned lock_data tx1 m)"
      using sc(1) that(1,4) unfolding active_scanned_def by (simp add: d' e)
    then show ?thesis using tip [OF that(1)] by (auto simp: e)
  qed
qed

end
