(* ===== verification/Tip_Cleanup.thy ===== *)
theory Tip_Cleanup
  imports Tip_Inv
begin

text \<open>
  The clean-up of the inventory pages at the first attachment, \<^verbatim>\<open>TRA_cleanup\<close> of
  \<^verbatim>\<open>src/jrd/tra.c\<close>.
\<close>

section \<open>Cleaning up\<close>

definition byte_state :: "byte list \<Rightarrow> nat \<Rightarrow> nat" where
  "byte_state tip k = state_bits (tip ! (k div 4)) (TRANS_SHIFT k)"

lemma cleanup_bits_spec:
  assumes "number + n \<le> 4 * length tip"
  shows "\<exists>tip'. cleanup_bits n number tip = Inr tip' \<and> length tip' = length tip \<and>
    (\<forall>k < 4 * length tip. byte_state tip' k =
      (if number \<le> k \<and> k < number + n \<and> byte_state tip k = tra_active then tra_dead else byte_state tip k))"
  using assms
proof (induction n arbitrary: number tip)
  case (Suc n)
  have o: "number div 4 < length tip" using Suc.prems by (intro less_mult_imp_div_less) simp
  let ?tip1 = "if byte_state tip number = tra_active
    then set_bits_at (TRANS_OFFSET number) (TRANS_SHIFT number) tra_dead tip else tip"
  have len: "length ?tip1 = length tip" by simp
  have step: "byte_state ?tip1 k = (if k = number \<and> byte_state tip k = tra_active then tra_dead else byte_state tip k)"
    if "k < 4 * length tip" for k
  proof -
    have "k div 4 < length tip" using that by (intro less_mult_imp_div_less) simp
    then show ?thesis using set_bits_at_state [of tra_dead number tip k] o by (auto simp: byte_state_def TRANS_OFFSET_def)
  qed
  have "Suc number + n \<le> 4 * length ?tip1" using Suc.prems by simp
  from Suc.IH [OF this] obtain tip' where tip': "cleanup_bits n (Suc number) ?tip1 = Inr tip'" "length tip' = length tip"
    "\<forall>k < 4 * length tip. byte_state tip' k =
      (if Suc number \<le> k \<and> k < Suc number + n \<and> byte_state ?tip1 k = tra_active then tra_dead else byte_state ?tip1 k)"
    unfolding len by blast
  have "cleanup_bits (Suc n) number tip = Inr tip'" using tip'(1) o by (simp add: byte_state_def TRANS_OFFSET_def)
  moreover have "byte_state tip' k = (if number \<le> k \<and> k < number + Suc n \<and> byte_state tip k = tra_active then tra_dead else byte_state tip k)"
    if "k < 4 * length tip" for k
    using tip'(3) step [OF that] that by auto
  ultimately show ?case using tip'(2) by blast
qed simp

lemma cleanup_bits_overrun:
  assumes "number \<le> 4 * length tip" "4 * length tip < number + n"
  shows "cleanup_bits n number tip = Inl OUT_OF_BOUNDS"
  using assms
proof (induction n arbitrary: number tip)
  case (Suc n)
  show ?case
  proof (cases "number = 4 * length tip")
    case False
    then show ?thesis using Suc.IH [of "Suc number"] Suc.prems by (auto simp: TRANS_OFFSET_def)
  qed (simp add: TRANS_OFFSET_def)
qed simp

lemma page_states:
  assumes "tips_ok d" "recorded d k"
  shows "tip_state d k = byte_state (tip_pages d ! (k div pgc_tpt d)) (k mod pgc_tpt d)"
  using assms TRANS_SHIFT_mod by (simp add: tip_state_def byte_state_def TRANS_OFFSET_def tips_ok_def)

lemma cleanup_pages_spec:
  assumes "tips_ok d" "seq + n \<le> length (tip_pages d)" "number < pgc_tpt d"
    and "\<forall>i. seq \<le> i \<and> i < seq + n \<longrightarrow> i * pgc_tpt d \<le> ceiling \<and> ceiling \<noteq> Suc i * pgc_tpt d"
  shows "\<exists>d'. cleanup_pages n seq number ceiling d = Inr d' \<and> tips_ok d' \<and> length (tip_pages d') = length (tip_pages d) \<and>
    pgc_tpt d' = pgc_tpt d \<and>
    (\<forall>k. recorded d k \<longrightarrow> tip_state d' k =
      (if seq * pgc_tpt d + number \<le> k \<and> k \<le> ceiling \<and> k div pgc_tpt d < seq + n \<and> tip_state d k = tra_active
       then tra_dead else tip_state d k))"
  using assms
proof (induction n arbitrary: seq number d)
  case 0
  have "\<not> (seq * pgc_tpt d + number \<le> k \<and> k div pgc_tpt d < seq)" for k
    using 0(3) by (metis add_leD1 dividend_less_div_times div_less_iff_less_mult leD less_nat_zero_code not_gr_zero)
  then show ?case using 0(1) by auto
next
  case (Suc n)
  let ?t = "pgc_tpt d"
  let ?tip = "tip_pages d ! seq" and ?max1 = "ceiling - seq * ?t"
  let ?max2 = "if ?max1 > ?t then ?t - 1 else ?max1"
  have seq: "seq < length (tip_pages d)" using Suc.prems(2) by simp
  have t: "?t \<noteq> 0" "4 * length ?tip = ?t" using Suc.prems(1) seq by (auto simp: tips_ok_def)
  have c: "seq * ?t \<le> ceiling" "?max1 \<noteq> ?t" using Suc.prems(4) [rule_format, of seq] by auto
  then have max2: "?max2 < ?t" "k \<le> ?max2 \<longleftrightarrow> seq * ?t + k \<le> ceiling" if "k < ?t" for k using t(1) that by auto
  have "number + (Suc ?max2 - number) \<le> 4 * length ?tip" using max2(1) [OF Suc.prems(3)] Suc.prems(3) unfolding t(2) by simp
  from cleanup_bits_spec [OF this] obtain tip' where tip': "cleanup_bits (Suc ?max2 - number) number ?tip = Inr tip'"
    "length tip' = length ?tip" "\<forall>k < ?t. byte_state tip' k =
      (if number \<le> k \<and> k < number + (Suc ?max2 - number) \<and> byte_state ?tip k = tra_active then tra_dead else byte_state ?tip k)"
    unfolding t(2) by blast
  define d1 where "d1 = d\<lparr>tip_pages := (tip_pages d)[seq := tip']\<rparr>"
  have ok1: "tips_ok d1" using Suc.prems(1) seq tip'(2) by (auto simp: d1_def tips_ok_def dest: set_update_subset_insert [THEN subsetD])
  have p1: "pgc_tpt d1 = ?t" "length (tip_pages d1) = length (tip_pages d)" by (simp_all add: d1_def)
  have st1: "tip_state d1 k = (if k div ?t = seq \<and> number \<le> k mod ?t \<and> k \<le> ceiling \<and> tip_state d k = tra_active
      then tra_dead else tip_state d k)" if "recorded d k" for k
  proof (cases "k div ?t = seq")
    case True
    have "recorded d1 k" using that by (simp add: recorded_def p1)
    then have "tip_state d1 k = byte_state tip' (k mod ?t)" using page_states [OF ok1] True seq by (simp add: p1 d1_def)
    moreover have "k = seq * ?t + k mod ?t" using True by (metis div_mult_mod_eq)
    moreover have "k mod ?t < ?t" using t(1) by simp
    ultimately show ?thesis
      using tip'(3) max2(2) [of "k mod ?t"] page_states [OF Suc.prems(1) that] True by auto
  next
    case False
    then show ?thesis by (auto simp: tip_state_def d1_def)
  qed
  have nx: "Suc seq + n \<le> length (tip_pages d1)" "0 < pgc_tpt d1"
    "\<forall>i. Suc seq \<le> i \<and> i < Suc seq + n \<longrightarrow> i * pgc_tpt d1 \<le> ceiling \<and> ceiling \<noteq> Suc i * pgc_tpt d1"
    using Suc.prems(2,4) t(1) by (auto simp: p1)
  from Suc.IH [OF ok1 nx(1,2,3)] obtain d' where d': "cleanup_pages n (Suc seq) 0 ceiling d1 = Inr d'" "tips_ok d'"
    "length (tip_pages d') = length (tip_pages d)" "pgc_tpt d' = ?t"
    "\<forall>k. recorded d k \<longrightarrow> tip_state d' k =
      (if Suc seq * ?t \<le> k \<and> k \<le> ceiling \<and> k div ?t < Suc seq + n \<and> tip_state d1 k = tra_active then tra_dead else tip_state d1 k)"
    by (auto simp: p1 recorded_def)
  have "cleanup_pages (Suc n) seq number ceiling d = Inr d'"
    using tip'(1) d'(1) seq by (simp add: Let_def d1_def)
  moreover have "tip_state d' k =
      (if seq * ?t + number \<le> k \<and> k \<le> ceiling \<and> k div ?t < seq + Suc n \<and> tip_state d k = tra_active then tra_dead else tip_state d k)"
    if "recorded d k" for k
  proof -
    have k: "k = k div ?t * ?t + k mod ?t" "k mod ?t < ?t" using t(1) by simp_all
    have lt: "k div ?t < i \<longleftrightarrow> k < i * ?t" for i using t(1) by (simp add: div_less_iff_less_mult)
    consider "k div ?t < seq" | "k div ?t = seq" | "seq < k div ?t" by linarith
    then show ?thesis
    proof cases
      case 1
      then have "k < seq * ?t" "k < Suc seq * ?t" using lt [of seq] lt [of "Suc seq"] by auto
      then show ?thesis using d'(5) st1 [OF that] that 1 by auto
    next
      case 2
      have "k < Suc seq * ?t" using 2 lt [of "Suc seq"] by auto
      moreover have "k = seq * ?t + k mod ?t" using k(1) unfolding 2 .
      then have "seq * ?t + number \<le> k \<longleftrightarrow> number \<le> k mod ?t" by linarith
      ultimately show ?thesis using d'(5) st1 [OF that] that 2 by auto
    next
      case 3
      then have "Suc seq * ?t \<le> k" using lt [of "Suc seq"] by auto
      moreover have "seq * ?t + number \<le> k" using calculation Suc.prems(3) by simp
      ultimately show ?thesis using d'(5) st1 [OF that] that 3 by auto
    qed
  qed
  ultimately show ?case using d'(2-4) by blast
qed

lemma cleanup_pages_overrun:
  assumes "tips_ok d" "ceiling = (seq + Suc n) * pgc_tpt d" "seq + Suc n \<le> length (tip_pages d)" "number < pgc_tpt d"
  shows "cleanup_pages (Suc (Suc n)) seq number ceiling d = Inl OUT_OF_BOUNDS"
  using assms
proof (induction n arbitrary: seq number d)
  case 0
  let ?t = "pgc_tpt d" and ?tip = "tip_pages d ! seq"
  have seq: "seq < length (tip_pages d)" using 0(3) by simp
  have t: "4 * length ?tip = ?t" using 0(1) seq by (auto simp: tips_ok_def)
  have max: "ceiling - seq * ?t = ?t" using 0(2) by simp
  have "cleanup_bits (Suc ?t - number) number ?tip = Inl OUT_OF_BOUNDS"
    using 0(4) unfolding t [symmetric] by (intro cleanup_bits_overrun) auto
  then show ?case using seq by (simp add: max)
next
  case (Suc n)
  let ?t = "pgc_tpt d" and ?tip = "tip_pages d ! seq"
  have seq: "seq < length (tip_pages d)" using Suc.prems(3) by simp
  have t: "4 * length ?tip = ?t" "0 < ?t" using Suc.prems(1) seq by (auto simp: tips_ok_def)
  have max: "ceiling - seq * ?t > ?t" using Suc.prems(2) t(2) by (simp add: algebra_simps)
  have "number + (Suc (?t - 1) - number) \<le> 4 * length ?tip" using Suc.prems(4) t by simp
  from cleanup_bits_spec [OF this] obtain tip' where tip': "cleanup_bits (Suc (?t - 1) - number) number ?tip = Inr tip'"
    "length tip' = length ?tip" by blast
  define d1 where "d1 = d\<lparr>tip_pages := (tip_pages d)[seq := tip']\<rparr>"
  have "tips_ok d1" using Suc.prems(1) seq tip'(2) by (auto simp: d1_def tips_ok_def dest: set_update_subset_insert [THEN subsetD])
  moreover have "ceiling = (Suc seq + Suc n) * pgc_tpt d1" "Suc seq + Suc n \<le> length (tip_pages d1)" "0 < pgc_tpt d1"
    using Suc.prems(2,3) t(2) by (simp_all add: d1_def)
  ultimately have "cleanup_pages (Suc (Suc n)) (Suc seq) 0 ceiling d1 = Inl OUT_OF_BOUNDS" by (rule Suc.IH)
  then show ?case unfolding cleanup_pages.simps(2) [of "Suc (Suc n)"]
    using tip'(1) seq max by (simp add: Let_def d1_def del: cleanup_pages.simps)
qed

end
