(* ===== verification/Tpc_Inv.thy ===== *)
theory Tpc_Inv
  imports Tip_Inv
begin

text \<open>
  The cache of inventory pages, \<^verbatim>\<open>src/jrd/tpc.c\<close>: its invariant, and what a lookup in it says of
  the pages.  A block may be behind its page, since other processes change the pages: what it
  calls committed or dead is so on the page.  A transaction that is older than some block and is
  in none of them has been passed over by the oldest interesting transaction, and is committed,
  or dead with nothing left of it.
\<close>

section \<open>The invariant\<close>

definition aligned :: "dbb \<Rightarrow> tpc \<Rightarrow> bool" where
  "aligned d b \<longleftrightarrow> tpc_base b mod pgc_tpt d = 0 \<and> tpc_base b \<le> 2147483648 \<and> length (tpc_transactions b) = pgc_tpt d div 4"

definition in_block :: "dbb \<Rightarrow> tpc \<Rightarrow> nat \<Rightarrow> bool" where
  "in_block d b n \<longleftrightarrow> tpc_base b \<le> n \<and> n < tpc_base b + pgc_tpt d"

definition cached_state :: "tpc \<Rightarrow> nat \<Rightarrow> nat" where
  "cached_state b n = state_bits (tpc_transactions b ! TRANS_OFFSET (n - tpc_base b)) (TRANS_SHIFT n)"

definition cache_sorted :: "dbb \<Rightarrow> bool" where
  "cache_sorted d \<longleftrightarrow> sorted_wrt (\<lambda>a b. tpc_base a + pgc_tpt d \<le> tpc_base b) (dbb_tip_cache d)"

definition block_true :: "dbb \<Rightarrow> tpc \<Rightarrow> bool" where
  "block_true d b \<longleftrightarrow> (\<forall>n. in_block d b n \<and> (cached_state b n = tra_committed \<or> cached_state b n = tra_dead) \<longrightarrow>
     recorded d n \<and> cached_state b n = tip_state d n)"

text \<open>The counters of the oldest interesting transaction have passed the transaction over.\<close>

definition passed_over :: "dbb \<Rightarrow> nat \<Rightarrow> bool" where
  "passed_over d n \<longleftrightarrow> n < hdr_oldest_transaction d \<or> n < dbb_oldest_transaction d"

definition settled :: "dbb \<Rightarrow> nat \<Rightarrow> bool" where
  "settled d n \<longleftrightarrow> tip_state d n = tra_committed \<or> tip_state d n = tra_dead"

definition gaps_old :: "dbb \<Rightarrow> bool" where
  "gaps_old d \<longleftrightarrow> (\<forall>b \<in> set (dbb_tip_cache d). \<forall>n. 0 < n \<and> n < tpc_base b \<and>
     (\<forall>c \<in> set (dbb_tip_cache d). \<not> in_block d c n) \<longrightarrow> passed_over d n)"

definition cache_ok :: "dbb \<Rightarrow> bool" where
  "cache_ok d \<longleftrightarrow> tips_ok d \<and> pgc_tpt d \<le> 2147483648 \<and> cache_sorted d \<and>
     (\<forall>b \<in> set (dbb_tip_cache d). aligned d b \<and> block_true d b) \<and> gaps_old d"

text \<open>
  What the two counters promise: a start moves them over committed transactions, a sweep also
  over dead ones, whose records it has removed.
\<close>

definition old_settled :: "dbb \<Rightarrow> bool" where
  "old_settled d \<longleftrightarrow> (\<forall>n. 0 < n \<and> passed_over d n \<longrightarrow> settled d n)"

section \<open>Fetching pages brings blocks up to date\<close>

definition fill_block :: "dbb \<Rightarrow> nat set \<Rightarrow> tpc \<Rightarrow> tpc" where
  "fill_block d pages b = (if tpc_base b div pgc_tpt d \<in> pages
     then b\<lparr>tpc_transactions := tip_pages d ! (tpc_base b div pgc_tpt d)\<rparr> else b)"

definition refresh :: "nat set \<Rightarrow> dbb \<Rightarrow> dbb" where
  "refresh pages d = d\<lparr>dbb_tip_cache := map (fill_block d pages)
     (dropWhile (\<lambda>b. tpc_base b + pgc_tpt d \<le> dbb_oldest_transaction d) (dbb_tip_cache d))\<rparr>"

lemma fill_block_base [simp]: "tpc_base (fill_block d pages b) = tpc_base b"
  by (simp add: fill_block_def)

lemma fill_block_cache [simp]: "fill_block (d\<lparr>dbb_tip_cache := c\<rparr>) = fill_block d"
  by (simp add: fill_block_def fun_eq_iff)

lemma fill_block_twice: "fill_block d S (fill_block d T b) = fill_block d (T \<union> S) b"
  by (simp add: fill_block_def)

lemma refresh_sel [simp]:
  "pgc_tpt (refresh S d) = pgc_tpt d" "tip_pages (refresh S d) = tip_pages d"
  "dbb_oldest_transaction (refresh S d) = dbb_oldest_transaction d"
  by (simp_all add: refresh_def)

lemma same_refresh [simp]: "same_tips d (refresh S d)"
  by (simp add: refresh_def)

lemma in_block_same [simp]: "in_block (refresh S d) = in_block d" "in_block (d\<lparr>dbb_tip_cache := c\<rparr>) = in_block d"
  "in_block d (fill_block d' T b) = in_block d b"
  by (simp_all add: in_block_def fun_eq_iff)

lemma refresh_refresh: "refresh S (refresh T d) = refresh (T \<union> S) d"
proof -
  let ?P = "\<lambda>b. tpc_base b + pgc_tpt d \<le> dbb_oldest_transaction d"
  have P: "?P \<circ> fill_block d T = ?P" by (simp add: fun_eq_iff)
  show ?thesis by (simp add: refresh_def dropWhile_map P dropWhile_idem fill_block_twice comp_def)
qed

lemma release_blocks_eq: "release_blocks oldest t c = dropWhile (\<lambda>b. tpc_base b + t \<le> oldest) c"
  by (induction c) auto

lemma assign_block_eq:
  "sorted_wrt (\<lambda>a b. tpc_base a + t \<le> tpc_base b) c \<Longrightarrow> 0 < t \<Longrightarrow>
   assign_block f bits c = map (\<lambda>b. if f = tpc_base b then b\<lparr>tpc_transactions := bits @ drop (length bits) (tpc_transactions b)\<rparr> else b) c"
proof (induction c)
  case (Cons a c)
  show ?case
  proof (cases "f = tpc_base a")
    case True
    have "\<forall>b \<in> set c. f \<noteq> tpc_base b" using Cons.prems True by fastforce
    then show ?thesis using True by (simp add: map_idI)
  qed (use Cons in simp)
qed simp

lemma sorted_wrt_dropWhile: "sorted_wrt R xs \<Longrightarrow> sorted_wrt R (dropWhile P xs)"
  by (induction xs) auto

lemma TPC_update_cache_eq:
  assumes "cache_sorted d" "tips_ok d" "\<forall>b \<in> set (dbb_tip_cache d). aligned d b" "s < length (tip_pages d)"
  shows "TPC_update_cache (tip_pages d ! s) s d = refresh {s} d"
proof -
  let ?c = "dropWhile (\<lambda>b. tpc_base b + pgc_tpt d \<le> dbb_oldest_transaction d) (dbb_tip_cache d)"
  have t: "0 < pgc_tpt d" and len: "length (tip_pages d ! s) = pgc_tpt d div 4" using assms(2,4) by (auto simp: tips_ok_def)
  have srt: "sorted_wrt (\<lambda>a b. tpc_base a + pgc_tpt d \<le> tpc_base b) ?c"
    using assms(1) by (simp add: cache_sorted_def sorted_wrt_dropWhile)
  have b: "(if s * pgc_tpt d = tpc_base b then b\<lparr>tpc_transactions := tip_pages d ! s @ drop (length (tip_pages d ! s)) (tpc_transactions b)\<rparr> else b)
      = fill_block d {s} b" if "b \<in> set ?c" for b
  proof -
    have al: "aligned d b" using assms(3) that by (auto dest: set_dropWhileD)
    then have "tpc_base b = tpc_base b div pgc_tpt d * pgc_tpt d" by (auto simp: aligned_def)
    then have "s * pgc_tpt d = tpc_base b \<longleftrightarrow> tpc_base b div pgc_tpt d = s" using t by (metis nonzero_mult_div_cancel_right less_not_refl)
    then show ?thesis using al len by (auto simp: fill_block_def aligned_def)
  qed
  have take: "take (TRANS_OFFSET (pgc_tpt d)) (tip_pages d ! s) = tip_pages d ! s" using len by (simp add: TRANS_OFFSET_def)
  show ?thesis
    unfolding TPC_update_cache_def Let_def take release_blocks_eq assign_block_eq [OF srt t] refresh_def
    using b by (simp cong: map_cong)
qed

lemma cached_state_fill:
  assumes "aligned d b" "tips_ok d" "in_block d b n" "tpc_base b div pgc_tpt d \<in> S"
  shows "cached_state (fill_block d S b) n = tip_state d n"
proof -
  let ?t = "pgc_tpt d"
  obtain q where q: "tpc_base b = q * ?t" using assms(1) by (metis aligned_def mod_0_imp_dvd dvd_div_mult_self)
  have t: "0 < ?t" using assms(2) by (simp add: tips_ok_def)
  obtain r where r: "n = q * ?t + r" "r < ?t" using assms(3) q by (auto simp: in_block_def le_iff_add)
  then show ?thesis using assms(4) t q by (simp add: cached_state_def fill_block_def tip_state_def)
qed

lemma fill_block_other: "tpc_base b div pgc_tpt d \<notin> S \<Longrightarrow> fill_block d S b = b"
  by (simp add: fill_block_def)

lemma block_page:
  assumes "aligned d b" "tips_ok d" "in_block d b n"
  shows "tpc_base b div pgc_tpt d = n div pgc_tpt d"
proof -
  let ?t = "pgc_tpt d"
  obtain q where q: "tpc_base b = q * ?t" using assms(1) by (metis aligned_def mod_0_imp_dvd dvd_div_mult_self)
  have t: "0 < ?t" using assms(2) by (simp add: tips_ok_def)
  obtain r where r: "n = q * ?t + r" "r < ?t" using assms(3) q by (auto simp: in_block_def le_iff_add)
  then show ?thesis using t q by simp
qed

lemma set_refresh: "b' \<in> set (dbb_tip_cache (refresh S d)) \<Longrightarrow> \<exists>b \<in> set (dbb_tip_cache d). b' = fill_block d S b"
  by (auto simp: refresh_def dest: set_dropWhileD)

lemma same_block: "same_tips d d' \<Longrightarrow> aligned d' = aligned d \<and> block_true d' = block_true d \<and> in_block d' = in_block d"
  by (simp add: fun_eq_iff aligned_def block_true_def in_block_def same_tipsD)

lemma same_passed: "same_tips d d' \<Longrightarrow> passed_over d' n = passed_over d n"
  by (simp add: passed_over_def same_tipsD)

lemma dropWhile_dropped: "x \<in> set xs \<Longrightarrow> x \<notin> set (dropWhile P xs) \<Longrightarrow> P x"
  by (induction xs) (auto split: if_splits)

lemma cache_ok_refresh:
  assumes "cache_ok d" "old_settled d" "\<forall>s \<in> S. s < length (tip_pages d)"
  shows "cache_ok (refresh S d)"
proof -
  have d: "tips_ok d" "cache_sorted d" "gaps_old d" and b: "\<And>b. b \<in> set (dbb_tip_cache d) \<Longrightarrow> aligned d b \<and> block_true d b"
    using assms(1) by (auto simp: cache_ok_def)
  note same = same_refresh [of d S, THEN same_block] same_refresh [of d S, THEN same_tipsD(3)]
  have al: "aligned d (fill_block d S b)" if "b \<in> set (dbb_tip_cache d)" for b
    using b [OF that] assms(3) d(1) by (auto simp: aligned_def fill_block_def tips_ok_def)
  have tr: "block_true d (fill_block d S b)" if "b \<in> set (dbb_tip_cache d)" for b
  proof (cases "tpc_base b div pgc_tpt d \<in> S")
    case True
    have "recorded d n \<and> cached_state (fill_block d S b) n = tip_state d n" if "in_block d b n" for n
      using cached_state_fill [OF _ d(1) that True] block_page [OF _ d(1) that] assms(3) True b [OF \<open>b \<in> _\<close>] by (simp add: recorded_def)
    then show ?thesis by (simp add: block_true_def)
  qed (use b [OF that] in \<open>simp add: fill_block_other\<close>)
  have gap: "passed_over d n"
    if b': "b' \<in> set (dbb_tip_cache (refresh S d))" and n: "0 < n" "n < tpc_base b'"
      and out: "\<forall>c \<in> set (dbb_tip_cache (refresh S d)). \<not> in_block d c n" for b' n
  proof (cases "\<exists>c \<in> set (dbb_tip_cache d). in_block d c n")
    case True
    then obtain c where c: "c \<in> set (dbb_tip_cache d)" "in_block d c n" by blast
    then have "fill_block d S c \<notin> set (dbb_tip_cache (refresh S d))" using out by auto
    then have "tpc_base c + pgc_tpt d \<le> dbb_oldest_transaction d"
      using c(1) by (auto simp: refresh_def dest: dropWhile_dropped)
    then show ?thesis using c(2) by (simp add: passed_over_def in_block_def)
  next
    case False
    then show ?thesis using d(3) set_refresh [OF b'] n by (auto simp: gaps_old_def)
  qed
  have "gaps_old (refresh S d)"
    using gap same(1) unfolding gaps_old_def same_passed [OF same_refresh] by metis
  moreover have "cache_sorted (refresh S d)"
    using d(2) by (simp add: cache_sorted_def refresh_def sorted_wrt_map sorted_wrt_dropWhile)
  moreover have "aligned (refresh S d) b \<and> block_true (refresh S d) b" if "b \<in> set (dbb_tip_cache (refresh S d))" for b
    using set_refresh [OF that] al tr same by auto
  ultimately show ?thesis using assms(1) same_refresh [of d S, THEN same_tipsD(4)] by (auto simp: cache_ok_def)
qed

lemma fetch_page_refresh:
  assumes "cache_ok d" "fetch_inventory_page s d = Inr (tip, d')"
  shows "d' = refresh {s} d" "s < length (tip_pages d)"
  using assms TPC_update_cache_eq [of d s] by (auto simp: fetch_inventory_page_eq cache_ok_def)

lemma same_old: "same_tips d d' \<Longrightarrow> old_settled d' = old_settled d"
  by (simp add: old_settled_def passed_over_def settled_def same_tipsD)

lemma inventory_pages_refresh:
  assumes "cache_ok d" "old_settled d" "inventory_pages n s newest d = Inr (bits, d')"
  shows "(\<forall>i < n. s + i < length (tip_pages d)) \<and> (d' = d \<and> n = 0 \<or> d' = refresh {s ..< s + n} d)"
  using assms
proof (induction n arbitrary: s d bits)
  case (Suc n)
  obtain tip d1 bits' where 1: "fetch_inventory_page s d = Inr (tip, d1)" "inventory_pages n (Suc s) newest d1 = Inr (bits', d')"
    using Suc.prems(3) by auto
  note d1 = fetch_page_refresh [OF Suc.prems(1) 1(1)]
  have ok1: "cache_ok d1" "old_settled d1"
    using d1 cache_ok_refresh [OF Suc.prems(1,2)] same_old [OF same_refresh] Suc.prems(2) by auto
  note IH = Suc.IH [OF ok1 1(2)]
  have "d' = d1 \<and> n = 0 \<or> d' = refresh ({s} \<union> {Suc s ..< Suc s + n}) d" using IH d1(1) refresh_refresh by metis
  moreover have "{s} \<union> {Suc s ..< Suc s + n} = {s ..< s + Suc n}" by auto
  ultimately have "d' = refresh {s ..< s + Suc n} d" using d1(1) by auto
  moreover have "\<forall>i < Suc n. s + i < length (tip_pages d)" using IH d1 by (auto simp: less_Suc_eq_0_disj)
  ultimately show ?case by blast
qed auto

lemma TRA_get_inventory_refresh:
  assumes "cache_ok d" "old_settled d" "TRA_get_inventory base newest d = Inr (bits, d')"
  defines "S \<equiv> {base div pgc_tpt d .. max (base div pgc_tpt d) (newest div pgc_tpt d)}"
  shows "d' = refresh S d" "\<forall>s \<in> S. s < length (tip_pages d)"
proof -
  let ?s = "base div pgc_tpt d" and ?e = "newest div pgc_tpt d"
  obtain tip d1 bits' where 1: "fetch_inventory_page ?s d = Inr (tip, d1)" "inventory_pages (?e - ?s) (Suc ?s) newest d1 = Inr (bits', d')"
    using assms(3) by (auto simp: TRA_get_inventory_def Let_def)
  note d1 = fetch_page_refresh [OF assms(1) 1(1)]
  have ok1: "cache_ok d1" "old_settled d1"
    using d1 cache_ok_refresh [OF assms(1,2)] same_old [OF same_refresh] assms(2) by auto
  note p = inventory_pages_refresh [OF ok1 1(2)]
  have S: "{?s} \<union> {Suc ?s ..< Suc ?s + (?e - ?s)} = S" by (auto simp: S_def)
  show "d' = refresh S d" using p d1(1) refresh_refresh S by (metis Un_empty_right atLeastLessThan_empty add_0_right order_refl)
  have "s < length (tip_pages d)" if "s \<in> S" for s
  proof -
    have "s = ?s \<or> (s = Suc ?s + (s - Suc ?s) \<and> s - Suc ?s < ?e - ?s)" using that by (auto simp: S_def)
    then show ?thesis using p d1 by (metis refresh_sel(2))
  qed
  then show "\<forall>s \<in> S. s < length (tip_pages d)" by blast
qed

section \<open>Extending the cache\<close>

text \<open>Where the code lets the new blocks begin: anywhere for an empty cache, else behind the last one.\<close>

definition extends_from :: "nat \<Rightarrow> dbb \<Rightarrow> bool" where
  "extends_from oldest d \<longleftrightarrow> (if dbb_tip_cache d = [] then oldest = 0 else oldest = tpc_base (last (dbb_tip_cache d)) + pgc_tpt d)"

definition new_blocks :: "nat \<Rightarrow> dbb \<Rightarrow> tpc list" where
  "new_blocks oldest d = map (\<lambda>i. allocate_tpc (pgc_tpt d) (i * pgc_tpt d))
     [max oldest (hdr_oldest_transaction d) div pgc_tpt d ..< Suc (hdr_next_transaction d div pgc_tpt d)]"

lemma cache_transactions_eq:
  "cache_transactions oldest d = map_result snd (TRA_get_inventory (max oldest (hdr_oldest_transaction d)) (hdr_next_transaction d)
     (d\<lparr>dbb_tip_cache := dbb_tip_cache d @ new_blocks oldest d\<rparr>))"
  by (simp add: cache_transactions_def new_blocks_def Let_def comp_def del: upt_Suc)

lemma cached_state_new:
  assumes "in_block d (allocate_tpc (pgc_tpt d) base) n" "pgc_tpt d mod 4 = 0"
  shows "cached_state (allocate_tpc (pgc_tpt d) base) n = tra_active"
proof -
  have "(n - base) div 4 < pgc_tpt d div 4" using assms by (auto simp: in_block_def allocate_tpc_def)
  then show ?thesis by (simp add: cached_state_def allocate_tpc_def TRANS_OFFSET_def state_bits_def)
qed

lemma last_block_end:
  assumes "cache_sorted d" "b \<in> set (dbb_tip_cache d)"
  shows "tpc_base b \<le> tpc_base (last (dbb_tip_cache d))"
proof -
  obtain xs y where c: "dbb_tip_cache d = xs @ [y]" using assms(2) by (metis empty_iff list.set(1) rev_exhaust)
  show ?thesis using assms by (auto simp: cache_sorted_def c sorted_wrt_append)
qed

lemma old_before_new:
  assumes "cache_ok d" "extends_from oldest d" "b \<in> set (dbb_tip_cache d)"
  shows "tpc_base b + pgc_tpt d \<le> max oldest x div pgc_tpt d * pgc_tpt d" "tpc_base b + pgc_tpt d \<le> oldest"
proof -
  let ?t = "pgc_tpt d"
  have "tpc_base b \<le> tpc_base (last (dbb_tip_cache d))" using assms by (intro last_block_end) (auto simp: cache_ok_def)
  moreover have "dbb_tip_cache d \<noteq> []" using assms(3) by auto
  ultimately show le: "tpc_base b + ?t \<le> oldest" using assms(2) by (auto simp: extends_from_def)
  have t: "0 < ?t" and al: "tpc_base b mod ?t = 0" using assms(1,3) by (auto simp: cache_ok_def tips_ok_def aligned_def)
  have "(tpc_base b + ?t) mod ?t = 0" using al by simp
  then have "tpc_base b + ?t = (tpc_base b + ?t) div ?t * ?t" by auto
  also have "\<dots> \<le> max oldest x div ?t * ?t" using le by (intro mult_le_mono1 div_le_mono) simp
  finally show "tpc_base b + ?t \<le> max oldest x div ?t * ?t" .
qed

lemma new_block_cases:
  assumes "b \<in> set (new_blocks oldest d)"
  shows "\<exists>i. b = allocate_tpc (pgc_tpt d) (i * pgc_tpt d) \<and> tpc_base b = i * pgc_tpt d \<and>
    max oldest (hdr_oldest_transaction d) div pgc_tpt d \<le> i \<and> i \<le> hdr_next_transaction d div pgc_tpt d"
proof -
  obtain i where "i \<in> set [max oldest (hdr_oldest_transaction d) div pgc_tpt d ..< Suc (hdr_next_transaction d div pgc_tpt d)]"
    "b = allocate_tpc (pgc_tpt d) (i * pgc_tpt d)"
    using assms unfolding new_blocks_def set_map by blast
  then show ?thesis by (intro exI [of _ i]) (auto simp: allocate_tpc_def simp del: upt_Suc)
qed

lemma same_append [simp]: "same_tips d (d\<lparr>dbb_tip_cache := c\<rparr>)"
  by (rule same_tips_update)

lemma cache_ok_append:
  assumes "cache_ok d" "old_settled d" "extends_from oldest d" "hdr_next_transaction d < 2147483648"
  shows "cache_ok (d\<lparr>dbb_tip_cache := dbb_tip_cache d @ new_blocks oldest d\<rparr>)"
proof -
  let ?t = "pgc_tpt d" and ?m = "max oldest (hdr_oldest_transaction d)" and ?new = "new_blocks oldest d"
  let ?d = "d\<lparr>dbb_tip_cache := dbb_tip_cache d @ ?new\<rparr>"
  note same = same_append [of d "dbb_tip_cache d @ ?new", THEN same_block] same_append [of d "dbb_tip_cache d @ ?new", THEN same_tipsD(3)]
  have t: "0 < ?t" "?t mod 4 = 0" using assms(1) by (auto simp: cache_ok_def tips_ok_def)
  have new: "aligned d b \<and> block_true d b" if "b \<in> set ?new" for b
  proof -
    obtain i where i: "b = allocate_tpc ?t (i * ?t)" "i \<le> hdr_next_transaction d div ?t" using new_block_cases [OF \<open>b \<in> set ?new\<close>] by blast
    have "i * ?t \<le> hdr_next_transaction d" using i(2) t(1) by (simp add: less_eq_div_iff_mult_less_eq)
    then show ?thesis using assms(4) cached_state_new [OF _ t(2)] i(1)
      by (auto simp: block_true_def) (simp add: aligned_def allocate_tpc_def)
  qed
  have "i * ?t + ?t \<le> j * ?t" if "i < j" for i j using mult_le_mono1 [of "Suc i" j ?t] that by simp
  then have srt: "sorted_wrt (\<lambda>a b. tpc_base a + ?t \<le> tpc_base b) ?new"
    by (auto simp: new_blocks_def sorted_wrt_map allocate_tpc_def intro: sorted_wrt_mono_rel [OF _ sorted_wrt_upt] simp del: upt_Suc)
  have between: "tpc_base a + ?t \<le> tpc_base b" if "a \<in> set (dbb_tip_cache d)" "b \<in> set ?new" for a b
  proof -
    obtain i where i: "tpc_base b = i * ?t" "?m div ?t \<le> i" using new_block_cases [OF \<open>b \<in> set ?new\<close>] by blast
    have "?m div ?t * ?t \<le> i * ?t" using i(2) by simp
    then show ?thesis using old_before_new(1) [OF assms(1,3) that(1)] i(1) by (metis order_trans)
  qed
  have gap: "passed_over d n"
    if b: "b \<in> set (dbb_tip_cache d @ ?new)" and n: "0 < n" "n < tpc_base b"
      and out: "\<forall>c \<in> set (dbb_tip_cache d @ ?new). \<not> in_block d c n" for b n
  proof -
    have old: "passed_over d n" if "c \<in> set (dbb_tip_cache d)" "n < tpc_base c" for c
      using assms(1) that n(1) out by (auto simp: cache_ok_def gaps_old_def)
    show ?thesis
    proof (cases "b \<in> set (dbb_tip_cache d)")
      case False
      then obtain i where i: "tpc_base b = i * ?t" "i \<le> hdr_next_transaction d div ?t" using b new_block_cases [of b oldest d] by auto
      have ni: "n div ?t < i" using n(2) i(1) t(1) by (simp add: div_less_iff_less_mult)
      have "\<not> ?m div ?t \<le> n div ?t"
      proof
        assume le: "?m div ?t \<le> n div ?t"
        have "allocate_tpc ?t (n div ?t * ?t) \<in> set ?new" using le ni i(2) by (auto simp: new_blocks_def simp del: upt_Suc)
        then have "\<not> in_block d (allocate_tpc ?t (n div ?t * ?t)) n" using out by auto
        moreover have "n div ?t * ?t \<le> n" "n < n div ?t * ?t + ?t" using dividend_less_div_times [OF t(1), of n] by (simp_all add: add.commute)
        ultimately show False by (simp add: in_block_def allocate_tpc_def)
      qed
      then have "n < ?m" by (meson div_le_mono not_le)
      then consider "n < hdr_oldest_transaction d" | "n < oldest" by (auto simp: max_def split: if_splits)
      then show ?thesis
      proof cases
        case 1
        then show ?thesis by (simp add: passed_over_def)
      next
        case 2
        then have c: "dbb_tip_cache d \<noteq> []" "n < tpc_base (last (dbb_tip_cache d)) + ?t"
          using assms(3) by (auto simp: extends_from_def split: if_splits)
        have "last (dbb_tip_cache d) \<in> set (dbb_tip_cache d @ ?new)" using c(1) by simp
        then have "n < tpc_base (last (dbb_tip_cache d))" using out c(2) by (meson in_block_def not_le)
        then show ?thesis using old last_in_set [OF c(1)] by blast
      qed
    qed (use old n in blast)
  qed
  have "gaps_old ?d" using gap unfolding gaps_old_def same_passed [OF same_append] by simp
  moreover have "cache_sorted ?d" using assms(1) srt between by (auto simp: cache_sorted_def cache_ok_def sorted_wrt_append)
  moreover have "aligned ?d b \<and> block_true ?d b" if "b \<in> set (dbb_tip_cache ?d)" for b
    using that new assms(1) same by (auto simp: cache_ok_def)
  ultimately show ?thesis using assms(1) same_append [of d "dbb_tip_cache d @ ?new", THEN same_tipsD(4)]
    by (auto simp: cache_ok_def)
qed

lemma cache_transactions_spec:
  assumes "cache_ok d" "old_settled d" "extends_from oldest d" "hdr_next_transaction d < 2147483648"
    and "cache_transactions oldest d = Inr d'"
  shows "cache_ok d'" "same_tips d d'"
    and "\<And>b n. b \<in> set (dbb_tip_cache d') \<Longrightarrow> in_block d b n \<Longrightarrow> oldest \<le> n \<Longrightarrow> cached_state b n = tip_state d n"
    and "\<And>n. hdr_oldest_transaction d \<le> hdr_next_transaction d \<Longrightarrow> dbb_oldest_transaction d \<le> hdr_next_transaction d \<Longrightarrow>
      \<forall>b \<in> set (dbb_tip_cache d'). tpc_base b + pgc_tpt d \<le> n \<Longrightarrow> oldest \<le> n \<Longrightarrow> hdr_next_transaction d < n"
proof -
  let ?t = "pgc_tpt d" and ?m = "max oldest (hdr_oldest_transaction d)" and ?new = "new_blocks oldest d"
    and ?d = "d\<lparr>dbb_tip_cache := dbb_tip_cache d @ new_blocks oldest d\<rparr>" and ?h = "hdr_next_transaction d"
  define S where "S = {?m div ?t .. max (?m div ?t) (?h div ?t)}"
  have t: "0 < ?t" and ok: "tips_ok d" using assms(1) by (auto simp: cache_ok_def tips_ok_def)
  have d1: "cache_ok ?d" by (rule cache_ok_append [OF assms(1-4)])
  have old1: "old_settled ?d" using assms(2) same_old [OF same_append] by blast
  obtain bits where inv: "TRA_get_inventory ?m ?h ?d = Inr (bits, d')" using assms(5) by (auto simp: cache_transactions_eq)
  have d': "d' = refresh S ?d" "\<forall>s \<in> S. s < length (tip_pages ?d)"
    using TRA_get_inventory_refresh [OF d1 old1 inv] by (simp_all add: S_def)
  show "cache_ok d'" unfolding d'(1) by (rule cache_ok_refresh [OF d1 old1 d'(2)])
  show "same_tips d d'" unfolding d'(1) by (rule same_tips_trans [OF same_append same_refresh])
  show "cached_state b n = tip_state d n" if b: "b \<in> set (dbb_tip_cache d')" and n: "in_block d b n" "oldest \<le> n" for b n
  proof -
    obtain c where c: "c \<in> set (dbb_tip_cache d) \<union> set ?new" "b = fill_block d S c"
      using set_refresh [of b S ?d] b d'(1) by auto
    then have nc: "in_block d c n" using n(1) by simp
    have "c \<notin> set (dbb_tip_cache d)"
    proof
      assume "c \<in> set (dbb_tip_cache d)"
      then have "tpc_base c + ?t \<le> oldest" by (rule old_before_new(2) [OF assms(1,3)])
      then show False using nc n(2) by (simp add: in_block_def)
    qed
    then have cn: "c \<in> set ?new" using c(1) by blast
    then obtain i where i: "tpc_base c = i * ?t" "?m div ?t \<le> i" "i \<le> ?h div ?t" using new_block_cases by blast
    have "tpc_base c div ?t \<in> S" using i t by (simp add: S_def)
    moreover have "aligned d c" using d1 cn same_append [THEN same_block] by (auto simp: cache_ok_def)
    ultimately show ?thesis using cached_state_fill [OF _ ok nc] c(2) by simp
  qed
  show "?h < n" if le: "hdr_oldest_transaction d \<le> ?h" "dbb_oldest_transaction d \<le> ?h"
    and ends: "\<forall>b \<in> set (dbb_tip_cache d'). tpc_base b + ?t \<le> n" and n: "oldest \<le> n" for n
  proof (rule ccontr)
    assume "\<not> ?h < n"
    then have "?m div ?t \<le> ?h div ?t" using n le(1) by (intro div_le_mono) simp
    then have nb: "allocate_tpc ?t (?h div ?t * ?t) \<in> set (dbb_tip_cache ?d)" (is "?b \<in> _")
      by (auto simp: new_blocks_def simp del: upt_Suc)
    have h: "?h < tpc_base ?b + ?t"
      using dividend_less_div_times [OF t, of ?h] by (simp add: allocate_tpc_def add.commute)
    have "?b \<in> set (dropWhile (\<lambda>b. tpc_base b + ?t \<le> dbb_oldest_transaction d) (dbb_tip_cache ?d))"
    proof (rule ccontr)
      assume "?b \<notin> set (dropWhile (\<lambda>b. tpc_base b + ?t \<le> dbb_oldest_transaction d) (dbb_tip_cache ?d))"
      then have "tpc_base ?b + ?t \<le> dbb_oldest_transaction d" using dropWhile_dropped [OF nb] by blast
      then show False using h le(2) by simp
    qed
    then have "fill_block d S ?b \<in> set (dbb_tip_cache d')" by (auto simp: d'(1) refresh_def)
    then show False using ends h \<open>\<not> ?h < n\<close> by fastforce
  qed
qed

section \<open>Looking up a state\<close>

lemma find_block_cases:
  "find_block n d = Some b \<Longrightarrow> b \<in> set (dbb_tip_cache d) \<and> n < tpc_base b + pgc_tpt d"
  "find_block n d = None \<Longrightarrow> \<forall>b \<in> set (dbb_tip_cache d). tpc_base b + pgc_tpt d \<le> n"
  by (auto simp: find_block_def find_Some_iff find_None_iff)

text \<open>A number below the base wraps around and lands far behind the vector.\<close>

lemma block_state_eq:
  assumes "aligned d b" "tips_ok d" "pgc_tpt d \<le> 2147483648" "n < tpc_base b + pgc_tpt d"
  shows "block_state b n = (if tpc_base b \<le> n then Inr (cached_state b n) else Inl OUT_OF_BOUNDS)"
proof -
  have t: "pgc_tpt d mod 4 = 0" using assms(2) by (simp add: tips_ok_def)
  then have "tpc_base b mod 4 = 0" using assms(1) by (metis aligned_def dvd_trans mod_0_imp_dvd dvd_imp_mod_0)
  then have base: "tpc_base b div 4 * 4 = tpc_base b" by auto
  show ?thesis
  proof (cases "tpc_base b \<le> n")
    case True
    have "n - tpc_base b < pgc_tpt d" using assms(4) True by simp
    then have "(n - tpc_base b) div 4 < length (tpc_transactions b)" using assms(1) t by (auto simp: aligned_def)
    moreover have "n + 4294967296 - tpc_base b = (n - tpc_base b) + 4294967296" using True by simp
    then have "(n + 4294967296 - tpc_base b) mod 4294967296 = n - tpc_base b"
      using \<open>n - tpc_base b < pgc_tpt d\<close> assms(3) by (simp only: mod_add_self2) simp
    ultimately show ?thesis using True unfolding block_state_def TRA_state_def Let_def base by (simp add: cached_state_def TRANS_OFFSET_def)
  next
    case False
    have len: "length (tpc_transactions b) \<le> 536870912" using assms(1,3) by (simp add: aligned_def)
    have "2147483648 \<le> n + 4294967296 - tpc_base b" "n + 4294967296 - tpc_base b < 4294967296"
      using assms(1) False by (auto simp: aligned_def)
    then have "\<not> (n + 4294967296 - tpc_base b) mod 4294967296 div 4 < length (tpc_transactions b)" using len by simp
    then show ?thesis using False unfolding block_state_def TRA_state_def Let_def base by (simp add: TRANS_OFFSET_def)
  qed
qed

lemma cache_ok_nil [simp]: "extends_from 0 d \<longleftrightarrow> dbb_tip_cache d = []" if "cache_ok d"
  using that by (auto simp: extends_from_def cache_ok_def tips_ok_def)

lemma precommitted_same: "same_tips d d' \<Longrightarrow> precommitted n d' = precommitted n d"
  by (simp add: precommitted_def TRA_precommited_def Let_def same_tipsD split: option.split prod.split)

text \<open>A number before the first block has been passed over.\<close>

lemma before_first:
  assumes "cache_ok d" "dbb_tip_cache d = b # bs" "n < tpc_base b" "0 < n"
  shows "passed_over d n"
proof -
  have "\<not> in_block d c n" if "c \<in> set (dbb_tip_cache d)" for c
    using that assms(1-3) by (auto simp: cache_ok_def cache_sorted_def in_block_def)
  then show ?thesis using assms by (auto simp: cache_ok_def gaps_old_def)
qed

lemma cached_lookup:
  assumes "cache_ok d" "find_block n d = Some b" "block_state b n = Inr st"
  shows "st = cached_state b n" "in_block d b n" "st = tra_committed \<or> st = tra_dead \<Longrightarrow> recorded d n \<and> st = tip_state d n"
proof -
  note b = find_block_cases(1) [OF assms(2)]
  have ok: "aligned d b" "block_true d b" "tips_ok d" "pgc_tpt d \<le> 2147483648" using assms(1) b by (auto simp: cache_ok_def)
  have st: "tpc_base b \<le> n" "st = cached_state b n"
    using block_state_eq [OF ok(1,3,4), of n] b assms(3) by (auto split: if_splits)
  then show "st = cached_state b n" "in_block d b n" using b by (auto simp: in_block_def)
  then show "st = tra_committed \<or> st = tra_dead \<Longrightarrow> recorded d n \<and> st = tip_state d n" using ok(2) by (auto simp: block_true_def)
qed

definition counters_ok :: "dbb \<Rightarrow> bool" where
  "counters_ok d \<longleftrightarrow> hdr_oldest_transaction d \<le> hdr_next_transaction d \<and> dbb_oldest_transaction d \<le> hdr_next_transaction d \<and>
     hdr_next_transaction d < 2147483648"

lemma same_counters: "same_tips d d' \<Longrightarrow> counters_ok d' = counters_ok d"
  by (simp add: counters_ok_def same_tipsD)

lemma extend_cache_spec:
  assumes "cache_ok d" "old_settled d" "counters_ok d" "dbb_tip_cache d \<noteq> []" "find_block n d = None"
    and "extend_cache n d = Inr (st, d')"
  shows "cache_ok d' \<and> same_tips d d' \<and> (st = tip_state d n \<or> (st = tra_active \<and> hdr_next_transaction d < n))"
proof -
  let ?o = "tpc_base (last (dbb_tip_cache d)) + pgc_tpt d"
  have ext: "extends_from ?o d" and n: "?o \<le> n"
    using assms(4) find_block_cases(2) [OF assms(5)] by (auto simp: extends_from_def)
  have ct: "cache_transactions ?o d = Inr d'"
    and st: "case find_block n d' of Some b \<Rightarrow> block_state b n = Inr st | None \<Rightarrow> st = tra_active"
    using assms(6) by (auto simp: extend_cache_def split: option.splits)
  have h: "hdr_next_transaction d < 2147483648" using assms(3) by (simp add: counters_ok_def)
  note c = cache_transactions_spec [OF assms(1,2) ext h ct]
  show ?thesis
  proof (cases "find_block n d'")
    case None
    then have "hdr_next_transaction d < n"
      using c(4) [of n] n find_block_cases(2) [OF None] assms(3) c(2) by (auto simp: counters_ok_def same_tipsD)
    then show ?thesis using None st c(1,2) by simp
  next
    case (Some b)
    then have "block_state b n = Inr st" using st by simp
    from cached_lookup [OF c(1) Some this] have "st = cached_state b n" "in_block d b n" using same_block [OF c(2)] by auto
    then show ?thesis using c(1,2) c(3) [of b n] n find_block_cases(1) [OF Some] by simp
  qed
qed

lemma fetch_state_cache:
  assumes "cache_ok d" "old_settled d" "TRA_fetch_state n d = Inr (st, d')"
  shows "cache_ok d' \<and> same_tips d d' \<and> st = tip_state d n"
proof -
  obtain tip where "fetch_inventory_page (n div pgc_tpt d) d = Inr (tip, d')" using assms(3) by (auto simp: TRA_fetch_state_def)
  from fetch_page_refresh [OF assms(1) this] have "cache_ok d'" using cache_ok_refresh [OF assms(1,2)] by auto
  then show ?thesis using TRA_fetch_state_spec [OF assms(3)] by blast
qed

text \<open>The answers of \<^verbatim>\<open>TPC_snapshot_state\<close> and \<^verbatim>\<open>TRA_get_state\<close>, against the pages.\<close>

text \<open>
  A transaction that has been passed over is called committed even when it is dead: there is
  nothing of it left to be seen.
\<close>

definition true_answer :: "(nat \<Rightarrow> bool) \<Rightarrow> dbb \<Rightarrow> nat \<Rightarrow> nat \<Rightarrow> bool" where
  "true_answer granted d n st \<longleftrightarrow> (if precommitted n d then st = tra_precommitted
     else st = tip_state d n \<or> (st = tra_committed \<and> tip_state d n = tra_dead \<and> passed_over d n) \<or>
       (st = tra_active \<and> (\<not> granted n \<or> hdr_next_transaction d < n)))"

lemma true_answer_same: "same_tips d d' \<Longrightarrow> true_answer granted d' n st = true_answer granted d n st"
  by (simp add: true_answer_def precommitted_same same_passed same_tipsD)

lemma snapshot_state_cached:
  assumes "cache_ok d" "old_settled d" "counters_ok d" "dbb_tip_cache d \<noteq> []" "0 < n"
    and "TPC_snapshot_state granted n d = Inr (st, d')"
  shows "cache_ok d' \<and> same_tips d d' \<and> true_answer granted d n st"
proof (cases "precommitted n d")
  case False
  obtain b bs where c: "dbb_tip_cache d = b # bs" using assms(4) by (cases "dbb_tip_cache d") auto
  show ?thesis
  proof (cases "n < tpc_base b")
    case True
    note p = before_first [OF assms(1) c True assms(5)]
    then have "settled d n" using assms(2,5) by (simp add: old_settled_def)
    then show ?thesis using p assms(1,6) False c True
      by (auto simp: TPC_snapshot_state_def true_answer_def settled_def)
  next
    case nf: False
    show ?thesis
    proof (cases "find_block n d")
      case None
      then have "extend_cache n d = Inr (st, d')" using assms(6) False c nf by (simp add: TPC_snapshot_state_def)
      from extend_cache_spec [OF assms(1-4) None this] show ?thesis using False by (auto simp: true_answer_def)
    next
      case (Some b')
      obtain s where s: "block_state b' n = Inr s"
        and st: "if s = tra_committed \<or> s = tra_dead then st = s \<and> d' = d
                 else if \<not> granted n then st = tra_active \<and> d' = d else TRA_fetch_state n d = Inr (st, d')"
        using assms(6) False c nf Some by (auto simp: TPC_snapshot_state_def split: if_splits)
      show ?thesis using st cached_lookup(3) [OF assms(1) Some s] fetch_state_cache [OF assms(1,2)] assms(1) False
        by (auto simp: true_answer_def split: if_splits)
    qed
  qed
qed (use assms in \<open>auto simp: TPC_snapshot_state_def true_answer_def split: list.splits\<close>)

lemma TPC_snapshot_state_spec:
  assumes "cache_ok d" "old_settled d" "counters_ok d" "0 < n" "TPC_snapshot_state granted n d = Inr (st, d')"
  shows "cache_ok d' \<and> same_tips d d' \<and> true_answer granted d n st"
proof (cases "dbb_tip_cache d = []")
  case True
  then obtain d1 where d1: "cache_transactions 0 d = Inr d1" using assms(5) by (auto simp: TPC_snapshot_state_def)
  have h: "hdr_next_transaction d < 2147483648" using assms(3) by (simp add: counters_ok_def)
  have ext: "extends_from 0 d" using True by (simp add: extends_from_def)
  note c = cache_transactions_spec [OF assms(1,2) ext h d1]
  show ?thesis
  proof (cases "dbb_tip_cache d1 = []")
    case False
    have "TPC_snapshot_state granted n d1 = Inr (st, d')" using assms(5) True False d1 by (simp add: TPC_snapshot_state_def)
    from snapshot_state_cached [OF c(1) _ _ False assms(4) this] show ?thesis
      using same_old [OF c(2)] same_counters [OF c(2)] assms(2,3) true_answer_same [OF c(2)] same_tips_trans [OF c(2)] by blast
  next
    case nil: True
    then show ?thesis using assms(5) d1 True c precommitted_same [OF c(2)] by (auto simp: TPC_snapshot_state_def true_answer_def split: if_splits)
  qed
qed (use snapshot_state_cached [OF assms(1-3) _ assms(4,5)] in blast)

lemma TRA_get_state_true:
  assumes "cache_ok d" "old_settled d" "counters_ok d" "0 < n" "TRA_get_state granted n d = Inr (st, d')"
  shows "cache_ok d' \<and> same_tips d d' \<and> true_answer granted d n st"
proof (cases "dbb_tip_cache d = []")
  case True
  then show ?thesis using assms fetch_state_cache [OF assms(1,2)] by (auto simp: TRA_get_state_def true_answer_def split: if_splits)
next
  case False
  then show ?thesis using TPC_snapshot_state_spec [OF assms(1-4)] assms(5) by (simp add: TRA_get_state_def)
qed

text \<open>
  A lookup that gives no answer: the page is not there, or the number is in a gap of the cache and
  the read goes outside of a block.
\<close>

lemma bind_result_eq_Inl: "bind_result x f = Inl e \<longleftrightarrow> x = Inl e \<or> (\<exists>y. x = Inr y \<and> f y = Inl e)"
  by (cases x) auto

lemma page_errors:
  "fetch_inventory_page s d = Inl e \<Longrightarrow> e = BUGCHECK 165" "TRA_fetch_state n d = Inl e \<Longrightarrow> e = BUGCHECK 165"
  "inventory_pages k s newest d = Inl e \<Longrightarrow> e = BUGCHECK 165" "TRA_get_inventory base newest d = Inl e \<Longrightarrow> e = BUGCHECK 165"
  "cache_transactions oldest d = Inl e \<Longrightarrow> e = BUGCHECK 165"
proof -
  show f: "fetch_inventory_page s d = Inl e \<Longrightarrow> e = BUGCHECK 165" for s d by (simp add: fetch_inventory_page_def split: if_splits)
  then show "TRA_fetch_state n d = Inl e \<Longrightarrow> e = BUGCHECK 165" by (auto simp: TRA_fetch_state_def)
  show i: "inventory_pages k s newest d = Inl e \<Longrightarrow> e = BUGCHECK 165" for k s newest d
    by (induction k arbitrary: s d) (auto simp: bind_result_eq_Inl dest: f)
  show g: "TRA_get_inventory base newest d = Inl e \<Longrightarrow> e = BUGCHECK 165" for base newest d
    by (auto simp: TRA_get_inventory_def bind_result_eq_Inl Let_def dest: f i)
  show "cache_transactions oldest d = Inl e \<Longrightarrow> e = BUGCHECK 165"
    by (auto simp: cache_transactions_def Let_def dest: g simp del: upt_Suc)
qed

lemma block_error:
  assumes "cache_ok d" "0 < n" "find_block n d = Some b" "block_state b n = Inl e"
  shows "e = OUT_OF_BOUNDS \<and> passed_over d n"
proof -
  note b = find_block_cases(1) [OF assms(3)]
  have ok: "aligned d b" "tips_ok d" "pgc_tpt d \<le> 2147483648" using assms(1) b by (auto simp: cache_ok_def)
  have e: "\<not> tpc_base b \<le> n" "e = OUT_OF_BOUNDS"
    using block_state_eq [OF ok, of n] b assms(4) by (auto split: if_splits)
  let ?c = "dbb_tip_cache d"
  obtain i where i: "i < length ?c" "b = ?c ! i" "\<forall>j < i. \<not> n < tpc_base (?c ! j) + pgc_tpt d"
    using assms(3) unfolding find_block_def find_Some_iff by blast
  have "\<not> in_block d (?c ! j) n" if "j < length ?c" for j
  proof (cases "j \<le> i")
    case True
    then show ?thesis using i e(1) by (cases "j = i") (auto simp: in_block_def)
  next
    case False
    then have "tpc_base b + pgc_tpt d \<le> tpc_base (?c ! j)"
      using assms(1) that i(2) by (auto simp: cache_ok_def cache_sorted_def intro: sorted_wrt_nth_less)
    then show ?thesis using e(1) by (simp add: in_block_def)
  qed
  then have "\<not> in_block d c n" if "c \<in> set ?c" for c using that by (auto simp: in_set_conv_nth)
  then show ?thesis using assms(1,2) b e by (auto simp: cache_ok_def gaps_old_def)
qed

lemma snapshot_state_error:
  assumes "cache_ok d" "old_settled d" "counters_ok d" "0 < n" "TPC_snapshot_state granted n d = Inl e"
  shows "e = BUGCHECK 165 \<or> (e = OUT_OF_BOUNDS \<and> passed_over d n)"
proof -
  have h: "hdr_next_transaction d < 2147483648" using assms(3) by (simp add: counters_ok_def)
  have block: "e = OUT_OF_BOUNDS \<and> passed_over d n"
    if "cache_ok d1" "same_tips d d1" "find_block n d1 = Some b" "block_state b n = Inl e" for d1 b
    using block_error [OF that(1) assms(4) that(3,4)] same_passed [OF that(2)] by simp
  have extend: "e = BUGCHECK 165 \<or> (e = OUT_OF_BOUNDS \<and> passed_over d n)"
    if d1: "cache_ok d1" "same_tips d d1" "dbb_tip_cache d1 \<noteq> []" and ex: "extend_cache n d1 = Inl e" for d1
  proof -
    let ?o = "tpc_base (last (dbb_tip_cache d1)) + pgc_tpt d1"
    have ext: "extends_from ?o d1" "old_settled d1" "hdr_next_transaction d1 < 2147483648"
      using d1(3) same_old [OF d1(2)] assms(2) h same_tipsD(7) [OF d1(2)] by (simp_all add: extends_from_def)
    show ?thesis
    proof (cases "cache_transactions ?o d1")
      case (Inr d2)
      note c = cache_transactions_spec(1,2) [OF d1(1) ext(2,1,3) Inr]
      show ?thesis using ex Inr block [OF c(1) same_tips_trans [OF d1(2) c(2)]]
        by (auto simp: extend_cache_def bind_result_eq_Inl split: option.splits)
    qed (use ex page_errors(5) in \<open>auto simp: extend_cache_def bind_result_eq_Inl\<close>)
  qed
  consider (page) "e = BUGCHECK 165"
    | (look) d1 where "cache_ok d1" "same_tips d d1" "dbb_tip_cache d1 \<noteq> []" "TPC_snapshot_state granted n d1 = Inl e"
  proof (cases "dbb_tip_cache d = []")
    case True
    show ?thesis
    proof (cases "cache_transactions 0 d")
      case (Inl e')
      then show ?thesis using that(1) assms(5) True page_errors(5) by (auto simp: TPC_snapshot_state_def bind_result_eq_Inl)
    next
      case (Inr d1)
      have ext: "extends_from 0 d" using True by (simp add: extends_from_def)
      note c = cache_transactions_spec [OF assms(1,2) ext h Inr]
      have "dbb_tip_cache d1 \<noteq> []" using c(4) [of 0] assms(3) by (auto simp: counters_ok_def)
      moreover have "TPC_snapshot_state granted n d1 = Inl e"
        using assms(5) True Inr \<open>dbb_tip_cache d1 \<noteq> []\<close> by (simp add: TPC_snapshot_state_def)
      ultimately show ?thesis using that(2) c(1,2) by blast
    qed
  qed (use assms that in \<open>simp add: same_tips_refl\<close>)
  then show ?thesis
  proof cases
    case look
    then show ?thesis
      using block [OF look(1,2)] extend [OF look(1-3)] page_errors(2)
      by (auto simp: TPC_snapshot_state_def bind_result_eq_Inl split: if_splits list.splits option.splits)
  qed simp
qed

section \<open>Changing a state\<close>

definition set_cached :: "dbb \<Rightarrow> nat \<Rightarrow> nat \<Rightarrow> tpc \<Rightarrow> tpc" where
  "set_cached d n st b = (if in_block d b n
     then b\<lparr>tpc_transactions := set_bits_at (TRANS_OFFSET (n mod pgc_tpt d)) (TRANS_SHIFT n) st (tpc_transactions b)\<rparr> else b)"

text \<open>A number is placed when it is in no gap: the block it is looked up in is its own.\<close>

definition placed :: "dbb \<Rightarrow> nat \<Rightarrow> bool" where
  "placed d n \<longleftrightarrow> (\<forall>b \<in> set (dbb_tip_cache d). n < tpc_base b \<longrightarrow> (\<exists>c \<in> set (dbb_tip_cache d). in_block d c n))"

lemma placed_unsettled:
  assumes "cache_ok d" "old_settled d" "0 < n" "\<not> settled d n"
  shows "placed d n"
  using assms unfolding cache_ok_def gaps_old_def placed_def old_settled_def by blast

lemma set_block_state_eq:
  assumes "sorted_wrt (\<lambda>a b. tpc_base a + pgc_tpt d \<le> tpc_base b) c"
    and "\<forall>b \<in> set c. n < tpc_base b \<longrightarrow> (\<exists>c' \<in> set c. in_block d c' n)"
  shows "set_block_state (pgc_tpt d) n st c = map (set_cached d n st) c"
  using assms
proof (induction c)
  case (Cons a c)
  show ?case
  proof (cases "n < tpc_base a + pgc_tpt d")
    case True
    have out: "\<not> in_block d b n" if "b \<in> set c" for b using Cons.prems(1) that True by (fastforce simp: in_block_def)
    then have "\<not> n < tpc_base a" using Cons.prems(2) by (auto simp: in_block_def)
    then have "in_block d a n" using True by (simp add: in_block_def)
    moreover have "map (set_cached d n st) c = c" using out by (intro map_idI) (simp add: set_cached_def)
    ultimately show ?thesis using True by simp (simp add: set_cached_def)
  next
    case False
    then have "\<not> in_block d a n" by (simp add: in_block_def)
    moreover have "\<forall>b \<in> set c. n < tpc_base b \<longrightarrow> (\<exists>c' \<in> set c. in_block d c' n)"
      using Cons.prems(2) \<open>\<not> in_block d a n\<close> by auto
    ultimately show ?thesis using False Cons by (simp add: set_cached_def)
  qed
qed simp

lemma set_cached_sel [simp]: "tpc_base (set_cached d n st b) = tpc_base b" "in_block d' (set_cached d n st b) = in_block d' b"
  "length (tpc_transactions (set_cached d n st b)) = length (tpc_transactions b)"
  by (simp_all add: set_cached_def in_block_def fun_eq_iff)

lemma cached_state_set:
  assumes "aligned d b" "tips_ok d" "in_block d b m" "st < 4"
  shows "cached_state (set_cached d n st b) m = (if m = n then st else cached_state b m)"
proof (cases "in_block d b n")
  case True
  let ?t = "pgc_tpt d"
  obtain q where q: "tpc_base b = q * ?t" using assms(1) by (metis aligned_def mod_0_imp_dvd dvd_div_mult_self)
  have t: "0 < ?t" "?t mod 4 = 0" using assms(2) by (simp_all add: tips_ok_def)
  obtain r where r: "n = q * ?t + r" "r < ?t" using True q by (auto simp: in_block_def le_iff_add)
  obtain k where k: "m = q * ?t + k" "k < ?t" using assms(3) q by (auto simp: in_block_def le_iff_add)
  have md: "n mod ?t = r" "m mod ?t = k" using r k by simp_all
  have len: "r div 4 < length (tpc_transactions b)" "k div 4 < length (tpc_transactions b)"
    using assms(1) r k t(2) by (auto simp: aligned_def)
  have "TRANS_SHIFT n = TRANS_SHIFT r" "TRANS_SHIFT m = TRANS_SHIFT k"
    using TRANS_SHIFT_mod [OF t(2), of n] TRANS_SHIFT_mod [OF t(2), of m] md by simp_all
  then show ?thesis
    using set_bits_at_state [OF assms(4) len] True r(1) k(1) md(1) q by (simp add: cached_state_def set_cached_def TRANS_OFFSET_def)
qed (use assms(3) in \<open>auto simp: set_cached_def\<close>)

lemma tip_state_set_other: "recorded d m \<Longrightarrow> n \<noteq> m \<Longrightarrow> tips_ok d \<Longrightarrow> st < 4 \<Longrightarrow> tip_state (set_tip m st d) n = tip_state d n"
  using set_tip_spec(3) [of d m st n] by (cases "recorded d n") (auto simp: tip_state_def set_tip_def recorded_def)

lemma tip_state_set_same: "recorded d m \<Longrightarrow> tips_ok d \<Longrightarrow> st < 4 \<Longrightarrow> tip_state (set_tip m st d) m = st"
  using set_tip_spec(3) [of d m st m] by simp

lemma set_tip_sel [simp]: "pgc_tpt (set_tip m st d) = pgc_tpt d" "dbb_tip_cache (set_tip m st d) = dbb_tip_cache d"
  "in_block (set_tip m st d) = in_block d" "aligned (set_tip m st d) = aligned d" "set_cached (set_tip m st d) = set_cached d"
  "hdr_oldest_transaction (set_tip m st d) = hdr_oldest_transaction d" "dbb_oldest_transaction (set_tip m st d) = dbb_oldest_transaction d"
  "hdr_next_transaction (set_tip m st d) = hdr_next_transaction d" "dbb_read_only (set_tip m st d) = dbb_read_only d"
  by (simp_all add: set_tip_def in_block_def aligned_def set_cached_def fun_eq_iff)

text \<open>The page and its block are changed together.\<close>

lemma cache_ok_set:
  assumes "cache_ok d" "recorded d n" "st < 4" "0 < n" "placed d n"
  shows "cache_ok (TPC_set_state n st (set_tip n st d))"
proof -
  let ?d1 = "set_tip n st d" and ?d' = "TPC_set_state n st (set_tip n st d)"
  have ok: "tips_ok d" and srt: "sorted_wrt (\<lambda>a b. tpc_base a + pgc_tpt d \<le> tpc_base b) (dbb_tip_cache d)"
    using assms(1) by (auto simp: cache_ok_def cache_sorted_def)
  have b: "\<And>b. b \<in> set (dbb_tip_cache d) \<Longrightarrow> aligned d b \<and> block_true d b" using assms(1) by (auto simp: cache_ok_def)
  have cache: "dbb_tip_cache ?d' = map (set_cached d n st) (dbb_tip_cache d)"
    using set_block_state_eq [OF srt] assms(5) by (simp add: TPC_set_state_def placed_def)
  have same: "same_tips ?d1 ?d'" by simp
  note tip = same_tipsD(3) [OF same] and blk = same_block [OF same]
  have rec: "recorded ?d1 m = recorded d m" for m by (rule set_tip_spec(2) [OF ok assms(2,3)])
  have tr: "block_true ?d' (set_cached d n st b)" if bs: "b \<in> set (dbb_tip_cache d)" for b
  proof -
    have "recorded d m \<and> cached_state (set_cached d n st b) m = tip_state ?d1 m"
      if m: "in_block d b m" "cached_state (set_cached d n st b) m = tra_committed \<or> cached_state (set_cached d n st b) m = tra_dead" for m
    proof -
      have c: "cached_state (set_cached d n st b) m = (if m = n then st else cached_state b m)"
        using cached_state_set [OF _ ok m(1) assms(3)] b [OF bs] by blast
      show ?thesis
        using c m b [OF bs] assms(2) tip_state_set_other [OF assms(2) _ ok assms(3), of m] tip_state_set_same [OF assms(2) ok assms(3)]
        by (cases "m = n") (auto simp: block_true_def)
    qed
    then show ?thesis using blk rec by (simp add: block_true_def)
  qed
  have gap: "passed_over ?d' m" if "c \<in> set (dbb_tip_cache d)" "0 < m" "m < tpc_base c"
    "\<forall>c \<in> set (dbb_tip_cache d). \<not> in_block d c m" for c m
  proof -
    have "passed_over d m" using assms(1) that by (auto simp: cache_ok_def gaps_old_def)
    then show ?thesis using same_passed [OF same] by (simp add: passed_over_def)
  qed
  have "gaps_old ?d'" using gap blk unfolding gaps_old_def cache by auto
  moreover have "cache_sorted ?d'" using srt unfolding cache_sorted_def cache by (simp add: sorted_wrt_map same_tipsD(2) [OF same])
  moreover have "tips_ok ?d'" using set_tip_spec(1) [OF ok assms(2,3)] same_tipsD(4) [OF same] by simp
  moreover have "aligned ?d' (set_cached d n st b)" if "b \<in> set (dbb_tip_cache d)" for b
    using b [OF that] blk by (simp add: aligned_def)
  ultimately show ?thesis using tr assms(1) same_tipsD(2) [OF same] unfolding cache_ok_def cache by auto
qed

lemma TRA_set_state_both:
  assumes "cache_ok d" "TRA_set_state None n st d = Inr d'" "\<not> dbb_read_only d"
  shows "recorded d n \<and> d' = TPC_set_state n st (set_tip n st (refresh {n div pgc_tpt d} d))"
proof -
  obtain tip d1 where f: "fetch_inventory_page (n div pgc_tpt d) d = Inr (tip, d1)" using assms(2,3) by (auto simp: TRA_set_state_def Let_def)
  have tip: "tip = tip_pages d1 ! (n div pgc_tpt d1)" "d1 = refresh {n div pgc_tpt d} d" "recorded d n"
    using fetch_page_refresh [OF assms(1) f] fetch_same [OF f] by (simp_all add: recorded_def)
  have "d' = (if dbb_tip_cache d1 \<noteq> [] then TPC_set_state n st (set_tip n st d1) else set_tip n st d1)"
    using assms(2,3) f tip(1) by (auto simp: TRA_set_state_def Let_def set_tip_def tip(2) simp del: refresh_sel(2))
  moreover have "dbb_tip_cache d1 = [] \<Longrightarrow> TPC_set_state n st (set_tip n st d1) = set_tip n st d1"
    by (simp add: TPC_set_state_def set_tip_def)
  ultimately show ?thesis using tip by auto
qed

lemma TRA_set_state_cache_ok:
  assumes "cache_ok d" "old_settled d" "TRA_set_state None n st d = Inr d'" "\<not> dbb_read_only d" "st < 4" "0 < n" "\<not> settled d n"
  shows "cache_ok d'" "same_tips (set_tip n st d) d'" "recorded d n"
proof -
  let ?d1 = "refresh {n div pgc_tpt d} d"
  have d': "recorded d n" "d' = TPC_set_state n st (set_tip n st ?d1)" using TRA_set_state_both [OF assms(1,3,4)] by auto
  note same = same_refresh [of d "{n div pgc_tpt d}"]
  have "cache_ok ?d1" using d'(1) by (intro cache_ok_refresh [OF assms(1,2)]) (simp add: recorded_def)
  moreover have "placed ?d1 n"
    using placed_unsettled [OF calculation _ assms(6)] same_old [OF same] assms(2,7) same_tipsD(3) [OF same] by (simp add: settled_def)
  ultimately show "cache_ok d'" unfolding d'(2) using d'(1) assms(5,6) same_tipsD(5) [OF same] by (intro cache_ok_set) auto
  show "recorded d n" by (rule d'(1))
  show "same_tips (set_tip n st d) d'"
    unfolding d'(2) by (simp add: refresh_def set_tip_cache TPC_set_state_def)
qed

lemma old_settled_set:
  assumes "old_settled d" "cache_ok d" "recorded d n" "st < 4" "\<not> settled d n"
  shows "old_settled (set_tip n st d)"
  using assms tip_state_set_other [OF assms(3) _ _ assms(4)] unfolding old_settled_def passed_over_def settled_def cache_ok_def
  by (metis set_tip_sel(6,7))

section \<open>The cache among other processes\<close>

text \<open>
  What can happen to the pages and the cache of one process: it looks states up and changes
  them; other processes change the pages under it, start transactions for which there is room,
  and move the oldest interesting transaction up over committed and, in a sweep, dead ones.  A
  transaction that is committed or dead stays so.
\<close>

inductive tip_step :: "dbb \<Rightarrow> dbb \<Rightarrow> bool" where
  own_change: "TRA_set_state None n st d = Inr d' \<Longrightarrow> \<not> dbb_read_only d \<Longrightarrow> st < 4 \<Longrightarrow> 0 < n \<Longrightarrow> \<not> settled d n \<Longrightarrow> tip_step d d'"
| other_change: "recorded d n \<Longrightarrow> st < 4 \<Longrightarrow> 0 < n \<Longrightarrow> \<not> settled d n \<Longrightarrow> tip_step d (set_tip n st d)"
| snapshot: "TPC_snapshot_state granted n d = Inr (st, d') \<Longrightarrow> 0 < n \<Longrightarrow> tip_step d d'"
| get: "TRA_get_state granted n d = Inr (st, d') \<Longrightarrow> 0 < n \<Longrightarrow> tip_step d d'"
| initialize: "TPC_initialize_tpc n d = Inr d' \<Longrightarrow> tip_step d d'"
| cached: "TPC_cache_state n d = Inr (st, d') \<Longrightarrow> tip_step d d'"
| other_start: "Suc (hdr_next_transaction d) < 2147483648 \<Longrightarrow> tip_step d (d\<lparr>hdr_next_transaction := Suc (hdr_next_transaction d)\<rparr>)"
| oldest: "(\<And>n. 0 < n \<Longrightarrow> n < m \<Longrightarrow> settled d n) \<Longrightarrow> hdr_oldest_transaction d \<le> m \<Longrightarrow> m \<le> hdr_next_transaction d \<Longrightarrow>
    tip_step d (d\<lparr>hdr_oldest_transaction := m\<rparr>)"
| own_oldest: "(\<And>n. 0 < n \<Longrightarrow> n < m \<Longrightarrow> settled d n) \<Longrightarrow> dbb_oldest_transaction d \<le> m \<Longrightarrow> m \<le> hdr_next_transaction d \<Longrightarrow>
    tip_step d (d\<lparr>dbb_oldest_transaction := m\<rparr>)"

definition cache_inv :: "dbb \<Rightarrow> bool" where
  "cache_inv d \<longleftrightarrow> cache_ok d \<and> old_settled d \<and> counters_ok d"

lemma cache_inv_same: "cache_inv d \<Longrightarrow> same_tips d d' \<Longrightarrow> cache_ok d' \<Longrightarrow> cache_inv d'"
  by (simp add: cache_inv_def same_old same_counters)

lemma cache_ok_other:
  assumes "cache_ok d" "recorded d n" "st < 4" "\<not> settled d n"
  shows "cache_ok (set_tip n st d)"
proof -
  have ok: "tips_ok d" using assms(1) by (simp add: cache_ok_def)
  note st = tip_state_set_other [OF assms(2) _ ok assms(3)]
  have "block_true (set_tip n st d) b" if "b \<in> set (dbb_tip_cache d)" for b
  proof -
    have b: "\<And>m. in_block d b m \<and> (cached_state b m = tra_committed \<or> cached_state b m = tra_dead) \<Longrightarrow>
        recorded d m \<and> cached_state b m = tip_state d m"
      using assms(1) that by (auto simp: cache_ok_def block_true_def)
    then have "m \<noteq> n" if "in_block d b m \<and> (cached_state b m = tra_committed \<or> cached_state b m = tra_dead)" for m
      using that assms(4) unfolding settled_def by metis
    then show ?thesis using b st set_tip_spec(2) [OF ok assms(2,3)] by (simp add: block_true_def)
  qed
  moreover have "gaps_old (set_tip n st d)"
    using assms(1) unfolding gaps_old_def cache_ok_def passed_over_def by simp
  ultimately show ?thesis using assms(1) set_tip_spec(1) [OF ok assms(2,3)] by (auto simp: cache_ok_def cache_sorted_def)
qed

lemma TPC_initialize_tpc_inv:
  assumes "cache_inv d" "TPC_initialize_tpc n d = Inr d'"
  shows "cache_inv d' \<and> same_tips d d'"
proof -
  have d: "cache_ok d" "old_settled d" "hdr_next_transaction d < 2147483648"
    using assms(1) by (auto simp: cache_inv_def counters_ok_def)
  have "d' = d \<or> (\<exists>oldest. extends_from oldest d \<and> cache_transactions oldest d = Inr d')"
  proof (cases "dbb_tip_cache d = []")
    case True
    then have "extends_from 0 d" "cache_transactions 0 d = Inr d'"
      using assms(2) by (simp_all add: TPC_initialize_tpc_def extends_from_def)
    then show ?thesis by blast
  next
    case False
    then show ?thesis using assms(2) by (simp add: TPC_initialize_tpc_def Let_def extends_from_def split: if_splits)
  qed
  then show ?thesis using cache_transactions_spec(1,2) [OF d(1,2) _ d(3)] cache_inv_same [OF assms(1)] assms(1) same_tips_refl by metis
qed

lemma TPC_cache_state_inv:
  assumes "cache_inv d" "TPC_cache_state n d = Inr (st, d')"
  shows "cache_inv d' \<and> same_tips d d'"
proof -
  have "d' = d \<or> TPC_initialize_tpc n d = Inr d'"
    using assms(2) by (auto simp: TPC_cache_state_def split: if_splits list.splits option.splits)
  then show ?thesis using TPC_initialize_tpc_inv [OF assms(1)] assms(1) by auto
qed

lemma gaps_old_mono:
  assumes "gaps_old d" "dbb_tip_cache d' = dbb_tip_cache d" "in_block d' = in_block d"
    and "hdr_oldest_transaction d \<le> hdr_oldest_transaction d'" "dbb_oldest_transaction d \<le> dbb_oldest_transaction d'"
  shows "gaps_old d'"
proof -
  have "passed_over d n \<Longrightarrow> passed_over d' n" for n using assms(4,5) by (auto simp: passed_over_def)
  then show ?thesis using assms(1) unfolding gaps_old_def assms(2,3) by blast
qed

lemma tip_step_inv: "tip_step d d' \<Longrightarrow> cache_inv d \<Longrightarrow> cache_inv d'"
proof (induction rule: tip_step.induct)
  case (own_change n st d d')
  have d: "cache_ok d" "old_settled d" using own_change(6) by (auto simp: cache_inv_def)
  note s = TRA_set_state_cache_ok [OF d own_change(1-5)]
  have "old_settled d'" using old_settled_set [OF d(2,1) s(3) own_change(3,5)] same_old [OF s(2)] by simp
  moreover have "counters_ok d'" using own_change(6) same_counters [OF s(2)] by (simp add: cache_inv_def counters_ok_def)
  ultimately show ?case using s(1) by (simp add: cache_inv_def)
next
  case (other_change d n st)
  then show ?case using cache_ok_other old_settled_set by (simp add: cache_inv_def counters_ok_def)
next
  case (snapshot granted n d st d')
  then show ?case using TPC_snapshot_state_spec cache_inv_same by (metis cache_inv_def)
next
  case (get granted n d st d')
  then show ?case using TRA_get_state_true cache_inv_same by (metis cache_inv_def)
next
  case (initialize n d d')
  then show ?case using TPC_initialize_tpc_inv by blast
next
  case (cached n d st d')
  then show ?case using TPC_cache_state_inv by blast
next
  case (other_start d)
  let ?d = "d\<lparr>hdr_next_transaction := Suc (hdr_next_transaction d)\<rparr>"
  have e: "tip_state ?d = tip_state d" "recorded ?d = recorded d" "in_block ?d = in_block d" "aligned ?d = aligned d"
    by (simp_all add: fun_eq_iff tip_state_def recorded_def in_block_def aligned_def)
  then show ?case using other_start
    by (simp add: cache_inv_def counters_ok_def old_settled_def cache_ok_def tips_ok_def cache_sorted_def block_true_def gaps_old_def
      passed_over_def settled_def)
next
  case (oldest m d)
  let ?d = "d\<lparr>hdr_oldest_transaction := m\<rparr>"
  have e: "tip_state ?d = tip_state d" "recorded ?d = recorded d" "in_block ?d = in_block d" "aligned ?d = aligned d"
    by (simp_all add: fun_eq_iff tip_state_def recorded_def in_block_def aligned_def)
  have "gaps_old d" using oldest(4) by (simp add: cache_inv_def cache_ok_def)
  then have "gaps_old ?d" by (rule gaps_old_mono) (use oldest(2) in \<open>simp_all add: e\<close>)
  moreover have "settled ?d k" if "0 < k" "passed_over ?d k" for k
    using that oldest e(1) by (auto simp: cache_inv_def old_settled_def passed_over_def settled_def)
  then have "old_settled ?d" by (simp add: old_settled_def)
  ultimately show ?case using oldest
    by (simp add: cache_inv_def counters_ok_def cache_ok_def tips_ok_def cache_sorted_def block_true_def e)
next
  case (own_oldest m d)
  let ?d = "d\<lparr>dbb_oldest_transaction := m\<rparr>"
  have e: "tip_state ?d = tip_state d" "recorded ?d = recorded d" "in_block ?d = in_block d" "aligned ?d = aligned d"
    by (simp_all add: fun_eq_iff tip_state_def recorded_def in_block_def aligned_def)
  have "gaps_old d" using own_oldest(4) by (simp add: cache_inv_def cache_ok_def)
  then have "gaps_old ?d" by (rule gaps_old_mono) (use own_oldest(2) in \<open>simp_all add: e\<close>)
  moreover have "settled ?d k" if "0 < k" "passed_over ?d k" for k
    using that own_oldest e(1) by (auto simp: cache_inv_def old_settled_def passed_over_def settled_def)
  then have "old_settled ?d" by (simp add: old_settled_def)
  ultimately show ?case using own_oldest
    by (simp add: cache_inv_def counters_ok_def cache_ok_def tips_ok_def cache_sorted_def block_true_def e)
qed

lemma tip_steps_inv: "tip_step\<^sup>*\<^sup>* d d' \<Longrightarrow> cache_inv d \<Longrightarrow> cache_inv d'"
  by (induction rule: rtranclp_induct) (auto intro: tip_step_inv)

lemma cache_inv_start:
  assumes "tips_ok d" "pgc_tpt d \<le> 2147483648" "dbb_tip_cache d = []" "old_settled d" "counters_ok d"
  shows "cache_inv d"
  using assms by (simp add: cache_inv_def cache_ok_def cache_sorted_def gaps_old_def)

end
