(* ===== verification/Tra_Props.thy ===== *)
theory Tra_Props
  imports Tip_Cleanup Tpc_Inv
begin

text \<open>
  What is shown of the transaction states: \<^verbatim>\<open>src/jrd/tra.c\<close> and \<^verbatim>\<open>src/jrd/tpc.c\<close>.
\<close>

section \<open>A database\<close>

text \<open>Eight transactions to a page; 3 is dead, 5 and 9 are active, 7 is in limbo, the others are committed.\<close>

definition ex_dbb :: dbb where
  "ex_dbb = \<lparr>hdr_next_transaction = 9, hdr_oldest_transaction = 3, hdr_oldest_active = 5, hdr_oldest_snapshot = 5,
     tip_pages = [[191, 115], [3, 0]], pgc_tpt = 8, dbb_read_only = False, dbb_next_transaction = 0,
     dbb_oldest_transaction = 0, dbb_oldest_active = 0, dbb_oldest_snapshot = 0, dbb_tip_cache = [], dbb_pc_transactions = None\<rparr>"

definition ex_tra :: "bool \<Rightarrow> tra" where
  "ex_tra read_committed = \<lparr>tra_number = 0, tra_newest = 0, tra_oldest = 0, tra_oldest_active = 0, tra_transactions = [],
     tra_commit_sub_trans = None, TRA_system = False, TRA_read_committed = read_committed, TRA_readonly = False, TRA_precommitted = False\<rparr>"


lemmas scan_active_num = scan_active.simps(2) [where n = "pred_numeral k" for k, folded numeral_eq_Suc]
lemmas scan_oldest_num = scan_oldest.simps(2) [where n = "pred_numeral k" for k, folded numeral_eq_Suc]

lemmas ex_start_simps = TRA_start_def start_numbers_def bump_transaction_id_def ex_dbb_def ex_tra_def take_snapshot_def
  TRA_get_inventory_def fetch_inventory_page_def TPC_update_cache_def Let_def TRANS_OFFSET_def start_scans_def

lemmas ex_scan_simps = seen_state_def snapshot_offset_def TRANS_OFFSET_def state_bits_def TRANS_SHIFT_def


lemma ex_start_early:
  "TRA_start True (\<lambda>_. True) (\<lambda>n. if n = 5 then 5 else 0) 0 (ex_tra False) (ex_dbb\<lparr>hdr_oldest_transaction := 1\<rparr>) =
  Inr (Some ((ex_tra False)\<lparr>tra_number := 10, tra_newest := 10, tra_oldest := 1, tra_oldest_active := 5, tra_transactions := [191, 115, 3]\<rparr>),
       ex_dbb\<lparr>hdr_oldest_transaction := 1, hdr_next_transaction := 10, dbb_oldest_transaction := 2, dbb_oldest_active := 5, dbb_oldest_snapshot := 5\<rparr>)"
  by (simp add: ex_start_simps del: bind_result_eq_Inr map_result_eq_Inr)
    (simp del: bind_result_eq_Inr map_result_eq_Inr add: scan_active_num scan_oldest_num ex_scan_simps)

lemma ex_tips_ok: "tips_ok ex_dbb"
  by (simp add: tips_ok_def ex_dbb_def)

section \<open>States on the pages\<close>

lemma TRA_fetch_state_eq: "recorded d n \<Longrightarrow> map_result fst (TRA_fetch_state n d) = Inr (tip_state d n)"
  by (simp add: TRA_fetch_state_def fetch_inventory_page_def recorded_def tip_state_def)

text \<open>
  (C14) A state written to the inventory page is the one read afterwards, and no other
  transaction changes its state by it: the four states share bytes, but not bits.
\<close>

theorem TRA_set_fetch_state:
  assumes "tips_ok d" "state < 4" "TRA_set_state None m state d = Inr d'" "\<not> dbb_read_only d" "TRA_fetch_state n d = Inr (old, d1)"
  shows "map_result fst (TRA_fetch_state n d') = Inr (if n = m then state else old)"
proof -
  have m: "recorded d m" using assms(3,4) by (auto simp: TRA_set_state_def Let_def fetch_inventory_page_eq recorded_def)
  then have same: "same_tips (set_tip m state d) d'" using TRA_set_state_spec [OF m, of state] assms(3,4) by (metis Inr_inject)
  have n: "recorded d n" "old = tip_state d n" using TRA_fetch_state_spec [OF assms(5)] by auto
  have "recorded d' n" using n(1) same_tipsD(5) [OF same] set_tip_spec(2) [OF assms(1) m assms(2)] by simp
  moreover have "tip_state d' n = (if n = m then state else old)"
    using set_tip_spec(3) [OF assms(1) m assms(2) n(1)] same_tipsD(3) [OF same] n(2) by simp
  ultimately show ?thesis by (simp add: TRA_fetch_state_eq)
qed

theorem TRA_set_fetch_state_witness:
  "map_result fst (TRA_fetch_state 5 (case TRA_set_state None 5 3 ex_dbb of Inr d \<Rightarrow> d | Inl _ \<Rightarrow> ex_dbb)) = Inr 3"
proof -
  obtain d' where d': "TRA_set_state None 5 3 ex_dbb = Inr d'"
    using TRA_set_state_spec [of ex_dbb 5 3] by (auto simp: ex_dbb_def recorded_def)
  have "TRA_fetch_state 5 ex_dbb = Inr (0, ex_dbb)" by code_simp
  from TRA_set_fetch_state [OF ex_tips_ok _ d' _ this] have "map_result fst (TRA_fetch_state 5 d') = Inr 3" by (simp add: ex_dbb_def)
  then show ?thesis using d' by simp
qed

section \<open>Snapshots\<close>



text \<open>
  (C15) The oldest interesting transaction is moved up over committed transactions only, the ones
  it has seen in its snapshot: after a start everything from the transaction's own oldest one up
  to \<^verbatim>\<open>dbb_oldest_transaction\<close> had committed before the start.  This is for transactions that are
  not read committed, which have no snapshot, and whose number is not a multiple of a hundred, for
  which \<^verbatim>\<open>TRA_start\<close> looks again at the active ones and may bury some.
\<close>

theorem TRA_start_oldest:
  assumes "tips_ok d" "TRA_start lock_granted granted lock_data query_min temp d = Inr (Some tx, d')"
    and "\<not> TRA_read_committed temp" "\<not> dbb_read_only d" "hdr_next_transaction d < 2147483647" "0 < hdr_oldest_transaction d"
    and "max (hdr_oldest_transaction d) (dbb_oldest_transaction d) \<le> hdr_next_transaction d"
    and "(hdr_next_transaction d + 1) mod 100 \<noteq> 0" "tra_oldest tx \<le> n" "n < tra_number tx" "n \<le> dbb_oldest_transaction d'"
  shows "tip_state d n = tra_committed"
proof -
  note s = TRA_start_spec [OF assms(1-7)]
  have "n \<in> interesting tx" using assms(9,10) by simp
  then show ?thesis using s(2,8,9) assms(8,11) by (metis)
qed

theorem TRA_start_oldest_witness: "tip_state (ex_dbb\<lparr>hdr_oldest_transaction := 1\<rparr>) 2 = tra_committed"
proof -
  let ?d = "ex_dbb\<lparr>hdr_oldest_transaction := 1\<rparr>"
  have "tips_ok ?d" by (simp add: tips_ok_def ex_dbb_def)
  from TRA_start_oldest [OF this ex_start_early, of 2] show ?thesis by (simp_all add: ex_tra_def ex_dbb_def)
qed

section \<open>Cleaning up\<close>

text \<open>
  (C17) \<^verbatim>\<open>TRA_cleanup\<close> marks the transactions that are still active from the oldest active one to
  the newest as dead, on however many pages, and leaves every other state alone; its second
  assumption keeps away from the case of the next property.
\<close>

theorem TRA_cleanup_correct:
  assumes "tips_ok d" "recorded d (hdr_next_transaction d)" "hdr_oldest_active d \<le> hdr_next_transaction d" "\<not> dbb_read_only d"
    and "hdr_next_transaction d mod pgc_tpt d \<noteq> 0 \<or> hdr_oldest_active d div pgc_tpt d = hdr_next_transaction d div pgc_tpt d"
    and "hdr_next_transaction d \<noteq> 0"
  shows "\<exists>d'. TRA_cleanup False d = Inr d' \<and> (\<forall>k. recorded d k \<longrightarrow> tip_state d' k =
    (if hdr_oldest_active d \<le> k \<and> k \<le> hdr_next_transaction d \<and> tip_state d k = tra_active then tra_dead else tip_state d k))"
proof -
  let ?t = "pgc_tpt d" and ?c = "hdr_next_transaction d" and ?a = "hdr_oldest_active d"
  have t: "0 < ?t" using assms(1) by (simp add: tips_ok_def)
  have le: "?a div ?t \<le> ?c div ?t" using assms(3) by (rule div_le_mono)
  have n: "?a div ?t + (Suc (?c div ?t) - ?a div ?t) = Suc (?c div ?t)" using le by simp
  have side: "i * ?t \<le> ?c \<and> ?c \<noteq> Suc i * ?t" if "?a div ?t \<le> i" "i < Suc (?c div ?t)" for i
  proof
    show "i * ?t \<le> ?c" using that(2) t by (simp add: less_Suc_eq_le less_eq_div_iff_mult_less_eq)
    show "?c \<noteq> Suc i * ?t"
    proof
      assume eq: "?c = Suc i * ?t"
      then have "?c div ?t = Suc i" "?c mod ?t = 0" using t by (simp_all del: mult_Suc)
      then show False using assms(5) that(1) by simp
    qed
  qed
  have "\<exists>d'. cleanup_pages (Suc (?c div ?t) - ?a div ?t) (?a div ?t) (?a mod ?t) ?c d = Inr d' \<and> tips_ok d' \<and>
    length (tip_pages d') = length (tip_pages d) \<and> pgc_tpt d' = ?t \<and>
    (\<forall>k. recorded d k \<longrightarrow> tip_state d' k =
      (if ?a div ?t * ?t + ?a mod ?t \<le> k \<and> k \<le> ?c \<and> k div ?t < ?a div ?t + (Suc (?c div ?t) - ?a div ?t) \<and> tip_state d k = tra_active
       then tra_dead else tip_state d k))"
    using assms(2) t n side by (intro cleanup_pages_spec [OF assms(1)]) (auto simp: recorded_def)
  moreover have "k \<le> ?c \<Longrightarrow> k div ?t < Suc (?c div ?t)" for k by (simp add: less_Suc_eq_le div_le_mono)
  ultimately show ?thesis using assms(4,6) unfolding n by (auto simp: TRA_cleanup_def Let_def)
qed

theorem TRA_cleanup_correct_witness:
  "\<exists>d'. TRA_cleanup False ex_dbb = Inr d' \<and> tip_state d' 5 = tra_dead \<and> tip_state d' 9 = tra_dead \<and> tip_state d' 6 = tra_committed"
proof -
  have h: "recorded ex_dbb 9" "recorded ex_dbb 6" "recorded ex_dbb 5" "hdr_next_transaction ex_dbb = 9" "hdr_oldest_active ex_dbb = 5"
    "\<not> dbb_read_only ex_dbb" "pgc_tpt ex_dbb = 8"
    by (simp_all add: recorded_def ex_dbb_def)
  have st: "tip_state ex_dbb 5 = tra_active" "tip_state ex_dbb 9 = tra_active" "tip_state ex_dbb 6 = tra_committed"
    by (simp_all add: tip_state_def ex_dbb_def TRANS_OFFSET_def TRANS_SHIFT_def state_bits_def)
  show ?thesis using TRA_cleanup_correct [OF ex_tips_ok] h st by fastforce
qed

text \<open>
  (C18) When the newest transaction is the first of an inventory page and the oldest active one is
  on an earlier page, \<^verbatim>\<open>TRA_cleanup\<close> goes one transaction too far on the page before the last: it
  reads, and may write, the byte behind the page.
\<close>

theorem TRA_cleanup_overrun:
  assumes "tips_ok d" "recorded d (hdr_next_transaction d)" "\<not> dbb_read_only d" "hdr_next_transaction d mod pgc_tpt d = 0"
    and "hdr_oldest_active d < hdr_next_transaction d"
  shows "TRA_cleanup False d = Inl OUT_OF_BOUNDS"
proof -
  let ?t = "pgc_tpt d" and ?c = "hdr_next_transaction d" and ?a = "hdr_oldest_active d"
  have t: "0 < ?t" using assms(1) by (simp add: tips_ok_def)
  have c: "?c = ?c div ?t * ?t" using assms(4) by auto
  then have "?a < ?c div ?t * ?t" using assms(5) by simp
  then have lt: "?a div ?t < ?c div ?t" by (rule less_mult_imp_div_less)
  then obtain n where n: "?c div ?t = ?a div ?t + Suc n" by (metis add_Suc_right less_iff_Suc_add)
  have "cleanup_pages (Suc (Suc n)) (?a div ?t) (?a mod ?t) ?c d = Inl OUT_OF_BOUNDS"
    using assms(2) t c n by (intro cleanup_pages_overrun [OF assms(1)]) (auto simp: recorded_def)
  moreover have "Suc (?c div ?t) - ?a div ?t = Suc (Suc n)" using n by simp
  ultimately show ?thesis using assms(3,5) by (simp add: TRA_cleanup_def Let_def del: cleanup_pages.simps)
qed

theorem TRA_cleanup_overrun_witness: "TRA_cleanup False (ex_dbb\<lparr>hdr_next_transaction := 8\<rparr>) = Inl OUT_OF_BOUNDS"
  by (rule TRA_cleanup_overrun) (simp_all add: tips_ok_def recorded_def ex_dbb_def)

section \<open>The cache of inventory pages\<close>

text \<open>
  (C13) A process that keeps inventory pages in its cache, looks states up and changes them while
  other processes change the pages and a sweep moves the oldest interesting transaction, is never
  told anything else than what stands on the page, but for a transaction whose lock is held or that
  has not started yet, which is active, for one that is precommitted, and for a dead one that the
  oldest interesting transaction has passed over, which may be called committed.  A lookup gives no
  answer only when the page is not there, or when it goes outside of a block (C19), and that
  happens to transactions that have been passed over only.
\<close>

theorem TPC_lookup_true:
  assumes "tips_ok start" "pgc_tpt start \<le> 2147483648" "dbb_tip_cache start = []" "old_settled start" "counters_ok start"
    and "tip_step\<^sup>*\<^sup>* start d" "0 < n"
    and "look = TPC_snapshot_state granted n d \<or> look = TRA_get_state granted n d"
  shows "case look of
      Inl e \<Rightarrow> e = BUGCHECK 165 \<or> (e = OUT_OF_BOUNDS \<and> passed_over d n)
    | Inr (st, d') \<Rightarrow>
        if precommitted n d then st = tra_precommitted
        else st = tip_state d n \<or> (st = tra_committed \<and> tip_state d n = tra_dead \<and> passed_over d n) \<or>
          (st = tra_active \<and> (\<not> granted n \<or> hdr_next_transaction d < n))"
proof -
  have "cache_inv d" using tip_steps_inv [OF assms(6) cache_inv_start] assms(1-5) by blast
  then have d: "cache_ok d" "old_settled d" "counters_ok d" by (auto simp: cache_inv_def)
  show ?thesis
  proof (cases look)
    case (Inl e)
    have "TRA_get_state granted n d = Inl e \<Longrightarrow> TPC_snapshot_state granted n d = Inl e \<or> e = BUGCHECK 165"
      by (auto simp: TRA_get_state_def dest: page_errors(2) split: if_splits)
    then show ?thesis using Inl assms(8) snapshot_state_error [OF d assms(7), of granted e] by auto
  next
    case (Inr x)
    obtain st d' where x: "x = (st, d')" by (cases x)
    have "true_answer granted d n st"
      using Inr x assms(8) TPC_snapshot_state_spec [OF d assms(7)] TRA_get_state_true [OF d assms(7)] by metis
    then show ?thesis by (simp add: Inr x true_answer_def)
  qed
qed

lemma ex_start_ok: "old_settled ex_dbb" "counters_ok ex_dbb" "pgc_tpt ex_dbb \<le> 2147483648" "dbb_tip_cache ex_dbb = []"
proof -
  have "tip_state ex_dbb n = tra_committed" if "0 < n" "n < 3" for n
  proof -
    have "n = 1 \<or> n = 2" using that by auto
    then show ?thesis by (auto simp: ex_dbb_def tip_state_def TRANS_OFFSET_def TRANS_SHIFT_def state_bits_def)
  qed
  then show "old_settled ex_dbb" by (auto simp: old_settled_def passed_over_def settled_def ex_dbb_def)
qed (simp_all add: counters_ok_def ex_dbb_def)

theorem TPC_lookup_true_witness:
  "\<exists>d d' st. tip_step\<^sup>*\<^sup>* ex_dbb d \<and> TPC_snapshot_state (\<lambda>_. True) 5 d = Inr (st, d') \<and> st = tra_committed"
proof -
  let ?d = "set_tip 5 tra_committed ex_dbb"
  have st: "tip_state ex_dbb 5 = tra_active" "tip_state ?d 5 = tra_committed" "\<not> precommitted 5 ?d" "hdr_next_transaction ?d = 9"
    by (simp_all add: tip_state_def set_tip_def set_bits_at_def put_bits_def precommitted_def ex_dbb_def TRANS_OFFSET_def TRANS_SHIFT_def state_bits_def)
  have step: "tip_step\<^sup>*\<^sup>* ex_dbb ?d"
    using tip_step.other_change [of ex_dbb 5 3] st(1) by (auto simp: recorded_def settled_def ex_dbb_def)
  have "\<exists>x. TPC_snapshot_state (\<lambda>_. True) 5 ?d = Inr x"
    by (simp add: TPC_snapshot_state_def cache_transactions_def TRA_get_inventory_def fetch_inventory_page_def TPC_update_cache_def
        allocate_tpc_def ex_dbb_def set_tip_def set_bits_at_def put_bits_def precommitted_def find_block_def block_state_def
        TRA_state_def TRANS_OFFSET_def TRANS_SHIFT_def state_bits_def Let_def del: bind_result_eq_Inr map_result_eq_Inr)
  then obtain st' d' where look: "TPC_snapshot_state (\<lambda>_. True) 5 ?d = Inr (st', d')" by auto
  have "st' = tra_committed"
    using TPC_lookup_true [OF ex_tips_ok ex_start_ok(3,4,1,2) step _ disjI1 [OF refl], of 5 "\<lambda>_. True"] st look by simp
  then show ?thesis using step look by blast
qed

text \<open>
  (C19) A cache that is extended long after its last use has a gap between its old blocks and the
  new one, which begins at the oldest transaction of the header.  Nothing guards the look-up of a
  number in the gap: it is taken for one of the block behind it, and the read is far outside of
  that block.
\<close>

theorem TPC_gap_overrun:
  assumes "cache_inv d" "dbb_tip_cache d = b # bs" "tpc_base b \<le> n" "find_block n d = Some c" "n < tpc_base c" "\<not> precommitted n d"
  shows "TPC_cache_state n d = Inl OUT_OF_BOUNDS \<and> TPC_snapshot_state granted n d = Inl OUT_OF_BOUNDS"
proof -
  have "aligned d c" "tips_ok d" "pgc_tpt d \<le> 2147483648" "n < tpc_base c + pgc_tpt d"
    using assms(1) find_block_cases(1) [OF assms(4)] by (auto simp: cache_inv_def cache_ok_def)
  then have "block_state c n = Inl OUT_OF_BOUNDS" using block_state_eq assms(5) by simp
  then show ?thesis
    using assms(2-4,6) by (simp_all add: TPC_cache_state_def TPC_snapshot_state_def)
qed

text \<open>Four pages of committed transactions; the first page is in the cache when the others are filled.\<close>

definition gap_dbb :: dbb where
  "gap_dbb = \<lparr>hdr_next_transaction = 2, hdr_oldest_transaction = 1, hdr_oldest_active = 1, hdr_oldest_snapshot = 1,
     tip_pages = [[255, 255], [255, 255], [255, 255], [255, 255]], pgc_tpt = 8, dbb_read_only = False, dbb_next_transaction = 0,
     dbb_oldest_transaction = 0, dbb_oldest_active = 0, dbb_oldest_snapshot = 0, dbb_tip_cache = [], dbb_pc_transactions = None\<rparr>"

lemmas gap_simps = gap_dbb_def cache_transactions_def TRA_get_inventory_def fetch_inventory_page_def TPC_update_cache_def
  TPC_initialize_tpc_def allocate_tpc_def TRANS_OFFSET_def Let_def

lemma gap_first: "TPC_initialize_tpc 2 gap_dbb = Inr (gap_dbb\<lparr>dbb_tip_cache := [\<lparr>tpc_base = 0, tpc_transactions = [255, 255]\<rparr>]\<rparr>)"
  by (simp add: gap_simps del: bind_result_eq_Inr map_result_eq_Inr)

lemma gap_later:
  "TPC_initialize_tpc 26 (gap_dbb\<lparr>dbb_tip_cache := [\<lparr>tpc_base = 0, tpc_transactions = [255, 255]\<rparr>],
       hdr_next_transaction := 26, hdr_oldest_transaction := 25\<rparr>) =
     Inr (gap_dbb\<lparr>hdr_next_transaction := 26, hdr_oldest_transaction := 25,
       dbb_tip_cache := [\<lparr>tpc_base = 0, tpc_transactions = [255, 255]\<rparr>, \<lparr>tpc_base = 24, tpc_transactions = [255, 255]\<rparr>]\<rparr>)"
  by (simp add: gap_simps del: bind_result_eq_Inr map_result_eq_Inr)

lemma other_starts: "hdr_next_transaction d + k < 2147483648 \<Longrightarrow>
  tip_step\<^sup>*\<^sup>* d (d\<lparr>hdr_next_transaction := hdr_next_transaction d + k\<rparr>)"
proof (induction k)
  case (Suc k)
  let ?d = "d\<lparr>hdr_next_transaction := hdr_next_transaction d + k\<rparr>"
  have "tip_step ?d (?d\<lparr>hdr_next_transaction := Suc (hdr_next_transaction ?d)\<rparr>)" using Suc.prems by (intro tip_step.other_start) simp
  then show ?case using Suc rtranclp.rtrancl_into_rtrancl [of tip_step d ?d] by simp
qed simp

lemma gap_committed: "n < 32 \<Longrightarrow> tip_state gap_dbb n = tra_committed"
proof -
  have page: "i < 4 \<Longrightarrow> [[255, 255], [255, 255], [255, 255], [255, 255 :: byte]] ! i = [255, 255]" for i :: nat
    by (auto simp: less_Suc_eq numeral_eq_Suc)
  have byte: "i < 2 \<Longrightarrow> [255, 255 :: byte] ! i = 255" for i :: nat by (auto simp: less_Suc_eq numeral_eq_Suc)
  have bits: "unat (drop_bit (k * 2) (255 :: byte) AND 3) = 3" if "k < 4" for k :: nat
  proof -
    consider "k = 0" | "k = 1" | "k = 2" | "k = 3" using \<open>k < 4\<close> by linarith
    then show ?thesis by cases simp_all
  qed
  assume "n < 32"
  then have "n div 8 < 4" "n mod 8 div 4 < 2" "n mod 4 < 4" by auto
  then show ?thesis using page byte bits by (simp add: tip_state_def gap_dbb_def TRANS_OFFSET_def TRANS_SHIFT_def state_bits_def)
qed

theorem TPC_gap_overrun_witness:
  "\<exists>d. tip_step\<^sup>*\<^sup>* gap_dbb d \<and> TPC_snapshot_state (\<lambda>_. True) 10 d = Inl OUT_OF_BOUNDS"
proof -
  let ?d1 = "gap_dbb\<lparr>dbb_tip_cache := [\<lparr>tpc_base = 0, tpc_transactions = [255, 255]\<rparr>]\<rparr>"
  let ?d2 = "?d1\<lparr>hdr_next_transaction := 26\<rparr>"
  let ?d3 = "?d2\<lparr>hdr_oldest_transaction := 25\<rparr>"
  let ?d4 = "gap_dbb\<lparr>hdr_next_transaction := 26, hdr_oldest_transaction := 25,
       dbb_tip_cache := [\<lparr>tpc_base = 0, tpc_transactions = [255, 255]\<rparr>, \<lparr>tpc_base = 24, tpc_transactions = [255, 255]\<rparr>]\<rparr>"
  have "tip_step gap_dbb ?d1" by (rule tip_step.initialize [OF gap_first])
  moreover have "tip_step\<^sup>*\<^sup>* ?d1 ?d2" using other_starts [of ?d1 24] by (simp add: gap_dbb_def)
  moreover have "tip_step ?d2 ?d3"
    using gap_committed by (intro tip_step.oldest) (auto simp: settled_def tip_state_def gap_dbb_def)
  moreover have "tip_step ?d3 ?d4" using tip_step.initialize [of 26 ?d3] gap_later by simp
  ultimately have step: "tip_step\<^sup>*\<^sup>* gap_dbb ?d4" by (meson converse_rtranclp_into_rtranclp rtranclp.rtrancl_into_rtrancl rtranclp_trans)
  have "old_settled gap_dbb" using gap_committed by (auto simp: old_settled_def settled_def passed_over_def) (simp_all add: gap_dbb_def)
  then have "cache_inv gap_dbb" by (intro cache_inv_start) (simp_all add: gap_dbb_def tips_ok_def counters_ok_def)
  then have inv: "cache_inv ?d4" by (rule tip_steps_inv [OF step])
  have "TPC_snapshot_state (\<lambda>_. True) 10 ?d4 = Inl OUT_OF_BOUNDS"
    by (rule TPC_gap_overrun [THEN conjunct2, OF inv, of "\<lparr>tpc_base = 0, tpc_transactions = [255, 255]\<rparr>" _ _ "\<lparr>tpc_base = 24, tpc_transactions = [255, 255]\<rparr>"])
      (simp_all add: gap_dbb_def find_block_def precommitted_def)
  then show ?thesis using step by blast
qed

section \<open>Waiting for a transaction\<close>

text \<open>
  (C16) A transaction that is still marked active although its lock could be had has died without
  a word: \<^verbatim>\<open>TRA_wait\<close> answers dead and marks it so on its inventory page, and changes no other
  transaction's state.
\<close>

theorem TRA_wait_buries:
  assumes "cache_inv d" "0 < n" "\<not> dbb_read_only d" "tip_state d n = tra_active" "\<not> precommitted n d"
    and "TRA_wait granted True tx n wait d = Inr (st, tx', d')"
  shows "st = tra_dead \<and> tip_state d' n = tra_dead \<and> (\<forall>m. m \<noteq> n \<longrightarrow> tip_state d' m = tip_state d m)"
proof -
  have d: "cache_ok d" "old_settled d" "counters_ok d" using assms(1) by (auto simp: cache_inv_def)
  obtain s d1 where g: "TRA_get_state granted n d = Inr (s, d1)" using assms(6) by (auto simp: TRA_wait_def)
  have d1: "cache_ok d1" "same_tips d d1" and s: "s = tra_active"
    using TRA_get_state_true [OF d assms(2) g] assms(4,5) by (auto simp: true_answer_def)
  have tip1: "tip_state d1 m = tip_state d m" for m by (rule same_tipsD(3) [OF d1(2)])
  obtain d2 where set: "TRA_set_state None n tra_dead d1 = Inr d2" and res: "st = tra_dead" "d' = d2 \<or> d' = TPC_set_state n tra_dead d2"
    using assms(6) g s by (auto simp: TRA_wait_def split: if_splits)
  have ok1: "old_settled d1" "\<not> dbb_read_only d1" "\<not> settled d1 n"
    using same_old [OF d1(2)] same_tipsD(6) [OF d1(2)] d(2) assms(3,4) tip1 by (auto simp: settled_def)
  note set2 = TRA_set_state_cache_ok [OF d1(1) ok1(1) set ok1(2) _ assms(2) ok1(3)]
  have "same_tips (set_tip n tra_dead d1) d2" "recorded d1 n" using set2(2,3) by simp_all
  moreover have "same_tips d2 d'" using res(2) by auto
  ultimately have "tip_state d' m = tip_state (set_tip n tra_dead d1) m" for m using same_tipsD(3) same_tips_trans by metis
  moreover have "tips_ok d1" using d1(1) by (simp add: cache_ok_def)
  ultimately show ?thesis
    using res(1) tip_state_set_same [of d1 n 2] tip_state_set_other [of d1 n _ 2] \<open>recorded d1 n\<close> tip1 by simp
qed

theorem TRA_wait_buries_witness:
  "\<exists>tx' d'. TRA_wait (\<lambda>_. True) True ((ex_tra False)\<lparr>tra_number := 4, tra_newest := 4\<rparr>) 5 False ex_dbb = Inr (tra_dead, tx', d') \<and>
     tip_state d' 5 = tra_dead"
proof -
  let ?tx = "(ex_tra False)\<lparr>tra_number := 4, tra_newest := 4\<rparr>"
  have inv: "cache_inv ex_dbb" using ex_tips_ok ex_start_ok by (intro cache_inv_start) auto
  have st: "tip_state ex_dbb 5 = tra_active" "\<not> precommitted 5 ex_dbb"
    by (simp_all add: tip_state_def precommitted_def ex_dbb_def TRANS_OFFSET_def TRANS_SHIFT_def state_bits_def)
  have "\<exists>x. TRA_wait (\<lambda>_. True) True ?tx 5 False ex_dbb = Inr x"
    by (simp add: TRA_wait_def TRA_get_state_def TRA_fetch_state_def TRA_set_state_def fetch_inventory_page_def TPC_update_cache_def
        ex_tra_def ex_dbb_def precommitted_def TRANS_OFFSET_def TRANS_SHIFT_def state_bits_def Let_def
        del: bind_result_eq_Inr map_result_eq_Inr)
  then obtain s tx' d' where w: "TRA_wait (\<lambda>_. True) True ?tx 5 False ex_dbb = Inr (s, tx', d')" by auto
  have "s = tra_dead \<and> tip_state d' 5 = tra_dead"
    using TRA_wait_buries [OF inv _ _ st w] by (simp add: ex_dbb_def)
  then show ?thesis using w by blast
qed

end
