(* ===== verification/Cvt.thy ===== *)
theory Cvt
  imports Prelude
begin

text \<open>
  Conversions between character sets: the converters of \<^verbatim>\<open>src/intl/cv_narrow.c\<close>,
  \<^verbatim>\<open>cv_big5.c\<close>, \<^verbatim>\<open>cv_gb2312.c\<close> and \<^verbatim>\<open>cv_ksc.c\<close>, and Unicode in its file system safe form,
  \<^verbatim>\<open>src/intl/cs_utffss.c\<close>.

  A narrow or multibyte string is a list of bytes.  Unicode text is a list of 16-bit words and,
  since its length is counted in bytes, the number \<open>last_byte\<close> (0 or 1) of bytes behind the last word.
  The tables of a converter object are functions from the index.  A destination of \<open>None\<close> is the null
  pointer, which asks for a length estimate; the error position is then not set.
\<close>

type_synonym unicode = "16 word"

datatype cvt_error = CS_NO_ERROR | CS_TRUNCATION_ERROR | CS_CONVERT_ERROR | CS_BAD_INPUT

record 'b cvt =
  cvt_err_code :: cvt_error
  cvt_err_position :: "nat option"
  cvt_written :: "'b list"
  cvt_returned :: nat

section \<open>The loop of a converter\<close>

text \<open>
  The loops differ in what they do with one character only.  \<open>unit c cs\<close> converts the character
  that begins with \<open>c\<close> and goes on in \<open>cs\<close>: either an error or the number of elements of
  \<open>cs\<close> that belong to it and what is written.  An element of the destination has \<open>width\<close> bytes, and
  the loop stops when there are fewer than \<open>need\<close> of the \<open>room\<close> bytes left.  Only the loops that are
  \<open>checked\<close>, those whose characters may take several elements, look whether there is room for a
  character before they write it.  \<^verbatim>\<open>dest_len\<close> is a \<^verbatim>\<open>USHORT\<close>: what is taken from it wraps around.
\<close>

definition ushort_minus :: "nat \<Rightarrow> nat \<Rightarrow> nat" where
  "ushort_minus a b = (if b \<le> a then a - b else (a + 65536 - b) mod 65536)"

function convert_loop ::
  "nat \<Rightarrow> nat \<Rightarrow> bool \<Rightarrow> ('a \<Rightarrow> 'a list \<Rightarrow> cvt_error + nat \<times> 'b list) \<Rightarrow> nat \<Rightarrow> 'a list \<Rightarrow> 'b list \<times> 'a list \<times> cvt_error" where
  "convert_loop width need checked unit room [] = ([], [], CS_NO_ERROR)"
| "convert_loop width need checked unit room (c # cs) =
     (if room < need then ([], c # cs, CS_NO_ERROR)
      else case unit c cs of
             Inl e \<Rightarrow> ([], c # cs, e)
           | Inr (extra, out) \<Rightarrow>
               (if checked \<and> room < width * length out then ([], c # cs, CS_TRUNCATION_ERROR)
                else let (out', rest, e) = convert_loop width need checked unit (ushort_minus room (width * length out)) (drop extra cs)
                     in (out @ out', rest, e)))"
  by pat_completeness auto
termination by (relation "measure (\<lambda>(width, need, checked, unit, room, src). length src)") auto

text \<open>What follows the loop; \<open>strict\<close> is the check for a single byte left over.\<close>

definition convert_end :: "nat \<Rightarrow> nat \<Rightarrow> bool \<Rightarrow> nat \<Rightarrow> 'a list \<Rightarrow> 'b list \<times> 'a list \<times> cvt_error \<Rightarrow> 'b cvt" where
  "convert_end src_size last_byte strict width src r =
     (case r of (out, rest, e) \<Rightarrow>
        let src_len = src_size * length rest + last_byte in
        \<lparr>cvt_err_code = (if src_len \<noteq> 0 \<and> e = CS_NO_ERROR
            then (if strict \<and> src_len = 1 then CS_BAD_INPUT else CS_TRUNCATION_ERROR) else e),
         cvt_err_position = Some (src_size * length src + last_byte - src_len), cvt_written = out, cvt_returned = width * length out\<rparr>)"

definition length_estimate :: "nat \<Rightarrow> 'b cvt" where
  "length_estimate n = \<lparr>cvt_err_code = CS_NO_ERROR, cvt_err_position = None, cvt_written = [], cvt_returned = n mod 65536\<rparr>"

section \<open>Narrow character sets\<close>

definition table2 :: "(nat \<Rightarrow> 'c) \<Rightarrow> (nat \<Rightarrow> nat) \<Rightarrow> nat \<Rightarrow> 'c" where
  "table2 datatable misc c = datatable (misc (c div 256) + c mod 256)"

definition unicode_to_nc_unit :: "(nat \<Rightarrow> byte) \<Rightarrow> (nat \<Rightarrow> nat) \<Rightarrow> unicode \<Rightarrow> unicode list \<Rightarrow> cvt_error + nat \<times> byte list" where
  "unicode_to_nc_unit datatable misc uni cs =
     (let ch = table2 datatable misc (unat uni) in if ch = 0 \<and> uni \<noteq> 0 then Inl CS_CONVERT_ERROR else Inr (0, [ch]))"

definition CV_unicode_to_nc :: "(nat \<Rightarrow> byte) \<Rightarrow> (nat \<Rightarrow> nat) \<Rightarrow> nat option \<Rightarrow> unicode list \<Rightarrow> nat \<Rightarrow> byte cvt" where
  "CV_unicode_to_nc datatable misc dest src last_byte =
     (case dest of None \<Rightarrow> length_estimate ((2 * length src + last_byte + 1) mod 65536 div 2)
      | Some dest_len \<Rightarrow> convert_end 2 last_byte True 1 src (convert_loop 1 1 False (unicode_to_nc_unit datatable misc) dest_len src))"

definition wc_to_wc_unit :: "(nat \<Rightarrow> unicode) \<Rightarrow> (nat \<Rightarrow> nat) \<Rightarrow> unicode \<Rightarrow> unicode list \<Rightarrow> cvt_error + nat \<times> unicode list" where
  "wc_to_wc_unit datatable misc uni cs =
     (let ch = table2 datatable misc (unat uni) in if ch = 0 \<and> uni \<noteq> 0 then Inl CS_CONVERT_ERROR else Inr (0, [ch]))"

definition CV_wc_to_wc :: "(nat \<Rightarrow> unicode) \<Rightarrow> (nat \<Rightarrow> nat) \<Rightarrow> nat option \<Rightarrow> unicode list \<Rightarrow> nat \<Rightarrow> unicode cvt" where
  "CV_wc_to_wc datatable misc dest src last_byte =
     (case dest of None \<Rightarrow> length_estimate (2 * length src + last_byte)
      | Some dest_len \<Rightarrow> convert_end 2 last_byte True 2 src (convert_loop 2 2 False (wc_to_wc_unit datatable misc) dest_len src))"

definition nc_to_unicode_unit :: "(nat \<Rightarrow> unicode) \<Rightarrow> byte \<Rightarrow> byte list \<Rightarrow> cvt_error + nat \<times> unicode list" where
  "nc_to_unicode_unit datatable c cs = Inr (0, [datatable (unat c)])"

definition CV_nc_to_unicode :: "(nat \<Rightarrow> unicode) \<Rightarrow> nat option \<Rightarrow> byte list \<Rightarrow> unicode cvt" where
  "CV_nc_to_unicode datatable dest src =
     (case dest of None \<Rightarrow> length_estimate (length src * 2)
      | Some dest_len \<Rightarrow> convert_end 1 0 False 2 src (convert_loop 2 2 False (nc_to_unicode_unit datatable) dest_len src))"

definition wc_copy_unit :: "unicode \<Rightarrow> unicode list \<Rightarrow> cvt_error + nat \<times> unicode list" where
  "wc_copy_unit c cs = Inr (0, [c])"

definition CV_wc_copy :: "nat option \<Rightarrow> unicode list \<Rightarrow> nat \<Rightarrow> unicode cvt" where
  "CV_wc_copy dest src last_byte =
     (case dest of None \<Rightarrow> length_estimate (2 * length src + last_byte)
      | Some dest_len \<Rightarrow> convert_end 2 last_byte True 2 src (convert_loop 2 2 False wc_copy_unit dest_len src))"

definition eight_bit_unit :: "(nat \<Rightarrow> byte) \<Rightarrow> byte \<Rightarrow> byte list \<Rightarrow> cvt_error + nat \<times> byte list" where
  "eight_bit_unit datatable c cs =
     (let ch = datatable (unat c) in if ch = 0 \<and> c \<noteq> 0 then Inl CS_CONVERT_ERROR else Inr (0, [ch]))"

definition eight_bit_convert :: "(nat \<Rightarrow> byte) \<Rightarrow> nat option \<Rightarrow> byte list \<Rightarrow> byte cvt" where
  "eight_bit_convert datatable dest src =
     (case dest of None \<Rightarrow> length_estimate (length src)
      | Some dest_len \<Rightarrow> convert_end 1 0 False 1 src (convert_loop 1 1 False (eight_bit_unit datatable) dest_len src))"

section \<open>Double-byte character sets\<close>

definition BIG51 :: "byte \<Rightarrow> bool" where "BIG51 uc \<longleftrightarrow> 0xa1 \<le> uc \<and> uc \<le> 0xfe"
definition BIG52 :: "byte \<Rightarrow> bool" where "BIG52 uc \<longleftrightarrow> 0x40 \<le> uc \<and> uc \<le> 0xfe"
definition GB1 :: "byte \<Rightarrow> bool" where "GB1 uc \<longleftrightarrow> 0xa1 \<le> uc \<and> uc \<le> 0xfe"
definition GB2 :: "byte \<Rightarrow> bool" where "GB2 uc \<longleftrightarrow> 0xa1 \<le> uc \<and> uc \<le> 0xfe"
definition KSC1 :: "byte \<Rightarrow> bool" where "KSC1 uc \<longleftrightarrow> uc AND 0x80 \<noteq> 0"
definition KSC2 :: "byte \<Rightarrow> bool" where "KSC2 uc \<longleftrightarrow> 0x41 \<le> uc"

text \<open>The three sets have the same routines; \<open>lead\<close> and \<open>trail\<close> are their macros.\<close>

definition double_wide :: "(byte \<Rightarrow> bool) \<Rightarrow> (byte \<Rightarrow> bool) \<Rightarrow> byte \<Rightarrow> byte list \<Rightarrow> cvt_error + nat \<times> nat" where
  "double_wide lead trail c cs =
     (if c AND 0x80 \<noteq> 0
      then if lead c
           then (case cs of [] \<Rightarrow> Inl CS_BAD_INPUT
                 | c2 # _ \<Rightarrow> if trail c2 then Inr (1, unat c * 256 + unat c2) else Inl CS_BAD_INPUT)
           else Inl CS_BAD_INPUT
      else Inr (0, unat c))"

definition double_to_unicode_unit ::
  "(byte \<Rightarrow> bool) \<Rightarrow> (byte \<Rightarrow> bool) \<Rightarrow> (nat \<Rightarrow> unicode) \<Rightarrow> (nat \<Rightarrow> nat) \<Rightarrow> byte \<Rightarrow> byte list \<Rightarrow> cvt_error + nat \<times> unicode list" where
  "double_to_unicode_unit lead trail datatable misc c cs =
     bind_result (double_wide lead trail c cs)
       (\<lambda>(extra, wide). let ch = table2 datatable misc wide in if ch = 0 \<and> wide \<noteq> 0 then Inl CS_CONVERT_ERROR else Inr (extra, [ch]))"

definition unicode_to_double_unit :: "(nat \<Rightarrow> unicode) \<Rightarrow> (nat \<Rightarrow> nat) \<Rightarrow> unicode \<Rightarrow> unicode list \<Rightarrow> cvt_error + nat \<times> byte list" where
  "unicode_to_double_unit datatable misc wide cs =
     (let ch = table2 datatable misc (unat wide); tmp1 = unat ch div 256; tmp2 = unat ch mod 256 in
      if ch = 0 \<and> wide \<noteq> 0 then Inl CS_CONVERT_ERROR
      else if tmp1 = 0 then Inr (0, [of_nat tmp2]) else Inr (0, [of_nat tmp1, of_nat tmp2]))"

definition byte2short_unit :: "(byte \<Rightarrow> bool) \<Rightarrow> byte \<Rightarrow> byte list \<Rightarrow> cvt_error + nat \<times> 16 word list" where
  "byte2short_unit lead c cs =
     (if lead c then (case cs of [] \<Rightarrow> Inl CS_BAD_INPUT | c2 # _ \<Rightarrow> Inr (1, [of_nat (unat c * 256 + unat c2)]))
      else Inr (0, [of_nat (unat c)]))"

definition CVBIG5_big5_to_unicode :: "(nat \<Rightarrow> unicode) \<Rightarrow> (nat \<Rightarrow> nat) \<Rightarrow> nat option \<Rightarrow> byte list \<Rightarrow> unicode cvt" where
  "CVBIG5_big5_to_unicode datatable misc dest src =
     (case dest of None \<Rightarrow> length_estimate (length src * 2)
      | Some dest_len \<Rightarrow> convert_end 1 0 False 2 src (convert_loop 2 2 False (double_to_unicode_unit BIG51 BIG52 datatable misc) dest_len src))"

definition CVGB_gb2312_to_unicode :: "(nat \<Rightarrow> unicode) \<Rightarrow> (nat \<Rightarrow> nat) \<Rightarrow> nat option \<Rightarrow> byte list \<Rightarrow> unicode cvt" where
  "CVGB_gb2312_to_unicode datatable misc dest src =
     (case dest of None \<Rightarrow> length_estimate (length src * 2)
      | Some dest_len \<Rightarrow> convert_end 1 0 False 2 src (convert_loop 2 2 False (double_to_unicode_unit GB1 GB2 datatable misc) dest_len src))"

definition CVKSC_ksc_to_unicode :: "(nat \<Rightarrow> unicode) \<Rightarrow> (nat \<Rightarrow> nat) \<Rightarrow> nat option \<Rightarrow> byte list \<Rightarrow> unicode cvt" where
  "CVKSC_ksc_to_unicode datatable misc dest src =
     (case dest of None \<Rightarrow> length_estimate (length src * 2)
      | Some dest_len \<Rightarrow> convert_end 1 0 False 2 src (convert_loop 2 2 False (double_to_unicode_unit KSC1 KSC2 datatable misc) dest_len src))"

definition CVBIG5_unicode_to_big5 :: "(nat \<Rightarrow> unicode) \<Rightarrow> (nat \<Rightarrow> nat) \<Rightarrow> nat option \<Rightarrow> unicode list \<Rightarrow> nat \<Rightarrow> byte cvt" where
  "CVBIG5_unicode_to_big5 datatable misc dest src last_byte =
     (case dest of None \<Rightarrow> length_estimate (2 * length src + last_byte)
      | Some dest_len \<Rightarrow> convert_end 2 last_byte False 1 src (convert_loop 1 1 True (unicode_to_double_unit datatable misc) dest_len src))"

definition CVGB_unicode_to_gb2312 :: "(nat \<Rightarrow> unicode) \<Rightarrow> (nat \<Rightarrow> nat) \<Rightarrow> nat option \<Rightarrow> unicode list \<Rightarrow> nat \<Rightarrow> byte cvt" where
  "CVGB_unicode_to_gb2312 datatable misc dest src last_byte =
     (case dest of None \<Rightarrow> length_estimate (2 * length src + last_byte)
      | Some dest_len \<Rightarrow> convert_end 2 last_byte False 1 src (convert_loop 1 1 True (unicode_to_double_unit datatable misc) dest_len src))"

definition CVKSC_unicode_to_ksc :: "(nat \<Rightarrow> unicode) \<Rightarrow> (nat \<Rightarrow> nat) \<Rightarrow> nat option \<Rightarrow> unicode list \<Rightarrow> nat \<Rightarrow> byte cvt" where
  "CVKSC_unicode_to_ksc datatable misc dest src last_byte =
     (case dest of None \<Rightarrow> length_estimate (2 * length src + last_byte)
      | Some dest_len \<Rightarrow> convert_end 2 last_byte False 1 src (convert_loop 1 1 True (unicode_to_double_unit datatable misc) dest_len src))"

definition CVBIG5_big5_byte2short :: "nat option \<Rightarrow> byte list \<Rightarrow> 16 word cvt" where
  "CVBIG5_big5_byte2short dest src =
     (case dest of None \<Rightarrow> length_estimate (2 * length src)
      | Some dest_len \<Rightarrow> convert_end 1 0 False 2 src (convert_loop 2 2 False (byte2short_unit BIG51) dest_len src))"

definition CVGB_gb2312_byte2short :: "nat option \<Rightarrow> byte list \<Rightarrow> 16 word cvt" where
  "CVGB_gb2312_byte2short dest src =
     (case dest of None \<Rightarrow> length_estimate (2 * length src)
      | Some dest_len \<Rightarrow> convert_end 1 0 False 2 src (convert_loop 2 2 False (byte2short_unit GB1) dest_len src))"

text \<open>A byte above \<^verbatim>\<open>0x7f\<close> that is no lead byte is an error there; there is none.\<close>

definition ksc_byte2short_unit :: "byte \<Rightarrow> byte list \<Rightarrow> cvt_error + nat \<times> 16 word list" where
  "ksc_byte2short_unit c cs =
     (if KSC1 c then (case cs of [] \<Rightarrow> Inl CS_BAD_INPUT | c2 # _ \<Rightarrow> Inr (1, [of_nat (unat c * 256 + unat c2)]))
      else if 0x7f < c then Inl CS_BAD_INPUT
      else Inr (0, [of_nat (unat c)]))"

definition CVKSC_ksc_byte2short :: "nat option \<Rightarrow> byte list \<Rightarrow> 16 word cvt" where
  "CVKSC_ksc_byte2short dest src =
     (case dest of None \<Rightarrow> length_estimate (2 * length src)
      | Some dest_len \<Rightarrow> convert_end 1 0 False 2 src (convert_loop 2 2 False ksc_byte2short_unit dest_len src))"

text \<open>1 stands for a truncated character at the end.\<close>

fun check_double :: "(byte \<Rightarrow> bool) \<Rightarrow> byte list \<Rightarrow> nat" where
  "check_double lead [] = 0"
| "check_double lead [c] = (if lead c then 1 else 0)"
| "check_double lead (c # c2 # cs) = (if lead c then check_double lead cs else check_double lead (c2 # cs))"

definition CVBIG5_check_big5 :: "byte list \<Rightarrow> nat" where
  "CVBIG5_check_big5 big5_str = check_double BIG51 big5_str"

definition CVGB_check_gb2312 :: "byte list \<Rightarrow> nat" where
  "CVGB_check_gb2312 gb_str = check_double GB1 gb_str"

fun CVKSC_check_ksc :: "byte list \<Rightarrow> nat" where
  "CVKSC_check_ksc [] = 0"
| "CVKSC_check_ksc [c] = (if KSC1 c then 1 else if 0x7f < c then 1 else 0)"
| "CVKSC_check_ksc (c # c2 # cs) =
     (if KSC1 c then CVKSC_check_ksc cs else if 0x7f < c then 1 else CVKSC_check_ksc (c2 # cs))"

text \<open>\<open>None\<close> is the result -1.\<close>

definition double_mbtowc :: "(byte \<Rightarrow> bool) \<Rightarrow> byte list \<Rightarrow> (nat \<times> 16 word) option" where
  "double_mbtowc lead src =
     (case src of [] \<Rightarrow> None
      | c # cs \<Rightarrow> if lead c then (case cs of [] \<Rightarrow> None | c2 # _ \<Rightarrow> Some (2, of_nat (unat c * 256 + unat c2)))
                 else Some (1, of_nat (unat c)))"

definition CVBIG5_big5_mbtowc :: "byte list \<Rightarrow> (nat \<times> 16 word) option" where
  "CVBIG5_big5_mbtowc src = double_mbtowc BIG51 src"

definition CVGB_gb2312_mbtowc :: "byte list \<Rightarrow> (nat \<times> 16 word) option" where
  "CVGB_gb2312_mbtowc src = double_mbtowc GB1 src"

definition CVKSC_ksc_mbtowc :: "byte list \<Rightarrow> (nat \<times> 16 word) option" where
  "CVKSC_ksc_mbtowc src =
     (case src of [] \<Rightarrow> None
      | c # cs \<Rightarrow> if KSC1 c then (case cs of [] \<Rightarrow> None | c2 # _ \<Rightarrow> Some (2, of_nat (unat c * 256 + unat c2)))
                 else if 0x7f < c then None else Some (1, of_nat (unat c)))"

section \<open>Unicode in file system safe form\<close>

record Tab =
  cmask :: int
  cval :: int
  tab_shift :: nat
  lmask :: int
  lval :: int

definition tab :: "Tab list" where
  "tab =
     [\<lparr>cmask = 0x80, cval = 0x00, tab_shift = 0 * 6, lmask = 0x7F, lval = 0\<rparr>,
      \<lparr>cmask = 0xE0, cval = 0xC0, tab_shift = 1 * 6, lmask = 0x7FF, lval = 0x80\<rparr>,
      \<lparr>cmask = 0xF0, cval = 0xE0, tab_shift = 2 * 6, lmask = 0xFFFF, lval = 0x800\<rparr>,
      \<lparr>cmask = 0xF8, cval = 0xF0, tab_shift = 3 * 6, lmask = 0x1FFFFF, lval = 0x10000\<rparr>,
      \<lparr>cmask = 0xFC, cval = 0xF8, tab_shift = 4 * 6, lmask = 0x3FFFFFF, lval = 0x200000\<rparr>,
      \<lparr>cmask = 0xFE, cval = 0xFC, tab_shift = 5 * 6, lmask = 0x7FFFFFFF, lval = 0x4000000\<rparr>]"

text \<open>\<open>*p = l\<close> stores a \<^verbatim>\<open>long\<close> into 16 bits.\<close>

fun mbtowc_loop :: "Tab list \<Rightarrow> int \<Rightarrow> int \<Rightarrow> nat \<Rightarrow> byte list \<Rightarrow> (nat \<times> unicode) option" where
  "mbtowc_loop [] c0 l nc s = None"
| "mbtowc_loop (t # ts) c0 l nc s =
     (if c0 AND cmask t = cval t
      then if l AND lmask t < lval t then None else Some (Suc nc, word_of_int (l AND lmask t))
      else case s of [] \<Rightarrow> None
           | b # s' \<Rightarrow> let c = (uint b XOR 0x80) AND 0xFF in
                       if c AND 0xC0 \<noteq> 0 then None else mbtowc_loop ts c0 (push_bit 6 l OR c) (Suc nc) s')"

definition fss_mbtowc :: "byte list \<Rightarrow> (nat \<times> unicode) option" where
  "fss_mbtowc s = (case s of [] \<Rightarrow> None | b # s' \<Rightarrow> mbtowc_loop tab (uint b) (uint b) 0 s')"

fun continuation_bytes :: "nat \<Rightarrow> int \<Rightarrow> byte list" where
  "continuation_bytes c l =
     (if 0 < c then word_of_int (0x80 OR (drop_bit (c - 6) l AND 0x3F)) # continuation_bytes (c - 6) l else [])"

fun wctomb_loop :: "Tab list \<Rightarrow> int \<Rightarrow> byte list option" where
  "wctomb_loop [] l = None"
| "wctomb_loop (t # ts) l =
     (if l \<le> lmask t then Some (word_of_int (cval t OR drop_bit (tab_shift t) l) # continuation_bytes (tab_shift t) l)
      else wctomb_loop ts l)"

definition fss_wctomb :: "unicode \<Rightarrow> byte list option" where
  "fss_wctomb wc = wctomb_loop tab (uint wc)"

definition CS_UTFFSS_fss_mbtowc :: "byte list \<Rightarrow> (nat \<times> unicode) option" where
  "CS_UTFFSS_fss_mbtowc p = fss_mbtowc p"

definition fss_to_unicode_unit :: "byte \<Rightarrow> byte list \<Rightarrow> cvt_error + nat \<times> unicode list" where
  "fss_to_unicode_unit c cs = (case fss_mbtowc (c # cs) of None \<Rightarrow> Inl CS_BAD_INPUT | Some (res, wc) \<Rightarrow> Inr (res - 1, [wc]))"

definition CS_UTFFSS_fss_to_unicode :: "nat option \<Rightarrow> byte list \<Rightarrow> unicode cvt" where
  "CS_UTFFSS_fss_to_unicode dest src =
     (case dest of None \<Rightarrow> length_estimate (length src * 2)
      | Some dest_len \<Rightarrow> convert_end 1 0 False 2 src (convert_loop 2 2 False fss_to_unicode_unit dest_len src))"

definition unicode_to_fss_unit :: "unicode \<Rightarrow> unicode list \<Rightarrow> cvt_error + nat \<times> byte list" where
  "unicode_to_fss_unit wc cs = (case fss_wctomb wc of None \<Rightarrow> Inl CS_BAD_INPUT | Some bytes \<Rightarrow> Inr (0, bytes))"

definition CS_UTFFSS_unicode_to_fss :: "nat option \<Rightarrow> unicode list \<Rightarrow> nat \<Rightarrow> byte cvt" where
  "CS_UTFFSS_unicode_to_fss dest src last_byte =
     (case dest of None \<Rightarrow> length_estimate ((2 * length src + last_byte + 1) mod 65536 div 2 * 3)
      | Some fss_len \<Rightarrow> convert_end 2 last_byte False 1 src (convert_loop 1 1 True unicode_to_fss_unit fss_len src))"

end
