(* ===== verification/Cvt_Spec.thy ===== *)
theory Cvt_Spec
  imports Cvt
begin

text \<open>
  The contract of a converter: what it promises for one character carries over to its loop.  The
  locales state the promise for one character, and for two converters that undo each other; they
  are interpreted on the converters of \<open>Cvt\<close>.
\<close>

section \<open>Converting a string\<close>

text \<open>A converter is exact when it has converted just the bytes before its error position, and had the room for it.\<close>

definition prefix_exact :: "('a list \<Rightarrow> 'b cvt) \<Rightarrow> nat \<Rightarrow> 'a list \<Rightarrow> bool" where
  "prefix_exact convert dest_len src \<longleftrightarrow>
     (\<exists>n. n \<le> length src \<and> cvt_err_position (convert src) = Some n \<and> cvt_returned (convert src) \<le> dest_len \<and>
        (cvt_err_code (convert src) = CS_NO_ERROR \<longrightarrow> n = length src) \<and>
        convert (take n src) = (convert src)\<lparr>cvt_err_code := CS_NO_ERROR\<rparr>)"

text \<open>A loop that writes without looking at the room must have made sure of it when it began with the character.\<close>

definition guarded :: "nat \<Rightarrow> nat \<Rightarrow> bool \<Rightarrow> ('a \<Rightarrow> 'a list \<Rightarrow> cvt_error + nat \<times> 'b list) \<Rightarrow> bool" where
  "guarded width need checked unit \<longleftrightarrow>
     checked \<or> (\<forall>c cs extra out. unit c cs = Inr (extra, out) \<longrightarrow> width * length out \<le> need)"

lemma guarded_room:
  "guarded width need checked unit \<Longrightarrow> unit c cs = Inr (extra, out) \<Longrightarrow> need \<le> room \<Longrightarrow> \<not> checked \<Longrightarrow> width * length out \<le> room"
  unfolding guarded_def by (meson order_trans)

locale char_unit =
  fixes unit :: "'a \<Rightarrow> 'a list \<Rightarrow> cvt_error + nat \<times> 'b list"
  assumes within: "unit c cs = Inr (extra, out) \<Longrightarrow> extra \<le> length cs"
    and only_within: "unit c cs = Inr (extra, out) \<Longrightarrow> unit c (take extra cs @ t) = Inr (extra, out)"
begin

lemma loop_step:
  assumes "need \<le> room" "unit c cs = Inr (extra, out)" "width * length out \<le> room"
  shows "convert_loop width need checked unit room (c # cs) =
    (case convert_loop width need checked unit (room - width * length out) (drop extra cs) of (out', rest, e) \<Rightarrow> (out @ out', rest, e))"
  using assms by (simp add: ushort_minus_def)

text \<open>What was consumed, converted alone, gives what was written, and there was room for it.\<close>

lemma loop_prefix:
  assumes "convert_loop width need checked unit room src = (out, rest, e)" "guarded width need checked unit"
  shows "width * length out \<le> room \<and>
    (\<exists>front. src = front @ rest \<and> convert_loop width need checked unit room front = (out, [], CS_NO_ERROR))"
  using assms(1)
proof (induction src arbitrary: room out rest e rule: length_induct)
  case (1 src)
  show ?case
  proof (cases src)
    case Nil
    then show ?thesis using "1.prems" by simp
  next
    case (Cons c cs)
    show ?thesis
    proof (cases "need \<le> room \<and> (\<exists>extra o1. unit c cs = Inr (extra, o1) \<and> width * length o1 \<le> room)")
      case False
      then have "out = [] \<and> rest = src" using "1.prems" Cons guarded_room [OF assms(2)] by (auto split: sum.splits if_splits)
      then show ?thesis by simp
    next
      case True
      then obtain extra o1 where go: "need \<le> room" "unit c cs = Inr (extra, o1)" "width * length o1 \<le> room" by blast
      obtain o2 rest' e' where rec: "convert_loop width need checked unit (room - width * length o1) (drop extra cs) = (o2, rest', e')"
        by (metis prod_cases3)
      have res: "out = o1 @ o2" "rest = rest'" using "1.prems" Cons loop_step [OF go] rec by simp_all
      have "length (drop extra cs) < length src" using Cons by simp
      from "1.IH" [rule_format, OF this rec] obtain front where front: "drop extra cs = front @ rest"
        "width * length o2 \<le> room - width * length o1"
        "convert_loop width need checked unit (room - width * length o1) front = (o2, [], CS_NO_ERROR)"
        unfolding res(2) by blast
      let ?cs = "take extra cs @ front"
      have "unit c ?cs = Inr (extra, o1)" by (rule only_within [OF go(2)])
      moreover have "drop extra ?cs = front" using within [OF go(2)] by simp
      ultimately have "convert_loop width need checked unit room (c # ?cs) = (out, [], CS_NO_ERROR)"
        using loop_step [OF go(1) _ go(3), of c ?cs extra] front(3) res(1) by simp
      moreover have "src = (c # ?cs) @ rest" using front(1) Cons by (metis append_Cons append_assoc append_take_drop_id)
      moreover have "width * length out \<le> room" using front(2) go(3) res(1) by (simp add: distrib_left)
      ultimately show ?thesis by blast
    qed
  qed
qed

text \<open>Why it stopped: the input or the room is used up, or the next character has an error.\<close>

lemma loop_stop:
  assumes "convert_loop width need checked unit room src = (out, rest, e)" "guarded width need checked unit"
  shows "rest = [] \<and> e = CS_NO_ERROR \<or> (\<exists>c cs. rest = c # cs \<and>
    (e = CS_NO_ERROR \<and> room - width * length out < need \<or> unit c cs = Inl e \<or>
     (e = CS_TRUNCATION_ERROR \<and> (\<exists>extra o1. unit c cs = Inr (extra, o1) \<and> room - width * length out < width * length o1))))"
  using assms(1)
proof (induction src arbitrary: room out rest e rule: length_induct)
  case (1 src)
  show ?case
  proof (cases src)
    case Nil
    then show ?thesis using "1.prems" by simp
  next
    case (Cons c cs)
    show ?thesis
    proof (cases "need \<le> room \<and> (\<exists>extra o1. unit c cs = Inr (extra, o1) \<and> width * length o1 \<le> room)")
      case False
      then show ?thesis using "1.prems" Cons guarded_room [OF assms(2)] by (auto split: sum.splits if_splits)
    next
      case True
      then obtain extra o1 where go: "need \<le> room" "unit c cs = Inr (extra, o1)" "width * length o1 \<le> room" by blast
      obtain o2 rest' e' where rec: "convert_loop width need checked unit (room - width * length o1) (drop extra cs) = (o2, rest', e')"
        by (metis prod_cases3)
      have res: "out = o1 @ o2" "rest = rest'" "e = e'" using "1.prems" Cons loop_step [OF go] rec by simp_all
      have "length (drop extra cs) < length src" using Cons by simp
      from "1.IH" [rule_format, OF this rec] show ?thesis unfolding res by (simp add: distrib_left)
    qed
  qed
qed

lemma end_prefix_exact:
  assumes "guarded width need checked unit"
  shows "prefix_exact (\<lambda>src. convert_end 1 0 False width src (convert_loop width need checked unit room src)) room src"
proof -
  obtain out rest e where loop: "convert_loop width need checked unit room src = (out, rest, e)" by (metis prod_cases3)
  obtain front where front: "src = front @ rest" "width * length out \<le> room"
    "convert_loop width need checked unit room front = (out, [], CS_NO_ERROR)"
    using loop_prefix [OF loop assms] by blast
  then show ?thesis using loop unfolding prefix_exact_def
    by (intro exI [of _ "length front"]) (auto simp: convert_end_def Let_def split: if_splits)
qed

end

section \<open>Converting there and back\<close>

locale unit_inverse = there: char_unit unit + undo: char_unit unit'
  for unit :: "'a \<Rightarrow> 'a list \<Rightarrow> cvt_error + nat \<times> 'b list" and unit' :: "'b \<Rightarrow> 'b list \<Rightarrow> cvt_error + nat \<times> 'a list" +
  assumes inverse: "unit c cs = Inr (extra, out) \<Longrightarrow> \<exists>b bs. out = b # bs \<and> (\<forall>t. unit' b (bs @ t) = Inr (length bs, c # take extra cs))"
begin

lemma loop_roundtrip:
  assumes "convert_loop width need checked unit room src = (out, [], CS_NO_ERROR)" "width' * length src \<le> room'" "need' \<le> width'"
    and "guarded width need checked unit"
  shows "convert_loop width' need' checked' unit' room' out = (src, [], CS_NO_ERROR)"
  using assms(1,2)
proof (induction src arbitrary: room room' out rule: length_induct)
  case (1 src)
  show ?case
  proof (cases src)
    case Nil
    then show ?thesis using "1.prems" by simp
  next
    case (Cons c cs)
    then obtain extra o1 where go: "need \<le> room" "unit c cs = Inr (extra, o1)" "width * length o1 \<le> room"
      using "1.prems"(1) guarded_room [OF assms(4)] by (auto split: sum.splits if_splits)
    obtain o2 where rec: "convert_loop width need checked unit (room - width * length o1) (drop extra cs) = (o2, [], CS_NO_ERROR)"
      and out: "out = o1 @ o2"
      using "1.prems"(1) Cons there.loop_step [OF go] by (auto split: prod.splits)
    obtain b bs where b: "o1 = b # bs" "\<And>t. unit' b (bs @ t) = Inr (length bs, c # take extra cs)"
      using inverse [OF go(2)] by blast
    have len: "length cs = extra + length (drop extra cs)" using there.within [OF go(2)] by simp
    then have room: "width' * length (c # take extra cs) + width' * length (drop extra cs) \<le> room'"
      using "1.prems"(2) Cons by (simp add: algebra_simps)
    have "length (drop extra cs) < length src" using Cons by simp
    moreover have "width' * length (drop extra cs) \<le> room' - width' * length (c # take extra cs)" using room by linarith
    ultimately have "convert_loop width' need' checked' unit' (room' - width' * length (c # take extra cs)) o2 = (drop extra cs, [], CS_NO_ERROR)"
      using "1.IH" rec by blast
    moreover have "need' \<le> room'" "width' * length (c # take extra cs) \<le> room'"
      using room assms(3) by (auto simp: algebra_simps)
    ultimately show ?thesis
      using undo.loop_step [of need' room' b "bs @ o2" "length bs" "c # take extra cs" width'] b Cons out by simp
  qed
qed

end

section \<open>The converters\<close>

interpretation nc: char_unit "unicode_to_nc_unit datatable misc" for datatable misc
  by unfold_locales (auto simp: unicode_to_nc_unit_def Let_def split: if_splits)

interpretation wc: char_unit "wc_to_wc_unit datatable misc" for datatable misc
  by unfold_locales (auto simp: wc_to_wc_unit_def Let_def split: if_splits)

interpretation from_nc: char_unit "nc_to_unicode_unit datatable" for datatable
  by unfold_locales (auto simp: nc_to_unicode_unit_def)

interpretation copy: unit_inverse wc_copy_unit wc_copy_unit
  by unfold_locales (auto simp: wc_copy_unit_def)

interpretation eight: char_unit "eight_bit_unit datatable" for datatable
  by unfold_locales (auto simp: eight_bit_unit_def Let_def split: if_splits)

lemma double_wide_within:
  "double_wide lead trail c cs = Inr (extra, wide) \<Longrightarrow> extra \<le> length cs \<and> double_wide lead trail c (take extra cs @ t) = Inr (extra, wide)"
  by (cases cs) (auto simp: double_wide_def split: if_splits)

lemma double_unit_cases:
  "double_to_unicode_unit lead trail datatable misc c cs = Inr (extra, out) \<longleftrightarrow>
     (\<exists>wide. double_wide lead trail c cs = Inr (extra, wide) \<and> out = [table2 datatable misc wide] \<and> (table2 datatable misc wide = 0 \<longrightarrow> wide = 0))"
  by (cases "double_wide lead trail c cs") (auto simp: double_to_unicode_unit_def Let_def bind_result_def split: if_splits)

interpretation double: char_unit "double_to_unicode_unit lead trail datatable misc" for lead trail datatable misc
proof
  fix c cs extra out t assume "double_to_unicode_unit lead trail datatable misc c cs = Inr (extra, out)"
  then show "extra \<le> length cs" "double_to_unicode_unit lead trail datatable misc c (take extra cs @ t) = Inr (extra, out)"
    using double_wide_within [of lead trail c cs] by (auto simp: double_unit_cases)
qed

interpretation to_double: char_unit "unicode_to_double_unit datatable misc" for datatable misc
  by unfold_locales (auto simp: unicode_to_double_unit_def Let_def split: if_splits)

interpretation short: char_unit "byte2short_unit lead" for lead
  by unfold_locales (auto simp: byte2short_unit_def split: if_splits list.splits)

end
