(* ===== verification/Utf.thy ===== *)
theory Utf
  imports Cvt_Spec
begin

text \<open>
  Unicode in file system safe form: the encoding of one character of \<^verbatim>\<open>src/intl/cs_utffss.c\<close> and
  its decoding, and through the contract of \<open>Cvt_Spec\<close> that of strings.
\<close>

section \<open>Bits of a byte\<close>

declare continuation_bytes.simps [simp del]

lemma all_less: "list_all P [0..m - 1] \<Longrightarrow> 0 \<le> x \<Longrightarrow> x < m \<Longrightarrow> P (x :: int)"
  by (simp add: list_all_iff)

lemma continuation_bits:
  fixes x :: int
  assumes "0 \<le> x" "x < 64"
  shows "0x80 OR x = 128 + x \<and> ((128 + x) XOR 0x80) AND 0xFF = x \<and> x AND 0xC0 = 0"
proof -
  have "list_all (\<lambda>x. 0x80 OR x = 128 + x \<and> ((128 + x) XOR 0x80) AND 0xFF = x \<and> x AND 0xC0 = (0 :: int)) [0..64 - 1]"
    by code_simp
  from all_less [OF this assms] show ?thesis .
qed

lemma lead2_bits:
  fixes x :: int
  assumes "0 \<le> x" "x < 32"
  shows "0xC0 OR x = 192 + x \<and> (192 + x) AND 0x80 = 128 \<and> (192 + x) AND 0xE0 = 0xC0"
proof -
  have "list_all (\<lambda>x. 0xC0 OR x = 192 + x \<and> (192 + x) AND 0x80 = 128 \<and> (192 + x) AND 0xE0 = (0xC0 :: int)) [0..32 - 1]"
    by code_simp
  from all_less [OF this assms] show ?thesis .
qed

lemma lead3_bits:
  fixes x :: int
  assumes "0 \<le> x" "x < 16"
  shows "0xE0 OR x = 224 + x \<and> (224 + x) AND 0x80 = 128 \<and> (224 + x) AND 0xE0 = 0xE0 \<and> (224 + x) AND 0xF0 = 0xE0"
proof -
  have "list_all (\<lambda>x. 0xE0 OR x = 224 + x \<and> (224 + x) AND 0x80 = 128 \<and> (224 + x) AND 0xE0 = 0xE0 \<and> (224 + x) AND 0xF0 = (0xE0 :: int)) [0..16 - 1]"
    by code_simp
  from all_less [OF this assms] show ?thesis .
qed

lemma lead4_bits:
  fixes x :: int
  assumes "0 \<le> x" "x < 8"
  shows "(240 + x) AND 0x80 = 128 \<and> (240 + x) AND 0xE0 = 0xE0 \<and> (240 + x) AND 0xF0 = 0xF0 \<and> (240 + x) AND 0xF8 = 0xF0"
proof -
  have "list_all (\<lambda>x. (240 + x) AND 0x80 = 128 \<and> (240 + x) AND 0xE0 = 0xE0 \<and> (240 + x) AND 0xF0 = 0xF0 \<and> (240 + x) AND 0xF8 = (0xF0 :: int)) [0..8 - 1]"
    by code_simp
  from all_less [OF this assms] show ?thesis .
qed

lemma ascii_bits:
  fixes x :: int
  assumes "0 \<le> x" "x < 128"
  shows "x AND 0x80 = 0 \<and> x AND 0x7F = x"
proof -
  have "list_all (\<lambda>x. x AND 0x80 = 0 \<and> x AND 0x7F = (x :: int)) [0..128 - 1]" by code_simp
  from all_less [OF this assms] show ?thesis .
qed

lemma and_masks: "(x :: int) AND 0x3F = x mod 64" "x AND 0x7FF = x mod 2048" "x AND 0xFFFF = x mod 65536"
  using take_bit_eq_mask [of 6 x] take_bit_eq_mask [of 11 x] take_bit_eq_mask [of 16 x]
  by (simp_all add: take_bit_eq_mod mask_eq_exp_minus_1)

lemma and_mask21: "(x :: int) AND 0x1FFFFF = x mod 2097152"
  using take_bit_eq_mask [of 21 x] by (simp add: take_bit_eq_mod mask_eq_exp_minus_1)

lemma shift_or:
  fixes x :: int
  assumes "0 \<le> x" "x < 64"
  shows "push_bit 6 a OR x = 64 * a + x"
proof -
  have "x = take_bit 6 x" using assms by (simp add: take_bit_int_eq_self)
  then have "bit (push_bit 6 a) n \<Longrightarrow> bit x n \<Longrightarrow> False" for n
    by (metis bit_push_bit_iff bit_take_bit_iff not_le)
  then have "push_bit 6 a OR x = push_bit 6 a + x" by (intro disjunctive_add [symmetric]) blast
  then show ?thesis by (simp add: push_bit_eq_mult)
qed

lemma uint_byte: "0 \<le> x \<Longrightarrow> x < 256 \<Longrightarrow> uint (word_of_int x :: byte) = x"
  by (simp add: uint_word_of_int)

lemma uint_unicode: "0 \<le> uint (w :: unicode)" "uint (w :: unicode) < 65536"
  using uint_lt2p [of w] by simp_all

section \<open>One character\<close>

text \<open>The three forms of a character of 16 bits.\<close>

lemma fss_wctomb_cases:
  fixes wc :: unicode
  defines "l \<equiv> uint wc"
  shows "fss_wctomb wc = Some (
    if l < 128 then [word_of_int l]
    else if l < 2048 then [word_of_int (192 + l div 64), word_of_int (128 + l mod 64)]
    else [word_of_int (224 + l div 4096), word_of_int (128 + l div 64 mod 64), word_of_int (128 + l mod 64)])"
proof -
  have l: "0 \<le> l" "l < 65536" using uint_unicode by (simp_all add: l_def)
  have c: "0x80 OR (x AND 0x3F) = 128 + x mod 64" for x :: int using continuation_bits [of "x mod 64"] by (simp add: and_masks)
  have c1: "continuation_bytes 6 x = [word_of_int (128 + x mod 64)]" for x
    by (subst continuation_bytes.simps, simp add: c, subst continuation_bytes.simps, simp)
  have c2: "continuation_bytes 12 x = [word_of_int (128 + x div 64 mod 64), word_of_int (128 + x mod 64)]" for x
    by (subst continuation_bytes.simps) (simp add: c c1 drop_bit_eq_div)
  have c0: "continuation_bytes 0 x = []" for x by (subst continuation_bytes.simps) simp
  have "l < 2048 \<Longrightarrow> 0xC0 OR drop_bit 6 l = 192 + l div 64" using lead2_bits [of "l div 64"] l by (simp add: drop_bit_eq_div)
  moreover have "0xE0 OR drop_bit 12 l = 224 + l div 4096" using lead3_bits [of "l div 4096"] l by (simp add: drop_bit_eq_div)
  ultimately show ?thesis
    using l(2) by (simp add: fss_wctomb_def tab_def l_def [symmetric] c0 c1 c2)
qed

text \<open>Decoding the first three forms.\<close>

lemma decode1: "0 \<le> x \<Longrightarrow> x < 128 \<Longrightarrow> fss_mbtowc (word_of_int x # t) = Some (1, word_of_int x)"
  using ascii_bits [of x] by (simp add: fss_mbtowc_def tab_def uint_byte)

lemma mbtowc_step:
  assumes "c0 AND cmask t \<noteq> cval t" "0 \<le> x" "x < 64"
  shows "mbtowc_loop (t # ts) c0 l nc (word_of_int (128 + x) # s) = mbtowc_loop ts c0 (64 * l + x) (Suc nc) s"
proof -
  have "uint (word_of_int (128 + x) :: byte) = 128 + x" by (rule uint_byte) (use assms in auto)
  then show ?thesis using assms continuation_bits [OF assms(2,3)] shift_or [OF assms(2,3), of l] by (simp add: Let_def)
qed

lemma mbtowc_found:
  assumes "c0 AND cmask t = cval t"
  shows "mbtowc_loop (t # ts) c0 l nc s = (if l AND lmask t < lval t then None else Some (Suc nc, word_of_int (l AND lmask t)))"
  using assms by simp

lemma decode2:
  assumes "0 \<le> h" "h < 32" "0 \<le> m" "m < 64"
  shows "fss_mbtowc (word_of_int (192 + h) # word_of_int (128 + m) # t) =
    (if 64 * h + m < 128 then None else Some (2, word_of_int (64 * h + m)))"
proof -
  have "64 * (192 + h) + m = 64 * h + m + 6 * 2048" by simp
  then have "(64 * (192 + h) + m) mod 2048 = (64 * h + m) mod 2048" by (simp only: mod_mult_self1)
  also have "\<dots> = 64 * h + m" by (rule mod_pos_pos_trivial) (use assms in auto)
  finally have mod: "(64 * (192 + h) + m) AND 0x7FF = 64 * h + m" unfolding and_masks .
  have u: "uint (word_of_int (192 + h) :: byte) = 192 + h" by (rule uint_byte) (use assms in auto)
  have "fss_mbtowc (word_of_int (192 + h) # word_of_int (128 + m) # t) = mbtowc_loop tab (192 + h) (192 + h) 0 (word_of_int (128 + m) # t)"
    unfolding fss_mbtowc_def list.case u ..
  also have "\<dots> = mbtowc_loop (tl tab) (192 + h) (64 * (192 + h) + m) (Suc 0) t"
    unfolding tab_def list.sel by (rule mbtowc_step) (use lead2_bits [OF assms(1,2)] assms in auto)
  also have "\<dots> = (if 64 * h + m < 128 then None else Some (2, word_of_int (64 * h + m)))"
    unfolding tab_def list.sel by (subst mbtowc_found) (use lead2_bits [OF assms(1,2)] in simp, simp only: mod Tab.select_convs numeral_2_eq_2)
  finally show ?thesis .
qed

lemma decode3:
  assumes "0 \<le> h" "h < 16" "0 \<le> k" "k < 64" "0 \<le> m" "m < 64"
  shows "fss_mbtowc (word_of_int (224 + h) # word_of_int (128 + k) # word_of_int (128 + m) # t) =
    (if 4096 * h + 64 * k + m < 2048 then None else Some (3, word_of_int (4096 * h + 64 * k + m)))"
proof -
  have "64 * (64 * (224 + h) + k) + m = 4096 * h + 64 * k + m + 14 * 65536" by simp
  then have "(64 * (64 * (224 + h) + k) + m) mod 65536 = (4096 * h + 64 * k + m) mod 65536" by (simp only: mod_mult_self1)
  also have "\<dots> = 4096 * h + 64 * k + m" by (rule mod_pos_pos_trivial) (use assms in auto)
  finally have mod: "(64 * (64 * (224 + h) + k) + m) AND 0xFFFF = 4096 * h + 64 * k + m" unfolding and_masks .
  have u: "uint (word_of_int (224 + h) :: byte) = 224 + h" by (rule uint_byte) (use assms in auto)
  have "fss_mbtowc (word_of_int (224 + h) # word_of_int (128 + k) # word_of_int (128 + m) # t) =
      mbtowc_loop tab (224 + h) (224 + h) 0 (word_of_int (128 + k) # word_of_int (128 + m) # t)"
    unfolding fss_mbtowc_def list.case u ..
  also have "\<dots> = mbtowc_loop (tl tab) (224 + h) (64 * (224 + h) + k) (Suc 0) (word_of_int (128 + m) # t)"
    unfolding tab_def list.sel by (rule mbtowc_step) (use lead3_bits [OF assms(1,2)] assms in auto)
  also have "\<dots> = mbtowc_loop (tl (tl tab)) (224 + h) (64 * (64 * (224 + h) + k) + m) (Suc (Suc 0)) t"
    unfolding tab_def list.sel by (rule mbtowc_step) (use lead3_bits [OF assms(1,2)] assms in auto)
  also have "\<dots> = (if 4096 * h + 64 * k + m < 2048 then None else Some (3, word_of_int (4096 * h + 64 * k + m)))"
    unfolding tab_def list.sel by (subst mbtowc_found) (use lead3_bits [OF assms(1,2)] in simp, simp only: mod Tab.select_convs numeral_3_eq_3)
  finally show ?thesis .
qed

lemma wctomb_mbtowc:
  assumes "fss_wctomb wc = Some bytes"
  shows "fss_mbtowc (bytes @ t) = Some (length bytes, wc) \<and> bytes \<noteq> [] \<and> length bytes \<le> 3"
proof -
  define l where "l = uint wc"
  have l: "0 \<le> l" "l < 65536" "word_of_int l = wc" using uint_unicode by (simp_all add: l_def)
  consider "l < 128" | "128 \<le> l" "l < 2048" | "2048 \<le> l" by linarith
  then show ?thesis
  proof cases
    case 1
    then have "bytes = [word_of_int l]" using assms fss_wctomb_cases [of wc] by (simp add: l_def)
    then show ?thesis using decode1 [OF l(1) 1, of t] l(3) by simp
  next
    case 2
    then have "bytes = [word_of_int (192 + l div 64), word_of_int (128 + l mod 64)]"
      using assms fss_wctomb_cases [of wc] by (simp add: l_def)
    moreover have "64 * (l div 64) + l mod 64 = l" by simp
    moreover have "0 \<le> l div 64" "l div 64 < 32" "0 \<le> l mod 64" "l mod 64 < 64" using 2 by auto
    ultimately show ?thesis using decode2 [of "l div 64" "l mod 64" t] l(3) 2 by simp
  next
    case 3
    then have "bytes = [word_of_int (224 + l div 4096), word_of_int (128 + l div 64 mod 64), word_of_int (128 + l mod 64)]"
      using assms fss_wctomb_cases [of wc] by (simp add: l_def)
    moreover have "4096 * (l div 4096) + 64 * (l div 64 mod 64) + l mod 64 = l"
    proof -
      have "l div 64 = 64 * (l div 64 div 64) + l div 64 mod 64" by simp
      moreover have "l div 64 div 64 = l div 4096" by (simp add: zdiv_zmult2_eq [symmetric])
      moreover have "l = 64 * (l div 64) + l mod 64" by simp
      ultimately show ?thesis by linarith
    qed
    moreover have "0 \<le> l div 4096" "l div 4096 < 16" "0 \<le> l div 64 mod 64" "l div 64 mod 64 < 64" "0 \<le> l mod 64" "l mod 64 < 64"
      using l by auto
    ultimately show ?thesis using decode3 [of "l div 4096" "l div 64 mod 64" "l mod 64" t] l(3) 3 by simp
  qed
qed

section \<open>Strings\<close>

lemma mbtowc_loop_within:
  "mbtowc_loop ts c0 l nc s = Some (n, wc) \<Longrightarrow>
   nc < n \<and> n - Suc nc \<le> length s \<and> mbtowc_loop ts c0 l nc (take (n - Suc nc) s @ t) = Some (n, wc)"
proof (induction ts c0 l nc s rule: mbtowc_loop.induct)
  case (2 r ts c0 l nc s)
  show ?case
  proof (cases "c0 AND cmask r = cval r")
    case True
    then show ?thesis using "2.prems" by (auto split: if_splits)
  next
    case False
    then obtain b s' where s: "s = b # s'" using "2.prems" by (auto split: list.splits)
    let ?c = "(uint b XOR 0x80) AND 0xFF"
    have c: "?c AND 0xC0 = 0" and rec: "mbtowc_loop ts c0 (push_bit 6 l OR ?c) (Suc nc) s' = Some (n, wc)"
      using "2.prems" False s by (auto simp: Let_def split: if_splits)
    have IH: "Suc nc < n \<and> n - Suc (Suc nc) \<le> length s' \<and>
      mbtowc_loop ts c0 (push_bit 6 l OR ?c) (Suc nc) (take (n - Suc (Suc nc)) s' @ t) = Some (n, wc)"
      using "2.IH" [OF False s refl] c rec by simp
    then have "n - Suc nc = Suc (n - Suc (Suc nc))" by (metis Suc_diff_Suc)
    then show ?thesis using IH False c s by (simp add: Let_def)
  qed
qed simp

lemma fss_mbtowc_within:
  "fss_mbtowc (c # cs) = Some (n, wc) \<Longrightarrow> 0 < n \<and> n - 1 \<le> length cs \<and> fss_mbtowc (c # take (n - 1) cs @ t) = Some (n, wc)"
  using mbtowc_loop_within [of tab "uint c" "uint c" 0 cs n wc t] by (simp add: fss_mbtowc_def)

interpretation from_fss: char_unit fss_to_unicode_unit
proof
  fix c cs extra out t assume "fss_to_unicode_unit c cs = Inr (extra, out)"
  then show "extra \<le> length cs" "fss_to_unicode_unit c (take extra cs @ t) = Inr (extra, out)"
    using fss_mbtowc_within [of c cs] by (auto simp: fss_to_unicode_unit_def split: option.splits)
qed

interpretation fss: unit_inverse unicode_to_fss_unit fss_to_unicode_unit
proof
  fix c cs extra out t assume u: "unicode_to_fss_unit c cs = Inr (extra, out)"
  then have w: "fss_wctomb c = Some out" "extra = 0" by (auto simp: unicode_to_fss_unit_def split: option.splits)
  then show "extra \<le> length cs" "unicode_to_fss_unit c (take extra cs @ t) = Inr (extra, out)" by (simp_all add: unicode_to_fss_unit_def)
  have dec: "fss_mbtowc (out @ t) = Some (length out, c)" for t using wctomb_mbtowc [OF w(1)] by blast
  obtain b bs where "out = b # bs" using wctomb_mbtowc [OF w(1)] by (cases out) auto
  then show "\<exists>b bs. out = b # bs \<and> (\<forall>t. fss_to_unicode_unit b (bs @ t) = Inr (length bs, c # take extra cs))"
    using dec w(2) by (auto simp: fss_to_unicode_unit_def)
qed

text \<open>With three bytes for every word nothing can go wrong.\<close>

lemma unicode_to_fss_complete:
  "3 * length src \<le> room \<Longrightarrow> \<exists>out. convert_loop 1 1 True unicode_to_fss_unit room src = (out, [], CS_NO_ERROR) \<and> length out \<le> 3 * length src"
proof (induction src arbitrary: room)
  case (Cons c cs)
  obtain bytes where bytes: "fss_wctomb c = Some bytes" using fss_wctomb_cases by blast
  have len: "length bytes \<le> 3" "bytes \<noteq> []" using wctomb_mbtowc [OF bytes] by auto
  have "3 * length cs \<le> room - length bytes" using Cons.prems len(1) by simp
  from Cons.IH [OF this] obtain out where out: "convert_loop 1 1 True unicode_to_fss_unit (room - length bytes) cs = (out, [], CS_NO_ERROR)"
    "length out \<le> 3 * length cs" by blast
  have "convert_loop 1 1 True unicode_to_fss_unit room (c # cs) = (bytes @ out, [], CS_NO_ERROR)"
    using fss.there.loop_step [of 1 room c cs 0 bytes 1 True] bytes len Cons.prems out(1) by (simp add: unicode_to_fss_unit_def)
  then show ?case using out(2) len(1) by auto
qed simp

section \<open>Truncated strings\<close>

text \<open>The check for a truncated string and the conversion to shorts agree on what is truncated.\<close>

lemma check_double_short:
  "2 * length src \<le> room \<Longrightarrow>
   snd (snd (convert_loop 2 2 False (byte2short_unit lead) room src)) = (if check_double lead src = 0 then CS_NO_ERROR else CS_BAD_INPUT)"
proof (induction lead src arbitrary: room rule: check_double.induct)
  case (3 lead c c2 cs)
  show ?case
  proof (cases "lead c")
    case True
    then have "byte2short_unit lead c (c2 # cs) = Inr (1, [of_nat (unat c * 256 + unat c2)])" by (simp add: byte2short_unit_def)
    from short.loop_step [OF _ this, of 2 room 2 False] show ?thesis using 3 True by (simp add: case_prod_beta del: convert_loop.simps)
  next
    case False
    then have "byte2short_unit lead c (c2 # cs) = Inr (0, [of_nat (unat c)])" by (simp add: byte2short_unit_def)
    from short.loop_step [OF _ this, of 2 room 2 False] show ?thesis using 3 False by (simp add: case_prod_beta del: convert_loop.simps)
  qed
qed (auto simp: byte2short_unit_def)

lemma KSC1_iff: "KSC1 c \<longleftrightarrow> 0x7f < c"
proof -
  have "list_all (\<lambda>x. (x AND 0x80 \<noteq> 0) = (0x7f < (x :: int))) [0..256 - 1]" by code_simp
  then have "(x AND 0x80 \<noteq> 0) = (0x7f < x)" if "0 \<le> x" "x < 256" for x :: int using all_less [OF _ that] by blast
  from this [of "uint c"] have "(uint (c AND 0x80) \<noteq> 0) = (0x7f < uint c)" using uint_lt2p [of c] by (simp add: unsigned_and_eq)
  then show ?thesis by (simp add: KSC1_def word_less_def unsigned_eq_0_iff)
qed

lemma ksc_check: "CVKSC_check_ksc src = check_double KSC1 src"
  by (induction src rule: CVKSC_check_ksc.induct) (auto simp: KSC1_iff)

lemma ksc_byte2short: "ksc_byte2short_unit = byte2short_unit KSC1"
  by (auto simp: ksc_byte2short_unit_def byte2short_unit_def KSC1_iff fun_eq_iff split: list.splits)

text \<open>One character at a time, \<^verbatim>\<open>mbtowc\<close> reads what the conversion to shorts writes.\<close>

lemma double_mbtowc_short:
  "double_mbtowc lead (c # cs) = (case byte2short_unit lead c cs of Inl _ \<Rightarrow> None | Inr (extra, out) \<Rightarrow> Some (Suc extra, hd out))"
  by (auto simp: double_mbtowc_def byte2short_unit_def split: list.splits)

end
