(* ===== verification/Cvt_Props.thy ===== *)
theory Cvt_Props
  imports Utf
begin

text \<open>
  What is shown of the character set conversions.
\<close>

section \<open>Unicode in file system safe form\<close>

text \<open>
  (C38) Every Unicode string of 16-bit words, surrogates and zeros included, is converted to file
  system safe form without an error when there are three bytes for each word, and converting the
  result back gives the string.
\<close>

theorem UTFFSS_roundtrip:
  assumes "3 * length src \<le> fss_len" "2 * length src \<le> dest_len"
  shows "cvt_err_code (CS_UTFFSS_unicode_to_fss (Some fss_len) src 0) = CS_NO_ERROR \<and>
    cvt_err_position (CS_UTFFSS_unicode_to_fss (Some fss_len) src 0) = Some (2 * length src) \<and>
    (let fss = cvt_written (CS_UTFFSS_unicode_to_fss (Some fss_len) src 0) in
     CS_UTFFSS_fss_to_unicode (Some dest_len) fss =
       \<lparr>cvt_err_code = CS_NO_ERROR, cvt_err_position = Some (length fss), cvt_written = src, cvt_returned = 2 * length src\<rparr>)"
proof -
  obtain out where out: "convert_loop 1 1 True unicode_to_fss_unit fss_len src = (out, [], CS_NO_ERROR)"
    using unicode_to_fss_complete [OF assms(1)] by blast
  have "convert_loop 2 2 False fss_to_unicode_unit dest_len out = (src, [], CS_NO_ERROR)"
    by (rule fss.loop_roundtrip [OF out assms(2)]) (simp_all add: guarded_def)
  then show ?thesis using out by (simp add: CS_UTFFSS_unicode_to_fss_def CS_UTFFSS_fss_to_unicode_def convert_end_def)
qed

theorem UTFFSS_roundtrip_witness:
  "cvt_written (CS_UTFFSS_fss_to_unicode (Some 8) (cvt_written (CS_UTFFSS_unicode_to_fss (Some 12) [0x41, 0xE9, 0x20AC, 0xD800] 0))) =
     [0x41, 0xE9, 0x20AC, 0xD800]"
  using UTFFSS_roundtrip [of "[0x41, 0xE9, 0x20AC, 0xD800]" 12 8] by (simp add: Let_def)

text \<open>
  A form of four bytes stands for a character beyond 16 bits.  \<^verbatim>\<open>fss_mbtowc\<close> accepts it and
  keeps the lower 16 bits only, so that it is taken for another character, of which it is no
  encoding.
\<close>

theorem fss_mbtowc_truncates:
  assumes "0x10000 \<le> l" "l < 0x200000"
  shows "fss_mbtowc (word_of_int (240 + l div 262144) # word_of_int (128 + l div 4096 mod 64) #
      word_of_int (128 + l div 64 mod 64) # word_of_int (128 + l mod 64) # t) = Some (4, word_of_int (l mod 65536))"
proof -
  let ?h = "l div 262144" and ?j = "l div 4096 mod 64" and ?k = "l div 64 mod 64" and ?m = "l mod 64"
  have h: "0 \<le> ?h" "?h < 8" using assms by auto
  have l: "l = 262144 * ?h + 4096 * ?j + 64 * ?k + ?m"
  proof -
    have "l = 64 * (l div 64) + ?m" "l div 64 = 64 * (l div 64 div 64) + ?k" "l div 4096 = 64 * (l div 4096 div 64) + ?j" by simp_all
    moreover have "l div 64 div 64 = l div 4096" "l div 4096 div 64 = l div 262144" by (simp_all add: zdiv_zmult2_eq [symmetric])
    ultimately show ?thesis by linarith
  qed
  let ?c0 = "240 + ?h"
  have "64 * (64 * (64 * (240 + h) + j) + k) + m = l + 30 * 2097152" if "l = 262144 * h + 4096 * j + 64 * k + m" for h j k m
    using that by simp
  from this [OF l] have "(64 * (64 * (64 * ?c0 + ?j) + ?k) + ?m) mod 2097152 = l mod 2097152" by (simp only: mod_mult_self1)
  then have mod: "(64 * (64 * (64 * ?c0 + ?j) + ?k) + ?m) AND 0x1FFFFF = l" using assms by (simp only: and_mask21) simp
  have u: "uint (word_of_int ?c0 :: byte) = ?c0" by (rule uint_byte) (use h in auto)
  note c = lead4_bits [OF h]
  have "fss_mbtowc (word_of_int ?c0 # word_of_int (128 + ?j) # word_of_int (128 + ?k) # word_of_int (128 + ?m) # t) =
      mbtowc_loop tab ?c0 ?c0 0 (word_of_int (128 + ?j) # word_of_int (128 + ?k) # word_of_int (128 + ?m) # t)"
    unfolding fss_mbtowc_def list.case u ..
  also have "\<dots> = mbtowc_loop (tl tab) ?c0 (64 * ?c0 + ?j) (Suc 0) (word_of_int (128 + ?k) # word_of_int (128 + ?m) # t)"
    unfolding tab_def list.sel by (rule mbtowc_step) (use c in auto)
  also have "\<dots> = mbtowc_loop (tl (tl tab)) ?c0 (64 * (64 * ?c0 + ?j) + ?k) (Suc (Suc 0)) (word_of_int (128 + ?m) # t)"
    unfolding tab_def list.sel by (rule mbtowc_step) (use c in auto)
  also have "\<dots> = mbtowc_loop (tl (tl (tl tab))) ?c0 (64 * (64 * (64 * ?c0 + ?j) + ?k) + ?m) (Suc (Suc (Suc 0))) t"
    unfolding tab_def list.sel by (rule mbtowc_step) (use c in auto)
  also have "\<dots> = Some (4, word_of_int l)"
    unfolding tab_def list.sel by (subst mbtowc_found) (use c in simp, use assms in \<open>simp only: mod Tab.select_convs, simp\<close>)
  also have "(word_of_int l :: unicode) = word_of_int (l mod 65536)" by (simp add: word_of_int_eq_iff take_bit_eq_mod)
  finally show ?thesis .
qed

theorem fss_mbtowc_truncates_witness:
  "fss_mbtowc [0xF0, 0x90, 0x81, 0x81] = Some (4, 0x41) \<and> fss_mbtowc [0x41] = Some (1, 0x41)"
  using fss_mbtowc_truncates [where l = "0x10041" and t = "[]"] decode1 [where x = "0x41" and t = "[]"] by simp

section \<open>All converters to Unicode\<close>

text \<open>
  (C39) Whatever the string and its errors, a converter to Unicode (from the file system safe form,
  Big5, GB 2312, KSC and narrow character sets) and the one between eight-bit sets have converted
  exactly the bytes before the error position they report, and have written within the room they
  were given: converting those bytes alone gives the same result without an error.  No error means
  that everything was converted.  The loops write without a check of their own; they keep within the
  room since they stop when less than one element is left.
\<close>

theorem to_unicode_prefix_exact:
  "prefix_exact (CS_UTFFSS_fss_to_unicode (Some dest_len)) dest_len src \<and>
   prefix_exact (CVBIG5_big5_to_unicode datatable misc (Some dest_len)) dest_len src \<and>
   prefix_exact (CVGB_gb2312_to_unicode datatable misc (Some dest_len)) dest_len src \<and>
   prefix_exact (CVKSC_ksc_to_unicode datatable misc (Some dest_len)) dest_len src \<and>
   prefix_exact (CV_nc_to_unicode datatable (Some dest_len)) dest_len src \<and>
   prefix_exact (eight_bit_convert narrow_table (Some dest_len)) dest_len src"
proof -
  have "guarded 2 2 False fss_to_unicode_unit" "guarded 2 2 False (nc_to_unicode_unit datatable)"
    "guarded 2 2 False (double_to_unicode_unit lead trail datatable misc)" "guarded 1 1 False (eight_bit_unit narrow_table)" for lead trail
    by (auto simp: guarded_def fss_to_unicode_unit_def nc_to_unicode_unit_def double_unit_cases eight_bit_unit_def Let_def
        split: option.splits if_splits)
  note guards = this
  show ?thesis
    using from_fss.end_prefix_exact [OF guards(1), where room = dest_len and src = src] from_nc.end_prefix_exact [OF guards(2), where room = dest_len and src = src]
      double.end_prefix_exact [OF guards(3), where room = dest_len and src = src] eight.end_prefix_exact [OF guards(4), where room = dest_len and src = src]
    by (simp add: CS_UTFFSS_fss_to_unicode_def [abs_def] CVBIG5_big5_to_unicode_def [abs_def] CVGB_gb2312_to_unicode_def [abs_def]
        CVKSC_ksc_to_unicode_def [abs_def] CV_nc_to_unicode_def [abs_def] eight_bit_convert_def [abs_def])
qed

end
