(* ===== verification/Coll.thy ===== *)
theory Coll
  imports Prelude
begin

text \<open>
  Collation drivers: the sort keys and comparisons of the full international family,
  \<^verbatim>\<open>src/intl/lc_narrow.c\<close>, and of the ASCII family, \<^verbatim>\<open>src/intl/lc_ascii.c\<close>.

  The tables of a text type (\<^verbatim>\<open>src/intl/ld.h\<close>) are generated and are parameters: the collation table
  is a function from the byte, the expand and compress tables are lists that end in an entry
  whose first character is 0.  A string is the list of its bytes and its length.  Behind the end of
  a table, a string or a buffer is \<^const>\<open>OUT_OF_BOUNDS\<close>; the \<^verbatim>\<open>assert\<close>s are empty unless the
  engine is built for development and are left out.
\<close>

section \<open>Tables\<close>

record sort_entry =
  Primary :: "8 word"
  Secondary :: "4 word"
  Tertiary :: "2 word"
  IsExpand :: bool
  IsCompress :: bool

record expand_char =
  Ch :: byte
  ExpCh1 :: byte
  ExpCh2 :: byte

record compress_pair =
  CharPair :: "byte \<times> byte"
  CaseWeight :: sort_entry
  NoCaseWeight :: sort_entry

definition TEXTTYPE_reverse_secondary :: "16 word" where "TEXTTYPE_reverse_secondary = 2"
definition TEXTTYPE_ignore_specials :: "16 word" where "TEXTTYPE_ignore_specials = 4"
definition TEXTTYPE_expand_before :: "16 word" where "TEXTTYPE_expand_before = 8"

record texttype =
  texttype_flags :: "16 word"
  texttype_collation_table :: "byte \<Rightarrow> sort_entry"
  texttype_expand_table :: "expand_char list"
  texttype_compress_table :: "compress_pair list"

definition has_flag :: "texttype \<Rightarrow> 16 word \<Rightarrow> bool" where
  "has_flag tt f \<longleftrightarrow> texttype_flags tt AND f \<noteq> 0"

definition is_special :: "sort_entry \<Rightarrow> bool" where
  "is_special e \<longleftrightarrow> IsExpand e \<and> IsCompress e"

definition MAX_KEY :: nat where "MAX_KEY = 256"
definition ASCII_SPACE :: byte where "ASCII_SPACE = 32"

text \<open>Scanning backwards over the spaces at the end of a string.\<close>

definition trim_spaces :: "byte list \<Rightarrow> byte list" where
  "trim_spaces s = rev (dropWhile (\<lambda>c. c = ASCII_SPACE) (rev s))"

fun find_expand :: "expand_char list \<Rightarrow> byte \<Rightarrow> expand_char result" where
  "find_expand [] c = Inl OUT_OF_BOUNDS"
| "find_expand (e # es) c = (if Ch e \<noteq> 0 \<and> Ch e \<noteq> c then find_expand es c else Inr e)"

fun find_compress :: "compress_pair list \<Rightarrow> byte \<Rightarrow> byte \<Rightarrow> sort_entry option result" where
  "find_compress [] c d = Inl OUT_OF_BOUNDS"
| "find_compress (p # ps) c d =
     (if fst (CharPair p) = 0 then Inr None
      else if CharPair p = (c, d) then Inr (Some (NoCaseWeight p)) else find_compress ps c d)"

section \<open>Keys of the international family\<close>

definition LC_NARROW_key_length :: "16 word \<Rightarrow> 16 word" where
  "LC_NARROW_key_length inLen = min (3 * max inLen 2) (of_nat MAX_KEY)"

record key_bufs =
  outbuff :: "byte list"
  secondary :: "byte list"
  tertiary :: "byte list"
  special :: "byte list"

text \<open>Storing a weight behind the last one; the buffer has room for \<open>n\<close> bytes.\<close>

definition store :: "nat \<Rightarrow> byte list \<Rightarrow> byte \<Rightarrow> byte list result" where
  "store n buf w = (if length buf < n then Inr (buf @ [w]) else Inl OUT_OF_BOUNDS)"

definition store_weight :: "nat \<Rightarrow> byte list \<Rightarrow> byte \<Rightarrow> byte list result" where
  "store_weight n buf w = (if w \<noteq> 0 then store n buf w else Inr buf)"

definition put_weights :: "nat \<Rightarrow> sort_entry \<Rightarrow> key_bufs \<Rightarrow> key_bufs result" where
  "put_weights iOutLen coll b =
     bind_result (store_weight iOutLen (outbuff b) (Primary coll)) (\<lambda>p.
     bind_result (store_weight MAX_KEY (secondary b) (ucast (Secondary coll))) (\<lambda>s.
     bind_result (store_weight MAX_KEY (tertiary b) (ucast (Tertiary coll))) (\<lambda>t.
     Inr (b\<lparr>outbuff := p, secondary := s, tertiary := t\<rparr>))))"

definition put_special :: "texttype \<Rightarrow> nat \<Rightarrow> sort_entry \<Rightarrow> key_bufs \<Rightarrow> key_bufs result" where
  "put_special tt i coll b =
     (if Primary coll \<noteq> 0 \<and> \<not> has_flag tt TEXTTYPE_ignore_specials then
        bind_result (store (MAX_KEY * 2) (special b) (of_nat (i + 1))) (\<lambda>sp.
        bind_result (store (MAX_KEY * 2) sp (Primary coll)) (\<lambda>sp.
        Inr (b\<lparr>special := sp\<rparr>)))
      else Inr b)"

text \<open>The loop over the characters; \<open>i\<close> is the position of the next one.\<close>

fun key_loop :: "texttype \<Rightarrow> nat \<Rightarrow> nat \<Rightarrow> byte list \<Rightarrow> key_bufs \<Rightarrow> key_bufs result" where
  "key_loop tt iOutLen i [] b = Inr b"
| "key_loop tt iOutLen i (c # s) b =
     (let coll = texttype_collation_table tt c in
      if \<not> (IsExpand coll \<or> IsCompress coll) then
        bind_result (put_weights iOutLen coll b) (\<lambda>b. key_loop tt iOutLen (i + 1) s b)
      else if is_special coll then
        bind_result (put_special tt i coll b) (\<lambda>b. key_loop tt iOutLen (i + 1) s b)
      else if IsExpand coll then
        bind_result (find_expand (texttype_expand_table tt) c) (\<lambda>e.
        bind_result (put_weights iOutLen coll b) (\<lambda>b.
        bind_result (put_weights iOutLen (texttype_collation_table tt (ExpCh2 e)) b) (\<lambda>b.
        key_loop tt iOutLen (i + 1) s b)))
      else
        (case s of
           [] \<Rightarrow> put_weights iOutLen coll b
         | d # s' \<Rightarrow>
             bind_result (find_compress (texttype_compress_table tt) c d) (\<lambda>r.
               case r of
                 Some e \<Rightarrow> bind_result (put_weights iOutLen e b) (\<lambda>b. key_loop tt iOutLen (i + 2) s' b)
               | None \<Rightarrow> bind_result (put_weights iOutLen coll b) (\<lambda>b. key_loop tt iOutLen (i + 1) s b))))"

text \<open>Appending to the key as long as there is room; the pair is the key and the room left.\<close>

definition append_room :: "byte list \<Rightarrow> byte list \<times> nat \<Rightarrow> byte list \<times> nat" where
  "append_room xs k = (fst k @ take (snd k) xs, snd k - length xs)"

definition append_specials :: "texttype \<Rightarrow> byte list \<Rightarrow> byte list \<times> nat \<Rightarrow> byte list \<times> nat" where
  "append_specials tt sp k =
     (if sp \<noteq> [] \<and> snd k \<noteq> 0 \<and> \<not> has_flag tt TEXTTYPE_ignore_specials
      then append_room sp (fst k @ [0], snd k - 1) else k)"

definition finish_key :: "texttype \<Rightarrow> nat \<Rightarrow> bool \<Rightarrow> key_bufs \<Rightarrow> byte list" where
  "finish_key tt iOutLen partial b =
     (if partial then outbuff b
      else fst (append_specials tt (special b)
             (append_room (tertiary b)
               (append_room (if has_flag tt TEXTTYPE_reverse_secondary then rev (secondary b) else secondary b)
                 (outbuff b, iOutLen - length (outbuff b))))))"

definition LC_NARROW_string_to_key :: "texttype \<Rightarrow> byte list \<Rightarrow> nat \<Rightarrow> bool \<Rightarrow> byte list result" where
  "LC_NARROW_string_to_key tt s iOutLen partial =
     map_result (finish_key tt iOutLen partial)
       (key_loop tt iOutLen 0 (trim_spaces s) \<lparr>outbuff = [], secondary = [], tertiary = [], special = []\<rparr>)"

section \<open>Comparison of the international family\<close>

text \<open>The weights are compared by the difference of two bytes.\<close>

definition weight_diff :: "'a::len word \<Rightarrow> 'a word \<Rightarrow> int" where
  "weight_diff v w = uint v - uint w"

fun scan_special :: "texttype \<Rightarrow> nat \<Rightarrow> byte list \<Rightarrow> nat \<times> byte list" where
  "scan_special tt index [] = (index, [])"
| "scan_special tt index (c # s) =
     (if is_special (texttype_collation_table tt c) then (index, c # s) else scan_special tt (index + 1) s)"

lemma scan_special_length: "scan_special tt i s = (j, t) \<Longrightarrow> length t \<le> length s"
  by (induction tt i s rule: scan_special.induct) (auto split: if_splits)

function special_scan :: "texttype \<Rightarrow> nat \<Rightarrow> byte list \<Rightarrow> nat \<Rightarrow> byte list \<Rightarrow> int" where
  "special_scan tt index1 s1 index2 s2 =
     (case scan_special tt index1 s1 of (i1, t1) \<Rightarrow>
      case scan_special tt index2 s2 of (i2, t2) \<Rightarrow>
        (case t1 of
           [] \<Rightarrow> (case t2 of [] \<Rightarrow> 0 | _ # _ \<Rightarrow> - 1000)
         | c1 # u1 \<Rightarrow>
             (case t2 of
                [] \<Rightarrow> 1000
              | c2 # u2 \<Rightarrow>
                  let p1 = Primary (texttype_collation_table tt c1); p2 = Primary (texttype_collation_table tt c2) in
                  if i1 < i2 then - 2000 else if i2 < i1 then 2000
                  else if p1 \<noteq> p2 then weight_diff p1 p2
                  else special_scan tt (i1 + 1) u1 (i2 + 1) u2)))"
  by pat_completeness auto
termination
  by (relation "measure (\<lambda>(tt, i1, s1, i2, s2). length s1)") (auto dest!: scan_special_length [OF sym])

text \<open>
  The reader of a string in \<open>get_coltab_entry\<close>: the bytes left, whether a special was passed
  (\<^verbatim>\<open>HAVE_SPECIAL\<close>), and the second half of an expansion that waits (\<^verbatim>\<open>HAVE_WAITING\<close> with its entry).
\<close>

record coltab_status =
  stat_p :: "byte list"
  stat_special :: bool
  stat_waiting :: "sort_entry option"

fun next_entry :: "texttype \<Rightarrow> byte list \<Rightarrow> bool \<Rightarrow> (sort_entry option \<times> coltab_status) result" where
  "next_entry tt [] sp = Inr (None, \<lparr>stat_p = [], stat_special = sp, stat_waiting = None\<rparr>)"
| "next_entry tt (c # p) sp =
     (let col = texttype_collation_table tt c in
      if \<not> (IsExpand col \<or> IsCompress col) then
        Inr (Some col, \<lparr>stat_p = p, stat_special = sp, stat_waiting = None\<rparr>)
      else if is_special col then next_entry tt p True
      else if IsExpand col then
        map_result (\<lambda>e. (Some col, \<lparr>stat_p = c # p, stat_special = sp,
                           stat_waiting = Some (texttype_collation_table tt (ExpCh2 e))\<rparr>))
          (find_expand (texttype_expand_table tt) c)
      else
        (case p of
           [] \<Rightarrow> Inr (Some col, \<lparr>stat_p = p, stat_special = sp, stat_waiting = None\<rparr>)
         | d # p' \<Rightarrow>
             map_result (\<lambda>r. case r of
                 Some e \<Rightarrow> (Some e, \<lparr>stat_p = p', stat_special = sp, stat_waiting = None\<rparr>)
               | None \<Rightarrow> (Some col, \<lparr>stat_p = p, stat_special = sp, stat_waiting = None\<rparr>))
               (find_compress (texttype_compress_table tt) c d)))"

definition get_coltab_entry :: "texttype \<Rightarrow> coltab_status \<Rightarrow> (sort_entry option \<times> coltab_status) result" where
  "get_coltab_entry tt st =
     (case stat_waiting st of
        Some w \<Rightarrow> (case stat_p st of
                      [] \<Rightarrow> Inl OUT_OF_BOUNDS
                    | c # p \<Rightarrow> Inr (Some w, st\<lparr>stat_p := p, stat_waiting := None\<rparr>))
      | None \<Rightarrow> next_entry tt (stat_p st) (stat_special st))"

definition status_size :: "coltab_status \<Rightarrow> nat" where
  "status_size st = 2 * length (stat_p st) + (if stat_waiting st = None then 1 else 0)"

lemma next_entry_size:
  "next_entry tt p sp = Inr (Some e, st) \<Longrightarrow> status_size st < 2 * length p + 1"
proof (induction tt p sp rule: next_entry.induct)
  case (2 tt c p sp)
  have "is_special (texttype_collation_table tt c) \<Longrightarrow> ?case"
    using 2 by (simp add: is_special_def)
  moreover have "\<not> is_special (texttype_collation_table tt c) \<Longrightarrow> ?case"
    using 2(2) by (cases p) (fastforce simp: status_size_def Let_def split: if_split_asm option.split_asm)+
  ultimately show ?case by blast
qed auto

lemma get_coltab_entry_size:
  "get_coltab_entry tt st = Inr (Some e, st') \<Longrightarrow> status_size st' < status_size st"
  by (auto simp: get_coltab_entry_def status_size_def split: option.splits list.splits
      dest: next_entry_size [unfolded status_size_def])

record compare_saves =
  save_secondary :: int
  save_tertiary :: int
  save_quandary :: int

definition save_differences ::
  "texttype \<Rightarrow> sort_entry \<Rightarrow> sort_entry \<Rightarrow> bool \<Rightarrow> bool \<Rightarrow> compare_saves \<Rightarrow> compare_saves" where
  "save_differences tt col1 col2 waiting1 waiting2 sv =
     (if Secondary col1 \<noteq> Secondary col2 then
        (if has_flag tt TEXTTYPE_reverse_secondary \<or> save_secondary sv = 0
         then sv\<lparr>save_secondary := weight_diff (Secondary col1) (Secondary col2)\<rparr> else sv)
      else if Tertiary col1 \<noteq> Tertiary col2 then
        (if save_tertiary sv = 0
         then sv\<lparr>save_tertiary := weight_diff (Tertiary col1) (Tertiary col2)\<rparr> else sv)
      else if waiting1 \<noteq> waiting2 \<and> save_quandary sv = 0 then
        sv\<lparr>save_quandary := (if has_flag tt TEXTTYPE_expand_before
                                then (if waiting1 then - 1 else 1) else (if waiting1 then 1 else - 1))\<rparr>
      else sv)"

text \<open>The loop: \<open>Inl\<close> is a value returned from within, \<open>Inr\<close> is what it leaves behind.\<close>

function compare_loop ::
  "texttype \<Rightarrow> coltab_status \<Rightarrow> coltab_status \<Rightarrow> compare_saves
   \<Rightarrow> (int + sort_entry option \<times> sort_entry option \<times> coltab_status \<times> coltab_status \<times> compare_saves) result" where
  "compare_loop tt stat1 stat2 sv =
     (case get_coltab_entry tt stat1 of
        Inl e \<Rightarrow> Inl e
      | Inr (col1, stat1') \<Rightarrow>
          (case get_coltab_entry tt stat2 of
             Inl e \<Rightarrow> Inl e
           | Inr (col2, stat2') \<Rightarrow>
               (case col1 of
                  None \<Rightarrow> Inr (Inr (col1, col2, stat1', stat2', sv))
                | Some e1 \<Rightarrow>
                    (case col2 of
                       None \<Rightarrow> Inr (Inr (col1, col2, stat1', stat2', sv))
                     | Some e2 \<Rightarrow>
                         if Primary e1 \<noteq> Primary e2 then Inr (Inl (weight_diff (Primary e1) (Primary e2)))
                         else compare_loop tt stat1' stat2'
                                (save_differences tt e1 e2 (stat_waiting stat1' \<noteq> None) (stat_waiting stat2' \<noteq> None) sv)))))"
  by pat_completeness auto
termination
  by (relation "measure (\<lambda>(tt, st1, st2, sv). status_size st1)") (auto dest: get_coltab_entry_size)

declare special_scan.simps [simp del] compare_loop.simps [simp del]

definition compare_end ::
  "texttype \<Rightarrow> byte list \<Rightarrow> byte list
   \<Rightarrow> sort_entry option \<times> sort_entry option \<times> coltab_status \<times> coltab_status \<times> compare_saves \<Rightarrow> int" where
  "compare_end tt s1 s2 r =
     (case r of (col1, col2, stat1, stat2, sv) \<Rightarrow>
        if col1 \<noteq> None \<and> col2 = None then 500
        else if col1 = None \<and> col2 \<noteq> None then - 500
        else if stat_p stat1 = [] \<and> stat_p stat2 = [] then
          (if save_secondary sv \<noteq> 0 then save_secondary sv
           else if save_tertiary sv \<noteq> 0 then save_tertiary sv
           else if save_quandary sv \<noteq> 0 then save_quandary sv
           else if (stat_special stat1 \<or> stat_special stat2) \<and> \<not> has_flag tt TEXTTYPE_ignore_specials
             then special_scan tt 0 s1 0 s2
           else 0)
        else if stat_p stat1 \<noteq> [] then 600 else - 600)"

definition start_status :: "byte list \<Rightarrow> coltab_status" where
  "start_status s = \<lparr>stat_p = s, stat_special = False, stat_waiting = None\<rparr>"

definition LC_NARROW_compare :: "texttype \<Rightarrow> byte list \<Rightarrow> byte list \<Rightarrow> int result" where
  "LC_NARROW_compare tt s1 s2 =
     (let t1 = trim_spaces s1; t2 = trim_spaces s2 in
      map_result (\<lambda>r. case r of Inl v \<Rightarrow> v | Inr x \<Rightarrow> compare_end tt t1 t2 x)
        (compare_loop tt (start_status t1) (start_status t2)
          \<lparr>save_secondary = 0, save_tertiary = 0, save_quandary = 0\<rparr>))"

section \<open>The check of the one against the other\<close>

text \<open>
  \<open>old_fam2_compare\<close> compares the keys byte by byte, and \<open>fam2_compare\<close> reports when the sign is not that
  of the comparison: the first component says whether it does.
\<close>

fun key_order :: "byte list \<Rightarrow> byte list \<Rightarrow> int" where
  "key_order [] [] = 0"
| "key_order [] (y # ys) = - 1"
| "key_order (x # xs) [] = 1"
| "key_order (x # xs) (y # ys) = (if x = y then key_order xs ys else if x < y then - 1 else 1)"

definition old_fam2_compare :: "texttype \<Rightarrow> byte list \<Rightarrow> byte list \<Rightarrow> int result" where
  "old_fam2_compare tt s1 s2 =
     bind_result (LC_NARROW_string_to_key tt s1 MAX_KEY False) (\<lambda>key1.
     bind_result (LC_NARROW_string_to_key tt s2 MAX_KEY False) (\<lambda>key2.
     Inr (key_order key1 key2)))"

definition fam2_compare :: "texttype \<Rightarrow> byte list \<Rightarrow> byte list \<Rightarrow> (bool \<times> int) result" where
  "fam2_compare tt s1 s2 =
     bind_result (old_fam2_compare tt s1 s2) (\<lambda>res1.
     bind_result (LC_NARROW_compare tt s1 s2) (\<lambda>res2.
     Inr (sgn res1 \<noteq> sgn res2, res2)))"

section \<open>The ASCII family\<close>

definition ASCII7_UPPER :: "byte \<Rightarrow> byte" where
  "ASCII7_UPPER ch = (if 97 \<le> ch \<and> ch \<le> 122 then ch - 97 + 65 else ch)"

definition ASCII7_LOWER :: "byte \<Rightarrow> byte" where
  "ASCII7_LOWER ch = (if 65 \<le> ch \<and> ch \<le> 90 then ch - 65 + 97 else ch)"

definition famasc_key_length :: "16 word \<Rightarrow> 16 word" where
  "famasc_key_length inLen = min inLen (of_nat MAX_KEY)"

definition famasc_string_to_key :: "byte list \<Rightarrow> nat \<Rightarrow> byte list" where
  "famasc_string_to_key s iOutLen = take iOutLen (trim_spaces s)"

text \<open>The length is passed on as \<^verbatim>\<open>SSHORT\<close>.\<close>

definition all_spaces :: "byte list \<Rightarrow> bool" where
  "all_spaces s \<longleftrightarrow> list_all (\<lambda>c. c = ASCII_SPACE) (take (nat (sint (of_nat (length s) :: 16 word))) s)"

fun famasc_compare :: "byte list \<Rightarrow> byte list \<Rightarrow> int" where
  "famasc_compare [] [] = 0"
| "famasc_compare (c1 # s1) [] = (if all_spaces (c1 # s1) then 0 else 1)"
| "famasc_compare [] (c2 # s2) = (if all_spaces (c2 # s2) then 0 else - 1)"
| "famasc_compare (c1 # s1) (c2 # s2) =
     (if c1 = c2 then famasc_compare s1 s2
      else if all_spaces (c1 # s1) then - 1
      else if all_spaces (c2 # s2) then 1
      else if c1 < c2 then - 1 else 1)"

text \<open>The converted string and the value returned, -1 when it did not fit.\<close>

definition famasc_str_to_upper :: "byte list \<Rightarrow> nat \<Rightarrow> byte list \<times> int" where
  "famasc_str_to_upper s iOutLen =
     (map ASCII7_UPPER (take iOutLen s), if iOutLen < length s then - 1 else sint (of_nat (length s) :: 16 word))"

end
