(* ===== verification/Coll_Order.thy ===== *)
theory Coll_Order
  imports Coll
begin

text \<open>
  The order of the collation drivers: keys compared byte by byte, the interface \<open>sort_keys\<close> of a driver whose
  comparison is that order, and the meaning of the loops of \<open>lc_narrow.c\<close> in terms of the entries and the
  specials of a string.
\<close>

section \<open>Keys as a linear order\<close>

lemma key_order_refl [simp]: "key_order k k = 0"
  by (induction k) simp_all

lemma key_order_eq_0: "key_order k l = 0 \<longleftrightarrow> k = l"
  by (induction k l rule: key_order.induct) auto

lemma key_order_sgn [simp]: "sgn (key_order k l) = key_order k l"
  by (induction k l rule: key_order.induct) simp_all

lemma key_order_swap: "key_order l k = - key_order k l"
  by (induction k l rule: key_order.induct) auto

lemma key_order_range: "key_order k l = 0 \<or> key_order k l = 1 \<or> key_order k l = - 1"
  by (induction k l rule: key_order.induct) auto

lemma key_order_Nil: "key_order [] k \<le> 0" "0 \<le> key_order k []"
  by (cases k; simp)+

lemma key_order_trans:
  "key_order k l \<le> 0 \<Longrightarrow> key_order l m \<le> 0 \<Longrightarrow> key_order k m \<le> 0"
proof (induction k l arbitrary: m rule: key_order.induct)
  case (4 x xs y ys)
  then show ?case by (cases m) (auto split: if_split_asm)
qed (auto simp: key_order_Nil split: if_split_asm)

lemma key_order_append_same [simp]: "key_order (p @ k) (p @ l) = key_order k l"
  by (induction p) simp_all

lemma key_order_append:
  "length p = length q \<Longrightarrow> key_order (p @ k) (q @ l) = (if p = q then key_order k l else key_order p q)"
  by (induction p q rule: list_induct2) auto

lemma sgn_le_0: "sgn r \<le> (0 :: int) \<longleftrightarrow> r \<le> 0"
  by (simp add: sgn_if)

text \<open>What the engine relies on: indices and sorts use the keys, the rest of the engine the comparison.\<close>

locale sort_keys =
  fixes ok :: "byte list \<Rightarrow> bool"
    and key :: "byte list \<Rightarrow> byte list result"
    and cmp :: "byte list \<Rightarrow> byte list \<Rightarrow> int result"
  assumes cmp_key: "ok s \<Longrightarrow> ok t \<Longrightarrow>
      \<exists>k l r. key s = Inr k \<and> key t = Inr l \<and> cmp s t = Inr r \<and> sgn r = key_order k l"
begin

lemma cmp_returns: "ok s \<Longrightarrow> ok t \<Longrightarrow> \<exists>r. cmp s t = Inr r"
  using cmp_key by blast

lemma cmp_sgn:
  "ok s \<Longrightarrow> ok t \<Longrightarrow> cmp s t = Inr r \<Longrightarrow> key s = Inr k \<Longrightarrow> key t = Inr l \<Longrightarrow> sgn r = key_order k l"
  using cmp_key by fastforce

lemma cmp_refl: "ok s \<Longrightarrow> cmp s s = Inr 0"
  using cmp_key [of s s] by (auto simp: sgn_0_0)

lemma cmp_swap:
  assumes "ok s" "ok t" "cmp s t = Inr r" "cmp t s = Inr r'"
  shows "sgn r' = - sgn r"
proof -
  obtain k l where "key s = Inr k" "key t = Inr l" using cmp_key [OF assms(1,2)] by blast
  then show ?thesis
    using cmp_sgn [OF assms(1,2,3)] cmp_sgn [OF assms(2,1,4)] key_order_swap [of l k] by simp
qed

lemma cmp_0_iff:
  assumes "ok s" "ok t"
  shows "cmp s t = Inr 0 \<longleftrightarrow> key s = key t"
proof -
  obtain k l r where "key s = Inr k" "key t = Inr l" "cmp s t = Inr r" "sgn r = key_order k l"
    using cmp_key [OF assms] by blast
  then show ?thesis using key_order_eq_0 [of k l] sgn_0_0 [of r] by auto
qed

lemma cmp_trans:
  assumes "ok s" "ok t" "ok u" "cmp s t = Inr r" "cmp t u = Inr r'" "r \<le> 0" "r' \<le> 0"
  shows "\<exists>r''. cmp s u = Inr r'' \<and> r'' \<le> 0"
proof -
  obtain k l m where keys: "key s = Inr k" "key t = Inr l" "key u = Inr m"
    using cmp_key assms(1-3) by meson
  obtain r'' where r'': "cmp s u = Inr r''" using cmp_returns assms(1,3) by blast
  have "key_order k l \<le> 0" "key_order l m \<le> 0"
    using cmp_sgn [OF assms(1,2,4)] cmp_sgn [OF assms(2,3,5)] keys assms(6,7) sgn_le_0 by metis+
  then have "sgn r'' \<le> 0"
    using key_order_trans [of k l m] cmp_sgn [OF assms(1,3) r''] keys by simp
  then show ?thesis using r'' sgn_le_0 by blast
qed

end

section \<open>The ASCII family\<close>

lemma trim_spaces_Nil [simp]: "trim_spaces [] = []"
  by (simp add: trim_spaces_def)

lemma trim_spaces_Cons:
  "trim_spaces (c # s) = (if c = ASCII_SPACE \<and> trim_spaces s = [] then [] else c # trim_spaces s)"
proof -
  have "dropWhile P (xs @ [c]) = (if \<forall>x\<in>set xs. P x then dropWhile P [c] else dropWhile P xs @ [c])" for P and xs :: "byte list"
    by (induction xs) auto
  then show ?thesis by (auto simp: trim_spaces_def)
qed

lemma trim_spaces_eq_Nil: "trim_spaces s = [] \<longleftrightarrow> list_all (\<lambda>c. c = ASCII_SPACE) s"
  by (induction s) (auto simp: trim_spaces_Cons)

lemma trim_spaces_length: "length (trim_spaces s) \<le> length s"
  by (induction s) (auto simp: trim_spaces_Cons)

lemma set_trim_spaces: "set (trim_spaces s) \<subseteq> set s"
  by (induction s) (auto simp: trim_spaces_Cons)

lemma all_spaces_trim:
  assumes "length s < 2 ^ 15"
  shows "all_spaces s \<longleftrightarrow> trim_spaces s = []"
proof -
  have "sint (word_of_int (int (length s)) :: 16 word) = int (length s)"
    using assms by (simp add: sint_sbintrunc' signed_take_bit_int_eq_self del: of_int_of_nat_eq)
  then have "nat (sint (of_nat (length s) :: 16 word)) = length s" by simp
  then show ?thesis by (simp add: all_spaces_def trim_spaces_eq_Nil)
qed

lemma key_order_Nil_iff [simp]:
  "key_order [] k = (if k = [] then 0 else - 1)" "key_order k [] = (if k = [] then 0 else 1)"
  by (cases k; simp)+

lemma famasc_compare_trim:
  "length s < 2 ^ 15 \<Longrightarrow> length t < 2 ^ 15 \<Longrightarrow> famasc_compare s t = key_order (trim_spaces s) (trim_spaces t)"
proof (induction s t rule: famasc_compare.induct)
  case (4 c1 s1 c2 s2)
  then show ?case by (simp add: all_spaces_trim trim_spaces_Cons)
qed (simp_all add: all_spaces_trim)

section \<open>The international family: entries and specials of a string\<close>

text \<open>The strings without characters that expand, and what is asked of the tables.\<close>

definition no_expand :: "texttype \<Rightarrow> byte list \<Rightarrow> bool" where
  "no_expand tt s \<longleftrightarrow> (\<forall>c\<in>set s. IsExpand (texttype_collation_table tt c) \<longrightarrow> IsCompress (texttype_collation_table tt c))"

definition coll_entries :: "texttype \<Rightarrow> sort_entry set" where
  "coll_entries tt =
     {texttype_collation_table tt c | c. \<not> is_special (texttype_collation_table tt c)} \<union>
     {NoCaseWeight p | p. p \<in> set (texttype_compress_table tt) \<and> fst (CharPair p) \<noteq> 0}"

text \<open>
  The layers: a primary weight is larger than every secondary and tertiary weight.  The entries of one primary
  weight all have a secondary weight or all have none, and so for tertiary weights below one secondary weight.
  These are conditions on a table, and not all tables that come with the drivers meet them: \<open>coll_ok\<close> fails for
  \<^verbatim>\<open>pw1252i850.h\<close>, \<^verbatim>\<open>pw1252span.h\<close>, \<^verbatim>\<open>pw1254turk.h\<close>, \<^verbatim>\<open>pd857turk.h\<close> and \<^verbatim>\<open>db852hdc.h\<close>, in which some weights
  do not fit the bit fields they are put into.
\<close>

definition similar :: "sort_entry \<Rightarrow> sort_entry \<Rightarrow> bool" where
  "similar e f \<longleftrightarrow> (Primary e = Primary f \<longrightarrow>
     (Secondary e = 0 \<longleftrightarrow> Secondary f = 0) \<and>
     (Secondary e = Secondary f \<longrightarrow> (Tertiary e = 0 \<longleftrightarrow> Tertiary f = 0)))"

definition layered :: "sort_entry \<Rightarrow> sort_entry \<Rightarrow> bool" where
  "layered e f \<longleftrightarrow> Primary f \<noteq> 0 \<and> ucast (Secondary e) < Primary f \<and> ucast (Tertiary e) < Primary f"

definition coll_ok :: "texttype \<Rightarrow> bool" where
  "coll_ok tt \<longleftrightarrow>
     (\<exists>p\<in>set (texttype_compress_table tt). fst (CharPair p) = 0) \<and>
     (\<forall>p\<in>set (texttype_compress_table tt). fst (CharPair p) \<noteq> 0 \<longrightarrow>
        \<not> is_special (texttype_collation_table tt (snd (CharPair p)))) \<and>
     (\<forall>c. is_special (texttype_collation_table tt c) \<longrightarrow> Primary (texttype_collation_table tt c) \<noteq> 0) \<and>
     (\<forall>e\<in>coll_entries tt. \<forall>f\<in>coll_entries tt. similar e f \<and> layered e f)"

fun narrow_entries :: "texttype \<Rightarrow> byte list \<Rightarrow> sort_entry list" where
  "narrow_entries tt [] = []"
| "narrow_entries tt (c # s) =
     (let col = texttype_collation_table tt c in
      if is_special col then narrow_entries tt s
      else if IsCompress col then
        (case s of
           [] \<Rightarrow> [col]
         | d # s' \<Rightarrow> (case find_compress (texttype_compress_table tt) c d of
                        Inr (Some e) \<Rightarrow> e # narrow_entries tt s'
                      | _ \<Rightarrow> col # narrow_entries tt s))
      else col # narrow_entries tt s)"

fun narrow_specials :: "texttype \<Rightarrow> nat \<Rightarrow> byte list \<Rightarrow> (nat \<times> byte) list" where
  "narrow_specials tt i [] = []"
| "narrow_specials tt i (c # s) =
     (if is_special (texttype_collation_table tt c)
      then (i, Primary (texttype_collation_table tt c)) # narrow_specials tt (i + 1) s
      else narrow_specials tt (i + 1) s)"

lemma find_compress_returns:
  "\<exists>p\<in>set ps. fst (CharPair p) = 0 \<Longrightarrow> \<exists>r. find_compress ps c d = Inr r"
  by (induction ps) auto

lemma find_compress_pair:
  "find_compress ps c d = Inr (Some e) \<Longrightarrow>
   \<exists>p\<in>set ps. fst (CharPair p) \<noteq> 0 \<and> CharPair p = (c, d) \<and> e = NoCaseWeight p"
  by (induction ps) (auto split: if_split_asm)

lemma coll_ok_compress:
  assumes "coll_ok tt"
  obtains "find_compress (texttype_compress_table tt) c d = Inr None"
  | e where "find_compress (texttype_compress_table tt) c d = Inr (Some e)" "e \<in> coll_entries tt"
      "\<not> is_special (texttype_collation_table tt d)"
proof -
  obtain r where r: "find_compress (texttype_compress_table tt) c d = Inr r"
    using assms find_compress_returns unfolding coll_ok_def by blast
  show thesis
  proof (cases r)
    case None
    then show thesis using r that(1) by simp
  next
    case (Some e)
    then obtain p where p: "p \<in> set (texttype_compress_table tt)" "fst (CharPair p) \<noteq> 0"
        "CharPair p = (c, d)" "e = NoCaseWeight p"
      using r find_compress_pair by metis
    then have "e \<in> coll_entries tt" by (auto simp: coll_entries_def)
    moreover have "\<not> is_special (texttype_collation_table tt d)"
      using assms p unfolding coll_ok_def by force
    ultimately show thesis using r Some that(2) by simp
  qed
qed

lemma no_expand_simps [simp]:
  "no_expand tt []"
  "no_expand tt (c # s) \<longleftrightarrow>
     (IsExpand (texttype_collation_table tt c) \<longrightarrow> IsCompress (texttype_collation_table tt c)) \<and> no_expand tt s"
  by (auto simp: no_expand_def)

lemma no_expand_trim: "no_expand tt s \<Longrightarrow> no_expand tt (trim_spaces s)"
  using set_trim_spaces by (auto simp: no_expand_def)

lemma table_coll_entry [simp]:
  "\<not> is_special (texttype_collation_table tt c) \<Longrightarrow> texttype_collation_table tt c \<in> coll_entries tt"
  by (auto simp: coll_entries_def)

declare narrow_entries.simps(2) [simp del]

lemma narrow_entries_step:
  "is_special (texttype_collation_table tt c) \<Longrightarrow> narrow_entries tt (c # s) = narrow_entries tt s"
  "\<not> IsCompress (texttype_collation_table tt c) \<Longrightarrow>
     narrow_entries tt (c # s) = texttype_collation_table tt c # narrow_entries tt s"
  "\<not> is_special (texttype_collation_table tt c) \<Longrightarrow> narrow_entries tt [c] = [texttype_collation_table tt c]"
  "\<not> is_special (texttype_collation_table tt c) \<Longrightarrow> find_compress (texttype_compress_table tt) c d = Inr None \<Longrightarrow>
     narrow_entries tt (c # d # s) = texttype_collation_table tt c # narrow_entries tt (d # s)"
  "\<not> is_special (texttype_collation_table tt c) \<Longrightarrow> IsCompress (texttype_collation_table tt c) \<Longrightarrow>
     find_compress (texttype_compress_table tt) c d = Inr (Some e) \<Longrightarrow>
     narrow_entries tt (c # d # s) = e # narrow_entries tt s"
  by (simp_all add: narrow_entries.simps(2) [where s = "[]"] narrow_entries.simps(2) [of tt c s]
      narrow_entries.simps(2) [of tt c "d # s"] is_special_def Let_def)

text \<open>Induction along a string: a special, or an entry and the rest it leaves.\<close>

lemma narrow_induct [consumes 2, case_names Nil special plain last alone pair]:
  assumes "coll_ok tt" "no_expand tt s"
    and "P []"
    and special: "\<And>c s. is_special (texttype_collation_table tt c) \<Longrightarrow> no_expand tt s \<Longrightarrow> P s \<Longrightarrow> P (c # s)"
    and plain: "\<And>c s. \<not> IsExpand (texttype_collation_table tt c) \<Longrightarrow> \<not> IsCompress (texttype_collation_table tt c) \<Longrightarrow>
      no_expand tt s \<Longrightarrow> P s \<Longrightarrow> P (c # s)"
    and last: "\<And>c. \<not> IsExpand (texttype_collation_table tt c) \<Longrightarrow> IsCompress (texttype_collation_table tt c) \<Longrightarrow> P [c]"
    and alone: "\<And>c d s. \<not> IsExpand (texttype_collation_table tt c) \<Longrightarrow> IsCompress (texttype_collation_table tt c) \<Longrightarrow>
      find_compress (texttype_compress_table tt) c d = Inr None \<Longrightarrow> no_expand tt (d # s) \<Longrightarrow> P (d # s) \<Longrightarrow> P (c # d # s)"
    and pair: "\<And>c d s e. \<not> IsExpand (texttype_collation_table tt c) \<Longrightarrow> IsCompress (texttype_collation_table tt c) \<Longrightarrow>
      find_compress (texttype_compress_table tt) c d = Inr (Some e) \<Longrightarrow> e \<in> coll_entries tt \<Longrightarrow>
      \<not> is_special (texttype_collation_table tt d) \<Longrightarrow> no_expand tt s \<Longrightarrow> P s \<Longrightarrow> P (c # d # s)"
  shows "P s"
  using assms(2)
proof (induction s rule: length_induct)
  case (1 s)
  then have IH: "\<And>t. length t < length s \<Longrightarrow> no_expand tt t \<Longrightarrow> P t" by blast
  show ?case
  proof (cases s)
    case (Cons c u)
    have u: "no_expand tt u" "P u" using IH 1(2) Cons by auto
    consider "is_special (texttype_collation_table tt c)"
      | "\<not> IsExpand (texttype_collation_table tt c)" "\<not> IsCompress (texttype_collation_table tt c)"
      | "\<not> IsExpand (texttype_collation_table tt c)" "IsCompress (texttype_collation_table tt c)"
      using 1(2) Cons unfolding is_special_def by auto
    then show ?thesis
    proof cases
      case 3
      show ?thesis
      proof (cases u)
        case Nil
        then show ?thesis using last [OF 3] Cons by simp
      next
        case (Cons d v)
        have v: "no_expand tt v" "P v" using IH u \<open>s = c # u\<close> Cons by auto
        show ?thesis
          by (rule coll_ok_compress [OF assms(1), of c d])
             (use alone [OF 3] pair [OF 3] u v \<open>s = c # u\<close> Cons in auto)
      qed
    qed (use Cons u special plain in auto)
  qed (simp add: assms(3))
qed

lemma narrow_entries_coll:
  assumes "coll_ok tt" "no_expand tt s"
  shows "set (narrow_entries tt s) \<subseteq> coll_entries tt"
  using assms by (induction s rule: narrow_induct) (auto simp: narrow_entries_step is_special_def)


section \<open>What the reader delivers\<close>

definition has_special :: "texttype \<Rightarrow> byte list \<Rightarrow> bool" where
  "has_special tt s \<longleftrightarrow> (\<exists>c\<in>set s. is_special (texttype_collation_table tt c))"

lemma has_special_simps [simp]:
  "\<not> has_special tt []"
  "has_special tt (c # s) \<longleftrightarrow> is_special (texttype_collation_table tt c) \<or> has_special tt s"
  by (auto simp: has_special_def)

lemma narrow_specials_empty: "narrow_specials tt i s = [] \<longleftrightarrow> \<not> has_special tt s"
  by (induction tt i s rule: narrow_specials.induct) auto

lemma next_entry_step:
  "is_special (texttype_collation_table tt c) \<Longrightarrow> next_entry tt (c # p) sp = next_entry tt p True"
  "\<not> IsExpand (texttype_collation_table tt c) \<Longrightarrow> \<not> IsCompress (texttype_collation_table tt c) \<Longrightarrow>
     next_entry tt (c # p) sp =
       Inr (Some (texttype_collation_table tt c), \<lparr>stat_p = p, stat_special = sp, stat_waiting = None\<rparr>)"
  "\<not> IsExpand (texttype_collation_table tt c) \<Longrightarrow>
     next_entry tt [c] sp =
       Inr (Some (texttype_collation_table tt c), \<lparr>stat_p = [], stat_special = sp, stat_waiting = None\<rparr>)"
  "\<not> IsExpand (texttype_collation_table tt c) \<Longrightarrow> find_compress (texttype_compress_table tt) c d = Inr None \<Longrightarrow>
     next_entry tt (c # d # p) sp =
       Inr (Some (texttype_collation_table tt c), \<lparr>stat_p = d # p, stat_special = sp, stat_waiting = None\<rparr>)"
  "\<not> IsExpand (texttype_collation_table tt c) \<Longrightarrow> IsCompress (texttype_collation_table tt c) \<Longrightarrow>
     find_compress (texttype_compress_table tt) c d = Inr (Some e) \<Longrightarrow>
     next_entry tt (c # d # p) sp = Inr (Some e, \<lparr>stat_p = p, stat_special = sp, stat_waiting = None\<rparr>)"
  by (simp_all add: next_entry.simps(2) [where p = "[]"] next_entry.simps(2) [of tt c p]
      next_entry.simps(2) [of tt c "d # p"] is_special_def Let_def)

declare next_entry.simps(2) [simp del]

text \<open>The reader at \<open>s\<close>, which has passed specials if \<open>sp\<close>, delivers the next entry.\<close>

definition reads :: "texttype \<Rightarrow> byte list \<Rightarrow> bool \<Rightarrow> (sort_entry option \<times> coltab_status) result \<Rightarrow> bool" where
  "reads tt s sp r \<longleftrightarrow>
     (case narrow_entries tt s of
        [] \<Rightarrow> r = Inr (None, \<lparr>stat_p = [], stat_special = (sp \<or> has_special tt s), stat_waiting = None\<rparr>)
      | e # es \<Rightarrow> (\<exists>t sp'. r = Inr (Some e, \<lparr>stat_p = t, stat_special = sp', stat_waiting = None\<rparr>) \<and>
          narrow_entries tt t = es \<and> no_expand tt t \<and> (sp' \<or> has_special tt t \<longleftrightarrow> sp \<or> has_special tt s)))"

lemma next_entry_reads:
  assumes "coll_ok tt" "no_expand tt s"
  shows "reads tt s sp (next_entry tt s sp)"
  using assms
proof (induction s arbitrary: sp rule: narrow_induct)
  case (special c s)
  then have "reads tt s True (next_entry tt s True)" by blast
  then show ?case using special(1)
    by (cases "narrow_entries tt s") (simp_all add: reads_def narrow_entries_step next_entry_step)
next
  case (pair c d s e)
  then show ?case by (auto simp: reads_def narrow_entries_step next_entry_step is_special_def)
qed (simp_all add: reads_def narrow_entries_step next_entry_step is_special_def)

section \<open>What the loop over the characters stores\<close>

definition nonzero :: "byte list \<Rightarrow> byte list" where
  "nonzero ws = filter (\<lambda>w. w \<noteq> 0) ws"

lemma nonzero_simps [simp]:
  "nonzero [] = []" "nonzero (w # ws) = (if w = 0 then nonzero ws else w # nonzero ws)"
  "nonzero (ws @ vs) = nonzero ws @ nonzero vs"
  by (simp_all add: nonzero_def)

definition primaries :: "sort_entry list \<Rightarrow> byte list" where
  "primaries es = nonzero (map Primary es)"

definition secondaries :: "sort_entry list \<Rightarrow> byte list" where
  "secondaries es = nonzero (map (\<lambda>e. ucast (Secondary e)) es)"

definition tertiaries :: "sort_entry list \<Rightarrow> byte list" where
  "tertiaries es = nonzero (map (\<lambda>e. ucast (Tertiary e)) es)"

fun special_bytes :: "(nat \<times> byte) list \<Rightarrow> byte list" where
  "special_bytes [] = []"
| "special_bytes ((i, w) # sp) = of_nat (i + 1) # w # special_bytes sp"

definition special_part :: "texttype \<Rightarrow> nat \<Rightarrow> byte list \<Rightarrow> byte list" where
  "special_part tt i s = (if has_flag tt TEXTTYPE_ignore_specials then [] else special_bytes (narrow_specials tt i s))"

definition add_parts :: "key_bufs \<Rightarrow> sort_entry list \<Rightarrow> byte list \<Rightarrow> key_bufs" where
  "add_parts b es sp = b\<lparr>outbuff := outbuff b @ primaries es, secondary := secondary b @ secondaries es,
     tertiary := tertiary b @ tertiaries es, special := special b @ sp\<rparr>"

definition bufs_fit :: "nat \<Rightarrow> nat \<Rightarrow> key_bufs \<Rightarrow> bool" where
  "bufs_fit room n b \<longleftrightarrow> length (outbuff b) + n \<le> room \<and> length (secondary b) + n \<le> MAX_KEY \<and>
     length (tertiary b) + n \<le> MAX_KEY \<and> length (special b) + 2 * n \<le> 2 * MAX_KEY"

lemmas part_defs = primaries_def secondaries_def tertiaries_def

lemma put_weights_fit:
  "bufs_fit room (Suc n) b \<Longrightarrow>
   put_weights room e b = Inr (add_parts b [e] []) \<and> bufs_fit room n (add_parts b [e] [])"
  by (simp add: bufs_fit_def put_weights_def store_weight_def store_def add_parts_def part_defs)

lemma put_special_fit:
  assumes "bufs_fit room (Suc n) b" "Primary e \<noteq> 0"
  shows "put_special tt i e b =
      Inr (add_parts b [] (if has_flag tt TEXTTYPE_ignore_specials then [] else [of_nat (i + 1), Primary e])) \<and>
    bufs_fit room n (add_parts b [] (if has_flag tt TEXTTYPE_ignore_specials then [] else [of_nat (i + 1), Primary e]))"
  using assms by (simp add: bufs_fit_def put_special_def store_def add_parts_def part_defs)

lemma add_parts_simps [simp]:
  "add_parts b [] [] = b"
  "add_parts (add_parts b es sp) es' sp' = add_parts b (es @ es') (sp @ sp')"
  by (simp_all add: add_parts_def part_defs)

lemma bufs_fit_mono: "bufs_fit room n b \<Longrightarrow> m \<le> n \<Longrightarrow> bufs_fit room m b"
  by (auto simp: bufs_fit_def)

lemma special_part_step [simp]:
  "special_part tt i [] = []"
  "\<not> is_special (texttype_collation_table tt c) \<Longrightarrow> special_part tt i (c # s) = special_part tt (i + 1) s"
  "is_special (texttype_collation_table tt c) \<Longrightarrow> special_part tt i (c # s) =
     (if has_flag tt TEXTTYPE_ignore_specials then [] else [of_nat (i + 1), Primary (texttype_collation_table tt c)])
      @ special_part tt (i + 1) s"
  by (simp_all add: special_part_def)

text \<open>Beyond that the stores fail.\<close>

lemma store_weight_Inl: "store_weight n buf w = Inl err \<Longrightarrow> err = OUT_OF_BOUNDS"
  by (simp add: store_weight_def store_def split: if_split_asm)

lemma put_weights_Inl: "put_weights room e b = Inl err \<Longrightarrow> err = OUT_OF_BOUNDS"
  by (auto simp: put_weights_def bind_result_def dest: store_weight_Inl split: sum.split_asm)

lemma put_weights_Inr:
  "put_weights room e b = Inr b' \<Longrightarrow> Primary e \<noteq> 0 \<Longrightarrow>
   length (outbuff b') = Suc (length (outbuff b)) \<and> length (outbuff b) < room"
  by (auto simp: put_weights_def store_weight_def store_def split: if_split_asm)

lemma key_loop_overrun:
  assumes "\<forall>c\<in>set s. \<not> IsExpand (texttype_collation_table tt c) \<and> \<not> IsCompress (texttype_collation_table tt c) \<and>
      Primary (texttype_collation_table tt c) \<noteq> 0"
    and "room < length (outbuff b) + length s" "length (outbuff b) \<le> room"
  shows "key_loop tt room i s b = Inl OUT_OF_BOUNDS"
  using assms
proof (induction s arbitrary: i b)
  case (Cons c s)
  show ?case
    using Cons put_weights_Inl [of room "texttype_collation_table tt c" b] put_weights_Inr [of room "texttype_collation_table tt c" b]
    by (cases "put_weights room (texttype_collation_table tt c) b") (simp_all add: Let_def)
qed simp

lemma coll_ok_special:
  "coll_ok tt \<Longrightarrow> is_special (texttype_collation_table tt c) \<Longrightarrow> Primary (texttype_collation_table tt c) \<noteq> 0"
  unfolding coll_ok_def by blast

lemma key_loop_parts:
  assumes "coll_ok tt" "no_expand tt s" "bufs_fit room (length s) b"
  shows "key_loop tt room i s b = Inr (add_parts b (narrow_entries tt s) (special_part tt i s))"
  using assms
proof (induction s arbitrary: i b rule: narrow_induct)
  case (special c s)
  then show ?case
    using put_special_fit [of room "length s" b "texttype_collation_table tt c" tt i] coll_ok_special [OF assms(1), of c]
    by (simp add: narrow_entries_step is_special_def [symmetric] Let_def) (simp add: is_special_def)
next
  case (plain c s)
  then show ?case using put_weights_fit [of room "length s" b "texttype_collation_table tt c"]
    by (simp add: narrow_entries_step is_special_def Let_def)
next
  case (last c)
  then show ?case using put_weights_fit [of room 0 b "texttype_collation_table tt c"]
    by (simp add: narrow_entries_step is_special_def Let_def)
next
  case (alone c d s)
  then show ?case using put_weights_fit [of room "Suc (length s)" b "texttype_collation_table tt c"]
    by (simp add: narrow_entries_step is_special_def Let_def key_loop.simps(2) [of tt room i c "d # s"]
        special_part_step(2) [of tt c i "d # s"] del: key_loop.simps(2) special_part_step)
next
  case (pair c d s e)
  then show ?case using put_weights_fit [of room "Suc (length s)" b e] bufs_fit_mono [of room "Suc (length s)" _ "length s"]
    by (simp add: narrow_entries_step is_special_def Let_def)
qed simp


section \<open>The order of the specials\<close>

fun special_order :: "(nat \<times> byte) list \<Rightarrow> (nat \<times> byte) list \<Rightarrow> int" where
  "special_order [] [] = 0"
| "special_order [] (y # ys) = - 1000"
| "special_order (x # xs) [] = 1000"
| "special_order ((i, v) # xs) ((j, w) # ys) =
     (if i < j then - 2000 else if j < i then 2000 else if v \<noteq> w then weight_diff v w else special_order xs ys)"

lemma weight_diff_eq_0 [simp]: "weight_diff v w = 0 \<longleftrightarrow> v = w"
  by (simp add: weight_diff_def word_uint_eq_iff)

lemma weight_diff_sgn: "sgn (weight_diff v w) = (if v = w then 0 else if v < w then - 1 else 1)"
  using weight_diff_eq_0 [of v w] by (auto simp: weight_diff_def word_less_def sgn_if)

lemma narrow_specials_scan:
  "scan_special tt i s = (j, t) \<Longrightarrow>
   narrow_specials tt i s =
     (case t of [] \<Rightarrow> [] | c # u \<Rightarrow> (j, Primary (texttype_collation_table tt c)) # narrow_specials tt (j + 1) u)"
  by (induction tt i s rule: scan_special.induct) (auto split: if_split_asm)

lemma special_scan_order:
  "special_scan tt i s j t = special_order (narrow_specials tt i s) (narrow_specials tt j t)"
proof (induction tt i s j t rule: special_scan.induct)
  case (1 tt i s j t)
  obtain i' s' where s': "scan_special tt i s = (i', s')" by fastforce
  obtain j' t' where t': "scan_special tt j t = (j', t')" by fastforce
  have IH: "\<And>c u d v. s' = c # u \<Longrightarrow> t' = d # v \<Longrightarrow> \<not> i' < j' \<Longrightarrow> \<not> j' < i' \<Longrightarrow>
      \<not> Primary (texttype_collation_table tt c) \<noteq> Primary (texttype_collation_table tt d) \<Longrightarrow>
      special_scan tt (i' + 1) u (j' + 1) v =
      special_order (narrow_specials tt (i' + 1) u) (narrow_specials tt (j' + 1) v)"
    by (rule 1 [OF s' [symmetric] t' [symmetric] _ _ refl refl]) assumption+
  show ?case
    unfolding special_scan.simps [of tt i s j t] s' t' narrow_specials_scan [OF s'] narrow_specials_scan [OF t']
    using IH by (cases s'; cases t') (auto simp: Let_def)
qed

lemma narrow_specials_bound: "(j, w) \<in> set (narrow_specials tt i s) \<Longrightarrow> j < i + length s"
  by (induction tt i s rule: narrow_specials.induct) (auto split: if_split_asm)

lemma special_bytes_order:
  assumes "\<forall>(i, v)\<in>set xs. i < 255" "\<forall>(i, v)\<in>set ys. i < 255"
  shows "key_order (special_bytes xs) (special_bytes ys) = sgn (special_order xs ys)"
  using assms
proof (induction xs ys rule: special_order.induct)
  case (4 i v xs j w ys)
  have "(of_nat (i + 1) :: byte) < of_nat (j + 1) \<longleftrightarrow> i < j" "(of_nat (i + 1) :: byte) = of_nat (j + 1) \<longleftrightarrow> i = j"
    using 4(2,3) by (simp_all add: word_less_nat_alt unat_of_nat word_unat_eq_iff del: of_nat_add of_nat_Suc)
  then show ?case using 4 by (auto simp: weight_diff_sgn)
qed auto

lemma special_bytes_empty: "special_bytes xs = [] \<longleftrightarrow> xs = []"
  by (cases xs rule: special_bytes.cases) simp_all

text \<open>What follows the marker byte in a key.\<close>

definition special_tail :: "byte list \<Rightarrow> byte list" where
  "special_tail sp = (if sp = [] then [] else 0 # sp)"

lemma special_tail_order: "key_order (special_tail k) (special_tail l) = key_order k l"
  by (simp add: special_tail_def)

lemma special_part_order:
  assumes "length s \<le> 255" "length t \<le> 255"
  shows "key_order (special_part tt 0 s) (special_part tt 0 t) =
    (if has_flag tt TEXTTYPE_ignore_specials then 0 else sgn (special_scan tt 0 s 0 t))"
  using assms narrow_specials_bound [of _ _ tt 0]
  by (fastforce simp: special_part_def special_scan_order intro!: special_bytes_order)


section \<open>The loop of the comparison\<close>

text \<open>The loop over the entries: a difference of primary weights, or which string is left and what was saved.\<close>

fun walk :: "texttype \<Rightarrow> sort_entry list \<Rightarrow> sort_entry list \<Rightarrow> compare_saves \<Rightarrow> int + bool \<times> bool \<times> compare_saves" where
  "walk tt (e # es) (f # fs) sv =
     (if Primary e \<noteq> Primary f then Inl (weight_diff (Primary e) (Primary f))
      else walk tt es fs (save_differences tt e f False False sv))"
| "walk tt es fs sv = Inr (es \<noteq> [], fs \<noteq> [], sv)"

definition walked ::
  "texttype \<Rightarrow> byte list \<Rightarrow> bool \<Rightarrow> byte list \<Rightarrow> bool \<Rightarrow> int + bool \<times> bool \<times> compare_saves
   \<Rightarrow> (int + sort_entry option \<times> sort_entry option \<times> coltab_status \<times> coltab_status \<times> compare_saves) result \<Rightarrow> bool" where
  "walked tt s sp t tp w r \<longleftrightarrow>
     (case w of
        Inl v \<Rightarrow> r = Inr (Inl v)
      | Inr (l1, l2, sv) \<Rightarrow> (\<exists>c1 c2 st1 st2. r = Inr (Inr (c1, c2, st1, st2, sv)) \<and>
          (c1 \<noteq> None \<longleftrightarrow> l1) \<and> (c2 \<noteq> None \<longleftrightarrow> l2) \<and>
          (\<not> l1 \<and> \<not> l2 \<longrightarrow> stat_p st1 = [] \<and> stat_p st2 = [] \<and>
             (stat_special st1 \<longleftrightarrow> sp \<or> has_special tt s) \<and> (stat_special st2 \<longleftrightarrow> tp \<or> has_special tt t))))"

lemma compare_loop_walked:
  assumes "coll_ok tt" "no_expand tt s" "no_expand tt t"
  shows "walked tt s sp t tp (walk tt (narrow_entries tt s) (narrow_entries tt t) sv)
    (compare_loop tt \<lparr>stat_p = s, stat_special = sp, stat_waiting = None\<rparr>
       \<lparr>stat_p = t, stat_special = tp, stat_waiting = None\<rparr> sv)"
  using assms(2,3)
proof (induction "narrow_entries tt s" arbitrary: s sp t tp sv)
  case Nil
  show ?case
    using next_entry_reads [OF assms(1) Nil(2), of sp] next_entry_reads [OF assms(1) Nil(3), of tp]
    by (subst compare_loop.simps)
       (cases "narrow_entries tt t"; auto simp: Nil(1) [symmetric] reads_def walked_def get_coltab_entry_def)
next
  case (Cons e es)
  note IH = Cons(1)
  obtain s' sp' where s': "next_entry tt s sp = Inr (Some e, \<lparr>stat_p = s', stat_special = sp', stat_waiting = None\<rparr>)"
      "narrow_entries tt s' = es" "no_expand tt s'" "sp' \<or> has_special tt s' \<longleftrightarrow> sp \<or> has_special tt s"
    using next_entry_reads [OF assms(1) Cons(3), of sp] by (auto simp: reads_def Cons(2) [symmetric])
  show ?case
  proof (cases "narrow_entries tt t")
    case Nil
    then show ?thesis
      using next_entry_reads [OF assms(1) Cons(4), of tp] s'(1)
      by (subst compare_loop.simps) (auto simp: Cons(2) [symmetric] reads_def walked_def get_coltab_entry_def)
  next
    case (Cons f fs)
    obtain t' tp' where t': "next_entry tt t tp = Inr (Some f, \<lparr>stat_p = t', stat_special = tp', stat_waiting = None\<rparr>)"
        "narrow_entries tt t' = fs" "no_expand tt t'" "tp' \<or> has_special tt t' \<longleftrightarrow> tp \<or> has_special tt t"
      using next_entry_reads [OF assms(1) \<open>no_expand tt t\<close>, of tp] by (auto simp: reads_def Cons)
    have "walked tt s' sp' t' tp' (walk tt es fs (save_differences tt e f False False sv))
        (compare_loop tt \<lparr>stat_p = s', stat_special = sp', stat_waiting = None\<rparr>
           \<lparr>stat_p = t', stat_special = tp', stat_waiting = None\<rparr> (save_differences tt e f False False sv))"
      using IH [of s' t' sp' tp' "save_differences tt e f False False sv"] s'(2,3) t'(2,3) by simp
    moreover have "compare_loop tt \<lparr>stat_p = s, stat_special = sp, stat_waiting = None\<rparr>
           \<lparr>stat_p = t, stat_special = tp, stat_waiting = None\<rparr> sv =
        (if Primary e \<noteq> Primary f then Inr (Inl (weight_diff (Primary e) (Primary f)))
         else compare_loop tt \<lparr>stat_p = s', stat_special = sp', stat_waiting = None\<rparr>
           \<lparr>stat_p = t', stat_special = tp', stat_waiting = None\<rparr> (save_differences tt e f False False sv))"
      by (subst compare_loop.simps) (simp add: get_coltab_entry_def s'(1) t'(1) cong: if_cong)
    ultimately show ?thesis
      using s'(4) t'(4) by (cases "walk tt es fs (save_differences tt e f False False sv)")
        (simp_all add: \<open>e # es = narrow_entries tt s\<close> [symmetric] Cons walked_def split: prod.splits)
  qed
qed

text \<open>The value of the comparison for the trimmed strings.\<close>

definition narrow_value :: "texttype \<Rightarrow> byte list \<Rightarrow> byte list \<Rightarrow> int" where
  "narrow_value tt s t =
     (case walk tt (narrow_entries tt s) (narrow_entries tt t) \<lparr>save_secondary = 0, save_tertiary = 0, save_quandary = 0\<rparr> of
        Inl v \<Rightarrow> v
      | Inr (l1, l2, sv) \<Rightarrow>
          (if l1 then 500 else if l2 then - 500
           else if save_secondary sv \<noteq> 0 then save_secondary sv
           else if save_tertiary sv \<noteq> 0 then save_tertiary sv
           else if has_flag tt TEXTTYPE_ignore_specials then 0 else special_scan tt 0 s 0 t))"

lemma walk_leaves_one: "walk tt es fs sv = Inr (l1, l2, sv') \<Longrightarrow> \<not> (l1 \<and> l2)"
  by (induction tt es fs sv rule: walk.induct) (auto split: if_split_asm)

lemma walk_quandary: "walk tt es fs sv = Inr (l1, l2, sv') \<Longrightarrow> save_quandary sv' = save_quandary sv"
  by (induction tt es fs sv rule: walk.induct) (auto simp: save_differences_def split: if_split_asm)

lemma special_scan_none: "\<not> has_special tt s \<Longrightarrow> \<not> has_special tt t \<Longrightarrow> special_scan tt i s j t = 0"
  using narrow_specials_empty [of tt i s] narrow_specials_empty [of tt j t] by (simp add: special_scan_order)

lemma LC_NARROW_compare_value:
  assumes "coll_ok tt" "no_expand tt s" "no_expand tt t"
  shows "LC_NARROW_compare tt s t = Inr (narrow_value tt (trim_spaces s) (trim_spaces t))"
proof -
  let ?w = "walk tt (narrow_entries tt (trim_spaces s)) (narrow_entries tt (trim_spaces t))
      \<lparr>save_secondary = 0, save_tertiary = 0, save_quandary = 0\<rparr>"
  have walked: "walked tt (trim_spaces s) False (trim_spaces t) False ?w
      (compare_loop tt (start_status (trim_spaces s)) (start_status (trim_spaces t))
         \<lparr>save_secondary = 0, save_tertiary = 0, save_quandary = 0\<rparr>)"
    unfolding start_status_def using assms no_expand_trim by (intro compare_loop_walked) auto
  show ?thesis
  proof (cases ?w)
    case (Inl v)
    then show ?thesis using walked by (simp add: LC_NARROW_compare_def walked_def narrow_value_def)
  next
    case (Inr x)
    obtain l1 l2 sv where x: "x = (l1, l2, sv)" by (cases x) auto
    have "\<not> (l1 \<and> l2)" "save_quandary sv = 0" using Inr x walk_leaves_one walk_quandary by fastforce+
    then show ?thesis
      using walked special_scan_none [of tt "trim_spaces s" "trim_spaces t" 0 0]
      by (auto simp: LC_NARROW_compare_def walked_def narrow_value_def compare_end_def Inr x)
  qed
qed


section \<open>The key of a string\<close>

definition narrow_key :: "texttype \<Rightarrow> byte list \<Rightarrow> byte list" where
  "narrow_key tt s =
     (let es = narrow_entries tt s in
      primaries es @ (if has_flag tt TEXTTYPE_reverse_secondary then rev (secondaries es) else secondaries es) @
      tertiaries es @ special_tail (special_part tt 0 s))"

lemma part_lengths:
  "length (primaries es) \<le> length es" "length (secondaries es) \<le> length es" "length (tertiaries es) \<le> length es"
  by (simp_all add: part_defs nonzero_def order.trans [OF length_filter_le])

lemma special_bytes_length: "length (special_bytes sp) = 2 * length sp"
  by (induction sp rule: special_bytes.induct) auto

lemma narrow_lengths:
  assumes "coll_ok tt" "no_expand tt s"
  shows "length (narrow_entries tt s) + length (narrow_specials tt i s) \<le> length s"
  using assms
proof (induction s arbitrary: i rule: narrow_induct)
  case (alone c d s)
  then show ?case using alone(5) [of "i + 1"]
    by (simp add: narrow_entries_step is_special_def del: narrow_specials.simps(2))
       (simp add: is_special_def)
next
  case (pair c d s e)
  show ?case using pair(1-6) pair(7) [of "Suc (Suc i)"] by (simp add: narrow_entries_step is_special_def)
qed (simp_all add: narrow_entries_step is_special_def)

lemma append_room_fits [simp]: "length xs \<le> n \<Longrightarrow> append_room xs (k, n) = (k @ xs, n - length xs)"
  by (simp add: append_room_def)

lemma append_specials_fits:
  "length (special_tail sp) \<le> n \<Longrightarrow> has_flag tt TEXTTYPE_ignore_specials \<longrightarrow> sp = [] \<Longrightarrow>
   fst (append_specials tt sp (k, n)) = k @ special_tail sp"
  by (cases "sp = []") (simp_all add: append_specials_def special_tail_def)

lemma special_part_ignored: "has_flag tt TEXTTYPE_ignore_specials \<longrightarrow> special_part tt i s = []"
  by (simp add: special_part_def)

lemma narrow_key_length:
  assumes "coll_ok tt" "no_expand tt s"
  shows "length (narrow_key tt s) \<le> 3 * length s"
proof -
  have "length (special_tail (special_part tt 0 s)) \<le> 3 * length (narrow_specials tt 0 s)"
    by (cases "narrow_specials tt 0 s") (auto simp: special_tail_def special_part_def special_bytes_length)
  then show ?thesis
    using narrow_lengths [OF assms, of 0] part_lengths [of "narrow_entries tt s"] by (simp add: narrow_key_def Let_def)
qed

lemma string_to_key_narrow_key:
  assumes "coll_ok tt" "no_expand tt s" "3 * length (trim_spaces s) \<le> room" "length (trim_spaces s) \<le> MAX_KEY"
  shows "LC_NARROW_string_to_key tt s room False = Inr (narrow_key tt (trim_spaces s))"
proof -
  let ?s = "trim_spaces s"
  let ?b = "\<lparr>outbuff = [], secondary = [], tertiary = [], special = []\<rparr>"
  have s: "no_expand tt ?s" using assms(2) by (rule no_expand_trim)
  have "key_loop tt room 0 ?s ?b = Inr (add_parts ?b (narrow_entries tt ?s) (special_part tt 0 ?s))"
    using assms(3,4) by (intro key_loop_parts assms(1) s) (simp add: bufs_fit_def)
  moreover have "finish_key tt room False (add_parts ?b (narrow_entries tt ?s) (special_part tt 0 ?s)) = narrow_key tt ?s"
    using narrow_key_length [OF assms(1) s] assms(3)
    by (cases "has_flag tt TEXTTYPE_reverse_secondary")
       (simp_all add: finish_key_def add_parts_def narrow_key_def Let_def append_specials_fits special_part_ignored)
  ultimately show ?thesis by (simp add: LC_NARROW_string_to_key_def)
qed

section \<open>The comparison against the key\<close>

lemma coll_ok_pair:
  assumes "coll_ok tt" "e \<in> coll_entries tt" "f \<in> coll_entries tt"
  shows "similar e f" "layered e f"
  using assms unfolding coll_ok_def by blast+

lemma primaries_coll: "coll_ok tt \<Longrightarrow> set es \<subseteq> coll_entries tt \<Longrightarrow> primaries es = map Primary es"
  by (induction es) (auto simp: primaries_def layered_def dest: coll_ok_pair)

lemma walk_Inl: "walk tt es fs sv = Inl v \<Longrightarrow> key_order (map Primary es @ k) (map Primary fs @ l) = sgn v"
  by (induction tt es fs sv rule: walk.induct) (auto simp: weight_diff_sgn split: if_split_asm)

lemma walk_left:
  "walk tt es fs sv = Inr (True, l2, sv') \<Longrightarrow>
   \<exists>g\<in>set es. \<exists>gs. map Primary es = map Primary fs @ Primary g # gs"
  by (induction tt es fs sv rule: walk.induct) (auto split: if_split_asm simp: neq_Nil_conv)

lemma walk_right:
  "walk tt es fs sv = Inr (l1, True, sv') \<Longrightarrow>
   \<exists>g\<in>set fs. \<exists>gs. map Primary fs = map Primary es @ Primary g # gs"
  by (induction tt es fs sv rule: walk.induct) (auto split: if_split_asm simp: neq_Nil_conv)

lemma walk_even: "walk tt es fs sv = Inr (False, False, sv') \<Longrightarrow> map Primary es = map Primary fs"
  by (induction tt es fs sv rule: walk.induct) (auto split: if_split_asm)

lemma key_order_layer:
  assumes "\<forall>w\<in>set k. w < g" "0 < g"
  shows "key_order (g # gs) (k @ special_tail sp) = 1" "key_order (k @ special_tail sp) (g # gs) = - 1"
  using assms by (cases k; auto simp: special_tail_def)+

lemma ucast_weight:
  "(ucast (v :: 4 word) :: byte) = ucast w \<longleftrightarrow> v = w" "(ucast (v :: 4 word) :: byte) < ucast w \<longleftrightarrow> v < w"
  "(ucast (x :: 2 word) :: byte) = ucast y \<longleftrightarrow> x = y" "(ucast (x :: 2 word) :: byte) < ucast y \<longleftrightarrow> x < y"
  by (simp_all add: word_less_def word_uint_eq_iff uint_up_ucast is_up)

lemma ucast_weight_0:
  "(ucast (v :: 4 word) :: byte) = 0 \<longleftrightarrow> v = 0" "(ucast (x :: 2 word) :: byte) = 0 \<longleftrightarrow> x = 0"
  using ucast_weight(1) [of v 0] ucast_weight(3) [of x 0] by simp_all


text \<open>The differences saved along two strings with the same primary weights.\<close>

lemma secondaries_Cons:
  "secondaries (e # es) = (if Secondary e = 0 then secondaries es else ucast (Secondary e) # secondaries es)"
  by (simp add: secondaries_def ucast_weight_0)

lemma tertiaries_Cons:
  "tertiaries (e # es) = (if Tertiary e = 0 then tertiaries es else ucast (Tertiary e) # tertiaries es)"
  by (simp add: tertiaries_def ucast_weight_0)

lemmas weights_Cons = secondaries_Cons tertiaries_Cons

definition all_similar :: "sort_entry list \<Rightarrow> sort_entry list \<Rightarrow> bool" where
  "all_similar es fs \<longleftrightarrow> (\<forall>e\<in>set es. \<forall>f\<in>set fs. similar e f)"

lemma all_similar_Cons: "all_similar (e # es) (f # fs) \<Longrightarrow> similar e f \<and> all_similar es fs"
  by (simp add: all_similar_def)

lemma walk_secondary_kept:
  "walk tt es fs sv = Inr (l1, l2, sv') \<Longrightarrow> save_secondary sv' = 0 \<Longrightarrow> save_secondary sv = 0"
  by (induction tt es fs sv rule: walk.induct) (auto simp: save_differences_def split: if_split_asm)

lemma walk_secondary_lengths:
  "walk tt es fs sv = Inr (False, False, sv') \<Longrightarrow> all_similar es fs \<Longrightarrow>
   length (secondaries es) = length (secondaries fs)"
  by (induction tt es fs sv rule: walk.induct)
     (auto simp: weights_Cons similar_def dest!: all_similar_Cons split: if_split_asm)

lemma walk_secondary_forward:
  "walk tt es fs sv = Inr (False, False, sv') \<Longrightarrow> all_similar es fs \<Longrightarrow> \<not> has_flag tt TEXTTYPE_reverse_secondary \<Longrightarrow>
   sgn (save_secondary sv') =
     (if save_secondary sv \<noteq> 0 then sgn (save_secondary sv) else key_order (secondaries es) (secondaries fs))"
proof (induction tt es fs sv rule: walk.induct)
  case (1 tt e es f fs sv)
  then show ?case using all_similar_Cons [OF 1(3)]
    by (auto simp: save_differences_def weights_Cons similar_def ucast_weight weight_diff_sgn split: if_split_asm)
qed auto

lemma walk_secondary_reverse:
  "walk tt es fs sv = Inr (False, False, sv') \<Longrightarrow> all_similar es fs \<Longrightarrow> has_flag tt TEXTTYPE_reverse_secondary \<Longrightarrow>
   sgn (save_secondary sv') =
     (if secondaries es = secondaries fs then sgn (save_secondary sv)
      else key_order (rev (secondaries es)) (rev (secondaries fs)))"
proof (induction tt es fs sv rule: walk.induct)
  case (1 tt e es f fs sv)
  have len: "length (secondaries es) = length (secondaries fs)"
    using 1(2) all_similar_Cons [OF 1(3)] walk_secondary_lengths by (auto split: if_split_asm)
  then show ?case using 1 all_similar_Cons [OF 1(3)]
    by (auto simp: save_differences_def weights_Cons similar_def ucast_weight weight_diff_sgn key_order_append split: if_split_asm)
qed auto

lemma walk_tertiary:
  "walk tt es fs sv = Inr (False, False, sv') \<Longrightarrow> all_similar es fs \<Longrightarrow> save_secondary sv' = 0 \<Longrightarrow>
   length (tertiaries es) = length (tertiaries fs) \<and>
   sgn (save_tertiary sv') =
     (if save_tertiary sv \<noteq> 0 then sgn (save_tertiary sv) else key_order (tertiaries es) (tertiaries fs))"
proof (induction tt es fs sv rule: walk.induct)
  case (1 tt e es f fs sv)
  have "Primary e = Primary f" "walk tt es fs (save_differences tt e f False False sv) = Inr (False, False, sv')"
    using 1(2) by (auto split: if_split_asm)
  moreover from this have "Secondary e = Secondary f"
    using walk_secondary_kept [OF _ 1(4), of tt es fs] by (fastforce simp: save_differences_def split: if_split_asm)
  ultimately show ?case using 1(1,4) all_similar_Cons [OF 1(3)]
    by (auto simp: save_differences_def weights_Cons similar_def ucast_weight weight_diff_sgn)
qed auto

definition ordered_secondaries :: "texttype \<Rightarrow> sort_entry list \<Rightarrow> byte list" where
  "ordered_secondaries tt es = (if has_flag tt TEXTTYPE_reverse_secondary then rev (secondaries es) else secondaries es)"

lemma walk_secondary:
  assumes "walk tt es fs sv = Inr (False, False, sv')" "all_similar es fs" "save_secondary sv = 0"
  shows "length (ordered_secondaries tt es) = length (ordered_secondaries tt fs)"
    "sgn (save_secondary sv') = key_order (ordered_secondaries tt es) (ordered_secondaries tt fs)"
  using assms walk_secondary_lengths [OF assms(1,2)] walk_secondary_forward [OF assms(1,2)]
    walk_secondary_reverse [OF assms(1,2)]
  by (auto simp: ordered_secondaries_def)

text \<open>A key is the primary weights and what follows them, which is below every primary weight.\<close>

definition after_primaries :: "texttype \<Rightarrow> byte list \<Rightarrow> byte list" where
  "after_primaries tt s = ordered_secondaries tt (narrow_entries tt s) @ tertiaries (narrow_entries tt s) @
     special_tail (special_part tt 0 s)"

lemma narrow_key_split:
  "coll_ok tt \<Longrightarrow> no_expand tt s \<Longrightarrow> narrow_key tt s = map Primary (narrow_entries tt s) @ after_primaries tt s"
  using primaries_coll [OF _ narrow_entries_coll]
  by (simp add: narrow_key_def after_primaries_def ordered_secondaries_def Let_def)

lemma set_weights:
  "set (ordered_secondaries tt es) \<subseteq> (\<lambda>e. ucast (Secondary e)) ` set es"
  "set (tertiaries es) \<subseteq> (\<lambda>e. ucast (Tertiary e)) ` set es"
  by (auto simp: ordered_secondaries_def part_defs nonzero_def)

lemma after_primaries_below:
  assumes "coll_ok tt" "no_expand tt s" "g \<in> coll_entries tt"
  shows "key_order (Primary g # gs) (after_primaries tt s) = 1" "key_order (after_primaries tt s) (Primary g # gs) = - 1"
proof -
  have "layered e g" if "e \<in> set (narrow_entries tt s)" for e
    using that narrow_entries_coll [OF assms(1,2)] coll_ok_pair(2) [OF assms(1) _ assms(3)] by blast
  then have "\<forall>w\<in>set (ordered_secondaries tt (narrow_entries tt s) @ tertiaries (narrow_entries tt s)). w < Primary g"
    using set_weights(1) [of tt "narrow_entries tt s"] set_weights(2) [of "narrow_entries tt s"] by (fastforce simp: layered_def)
  moreover have "0 < Primary g"
    using coll_ok_pair(2) [OF assms(1,3,3)] by (simp add: layered_def word_gt_0)
  ultimately show "key_order (Primary g # gs) (after_primaries tt s) = 1" "key_order (after_primaries tt s) (Primary g # gs) = - 1"
    using key_order_layer unfolding after_primaries_def append_assoc [symmetric] by blast+
qed

lemma narrow_value_key:
  assumes "coll_ok tt" "no_expand tt s" "no_expand tt t" "length s \<le> 255" "length t \<le> 255"
  shows "sgn (narrow_value tt s t) = key_order (narrow_key tt s) (narrow_key tt t)"
proof -
  let ?e = "narrow_entries tt s" and ?f = "narrow_entries tt t"
  let ?w = "walk tt ?e ?f \<lparr>save_secondary = 0, save_tertiary = 0, save_quandary = 0\<rparr>"
  note split = narrow_key_split [OF assms(1,2)] narrow_key_split [OF assms(1,3)]
  have coll: "set ?e \<subseteq> coll_entries tt" "set ?f \<subseteq> coll_entries tt" using assms(1-3) narrow_entries_coll by blast+
  show ?thesis
  proof (cases ?w)
    case (Inl v)
    then show ?thesis using walk_Inl by (simp add: narrow_value_def split)
  next
    case (Inr x)
    obtain l1 l2 sv where w: "?w = Inr (l1, l2, sv)" by (cases x) (auto simp: Inr)
    consider "l1" | "\<not> l1" "l2" | "\<not> l1" "\<not> l2" by blast
    then show ?thesis
    proof cases
      case 1
      then have "?w = Inr (True, l2, sv)" using w by simp
      then obtain g gs where "g \<in> set ?e" "map Primary ?e = map Primary ?f @ Primary g # gs"
        using walk_left by blast
      then show ?thesis
        using 1 w coll after_primaries_below(1) [OF assms(1,3)] by (auto simp: narrow_value_def split)
    next
      case 2
      then have "?w = Inr (l1, True, sv)" using w by simp
      then obtain g gs where "g \<in> set ?f" "map Primary ?f = map Primary ?e @ Primary g # gs"
        using walk_right by blast
      then show ?thesis
        using 2 w coll after_primaries_below(2) [OF assms(1,2)] by (auto simp: narrow_value_def split)
    next
      case 3
      have w': "?w = Inr (False, False, sv)" using w 3 by simp
      have sim: "all_similar ?e ?f" using coll coll_ok_pair(1) [OF assms(1)] by (auto simp: all_similar_def)
      have key: "key_order (narrow_key tt s) (narrow_key tt t) = key_order (after_primaries tt s) (after_primaries tt t)"
        using walk_even [OF w'] by (simp add: split)
      note sec = walk_secondary [OF w' sim, simplified]
      show ?thesis
      proof (cases "save_secondary sv = 0")
        case False
        then have "ordered_secondaries tt ?e \<noteq> ordered_secondaries tt ?f"
          using sec(2) sgn_0_0 [of "save_secondary sv"] by auto
        then show ?thesis
          using sec False w' by (simp add: key after_primaries_def key_order_append narrow_value_def)
      next
        case True
        then have "ordered_secondaries tt ?e = ordered_secondaries tt ?f" using sec by (simp add: key_order_eq_0)
        then show ?thesis
          using walk_tertiary [OF w' sim True] w' True special_part_order [OF assms(4,5), of tt]
            key_order_eq_0 [of "tertiaries ?e" "tertiaries ?f"] sgn_0_0 [of "save_tertiary sv"]
          by (auto simp: key after_primaries_def key_order_append narrow_value_def special_tail_order)
      qed
    qed
  qed
qed

text \<open>The driver as the engine sees it, for strings whose weights have room in a key.\<close>

definition narrow_ok :: "texttype \<Rightarrow> byte list \<Rightarrow> bool" where
  "narrow_ok tt s \<longleftrightarrow> coll_ok tt \<and> no_expand tt s \<and> length s \<le> 85"

lemma narrow_key_room:
  assumes "n \<le> 85"
  shows "3 * n \<le> unat (LC_NARROW_key_length (of_nat n))"
proof -
  have n: "unat (of_nat n :: 16 word) = n" using assms by (simp add: unat_of_nat)
  have m: "unat (max (of_nat n) 2 :: 16 word) = max n 2" by (simp add: max_def word_le_nat_alt n)
  have "unat (3 * max (of_nat n) 2 :: 16 word) = 3 * max n 2" using assms by (simp add: unat_mult_lem [THEN iffD1] m)
  then show ?thesis using assms by (simp add: LC_NARROW_key_length_def min_def word_le_nat_alt MAX_KEY_def)
qed

end
