(* ===== verification/Coll_Ksc.thy ===== *)
theory Coll_Ksc
  imports Coll_Order
begin

text \<open>
  The Korean dictionary collation, \<^verbatim>\<open>src/intl/lc_ksc.c\<close>, and the upper case of multibyte strings in
  \<^verbatim>\<open>lc_jis.c\<close> and \<^verbatim>\<open>lc_big5.c\<close>.

  A key puts a special hangul behind the general hangul of its row: both are the bytes of the general one,
  followed by 1 or 2.  The room \<open>iOutLen\<close> is counted in 16 bits as the code does, while \<open>room\<close> is the size of the
  buffer; a write behind it, or a read behind the string, is \<^const>\<open>OUT_OF_BOUNDS\<close>.
\<close>

section \<open>The tables and the loop\<close>

definition spe_han :: "(byte \<times> byte) list" where
  "spe_han = map (Pair 0xa4)
     [0xa2, 0xa4, 0xa7, 0xa8, 0xa9, 0xb1, 0xb2, 0xb3, 0xb5, 0xb6, 0xb7, 0xb8, 0xb9, 0xba, 0xbb, 0xbc, 0xbd, 0xbe]"

definition gen_han :: "(byte \<times> byte) list" where
  "gen_han =
     [(0xb1, 0xed), (0xb3, 0xa9), (0xb4, 0xd8), (0xb5, 0xfa), (0xb6, 0xf2), (0xb8, 0xb5), (0xb9, 0xd8), (0xba, 0xfb), (0xbb, 0xe6),
      (0xbd, 0xcd), (0xbe, 0xc5), (0xc0, 0xd9), (0xc2, 0xa4), (0xc2, 0xf6), (0xc4, 0xaa), (0xc5, 0xb7), (0xc6, 0xc3), (0xc7, 0xce)]"

definition KSC_lead :: "byte \<Rightarrow> bool" where "KSC_lead uc \<longleftrightarrow> uc AND 0x80 \<noteq> 0"

definition GEN_HAN1 :: "byte \<Rightarrow> bool" where "GEN_HAN1 b1 \<longleftrightarrow> 0xb0 \<le> b1 \<and> b1 \<le> 0xc8"

definition GEN_HAN :: "byte \<Rightarrow> byte \<Rightarrow> bool" where
  "GEN_HAN b1 b2 \<longleftrightarrow> GEN_HAN1 b1 \<and> 0xa1 \<le> b2 \<and> b2 \<le> 0xfe"

definition SPE_HAN :: "byte \<Rightarrow> byte \<Rightarrow> bool" where
  "SPE_HAN b1 b2 \<longleftrightarrow> b1 = 0xa4 \<and>
     (b2 = 0xa2 \<or> b2 = 0xa4 \<or> b2 = 0xa7 \<or> b2 = 0xa8 \<or> b2 = 0xa9 \<or> b2 = 0xb1 \<or> b2 = 0xb2 \<or> b2 = 0xb3 \<or> b2 = 0xb5 \<or>
      b2 = 0xb6 \<or> b2 = 0xb7 \<or> b2 = 0xb8 \<or> b2 = 0xb9 \<or> b2 = 0xba \<or> b2 = 0xbb \<or> b2 = 0xbc \<or> b2 = 0xbd \<or> b2 = 0xbe)"

fun index_from :: "nat \<Rightarrow> ('a \<Rightarrow> bool) \<Rightarrow> 'a list \<Rightarrow> nat option" where
  "index_from i P [] = None"
| "index_from i P (x # xs) = (if P x then Some i else index_from (i + 1) P xs)"

definition GetGenHanNdx :: "byte \<Rightarrow> byte \<Rightarrow> nat option" where
  "GetGenHanNdx b1 b2 = index_from 0 (\<lambda>(g1, g2). g1 = b1 \<and> b2 = g2) gen_han"

definition GetSpeHanNdx :: "byte \<Rightarrow> byte \<Rightarrow> nat option" where
  "GetSpeHanNdx b1 b2 = index_from 0 (\<lambda>(s1, s2). b2 = s2) spe_han"

definition write_bytes :: "nat \<Rightarrow> byte list \<Rightarrow> byte list \<Rightarrow> byte list result" where
  "write_bytes room out bs = (if length out + length bs \<le> room then Inr (out @ bs) else Inl OUT_OF_BOUNDS)"

definition han_bytes :: "nat \<Rightarrow> byte \<Rightarrow> byte list" where
  "han_bytes idx marker = [fst (gen_han ! idx), snd (gen_han ! idx), marker]"

text \<open>\<open>n\<close> bytes of the string are left before the spaces at its end.\<close>

fun LCKSC_loop :: "nat \<Rightarrow> 16 word \<Rightarrow> nat \<Rightarrow> byte list \<Rightarrow> byte list \<Rightarrow> byte list result" where
  "LCKSC_loop room iOutLen n [] out = (if n = 0 \<or> iOutLen = 0 then Inr out else Inl OUT_OF_BOUNDS)"
| "LCKSC_loop room iOutLen n [c] out =
     (if n = 0 \<or> iOutLen = 0 then Inr out
      else if GEN_HAN1 c \<or> c = 0xa4 then Inl OUT_OF_BOUNDS
      else bind_result (write_bytes room out [c]) (\<lambda>out.
             if KSC_lead c then (if iOutLen - 1 = 0 then Inr out else Inl OUT_OF_BOUNDS)
             else LCKSC_loop room (iOutLen - 1) (n - 1) [] out))"
| "LCKSC_loop room iOutLen n (c # d # s) out =
     (if n = 0 \<or> iOutLen = 0 then Inr out
      else if GEN_HAN c d then
        (case GetGenHanNdx c d of
           Some idx \<Rightarrow> bind_result (write_bytes room out (han_bytes idx 1)) (LCKSC_loop room (iOutLen - 3) (n - 2) s)
         | None \<Rightarrow> bind_result (write_bytes room out [c, d]) (LCKSC_loop room (iOutLen - 2) (n - 2) s))
      else if SPE_HAN c d then
        (case GetSpeHanNdx c d of
           Some idx \<Rightarrow> bind_result (write_bytes room out (han_bytes idx 2)) (LCKSC_loop room (iOutLen - 3) (n - 2) s)
         | None \<Rightarrow> Inl OUT_OF_BOUNDS)
      else bind_result (write_bytes room out [c]) (\<lambda>out.
             if KSC_lead c then
               (if iOutLen - 1 = 0 then Inr out
                else bind_result (write_bytes room out [d]) (LCKSC_loop room (iOutLen - 2) (n - 2) s))
             else LCKSC_loop room (iOutLen - 1) (n - 1) (d # s) out))"

definition LCKSC_key_length :: "16 word \<Rightarrow> 16 word" where
  "LCKSC_key_length inLen = min (inLen + inLen div 2) 256"

definition LCKSC_string_to_key :: "byte list \<Rightarrow> nat \<Rightarrow> byte list result" where
  "LCKSC_string_to_key s iOutLen = LCKSC_loop iOutLen (of_nat iOutLen) (length (trim_spaces s)) s []"

definition LCKSC_compare :: "byte list \<Rightarrow> byte list \<Rightarrow> int result" where
  "LCKSC_compare s1 s2 =
     bind_result (LCKSC_string_to_key s1 256) (\<lambda>key1.
     bind_result (LCKSC_string_to_key s2 256) (\<lambda>key2. Inr (key_order key1 key2)))"

section \<open>Reading a key back\<close>

text \<open>Strings of ASCII characters and characters of two bytes.\<close>

fun ksc_string :: "byte list \<Rightarrow> bool" where
  "ksc_string [] \<longleftrightarrow> True"
| "ksc_string [c] \<longleftrightarrow> \<not> KSC_lead c"
| "ksc_string (c # d # s) \<longleftrightarrow> (if KSC_lead c then KSC_lead d \<and> ksc_string s else ksc_string (d # s))"

fun ksc_decode :: "byte list \<Rightarrow> byte list" where
  "ksc_decode (c # d # m # k) =
     (if \<not> KSC_lead c then c # ksc_decode (d # m # k)
      else case GetGenHanNdx c d of
             Some idx \<Rightarrow> (if m = 1 then [c, d] else [fst (spe_han ! idx), snd (spe_han ! idx)]) @ ksc_decode k
           | None \<Rightarrow> c # d # ksc_decode (m # k))"
| "ksc_decode k = k"

text \<open>The bytes of one character in a key.\<close>

definition ksc_unit :: "byte \<Rightarrow> byte \<Rightarrow> byte list" where
  "ksc_unit c d =
     (if GEN_HAN c d then (case GetGenHanNdx c d of Some idx \<Rightarrow> han_bytes idx 1 | None \<Rightarrow> [c, d])
      else if SPE_HAN c d then (case GetSpeHanNdx c d of Some idx \<Rightarrow> han_bytes idx 2 | None \<Rightarrow> [])
      else [c, d])"

lemmas ksc_tables = gen_han_def spe_han_def GetGenHanNdx_def GetSpeHanNdx_def

lemma GetGenHanNdx_GEN_HAN: "GetGenHanNdx c d = Some idx \<Longrightarrow> GEN_HAN c d"
  by (simp add: ksc_tables split: if_split_asm) (auto simp: GEN_HAN_def GEN_HAN1_def)

lemma GetSpeHanNdx_SPE_HAN: "SPE_HAN c d \<Longrightarrow> \<exists>idx. GetSpeHanNdx c d = Some idx"
  by (auto simp: ksc_tables SPE_HAN_def)

lemma KSC_lead_iff: "KSC_lead c \<longleftrightarrow> 0x80 \<le> c"
proof -
  have "list_all (\<lambda>i. KSC_lead (word_of_int i) \<longleftrightarrow> 128 \<le> i) [0..255]" unfolding KSC_lead_def by code_simp
  moreover have "uint c \<in> set [0..255]" using uint_bounded [of c] by simp
  ultimately have "KSC_lead (word_of_int (uint c)) \<longleftrightarrow> 128 \<le> uint c" unfolding list_all_iff by blast
  then show ?thesis by (simp add: word_le_def)
qed

lemma han_lead:
  "GEN_HAN1 c \<Longrightarrow> KSC_lead c" "GEN_HAN c d \<Longrightarrow> KSC_lead c \<and> KSC_lead d" "SPE_HAN c d \<Longrightarrow> KSC_lead c \<and> KSC_lead d"
  "KSC_lead 0xa4" "\<not> KSC_lead ASCII_SPACE"
  by (auto simp: GEN_HAN_def GEN_HAN1_def SPE_HAN_def KSC_lead_iff ASCII_SPACE_def word_le_nat_alt)

lemma gen_han_entry: "GetGenHanNdx c d = Some idx \<Longrightarrow> gen_han ! idx = (c, d)"
  by (auto simp: ksc_tables split: if_split_asm)

lemma spe_han_entry:
  assumes "SPE_HAN c d"
  obtains idx g1 g2 where "GetSpeHanNdx c d = Some idx" "spe_han ! idx = (c, d)" "gen_han ! idx = (g1, g2)"
    "GetGenHanNdx g1 g2 = Some idx" "KSC_lead g1"
  using assms by (auto simp: ksc_tables SPE_HAN_def KSC_lead_iff)

fun ksc_encode :: "byte list \<Rightarrow> byte list" where
  "ksc_encode (c # d # s) = (if KSC_lead c then ksc_unit c d @ ksc_encode s else c # ksc_encode (d # s))"
| "ksc_encode s = s"

lemma ksc_decode_ascii: "\<not> KSC_lead c \<Longrightarrow> ksc_decode (c # k) = c # ksc_decode k"
  by (cases k rule: ksc_decode.cases) simp_all

lemma ksc_decode_unit:
  assumes "KSC_lead c" "KSC_lead d"
  shows "ksc_decode (ksc_unit c d @ k) = c # d # ksc_decode k"
proof -
  have plain: "ksc_decode (c # d # k) = c # d # ksc_decode k" if "GetGenHanNdx c d = None"
    using that assms by (cases k) simp_all
  consider idx where "GEN_HAN c d" "GetGenHanNdx c d = Some idx" | "SPE_HAN c d" "\<not> GEN_HAN c d"
    | "\<not> SPE_HAN c d \<or> GEN_HAN c d" "GetGenHanNdx c d = None"
    using GetGenHanNdx_GEN_HAN by (cases "GetGenHanNdx c d") auto
  then show ?thesis
  proof cases
    case 1
    then show ?thesis using assms gen_han_entry by (simp add: ksc_unit_def han_bytes_def)
  next
    case 2
    then show ?thesis
      by (cases rule: spe_han_entry [OF 2(1)]) (simp add: ksc_unit_def han_bytes_def)
  next
    case 3
    then show ?thesis using plain by (auto simp: ksc_unit_def)
  qed
qed

lemma ksc_decode_encode: "ksc_string s \<Longrightarrow> ksc_decode (ksc_encode s) = s"
  by (induction s rule: ksc_string.induct) (simp_all add: ksc_decode_unit ksc_decode_ascii)

lemma ksc_unit_length: "2 \<le> length (ksc_unit c d)" "length (ksc_unit c d) \<le> 3"
  using GetSpeHanNdx_SPE_HAN [of c d] by (auto simp: ksc_unit_def han_bytes_def split: option.split)

lemma ksc_encode_length: "length (ksc_encode s) \<le> length s + length s div 2"
proof (induction s rule: ksc_encode.induct)
  case (1 c d s)
  then show ?case using ksc_unit_length(2) [of c d] by (cases "KSC_lead c") (auto intro: order.trans)
qed simp_all


section \<open>What the loop writes\<close>

definition room_left :: "nat \<Rightarrow> byte list \<Rightarrow> 16 word" where
  "room_left room out = of_nat (room - length out)"

lemma room_left_minus:
  "length out + length bs \<le> room \<Longrightarrow> room_left room out - of_nat (length bs) = room_left room (out @ bs)"
  by (simp add: room_left_def of_nat_diff)

lemma room_left_nonzero: "length out < room \<Longrightarrow> room < 2 ^ 16 \<Longrightarrow> room_left room out \<noteq> 0"
  unfolding room_left_def word_unat_eq_iff unat_of_nat by simp

text \<open>A character of two bytes is written whole when there is room for it, and the counter goes along.\<close>

lemma LCKSC_loop_pair:
  assumes "KSC_lead c" "KSC_lead d" "length out + length (ksc_unit c d) \<le> room" "room < 2 ^ 16" "0 < n"
  shows "LCKSC_loop room (room_left room out) n (c # d # s) out =
    LCKSC_loop room (room_left room (out @ ksc_unit c d)) (n - 2) s (out @ ksc_unit c d)"
proof -
  have nonzero: "room_left room out \<noteq> 0" "room_left room out - 1 \<noteq> 0"
    using room_left_nonzero [of out room] room_left_nonzero [of "out @ [c]" room] room_left_minus [of out "[c]" room]
      assms(3,4) ksc_unit_length(1) [of c d] by auto
  note minus = room_left_minus [OF assms(3), symmetric]
  consider idx where "GEN_HAN c d" "GetGenHanNdx c d = Some idx" | "GEN_HAN c d" "GetGenHanNdx c d = None"
    | "SPE_HAN c d" "\<not> GEN_HAN c d" | "\<not> SPE_HAN c d" "\<not> GEN_HAN c d"
    by (cases "GetGenHanNdx c d") auto
  then show ?thesis
  proof cases
    case 3
    then show ?thesis
      using assms nonzero minus by (cases rule: spe_han_entry [OF 3(1)]) (simp add: ksc_unit_def han_bytes_def write_bytes_def)
  qed (use assms nonzero minus in \<open>simp_all add: ksc_unit_def han_bytes_def write_bytes_def\<close>)
qed

lemma LCKSC_loop_ascii:
  assumes "\<not> KSC_lead c" "length out < room" "room < 2 ^ 16" "0 < n"
  shows "LCKSC_loop room (room_left room out) n (c # s) out =
    LCKSC_loop room (room_left room (out @ [c])) (n - 1) s (out @ [c])"
proof -
  have no_han: "\<not> GEN_HAN1 c" "\<not> GEN_HAN c d" "\<not> SPE_HAN c d" "c \<noteq> 0xa4" for d
    using assms(1) han_lead by auto
  have "room_left room out \<noteq> 0" "room_left room out - 1 = room_left room (out @ [c])"
    using assms(2,3) room_left_nonzero room_left_minus [of out "[c]" room] by auto
  then show ?thesis using assms no_han by (cases s) (simp_all add: write_bytes_def)
qed

lemma LCKSC_loop_done: "LCKSC_loop room w 0 s out = Inr out"
  by (cases s rule: remdups_adj.cases) simp_all

lemma LCKSC_loop_encode:
  "ksc_string t \<Longrightarrow> length out + length (ksc_encode t) \<le> room \<Longrightarrow> room < 2 ^ 16 \<Longrightarrow>
   LCKSC_loop room (room_left room out) (length t) (t @ u) out = Inr (out @ ksc_encode t)"
proof (induction t arbitrary: out rule: ksc_string.induct)
  case (2 c)
  then show ?case by (simp add: LCKSC_loop_ascii LCKSC_loop_done del: LCKSC_loop.simps)
next
  case (3 c d s)
  then show ?case
    by (cases "KSC_lead c") (simp_all add: LCKSC_loop_ascii LCKSC_loop_pair del: LCKSC_loop.simps)
qed (simp add: LCKSC_loop_done)

lemma trim_spaces_append: "\<exists>u. s = trim_spaces s @ u"
  by (induction s) (auto simp: trim_spaces_Cons)

lemma ksc_string_Cons: "\<not> KSC_lead c \<Longrightarrow> ksc_string (c # s) \<longleftrightarrow> ksc_string s"
  by (cases s) simp_all

lemma ksc_string_trim: "ksc_string s \<Longrightarrow> ksc_string (trim_spaces s)"
proof (induction s rule: ksc_string.induct)
  case (3 c d s)
  then show ?case using han_lead(5)
    by (cases "KSC_lead c") (auto simp: trim_spaces_Cons ksc_string_Cons split: if_split_asm)
qed (simp_all add: trim_spaces_Cons)

lemma LCKSC_string_to_key_encode:
  assumes "ksc_string s" "length (ksc_encode (trim_spaces s)) \<le> room" "room < 2 ^ 16"
  shows "LCKSC_string_to_key s room = Inr (ksc_encode (trim_spaces s))"
proof -
  obtain u where "s = trim_spaces s @ u" using trim_spaces_append by blast
  then show ?thesis
    using LCKSC_loop_encode [OF ksc_string_trim [OF assms(1)], of "[]" room u] assms(2,3)
    by (simp add: LCKSC_string_to_key_def room_left_def)
qed

section \<open>Running out of room\<close>

text \<open>
  Only one byte of room is asked for where three are written: when the room is not a multiple of three, a string of
  special hangul alone makes the counter wrap around and the loop go on behind the buffer.
\<close>

lemma LCKSC_loop_overrun:
  "(room - length out) mod 3 \<noteq> 0 \<Longrightarrow> room - length out < 3 * m \<Longrightarrow> length out \<le> room \<Longrightarrow> room < 2 ^ 16 \<Longrightarrow>
   LCKSC_loop room (room_left room out) (2 * m) (concat (replicate m [0xa4, 0xa2])) out = Inl OUT_OF_BOUNDS"
proof (induction m arbitrary: out)
  case (Suc m)
  have han: "SPE_HAN 0xa4 0xa2" "\<not> GEN_HAN 0xa4 0xa2" "GetSpeHanNdx 0xa4 0xa2 = Some 0"
      "ksc_unit 0xa4 0xa2 = [0xb1, 0xed, 2]" "KSC_lead 0xa4" "KSC_lead 0xa2"
    by (simp_all add: SPE_HAN_def GEN_HAN_def GEN_HAN1_def ksc_tables ksc_unit_def han_bytes_def KSC_lead_iff)
  show ?case
  proof (cases "length out + 3 \<le> room")
    case True
    then have left: "room - length (out @ ksc_unit 0xa4 0xa2) = room - length out - 3" "3 \<le> room - length out"
      by (simp_all add: han(4))
    then have "(room - length (out @ ksc_unit 0xa4 0xa2)) mod 3 \<noteq> 0"
      using Suc(2) le_mod_geq [OF left(2)] left(1) by metis
    then have "LCKSC_loop room (room_left room (out @ ksc_unit 0xa4 0xa2)) (2 * m) (concat (replicate m [0xa4, 0xa2]))
        (out @ ksc_unit 0xa4 0xa2) = Inl OUT_OF_BOUNDS"
      using Suc(3-5) True left by (intro Suc.IH) (simp_all add: han(4))
    then show ?thesis
      using LCKSC_loop_pair [where c = "0xa4" and d = "0xa2" and n = "2 * Suc m" and room = room and out = out
          and s = "concat (replicate m [0xa4, 0xa2])"] True Suc(5)
      by (simp add: han(4-6) del: LCKSC_loop.simps)
  next
    case False
    have "length out < room" using Suc(2,4) by (cases "length out = room") auto
    then have "room_left room out \<noteq> 0" using Suc(5) room_left_nonzero by blast
    then show ?thesis using False by (simp add: han write_bytes_def han_bytes_def gen_han_def)
  qed
qed simp


section \<open>The collation\<close>

lemma ksc_key_room: "n \<le> 170 \<Longrightarrow> unat (LCKSC_key_length (of_nat n)) = n + n div 2"
proof -
  assume n: "n \<le> 170"
  have "(of_nat n :: 16 word) + of_nat n div 2 = of_nat (n + n div 2)"
    using n by (simp add: word_arith_nat_div unat_of_nat)
  then show ?thesis using n by (simp add: LCKSC_key_length_def min_def word_le_nat_alt unat_of_nat del: of_nat_add)
qed

definition ksc_ok :: "byte list \<Rightarrow> bool" where
  "ksc_ok s \<longleftrightarrow> ksc_string s \<and> length s \<le> 170"

lemma ksc_key_fits:
  assumes "ksc_ok s"
  shows "length (ksc_encode (trim_spaces s)) \<le> unat (LCKSC_key_length (of_nat (length s)))"
proof -
  have "length (ksc_encode (trim_spaces s)) \<le> length s + length s div 2"
    using ksc_encode_length [of "trim_spaces s"] trim_spaces_length [of s] by (meson add_mono div_le_mono order.trans)
  then show ?thesis using assms by (simp add: ksc_ok_def ksc_key_room)
qed

lemma ksc_ok_keys:
  assumes "ksc_ok s"
  shows "LCKSC_string_to_key s (unat (LCKSC_key_length (of_nat (length s)))) = Inr (ksc_encode (trim_spaces s))"
    "LCKSC_string_to_key s 256 = Inr (ksc_encode (trim_spaces s))"
  using assms ksc_key_fits [OF assms] by (auto simp: ksc_ok_def ksc_key_room intro!: LCKSC_string_to_key_encode)

interpretation ksc_keys: sort_keys ksc_ok
  "\<lambda>s. LCKSC_string_to_key s (unat (LCKSC_key_length (of_nat (length s))))" LCKSC_compare
  by unfold_locales (simp add: ksc_ok_keys LCKSC_compare_def)

lemma ksc_encode_inject:
  assumes "ksc_ok s" "ksc_ok t"
  shows "ksc_encode (trim_spaces s) = ksc_encode (trim_spaces t) \<longleftrightarrow> trim_spaces s = trim_spaces t"
  using assms ksc_decode_encode [OF ksc_string_trim] unfolding ksc_ok_def by metis

lemma KSC_key_overrun:
  assumes "85 < m"
  shows "LCKSC_string_to_key (concat (replicate m [0xa4, 0xa2])) 256 = Inl OUT_OF_BOUNDS"
proof -
  have "trim_spaces (concat (replicate k [0xa4, 0xa2])) = concat (replicate k [0xa4, 0xa2])" for k
    by (induction k) (simp_all add: trim_spaces_Cons ASCII_SPACE_def)
  moreover have "length (concat (replicate m [0xa4, 0xa2 :: byte])) = 2 * m" by (induction m) simp_all
  ultimately show ?thesis
    using LCKSC_loop_overrun [of 256 "[]" m] assms by (simp add: LCKSC_string_to_key_def room_left_def)
qed

section \<open>Upper case of multibyte strings\<close>

text \<open>The loop keeps the second byte of a character from being taken for a letter.\<close>

definition SJIS1 :: "byte \<Rightarrow> bool" where
  "SJIS1 uc \<longleftrightarrow> 0x80 \<le> uc \<and> uc \<le> 0x9f \<or> 0xe0 \<le> uc \<and> uc \<le> 0xef"

definition BIG5_lead :: "byte \<Rightarrow> bool" where
  "BIG5_lead uc \<longleftrightarrow> 0xa1 \<le> uc \<and> uc \<le> 0xfe"

fun mb_upper_loop :: "(byte \<Rightarrow> bool) \<Rightarrow> bool \<Rightarrow> byte list \<Rightarrow> byte list" where
  "mb_upper_loop lead waiting [] = []"
| "mb_upper_loop lead waiting (c # s) =
     (if waiting \<or> lead c then c # mb_upper_loop lead (\<not> waiting) s
      else (if 97 \<le> c \<and> c \<le> 122 then c - 97 + 65 else c) # mb_upper_loop lead waiting s)"

definition mb_str_to_upper :: "(byte \<Rightarrow> bool) \<Rightarrow> byte list \<Rightarrow> nat \<Rightarrow> byte list \<times> int" where
  "mb_str_to_upper lead s iOutLen =
     (mb_upper_loop lead False (take iOutLen s),
      if iOutLen < length s then - 1 else sint (of_nat (length s) :: 16 word))"

definition sjis_str_to_upper :: "byte list \<Rightarrow> nat \<Rightarrow> byte list \<times> int" where
  "sjis_str_to_upper = mb_str_to_upper SJIS1"

definition big5_str_to_upper :: "byte list \<Rightarrow> nat \<Rightarrow> byte list \<times> int" where
  "big5_str_to_upper = mb_str_to_upper BIG5_lead"

text \<open>Upper case twice is upper case once, as no capital letter is a first byte.\<close>

lemma upper_letter: "97 \<le> c \<Longrightarrow> c \<le> 122 \<Longrightarrow> \<not> 97 \<le> c - 32 \<and> \<not> 0x80 \<le> c - 32" for c :: byte
  unfolding word_le_nat_alt by (simp add: unat_sub word_le_nat_alt) arith

lemma mb_upper_idempotent:
  "(\<And>c. lead c \<Longrightarrow> 0x80 \<le> c) \<Longrightarrow> mb_upper_loop lead w (mb_upper_loop lead w s) = mb_upper_loop lead w s"
proof (induction lead w s rule: mb_upper_loop.induct)
  case (2 lead w c s)
  then show ?case using upper_letter [of c] by auto
qed simp

lemma str_to_upper_idempotent:
  "mb_upper_loop SJIS1 w (mb_upper_loop SJIS1 w s) = mb_upper_loop SJIS1 w s"
  "mb_upper_loop BIG5_lead w (mb_upper_loop BIG5_lead w s) = mb_upper_loop BIG5_lead w s"
  by (rule mb_upper_idempotent; auto simp: SJIS1_def BIG5_lead_def word_le_nat_alt)+

end
