(* ===== verification/Coll_Props.thy ===== *)
theory Coll_Props
  imports Coll_Order Coll_Ksc
begin

text \<open>
  The drivers as \<open>sort_keys\<close>, a sample of the tables, and the properties of the collation drivers.
\<close>

section \<open>The two families\<close>

lemma ascii_room: "n \<le> 256 \<Longrightarrow> unat (famasc_key_length (of_nat n)) = n"
  by (simp add: famasc_key_length_def MAX_KEY_def min_def word_le_nat_alt unat_of_nat)

interpretation ascii_keys: sort_keys
  "\<lambda>s. length s \<le> MAX_KEY"
  "\<lambda>s. Inr (famasc_string_to_key s (unat (famasc_key_length (of_nat (length s)))))"
  "\<lambda>s t. Inr (famasc_compare s t)"
proof
  fix s t :: "byte list"
  assume "length s \<le> MAX_KEY" "length t \<le> MAX_KEY"
  then show "\<exists>k l r. (Inr (famasc_string_to_key s (unat (famasc_key_length (of_nat (length s))))) :: byte list result) = Inr k \<and>
      (Inr (famasc_string_to_key t (unat (famasc_key_length (of_nat (length t))))) :: byte list result) = Inr l \<and>
      (Inr (famasc_compare s t) :: int result) = Inr r \<and> sgn r = key_order k l"
    using trim_spaces_length [of s] trim_spaces_length [of t]
    by (simp add: MAX_KEY_def ascii_room famasc_string_to_key_def famasc_compare_trim)
qed

interpretation narrow_keys: sort_keys
  "narrow_ok tt"
  "\<lambda>s. LC_NARROW_string_to_key tt s (unat (LC_NARROW_key_length (of_nat (length s)))) False"
  "LC_NARROW_compare tt" for tt
proof
  fix s t
  assume ok: "narrow_ok tt s" "narrow_ok tt t"
  have key: "LC_NARROW_string_to_key tt u (unat (LC_NARROW_key_length (of_nat (length u)))) False =
      Inr (narrow_key tt (trim_spaces u))" if "narrow_ok tt u" for u
    using that narrow_key_room [of "length u"] trim_spaces_length [of u]
    by (intro string_to_key_narrow_key) (auto simp: narrow_ok_def MAX_KEY_def)
  have "sgn (narrow_value tt (trim_spaces s) (trim_spaces t)) =
      key_order (narrow_key tt (trim_spaces s)) (narrow_key tt (trim_spaces t))"
    using ok trim_spaces_length [of s] trim_spaces_length [of t] no_expand_trim
    by (intro narrow_value_key) (auto simp: narrow_ok_def)
  then show "\<exists>k l r. LC_NARROW_string_to_key tt s (unat (LC_NARROW_key_length (of_nat (length s)))) False = Inr k \<and>
      LC_NARROW_string_to_key tt t (unat (LC_NARROW_key_length (of_nat (length t)))) False = Inr l \<and>
      LC_NARROW_compare tt s t = Inr r \<and> sgn r = key_order k l"
    using key ok LC_NARROW_compare_value [of tt s t] by (simp add: narrow_ok_def)
qed

text \<open>Consequences of the interface for the two comparisons.\<close>

lemma famasc_compare_swap:
  "length s \<le> MAX_KEY \<Longrightarrow> length t \<le> MAX_KEY \<Longrightarrow> sgn (famasc_compare t s) = - sgn (famasc_compare s t)"
  by (rule ascii_keys.cmp_swap [of s t]) simp_all

lemma famasc_compare_trans:
  "length s \<le> MAX_KEY \<Longrightarrow> length t \<le> MAX_KEY \<Longrightarrow> length u \<le> MAX_KEY \<Longrightarrow>
   famasc_compare s t \<le> 0 \<Longrightarrow> famasc_compare t u \<le> 0 \<Longrightarrow> famasc_compare s u \<le> 0"
  using ascii_keys.cmp_trans [of s t u "famasc_compare s t" "famasc_compare t u"] by simp

lemma NARROW_compare_trans:
  "narrow_ok tt s \<Longrightarrow> narrow_ok tt t \<Longrightarrow> narrow_ok tt u \<Longrightarrow>
   LC_NARROW_compare tt s t = Inr r \<Longrightarrow> LC_NARROW_compare tt t u = Inr r' \<Longrightarrow> r \<le> 0 \<Longrightarrow> r' \<le> 0 \<Longrightarrow>
   \<exists>r''. LC_NARROW_compare tt s u = Inr r'' \<and> r'' \<le> 0"
  by (rule narrow_keys.cmp_trans)

section \<open>A sample table\<close>

text \<open>
  Letters with case and accent, a special, the pair \<open>ch\<close> and a character that expands, in the manner of the tables
  under \<^verbatim>\<open>src/intl/collations\<close>.
\<close>

definition weights :: "8 word \<Rightarrow> 4 word \<Rightarrow> 2 word \<Rightarrow> sort_entry" where
  "weights p s t = \<lparr>Primary = p, Secondary = s, Tertiary = t, IsExpand = False, IsCompress = False\<rparr>"

definition sample_table :: "byte \<Rightarrow> sort_entry" where
  "sample_table c =
     (if c = 45 then (weights 5 0 0)\<lparr>IsExpand := True, IsCompress := True\<rparr>
      else if c = 97 then weights 30 1 2 else if c = 65 then weights 30 1 1
      else if c = 225 then weights 30 2 2
      else if c = 99 then (weights 32 1 2)\<lparr>IsCompress := True\<rparr>
      else if c = 104 then weights 34 1 2
      else if c = 115 then weights 36 1 2
      else if c = 223 then (weights 36 1 2)\<lparr>IsExpand := True\<rparr>
      else weights 40 1 1)"

definition sample_tt :: texttype where
  "sample_tt = \<lparr>texttype_flags = 1, texttype_collation_table = sample_table,
     texttype_expand_table = [\<lparr>Ch = 223, ExpCh1 = 115, ExpCh2 = 115\<rparr>, \<lparr>Ch = 0, ExpCh1 = 0, ExpCh2 = 0\<rparr>],
     texttype_compress_table =
       [\<lparr>CharPair = (99, 104), CaseWeight = weights 33 1 2, NoCaseWeight = weights 33 1 2\<rparr>,
        \<lparr>CharPair = (0, 0), CaseWeight = weights 0 0 0, NoCaseWeight = weights 0 0 0\<rparr>]\<rparr>"

lemmas sample_defs = sample_tt_def sample_table_def weights_def is_special_def

lemma sample_entries: "e \<in> coll_entries sample_tt \<Longrightarrow> 16 \<le> Primary e \<and> Secondary e \<noteq> 0 \<and> Tertiary e \<noteq> 0"
  by (auto simp: coll_entries_def sample_defs split: if_split_asm)

lemma sample_ok: "coll_ok sample_tt"
proof -
  have "similar e f \<and> layered e f" if "e \<in> coll_entries sample_tt" "f \<in> coll_entries sample_tt" for e f
  proof -
    have "unat (ucast (Secondary e) :: byte) < 16" "unat (ucast (Tertiary e) :: byte) < 16"
      using unsigned_less [of "Secondary e", where ?'a = nat] unsigned_less [of "Tertiary e", where ?'a = nat]
      by (simp_all add: unsigned_ucast_eq take_bit_nat_eq_self)
    then show ?thesis
      using sample_entries [OF that(1)] sample_entries [OF that(2)]
      by (auto simp: similar_def layered_def word_less_nat_alt word_le_nat_alt)
  qed
  then show ?thesis by (auto simp: coll_ok_def sample_defs split: if_split_asm)
qed

lemma table_of_sample: "texttype_collation_table sample_tt = sample_table"
  by (simp add: sample_tt_def)

text \<open>
  For characters that expand the comparison is finer than the keys: sharp s and double s have one key, and sharp s
  is put behind double s, since no driver sets \<open>TEXTTYPE_expand_before\<close>.
\<close>

lemma NARROW_expansion_quandary:
  "LC_NARROW_string_to_key sample_tt [223] 6 False = LC_NARROW_string_to_key sample_tt [115, 115] 6 False \<and>
   LC_NARROW_compare sample_tt [223] [115, 115] = Inr 1"
  by (simp_all add: LC_NARROW_string_to_key_def LC_NARROW_compare_def trim_spaces_def ASCII_SPACE_def sample_defs
      put_weights_def store_weight_def store_def MAX_KEY_def finish_key_def compare_loop.simps get_coltab_entry_def
      start_status_def save_differences_def compare_end_def has_flag_def TEXTTYPE_reverse_secondary_def
      TEXTTYPE_expand_before_def append_room_def append_specials_def weight_diff_def Let_def next_entry.simps(2))

section \<open>Properties\<close>

text \<open>
  (C36) The comparison of the international family is the order of its keys, for a table that meets \<open>coll_ok\<close> and
  strings that meet \<open>narrow_ok\<close>.  The five tables named at \<open>coll_ok\<close> do not meet it, and for them this is false: under
  \<^verbatim>\<open>pw1252i850.h\<close> the characters 65, 192 compare above 195, 192 and have the lower key.  For strings of at most 85 bytes
  without characters that expand (\<open>narrow_ok\<close>), in room of \<open>LC_NARROW_key_length\<close> bytes, the keys and the comparison return, no buffer is
  overrun, and the sign of the comparison is the bytewise order of the keys: an index or a sort by keys agrees
  with the engine's comparisons, and \<open>fam2_compare\<close> never reports a difference.
\<close>

theorem NARROW_compare_keys:
  "narrow_ok tt s \<Longrightarrow> narrow_ok tt t \<Longrightarrow>
   \<exists>k l r. LC_NARROW_string_to_key tt s (unat (LC_NARROW_key_length (of_nat (length s)))) False = Inr k \<and>
     LC_NARROW_string_to_key tt t (unat (LC_NARROW_key_length (of_nat (length t)))) False = Inr l \<and>
     LC_NARROW_compare tt s t = Inr r \<and> sgn r = key_order k l \<and> fam2_compare tt s t = Inr (False, r)"
proof -
  assume ok: "narrow_ok tt s" "narrow_ok tt t"
  have "narrow_ok tt u \<Longrightarrow> LC_NARROW_string_to_key tt u room False = Inr (narrow_key tt (trim_spaces u))"
    if "3 * length u \<le> room" for u room
    using that trim_spaces_length [of u] by (intro string_to_key_narrow_key) (auto simp: narrow_ok_def MAX_KEY_def)
  then have key: "LC_NARROW_string_to_key tt u MAX_KEY False = Inr (narrow_key tt (trim_spaces u))"
      "LC_NARROW_string_to_key tt u (unat (LC_NARROW_key_length (of_nat (length u)))) False = Inr (narrow_key tt (trim_spaces u))"
    if "narrow_ok tt u" for u
    using that narrow_key_room [of "length u"] by (auto simp: narrow_ok_def MAX_KEY_def)
  show ?thesis
    using narrow_keys.cmp_key [OF ok] key [OF ok(1)] key [OF ok(2)]
    by (auto simp: fam2_compare_def old_fam2_compare_def)
qed

theorem NARROW_compare_keys_witness:
  "narrow_ok sample_tt [97, 45, 99, 104, 32] \<and> narrow_ok sample_tt [225] \<and>
   (\<exists>k l r. LC_NARROW_string_to_key sample_tt [97, 45, 99, 104, 32] (unat (LC_NARROW_key_length (of_nat (length [97, 45, 99, 104, 32 :: byte])))) False = Inr k \<and>
     LC_NARROW_string_to_key sample_tt [225] (unat (LC_NARROW_key_length (of_nat (length [225 :: byte])))) False = Inr l \<and>
     LC_NARROW_compare sample_tt [97, 45, 99, 104, 32] [225] = Inr r \<and> sgn r = key_order k l \<and>
     fam2_compare sample_tt [97, 45, 99, 104, 32] [225] = Inr (False, r))"
proof -
  have ok: "narrow_ok sample_tt [97, 45, 99, 104, 32]" "narrow_ok sample_tt [225]"
    by (simp_all add: narrow_ok_def sample_ok table_of_sample sample_table_def weights_def)
  show ?thesis using NARROW_compare_keys [OF ok] ok by blast
qed

text \<open>
  \<open>LC_NARROW_string_to_key\<close> does not keep to its buffer: a string of more than \<open>MAX_KEY\<close> ordinary characters,
  trailing spaces not counted, makes it write behind the end, whatever room of at most \<open>MAX_KEY\<close> bytes it was given and
  also for a partial key; for such a string \<open>LC_NARROW_key_length\<close> asks for no more.
\<close>

theorem NARROW_key_overrun:
  "\<forall>c\<in>set s. \<not> IsExpand (texttype_collation_table tt c) \<and> \<not> IsCompress (texttype_collation_table tt c) \<and>
     Primary (texttype_collation_table tt c) \<noteq> 0 \<Longrightarrow>
   MAX_KEY < length (trim_spaces s) \<Longrightarrow> room \<le> MAX_KEY \<Longrightarrow>
   LC_NARROW_string_to_key tt s room partial = Inl OUT_OF_BOUNDS \<and> unat (LC_NARROW_key_length n) \<le> MAX_KEY"
proof -
  assume plain: "\<forall>c\<in>set s. \<not> IsExpand (texttype_collation_table tt c) \<and> \<not> IsCompress (texttype_collation_table tt c) \<and>
     Primary (texttype_collation_table tt c) \<noteq> 0" and long: "MAX_KEY < length (trim_spaces s)" "room \<le> MAX_KEY"
  have "key_loop tt room 0 (trim_spaces s) \<lparr>outbuff = [], secondary = [], tertiary = [], special = []\<rparr> = Inl OUT_OF_BOUNDS"
    using plain long set_trim_spaces [of s] by (intro key_loop_overrun) auto
  moreover have "unat (LC_NARROW_key_length n) \<le> MAX_KEY"
    by (simp add: LC_NARROW_key_length_def MAX_KEY_def min_def word_le_nat_alt)
  ultimately show ?thesis by (simp add: LC_NARROW_string_to_key_def)
qed

theorem NARROW_key_overrun_witness:
  "LC_NARROW_string_to_key sample_tt (replicate 257 97) 256 True = Inl OUT_OF_BOUNDS \<and>
   unat (LC_NARROW_key_length 257) \<le> MAX_KEY"
proof -
  have "trim_spaces (replicate 257 97) = replicate 257 97"
    by (simp add: trim_spaces_def ASCII_SPACE_def dropWhile_replicate)
  then show ?thesis
    by (intro NARROW_key_overrun) (simp_all add: sample_defs MAX_KEY_def)
qed

text \<open>
  (C37) The keys of the Korean dictionary collation lose nothing, up to 170 bytes: longer strings have keys cut off at
  256 bytes.  For strings of at most 170 bytes made of ASCII characters and characters of two bytes (\<open>ksc_ok\<close>), the key fits into the room \<open>LCKSC_key_length\<close> asks for and the string,
  but for spaces at its end, can be read back from it; so the comparison, which is that of the keys, is 0
  only for strings that are equal but for such spaces.
\<close>

theorem KSC_key_decodes:
  "ksc_ok s \<Longrightarrow> ksc_ok t \<Longrightarrow>
   \<exists>k. LCKSC_string_to_key s (unat (LCKSC_key_length (of_nat (length s)))) = Inr k \<and>
     length k \<le> unat (LCKSC_key_length (of_nat (length s))) \<and> ksc_decode k = trim_spaces s \<and>
     (LCKSC_compare s t = Inr 0 \<longleftrightarrow> trim_spaces s = trim_spaces t)"
proof -
  assume ok: "ksc_ok s" "ksc_ok t"
  have "ksc_decode (ksc_encode (trim_spaces s)) = trim_spaces s"
    using ok(1) by (intro ksc_decode_encode ksc_string_trim) (simp add: ksc_ok_def)
  moreover have "LCKSC_compare s t = Inr 0 \<longleftrightarrow> trim_spaces s = trim_spaces t"
    using ksc_keys.cmp_0_iff [OF ok] ksc_encode_inject [OF ok] by (simp add: ksc_ok_keys ok)
  ultimately show ?thesis using ok ksc_key_fits by (simp add: ksc_ok_keys)
qed

theorem KSC_key_decodes_witness:
  "\<exists>k. LCKSC_string_to_key [0xa4, 0xa2, 0x41, 0x20] (unat (LCKSC_key_length (of_nat (length [0xa4, 0xa2, 0x41, 0x20 :: byte])))) = Inr k \<and>
     length k \<le> unat (LCKSC_key_length (of_nat (length [0xa4, 0xa2, 0x41, 0x20 :: byte]))) \<and>
     ksc_decode k = trim_spaces [0xa4, 0xa2, 0x41, 0x20] \<and>
     (LCKSC_compare [0xa4, 0xa2, 0x41, 0x20] [0xb1, 0xed] = Inr 0 \<longleftrightarrow> trim_spaces [0xa4, 0xa2, 0x41, 0x20] = trim_spaces [0xb1, 0xed])"
  by (rule KSC_key_decodes) (simp_all add: ksc_ok_def KSC_lead_iff)

end
