(* ===== verification/Sort.thy ===== *)
theory Sort
  imports Prelude
begin

text \<open>
  The sort, \<^verbatim>\<open>src/jrd/sort.c\<close>: records are sorted in memory by \<open>quick\<close> and a pass over neighbours, written as runs
  when memory is full, and merged.

  A sort record is the list of its longwords, as \<^verbatim>\<open>diddle_key\<close> leaves them for unsigned comparison.  In memory an array
  of pointers refers to the records, from slot 1 on, between the guards \<open>low_key\<close> in slot 0 and \<open>high_key\<close> behind the last one;
  in front of each record is a pointer back to its slot.  A slot of the model is the back pointer and the
  record it refers to.  \<^verbatim>\<open>scb_longs\<close> counts the back pointer, which is one longword.  A run is the list of its
  records in the scratch file.  \<open>None\<close> is an access outside of the array or of a stack, or a loop that does not end.
  The guards are arrays of 6 and 64 longwords; the model has them as long as a record, which agrees with the code as long
  as no comparison with them goes on behind their end, see \<open>record_ok\<close>.  The theory \<open>Sort_Key\<close> has \<open>diddle_key\<close>.  Not modelled: the division of work files
  and buffers (\<open>find_file_space\<close>, \<open>SORT_read_block\<close>, \<open>SORT_write_block\<close>), and \<open>order\<close>, which moves the records that were
  kept to the order of their pointers before they are written.
\<close>

type_synonym longword = "32 word"
type_synonym srec = "longword list"
type_synonym slot = "nat \<times> srec"

section \<open>Comparing records\<close>

text \<open>\<open>while (tl && *p == *q) {p++; q++; tl--;}\<close>\<close>

fun skip_equal :: "nat \<Rightarrow> srec \<Rightarrow> srec \<Rightarrow> nat \<times> srec \<times> srec" where
  "skip_equal 0 p q = (0, p, q)"
| "skip_equal (Suc n) p q = (if hd p = hd q then skip_equal n (tl p) (tl q) else (Suc n, p, q))"

definition rec_greater :: "nat \<Rightarrow> srec \<Rightarrow> srec \<Rightarrow> bool" where
  "rec_greater longs p q = (case skip_equal (longs - 1) p q of (n, p', q') \<Rightarrow> n \<noteq> 0 \<and> hd q' < hd p')"

section \<open>quick\<close>

abbreviation rec_at :: "slot list \<Rightarrow> nat \<Rightarrow> srec" where
  "rec_at xs k \<equiv> snd (xs ! k)"

text \<open>The exchange of two pointers, with the back pointers set first.\<close>

definition exchange_slots :: "nat \<Rightarrow> nat \<Rightarrow> slot list \<Rightarrow> slot list" where
  "exchange_slots a b xs = xs[a := (a, rec_at xs b), b := (b, rec_at xs a)]"

function skip_lower :: "slot list \<Rightarrow> longword \<Rightarrow> nat \<Rightarrow> nat option" where
  "skip_lower xs key i =
     (if i < length xs then (if hd (rec_at xs i) < key then skip_lower xs key (i + 1) else Some i) else None)"
  by pat_completeness auto
termination by (relation "measure (\<lambda>(xs, key, i). length xs - i)") auto

function skip_not_greater :: "nat \<Rightarrow> slot list \<Rightarrow> nat \<Rightarrow> nat \<Rightarrow> nat option" where
  "skip_not_greater longs xs r i =
     (if i < length xs
      then (if rec_greater longs (rec_at xs i) (rec_at xs r) then Some i else skip_not_greater longs xs r (i + 1))
      else None)"
  by pat_completeness auto
termination by (relation "measure (\<lambda>(longs, xs, r, i). length xs - i)") auto

fun skip_higher :: "slot list \<Rightarrow> longword \<Rightarrow> nat \<Rightarrow> nat option" where
  "skip_higher xs key 0 = (if key < hd (rec_at xs 0) then None else Some 0)"
| "skip_higher xs key (Suc j) = (if key < hd (rec_at xs (Suc j)) then skip_higher xs key j else Some (Suc j))"

fun skip_not_less :: "nat \<Rightarrow> slot list \<Rightarrow> nat \<Rightarrow> nat \<Rightarrow> nat option" where
  "skip_not_less longs xs r 0 = (if r = 0 \<or> rec_greater longs (rec_at xs r) (rec_at xs 0) then Some 0 else None)"
| "skip_not_less longs xs r (Suc j) =
     (if r = Suc j \<or> rec_greater longs (rec_at xs r) (rec_at xs (Suc j)) then Some (Suc j) else skip_not_less longs xs r j)"

definition scan_right :: "nat \<Rightarrow> slot list \<Rightarrow> nat \<Rightarrow> nat \<Rightarrow> nat option" where
  "scan_right longs xs r i =
     (case skip_lower xs (hd (rec_at xs r)) i of
        None \<Rightarrow> None
      | Some i \<Rightarrow> if hd (rec_at xs i) = hd (rec_at xs r) then skip_not_greater longs xs r i else Some i)"

definition scan_left :: "nat \<Rightarrow> slot list \<Rightarrow> nat \<Rightarrow> nat \<Rightarrow> nat option" where
  "scan_left longs xs r j =
     (case skip_higher xs (hd (rec_at xs r)) j of
        None \<Rightarrow> None
      | Some j \<Rightarrow> if hd (rec_at xs j) = hd (rec_at xs r) then skip_not_less longs xs r j else Some j)"

lemma skip_lower_range: "skip_lower xs key i = Some i' \<Longrightarrow> i \<le> i' \<and> i' < length xs"
  by (induction xs key i rule: skip_lower.induct) (simp split: if_split_asm)

lemma skip_not_greater_range: "skip_not_greater longs xs r i = Some i' \<Longrightarrow> i \<le> i' \<and> i' < length xs"
  by (induction longs xs r i rule: skip_not_greater.induct) (simp split: if_split_asm)

lemma scan_right_range: "scan_right longs xs r i = Some i' \<Longrightarrow> i \<le> i' \<and> i' < length xs"
  by (auto simp: scan_right_def split: option.split_asm if_split_asm
      dest!: skip_lower_range skip_not_greater_range simp del: skip_lower.simps skip_not_greater.simps)

function partition_loop :: "nat \<Rightarrow> slot list \<Rightarrow> nat \<Rightarrow> nat \<Rightarrow> nat \<Rightarrow> (slot list \<times> nat) option" where
  "partition_loop longs xs r i j =
     (case scan_right longs xs r i of
        None \<Rightarrow> None
      | Some i' \<Rightarrow>
          (case scan_left longs xs r j of
             None \<Rightarrow> None
           | Some j' \<Rightarrow>
               if j' \<le> i' then Some (xs, j')
               else partition_loop longs (exchange_slots i' j' xs) r (i' + 1) (j' - 1)))"
  by pat_completeness auto
termination
  by (relation "measure (\<lambda>(longs, xs, r, i, j). length xs - i)") (auto simp: exchange_slots_def dest: scan_right_range)

declare skip_lower.simps [simp del] skip_not_greater.simps [simp del] partition_loop.simps [simp del]

text \<open>One interval of at least three records: the middle record becomes the separator.\<close>

definition quick_step :: "nat \<Rightarrow> slot list \<Rightarrow> nat \<Rightarrow> nat \<Rightarrow> (slot list \<times> nat) option" where
  "quick_step longs xs r u =
     map_option (\<lambda>(ys, j). (exchange_slots r j ys, j))
       (partition_loop longs (exchange_slots r (r + (u - r) div 2) xs) r (r + 1) u)"

definition STACK_SIZE :: nat where "STACK_SIZE = 50"

partial_function (option) quick_loop :: "nat \<Rightarrow> (nat \<times> nat) list \<Rightarrow> slot list \<Rightarrow> slot list option" where
  "quick_loop longs stack xs =
     (case stack of
        [] \<Rightarrow> Some xs
      | (r, u) # st \<Rightarrow>
          if u < r + 2 then quick_loop longs st xs
          else (case quick_step longs xs r u of
                  None \<Rightarrow> None
                | Some (ys, j) \<Rightarrow>
                    if STACK_SIZE < length st + 2 then None
                    else quick_loop longs
                           (if u - j + 1 < j - r then (j + 1, u) # (r, j - 1) # st else (r, j - 1) # (j + 1, u) # st) ys))"

definition quick :: "nat \<Rightarrow> nat \<Rightarrow> slot list \<Rightarrow> slot list option" where
  "quick n longs xs = quick_loop longs [(1, n)] xs"

section \<open>Sorting in memory\<close>

definition low_key :: "nat \<Rightarrow> srec" where "low_key longs = replicate (longs - 1) 0"
definition high_key :: "nat \<Rightarrow> srec" where "high_key longs = replicate (longs - 1) (- 1)"

text \<open>The pass that straightens out pairs; \<open>c\<close> slots are left.\<close>

fun fix_pairs :: "nat \<Rightarrow> nat \<Rightarrow> nat \<Rightarrow> slot list \<Rightarrow> slot list" where
  "fix_pairs longs 0 i xs = xs"
| "fix_pairs longs (Suc c) i xs =
     fix_pairs longs c (i + 1)
       (if hd (rec_at xs (i + 1)) \<le> hd (rec_at xs i) \<and> rec_greater longs (rec_at xs i) (rec_at xs (i + 1))
        then exchange_slots i (i + 1) xs else xs)"

text \<open>The pointers from \<open>low_key\<close> to \<open>high_key\<close>, as \<^verbatim>\<open>SORT_put\<close> has made them.\<close>

definition pointers :: "nat \<Rightarrow> srec list \<Rightarrow> slot list" where
  "pointers longs recs = zip [0..<length recs + 2] (low_key longs # recs @ [high_key longs])"

definition sort_slots :: "nat \<Rightarrow> srec list \<Rightarrow> slot list option" where
  "sort_slots longs recs =
     map_option (fix_pairs longs (length recs) 1) (quick (length recs) longs (pointers longs recs))"

text \<open>
  The second pass, with a callback for duplicates: the record in slot \<open>i\<close> is dropped when its key is that of the next
  slot and the callback, which sees both in their natural form, says so.
\<close>

definition is_duplicate :: "nat \<Rightarrow> nat \<Rightarrow> (srec \<Rightarrow> srec \<Rightarrow> bool) \<Rightarrow> srec \<Rightarrow> srec \<Rightarrow> bool" where
  "is_duplicate longs key_length dup p q \<longleftrightarrow>
     hd p = hd q \<and> key_length \<le> longs - 1 - fst (skip_equal (longs - 1) p q) \<and> dup p q"

definition kept_slots ::
  "nat \<Rightarrow> nat \<Rightarrow> (srec \<Rightarrow> srec \<Rightarrow> bool) option \<Rightarrow> slot list \<Rightarrow> nat list \<Rightarrow> srec list" where
  "kept_slots longs key_length callback xs ks =
     map (rec_at xs) (case callback of
        None \<Rightarrow> ks
      | Some dup \<Rightarrow> filter (\<lambda>k. \<not> is_duplicate longs key_length dup (rec_at xs k) (rec_at xs (k + 1))) ks)"

text \<open>\<open>sort\<close>, and the records as they are then read from the slots that are not null.\<close>

definition sort_records ::
  "nat \<Rightarrow> nat \<Rightarrow> (srec \<Rightarrow> srec \<Rightarrow> bool) option \<Rightarrow> srec list \<Rightarrow> srec list option" where
  "sort_records longs key_length callback recs =
     map_option (\<lambda>xs. kept_slots longs key_length callback xs [1..<length recs + 1]) (sort_slots longs recs)"

section \<open>Merging runs\<close>

datatype stream =
  Run "srec list"
| Mrg (mrg_record_a: "srec option") (mrg_stream_a: "stream option")
      (mrg_record_b: "srec option") (mrg_stream_b: "stream option")

text \<open>\<open>DO_32_COMPARE\<close> on the longwords of the key: the last two compared.\<close>

fun compare_32 :: "nat \<Rightarrow> srec \<Rightarrow> srec \<Rightarrow> longword \<times> longword" where
  "compare_32 0 p q = (hd p, hd q)"
| "compare_32 (Suc 0) p q = (hd p, hd q)"
| "compare_32 (Suc (Suc n)) p q = (if hd p \<noteq> hd q then (hd p, hd q) else compare_32 (Suc n) (tl p) (tl q))"

text \<open>
  The next record of a stream.  The walk through the tree by way of the parent pointers is recursion here: a node that
  lacks a record asks the stream on that side, and forgets the stream when it has come to its end.
\<close>

partial_function (option) get_merge ::
  "nat \<Rightarrow> (srec \<Rightarrow> srec \<Rightarrow> bool) option \<Rightarrow> stream \<Rightarrow> (srec option \<times> stream) option" where
  "get_merge key_length callback t =
     (case t of
        Run [] \<Rightarrow> Some (None, t)
      | Run (x # xs) \<Rightarrow> Some (Some x, Run xs)
      | Mrg ra sa rb sb \<Rightarrow>
          Option.bind (case (ra, sa) of
              (None, Some s) \<Rightarrow> Option.bind (get_merge key_length callback s)
                 (\<lambda>(r, s'). Some (r, if r = None then None else Some s'))
            | _ \<Rightarrow> Some (ra, sa)) (\<lambda>(ra, sa).
          Option.bind (case (rb, sb) of
              (None, Some s) \<Rightarrow> Option.bind (get_merge key_length callback s)
                 (\<lambda>(r, s'). Some (r, if r = None then None else Some s'))
            | _ \<Rightarrow> Some (rb, sb)) (\<lambda>(rb, sb).
          (case (ra, rb) of
             (None, None) \<Rightarrow> Some (None, Mrg None sa None sb)
           | (Some a, None) \<Rightarrow> Some (Some a, Mrg None sa None sb)
           | (None, Some b) \<Rightarrow> Some (Some b, Mrg None sa None sb)
           | (Some a, Some b) \<Rightarrow>
               (case compare_32 key_length a b of (v, w) \<Rightarrow>
                  if v = w \<and> callback \<noteq> None \<and> the callback a b then get_merge key_length callback (Mrg None sa rb sb)
                  else if v < w then Some (Some a, Mrg None sa rb sb)
                  else Some (Some b, Mrg ra sa None sb))))))"

fun pair_streams :: "stream list \<Rightarrow> stream list" where
  "pair_streams (a # b # ts) = Mrg None (Some a) None (Some b) # pair_streams ts"
| "pair_streams ts = ts"

lemma pair_streams_length: "length (pair_streams ts) = (length ts + 1) div 2"
  by (induction ts rule: pair_streams.induct) simp_all

function merge_tree :: "stream list \<Rightarrow> stream" where
  "merge_tree ts = (case ts of [] \<Rightarrow> Run [] | [t] \<Rightarrow> t | _ \<Rightarrow> merge_tree (pair_streams ts))"
  by pat_completeness auto
termination by (relation "measure length") (auto simp: pair_streams_length)

declare merge_tree.simps [simp del]

text \<open>\<open>while (p = get_merge (...))\<close>: the records until there is none.\<close>

partial_function (option) drain :: "('s \<Rightarrow> ('r option \<times> 's) option) \<Rightarrow> 's \<Rightarrow> 'r list option" where
  "drain get s =
     Option.bind (get s) (\<lambda>(r, s'). case r of
        None \<Rightarrow> Some []
      | Some x \<Rightarrow> Option.bind (drain get s') (\<lambda>xs. Some (x # xs)))"

section \<open>The sort context block\<close>

text \<open>
  \<open>scb_size\<close> is the sort memory in longwords, \<open>scb_memory\<close> the records put since \<open>init\<close>, in that order, and \<open>scb_sorted\<close>
  those that \<open>SORT_get\<close> still has to give when there are no runs.  A run is its depth and its records.
\<close>

type_synonym dup_callback = "(srec \<Rightarrow> srec \<Rightarrow> bool) option"

record scb =
  scb_size :: nat
  scb_longs :: nat
  scb_key_length :: nat
  scb_dup_callback :: dup_callback
  scb_memory :: "srec list"
  scb_runs :: "(nat \<times> srec list) list"
  scb_merge :: "stream option"
  scb_sorted :: "srec list"

definition MAX_SORT_BUFFER_SIZE :: nat where "MAX_SORT_BUFFER_SIZE = 131040"
definition RUN_GROUP :: nat where "RUN_GROUP = 8"
definition MAX_MERGE_LEVEL :: nat where "MAX_MERGE_LEVEL = 2"

text \<open>\<open>ROUNDUP (n, sizeof (SLONG)) >> SHIFTLONG\<close>\<close>

definition longs_of :: "nat \<Rightarrow> nat" where "longs_of n = (n + 3) div 4"

text \<open>\<open>size_memory\<close> bytes could be allocated; the last key ends at \<open>key_end\<close>.\<close>

definition SORT_init :: "nat \<Rightarrow> nat \<Rightarrow> nat \<Rightarrow> dup_callback \<Rightarrow> scb" where
  "SORT_init size_memory record_length key_end call_back =
     \<lparr>scb_size = size_memory div 4, scb_longs = longs_of (record_length + 4), scb_key_length = longs_of key_end,
      scb_dup_callback = call_back, scb_memory = [], scb_runs = [], scb_merge = None, scb_sorted = []\<rparr>"

definition put_run :: "scb \<Rightarrow> scb option" where
  "put_run s =
     map_option (\<lambda>run. s\<lparr>scb_runs := (0, run) # scb_runs s\<rparr>)
       (sort_records (scb_longs s) (scb_key_length s) (scb_dup_callback s) (scb_memory s))"

text \<open>There is room for 32 streams.\<close>

definition merge_runs :: "scb \<Rightarrow> nat \<Rightarrow> scb option" where
  "merge_runs s n =
     (if 32 < n then None
      else map_option (\<lambda>run. s\<lparr>scb_runs := (fst (scb_runs s ! (n - 1)) + 1, run) # drop n (scb_runs s)\<rparr>)
             (drain (get_merge (scb_key_length s) (scb_dup_callback s))
                (merge_tree (map (\<lambda>r. Run (snd r)) (take n (scb_runs s))))))"

text \<open>The loop of \<open>SORT_put\<close> that merges runs of one depth as soon as there are enough of them.\<close>

partial_function (option) merge_groups :: "scb \<Rightarrow> scb option" where
  "merge_groups s =
     (case scb_runs s of
        [] \<Rightarrow> None
      | (depth, run) # runs \<Rightarrow>
          if depth = MAX_MERGE_LEVEL then Some s
          else let count = 1 + length (takeWhile (\<lambda>r. fst r = depth) runs) in
               if count < RUN_GROUP then Some s else Option.bind (merge_runs s count) merge_groups)"

definition no_room :: "scb \<Rightarrow> bool" where
  "no_room s =
     (let n = length (scb_memory s) in
      scb_size s < (n + 1) * scb_longs s \<or> scb_size s \<le> (n + 1) * scb_longs s + (n + 2))"

text \<open>The caller moves the record into the place it is given; it is diddled by the next call.\<close>

definition SORT_put :: "srec \<Rightarrow> scb \<Rightarrow> scb option" where
  "SORT_put p s =
     Option.bind (if no_room s
                  then Option.bind (put_run s) (\<lambda>s. Option.bind (merge_groups s) (\<lambda>s. Some (s\<lparr>scb_memory := []\<rparr>)))
                  else Some s)
       (\<lambda>s. Some (s\<lparr>scb_memory := scb_memory s @ [p]\<rparr>))"

definition SORT_sort :: "scb \<Rightarrow> scb option" where
  "SORT_sort s =
     (if scb_runs s = []
      then map_option (\<lambda>recs. s\<lparr>scb_sorted := recs\<rparr>)
             (sort_records (scb_longs s) (scb_key_length s) (scb_dup_callback s) (scb_memory s))
      else map_option (\<lambda>s. s\<lparr>scb_merge := Some (merge_tree (map (\<lambda>r. Run (snd r)) (scb_runs s)))\<rparr>) (put_run s))"

definition SORT_get :: "scb \<Rightarrow> (srec option \<times> scb) option" where
  "SORT_get s =
     (case scb_merge s of
        None \<Rightarrow> (case scb_sorted s of [] \<Rightarrow> Some (None, s) | p # ps \<Rightarrow> Some (Some p, s\<lparr>scb_sorted := ps\<rparr>))
      | Some t \<Rightarrow> map_option (\<lambda>(r, t). (r, s\<lparr>scb_merge := Some t\<rparr>))
                    (get_merge (scb_key_length s) (scb_dup_callback s) t))"

end
