(* ===== verification/Sort_Quick.thy ===== *)
theory Sort_Quick
  imports Sort "HOL-Library.List_Lexorder" "HOL-Library.Multiset"
begin

text \<open>
  The sort in memory: records are ordered lexicographically by their longwords, the partition splits an interval, and
  the intervals on the stack of \<open>quick\<close> lie between cuts, places with nothing greater on the left than on the right.
\<close>

section \<open>The order of records\<close>

lemma skip_equal_less:
  "length p = n \<Longrightarrow> length q = n \<Longrightarrow> skip_equal n p q = (m, p', q') \<Longrightarrow> m \<noteq> 0 \<and> hd q' < hd p' \<longleftrightarrow> q < p"
proof (induction n p q rule: skip_equal.induct)
  case (2 n p q)
  then show ?case by (cases p; cases q) (auto split: if_split_asm)
qed auto

lemma rec_greater_less:
  "length p = longs - 1 \<Longrightarrow> length q = longs - 1 \<Longrightarrow> rec_greater longs p q \<longleftrightarrow> q < p"
  using skip_equal_less by (fastforce simp: rec_greater_def split: prod.split)

lemma hd_less: "p \<noteq> [] \<Longrightarrow> q \<noteq> [] \<Longrightarrow> hd p < hd q \<Longrightarrow> p < (q :: srec)"
  by (cases p; cases q) auto

lemma hd_le: "p \<noteq> [] \<Longrightarrow> q \<noteq> [] \<Longrightarrow> p \<le> (q :: srec) \<Longrightarrow> hd p \<le> hd q"
  using hd_less [of q p] by (auto simp: not_le [symmetric])

section \<open>Arrays of records\<close>

text \<open>\<open>h\<close> is the slot of the upper guard.\<close>

definition slots_ok :: "nat \<Rightarrow> nat \<Rightarrow> slot list \<Rightarrow> bool" where
  "slots_ok longs h xs \<longleftrightarrow> 1 < longs \<and> length xs = Suc h \<and> (\<forall>k\<le>h. length (rec_at xs k) = longs - 1) \<and>
     (\<forall>k. 0 < k \<and> k < h \<longrightarrow> rec_at xs k < rec_at xs h)"

definition backs_ok :: "nat \<Rightarrow> slot list \<Rightarrow> bool" where
  "backs_ok h xs \<longleftrightarrow> (\<forall>k. 0 < k \<and> k < h \<longrightarrow> fst (xs ! k) = k)"

text \<open>A rearrangement of the slots from \<open>l\<close> to \<open>u\<close>.\<close>

definition rearranged :: "nat \<Rightarrow> nat \<Rightarrow> slot list \<Rightarrow> slot list \<Rightarrow> bool" where
  "rearranged l u xs ys \<longleftrightarrow>
     length ys = length xs \<and> (\<forall>k. k < l \<or> u < k \<longrightarrow> ys ! k = xs ! k) \<and>
     (\<forall>k. l \<le> k \<and> k \<le> u \<longrightarrow> (\<exists>k'. l \<le> k' \<and> k' \<le> u \<and> rec_at ys k = rec_at xs k')) \<and>
     mset (map snd ys) = mset (map snd xs) \<and> (\<forall>h. backs_ok h xs \<longrightarrow> backs_ok h ys)"

lemma rearranged_refl [simp]: "rearranged l u xs xs"
  by (auto simp: rearranged_def)

lemma rearranged_trans: "rearranged l u xs ys \<Longrightarrow> rearranged l u ys zs \<Longrightarrow> rearranged l u xs zs"
  unfolding rearranged_def by (metis (no_types, lifting))

lemma rearranged_widen:
  assumes "rearranged l u xs ys" "l' \<le> l" "u \<le> u'"
  shows "rearranged l' u' xs ys"
proof -
  have "\<exists>k'. l' \<le> k' \<and> k' \<le> u' \<and> rec_at ys k = rec_at xs k'" if "l' \<le> k" "k \<le> u'" for k
  proof (cases "l \<le> k \<and> k \<le> u")
    case True
    then obtain k' where "l \<le> k'" "k' \<le> u" "rec_at ys k = rec_at xs k'" using assms(1) unfolding rearranged_def by blast
    then show ?thesis using assms(2,3) by (intro exI [of _ k']) simp
  next
    case False
    then show ?thesis using assms(1) that unfolding rearranged_def by (intro exI [of _ k]) (auto simp: not_le)
  qed
  then show ?thesis using assms unfolding rearranged_def by auto
qed

lemma exchange_at:
  assumes "a < length xs" "b < length xs"
  shows "rec_at (exchange_slots a b xs) k =
      (if k = a then rec_at xs b else if k = b then rec_at xs a else rec_at xs k)"
    "length (exchange_slots a b xs) = length xs"
    "k \<noteq> a \<Longrightarrow> k \<noteq> b \<Longrightarrow> exchange_slots a b xs ! k = xs ! k"
    "fst (exchange_slots a b xs ! k) = (if k = a \<or> k = b then k else fst (xs ! k))"
  using assms by (auto simp: exchange_slots_def nth_list_update)

lemma exchange_rearranged:
  assumes "l \<le> a" "a \<le> u" "l \<le> b" "b \<le> u" "u < length xs"
  shows "rearranged l u xs (exchange_slots a b xs)"
proof -
  have ab: "a < length xs" "b < length xs" using assms by auto
  have "map snd (exchange_slots a b xs) = (map snd xs)[a := map snd xs ! b, b := map snd xs ! a]"
    using ab by (simp add: exchange_slots_def map_update)
  then have mset: "mset (map snd (exchange_slots a b xs)) = mset (map snd xs)"
    using mset_swap [of b "map snd xs" a] ab by (simp only: length_map)
  have "\<exists>k'. l \<le> k' \<and> k' \<le> u \<and> rec_at (exchange_slots a b xs) k = rec_at xs k'" if "l \<le> k" "k \<le> u" for k
    using that assms exchange_at(1) [OF ab] by auto
  then show ?thesis
    using mset assms exchange_at [OF ab] by (auto simp: rearranged_def backs_ok_def simp del: mset_map)
qed

lemma rearranged_slots_ok:
  assumes "rearranged l u xs ys" "slots_ok longs h xs" "0 < l" "u < h"
  shows "slots_ok longs h ys"
proof -
  have "length (rec_at ys k) = longs - 1 \<and> (0 < k \<and> k < h \<longrightarrow> rec_at ys k < rec_at ys h)" if "k \<le> h" for k
  proof (cases "l \<le> k \<and> k \<le> u")
    case True
    then obtain k' where "l \<le> k'" "k' \<le> u" "rec_at ys k = rec_at xs k'" using assms(1) unfolding rearranged_def by blast
    then show ?thesis using assms by (auto simp: rearranged_def slots_ok_def)
  next
    case False
    then have "ys ! k = xs ! k" "ys ! h = xs ! h" using assms(1,4) by (auto simp: rearranged_def not_le)
    then show ?thesis using assms(2) that by (simp add: slots_ok_def)
  qed
  then show ?thesis using assms(1,2) by (simp add: slots_ok_def rearranged_def)
qed

section \<open>The partition\<close>

lemma slots_ok_rec:
  assumes "slots_ok longs h xs" "i \<le> h" "k \<le> h"
  shows "rec_at xs i \<noteq> []" "rec_greater longs (rec_at xs i) (rec_at xs k) \<longleftrightarrow> rec_at xs k < rec_at xs i"
    "hd (rec_at xs i) < hd (rec_at xs k) \<Longrightarrow> rec_at xs i < rec_at xs k"
proof -
  have len: "length (rec_at xs i) = longs - 1" "length (rec_at xs k) = longs - 1" "0 < longs - 1"
    using assms by (auto simp: slots_ok_def)
  then show i: "rec_at xs i \<noteq> []" by (metis length_0_conv less_numeral_extra(3))
  show "rec_greater longs (rec_at xs i) (rec_at xs k) \<longleftrightarrow> rec_at xs k < rec_at xs i"
    using len by (simp add: rec_greater_less)
  show "hd (rec_at xs i) < hd (rec_at xs k) \<Longrightarrow> rec_at xs i < rec_at xs k"
    using len i by (intro hd_less) auto
qed

lemma skip_lower_stops:
  assumes "slots_ok longs h xs" "i \<le> h" "key \<le> hd (rec_at xs h)"
  shows "\<exists>i'. skip_lower xs key i = Some i' \<and> i \<le> i' \<and> i' \<le> h \<and> key \<le> hd (rec_at xs i') \<and>
    (\<forall>k. i \<le> k \<and> k < i' \<longrightarrow> hd (rec_at xs k) < key)"
  using assms
proof (induction "h - i" arbitrary: i)
  case 0
  then show ?case by (subst skip_lower.simps) (auto simp: slots_ok_def)
next
  case (Suc n)
  have next_i: "n = h - (i + 1)" "i + 1 \<le> h" using Suc.hyps(2) by arith+
  show ?case
  proof (cases "hd (rec_at xs i) < key")
    case True
    then obtain i' where "skip_lower xs key (i + 1) = Some i'" "i + 1 \<le> i'" "i' \<le> h" "key \<le> hd (rec_at xs i')"
        "\<forall>k. i + 1 \<le> k \<and> k < i' \<longrightarrow> hd (rec_at xs k) < key"
      using Suc.hyps(1) [of "i + 1", OF _ Suc.prems(1) _ Suc.prems(3)] next_i by auto
    moreover have "skip_lower xs key i = skip_lower xs key (i + 1)"
      using True Suc.prems(1,2) by (subst skip_lower.simps) (simp add: slots_ok_def)
    moreover have "hd (rec_at xs k) < key" if "i \<le> k" "k < i'" for k
      using that True calculation(5) by (cases "k = i") auto
    ultimately show ?thesis by (intro exI [of _ i']) auto
  next
    case False
    then have "skip_lower xs key i = Some i" using Suc.prems by (subst skip_lower.simps) (simp add: slots_ok_def)
    then show ?thesis using False Suc.prems by (intro exI [of _ i]) auto
  qed
qed

lemma skip_not_greater_stops:
  assumes "slots_ok longs h xs" "i \<le> h" "r < h" "0 < r"
  shows "\<exists>i'. skip_not_greater longs xs r i = Some i' \<and> i \<le> i' \<and> i' \<le> h \<and> rec_at xs r < rec_at xs i' \<and>
    (\<forall>k. i \<le> k \<and> k < i' \<longrightarrow> rec_at xs k \<le> rec_at xs r)"
  using assms
proof (induction "h - i" arbitrary: i)
  case 0
  then have "i = h" by simp
  then show ?case
    using 0 slots_ok_rec(2) [OF 0(2), of h r] by (subst skip_not_greater.simps) (auto simp: slots_ok_def)
next
  case (Suc n)
  have next_i: "n = h - (i + 1)" "i + 1 \<le> h" using Suc.hyps(2) by arith+
  have greater: "rec_greater longs (rec_at xs i) (rec_at xs r) \<longleftrightarrow> rec_at xs r < rec_at xs i"
    using Suc.prems slots_ok_rec(2) [OF Suc.prems(1), of i r] by simp
  show ?case
  proof (cases "rec_at xs r < rec_at xs i")
    case False
    then obtain i' where "skip_not_greater longs xs r (i + 1) = Some i'" "i + 1 \<le> i'" "i' \<le> h"
        "rec_at xs r < rec_at xs i'" "\<forall>k. i + 1 \<le> k \<and> k < i' \<longrightarrow> rec_at xs k \<le> rec_at xs r"
      using Suc.hyps(1) [of "i + 1", OF _ Suc.prems(1) _ Suc.prems(3,4)] next_i by auto
    moreover have "skip_not_greater longs xs r i = skip_not_greater longs xs r (i + 1)"
      using False greater Suc.prems(1,2) by (subst skip_not_greater.simps) (simp add: slots_ok_def)
    moreover have "rec_at xs k \<le> rec_at xs r" if "i \<le> k" "k < i'" for k
      using that False calculation(5) by (cases "k = i") auto
    ultimately show ?thesis by (intro exI [of _ i']) auto
  next
    case True
    then have "skip_not_greater longs xs r i = Some i"
      using greater Suc.prems by (subst skip_not_greater.simps) (simp add: slots_ok_def)
    then show ?thesis using True Suc.prems by (intro exI [of _ i]) auto
  qed
qed

lemma scan_right_stops:
  assumes "slots_ok longs h xs" "i \<le> h" "r < h" "0 < r"
  shows "\<exists>i'. scan_right longs xs r i = Some i' \<and> i \<le> i' \<and> i' \<le> h \<and> rec_at xs r < rec_at xs i' \<and>
    (\<forall>k. i \<le> k \<and> k < i' \<longrightarrow> rec_at xs k \<le> rec_at xs r)"
proof -
  have "rec_at xs r < rec_at xs h" using assms by (auto simp: slots_ok_def)
  then have "hd (rec_at xs r) \<le> hd (rec_at xs h)"
    using slots_ok_rec(1) [OF assms(1), of r h] slots_ok_rec(1) [OF assms(1), of h h] assms(3) by (intro hd_le) auto
  then obtain i1 where i1: "skip_lower xs (hd (rec_at xs r)) i = Some i1" "i \<le> i1" "i1 \<le> h"
      "hd (rec_at xs r) \<le> hd (rec_at xs i1)" "\<forall>k. i \<le> k \<and> k < i1 \<longrightarrow> hd (rec_at xs k) < hd (rec_at xs r)"
    using skip_lower_stops [OF assms(1,2)] by blast
  have below: "\<forall>k. i \<le> k \<and> k < i1 \<longrightarrow> rec_at xs k \<le> rec_at xs r"
    using i1(3,5) slots_ok_rec(3) [OF assms(1), of _ r] assms(3) by (auto intro: less_imp_le)
  show ?thesis
  proof (cases "hd (rec_at xs i1) = hd (rec_at xs r)")
    case True
    obtain i2 where "skip_not_greater longs xs r i1 = Some i2" "i1 \<le> i2" "i2 \<le> h" "rec_at xs r < rec_at xs i2"
        "\<forall>k. i1 \<le> k \<and> k < i2 \<longrightarrow> rec_at xs k \<le> rec_at xs r"
      using skip_not_greater_stops [OF assms(1) i1(3) assms(3,4)] by blast
    then show ?thesis using i1 below True by (intro exI [of _ i2]) (auto simp: scan_right_def not_less [symmetric])
  next
    case False
    then have "rec_at xs r < rec_at xs i1"
      using i1(3,4) slots_ok_rec(3) [OF assms(1), of r i1] assms(3) by (simp add: less_le)
    then show ?thesis using i1 below False by (intro exI [of _ i1]) (auto simp: scan_right_def)
  qed
qed

lemma skip_higher_stops:
  assumes "r \<le> j" "hd (rec_at xs r) = key"
  shows "\<exists>j'. skip_higher xs key j = Some j' \<and> r \<le> j' \<and> j' \<le> j \<and> hd (rec_at xs j') \<le> key \<and>
    (\<forall>k. j' < k \<and> k \<le> j \<longrightarrow> key < hd (rec_at xs k))"
  using assms
proof (induction j)
  case (Suc j)
  show ?case
  proof (cases "key < hd (rec_at xs (Suc j))")
    case True
    then have "r \<le> j" using Suc.prems by (cases "r = Suc j") auto
    then obtain j' where "skip_higher xs key j = Some j'" "r \<le> j'" "j' \<le> j" "hd (rec_at xs j') \<le> key"
        "\<forall>k. j' < k \<and> k \<le> j \<longrightarrow> key < hd (rec_at xs k)"
      using Suc by blast
    moreover have "key < hd (rec_at xs k)" if "j' < k" "k \<le> Suc j" for k
      using that True calculation(5) by (cases "k = Suc j") auto
    ultimately show ?thesis using True by (intro exI [of _ j']) auto
  qed (use Suc.prems in auto)
qed auto

lemma skip_not_less_stops:
  assumes "slots_ok longs h xs" "r \<le> j" "j \<le> h"
  shows "\<exists>j'. skip_not_less longs xs r j = Some j' \<and> r \<le> j' \<and> j' \<le> j \<and> (j' = r \<or> rec_at xs j' < rec_at xs r) \<and>
    (\<forall>k. j' < k \<and> k \<le> j \<longrightarrow> rec_at xs r \<le> rec_at xs k)"
  using assms(2,3)
proof (induction j)
  case (Suc j)
  have greater: "rec_greater longs (rec_at xs r) (rec_at xs (Suc j)) \<longleftrightarrow> rec_at xs (Suc j) < rec_at xs r"
    using Suc.prems slots_ok_rec(2) [OF assms(1), of r "Suc j"] by simp
  show ?case
  proof (cases "r = Suc j \<or> rec_at xs (Suc j) < rec_at xs r")
    case False
    then have "r \<le> j" "j \<le> h" using Suc.prems by auto
    then obtain j' where "skip_not_less longs xs r j = Some j'" "r \<le> j'" "j' \<le> j"
        "j' = r \<or> rec_at xs j' < rec_at xs r" "\<forall>k. j' < k \<and> k \<le> j \<longrightarrow> rec_at xs r \<le> rec_at xs k"
      using Suc.IH by blast
    moreover have "rec_at xs r \<le> rec_at xs k" if "j' < k" "k \<le> Suc j" for k
      using that False calculation(5) by (cases "k = Suc j") auto
    ultimately show ?thesis using False greater by (intro exI [of _ j']) auto
  next
    case True
    then show ?thesis using Suc.prems greater by (intro exI [of _ "Suc j"]) auto
  qed
qed auto

lemma scan_left_stops:
  assumes "slots_ok longs h xs" "r \<le> j" "j \<le> h"
  shows "\<exists>j'. scan_left longs xs r j = Some j' \<and> r \<le> j' \<and> j' \<le> j \<and> (j' = r \<or> rec_at xs j' < rec_at xs r) \<and>
    (\<forall>k. j' < k \<and> k \<le> j \<longrightarrow> rec_at xs r \<le> rec_at xs k)"
proof -
  obtain j1 where j1: "skip_higher xs (hd (rec_at xs r)) j = Some j1" "r \<le> j1" "j1 \<le> j"
      "hd (rec_at xs j1) \<le> hd (rec_at xs r)" "\<forall>k. j1 < k \<and> k \<le> j \<longrightarrow> hd (rec_at xs r) < hd (rec_at xs k)"
    using skip_higher_stops [OF assms(2)] by blast
  have above: "\<forall>k. j1 < k \<and> k \<le> j \<longrightarrow> rec_at xs r \<le> rec_at xs k"
    using j1(5) slots_ok_rec(3) [OF assms(1), of r] assms(2,3) by (auto intro: less_imp_le)
  show ?thesis
  proof (cases "hd (rec_at xs j1) = hd (rec_at xs r)")
    case True
    obtain j2 where "skip_not_less longs xs r j1 = Some j2" "r \<le> j2" "j2 \<le> j1"
        "j2 = r \<or> rec_at xs j2 < rec_at xs r" "\<forall>k. j2 < k \<and> k \<le> j1 \<longrightarrow> rec_at xs r \<le> rec_at xs k"
      using skip_not_less_stops [OF assms(1) j1(2)] j1(3) assms(3) by auto
    then show ?thesis using j1 above True by (intro exI [of _ j2]) (auto simp: scan_left_def not_le [symmetric])
  next
    case False
    then have "rec_at xs j1 < rec_at xs r"
      using j1(2-4) slots_ok_rec(3) [OF assms(1), of j1 r] assms(2,3) by (simp add: less_le)
    then show ?thesis using j1 above False by (intro exI [of _ j1]) (auto simp: scan_left_def)
  qed
qed

text \<open>The records on either side of the place that \<open>j\<close> ends at, with the separator still in \<open>r\<close>.\<close>

definition partitioned :: "nat \<Rightarrow> nat \<Rightarrow> nat \<Rightarrow> nat \<Rightarrow> slot list \<Rightarrow> bool" where
  "partitioned r i j u xs \<longleftrightarrow>
     (\<forall>k. r < k \<and> k < i \<longrightarrow> rec_at xs k \<le> rec_at xs r) \<and> (\<forall>k. j < k \<and> k \<le> u \<longrightarrow> rec_at xs r \<le> rec_at xs k)"

lemma partition_loop_partitions:
  assumes "slots_ok longs h xs" "0 < r" "r < i" "r \<le> j" "j \<le> u" "u < h" "i \<le> j + 1" "partitioned r i j u xs"
  shows "\<exists>ys j'. partition_loop longs xs r i j = Some (ys, j') \<and> rearranged (r + 1) u xs ys \<and> r \<le> j' \<and> j' \<le> u \<and>
    partitioned r (j' + 1) j' u ys"
  using assms
proof (induction "j + 1 - i" arbitrary: xs i j rule: less_induct)
  case less
  have rh: "r < h" "i \<le> h" "j \<le> h" using less.prems by auto
  obtain i' where i': "scan_right longs xs r i = Some i'" "i \<le> i'" "i' \<le> h" "rec_at xs r < rec_at xs i'"
      "\<forall>k. i \<le> k \<and> k < i' \<longrightarrow> rec_at xs k \<le> rec_at xs r"
    using scan_right_stops [OF less.prems(1) rh(2,1) less.prems(2)] by blast
  obtain j' where j': "scan_left longs xs r j = Some j'" "r \<le> j'" "j' \<le> j" "j' = r \<or> rec_at xs j' < rec_at xs r"
      "\<forall>k. j' < k \<and> k \<le> j \<longrightarrow> rec_at xs r \<le> rec_at xs k"
    using scan_left_stops [OF less.prems(1,4) rh(3)] by blast
  have left: "rec_at xs k \<le> rec_at xs r" if "r < k" "k < i'" for k
    using that i'(5) less.prems(8) by (cases "k < i") (auto simp: partitioned_def)
  have right: "rec_at xs r \<le> rec_at xs k" if "j' < k" "k \<le> u" for k
    using that j'(5) less.prems(8) by (cases "j < k") (auto simp: partitioned_def)
  show ?case
  proof (cases "j' \<le> i'")
    case True
    have "rec_at xs k \<le> rec_at xs r" if "r < k" "k \<le> j'" for k
    proof (cases "k = i'")
      case True
      then have "k = j'" using that \<open>j' \<le> i'\<close> by simp
      then show ?thesis using True i'(4) j'(4) that by auto
    qed (use left that True in auto)
    then have "partitioned r (j' + 1) j' u xs" using right by (auto simp: partitioned_def)
    then show ?thesis
      using True i'(1) j' less.prems(5) by (subst partition_loop.simps) auto
  next
    case False
    let ?ys = "exchange_slots i' j' xs"
    have len: "i' < length xs" "j' < length xs" using i'(3) j'(3) rh less.prems(1) by (auto simp: slots_ok_def)
    have re: "rearranged (r + 1) u xs ?ys"
      using i' j' less.prems False len rh by (intro exchange_rearranged) (auto simp: slots_ok_def)
    have ok: "slots_ok longs h ?ys" using rearranged_slots_ok [OF re less.prems(1)] less.prems(6) by simp
    have r: "rec_at ?ys r = rec_at xs r"
      using exchange_at(1) [OF len] i'(2) False j'(2) less.prems(3) by auto
    have part: "partitioned r (i' + 1) (j' - 1) u ?ys"
      unfolding partitioned_def
    proof (intro conjI allI impI)
      fix k assume k: "r < k \<and> k < i' + 1"
      have "rec_at xs j' < rec_at xs r" using j'(4) False i'(2) less.prems(3) by auto
      then show "rec_at ?ys k \<le> rec_at ?ys r"
        using k False left [of k] by (auto simp: r exchange_at(1) [OF len])
    next
      fix k assume k: "j' - 1 < k \<and> k \<le> u"
      then show "rec_at ?ys r \<le> rec_at ?ys k"
        using False i'(2,4) less.prems(3) right [of k] by (cases "j' < k") (auto simp: r exchange_at(1) [OF len])
    qed
    have measure: "(j' - 1) + 1 - (i' + 1) < j + 1 - i" using False i'(2) j'(3) by arith
    have bounds: "r < i' + 1" "r \<le> j' - 1" "j' - 1 \<le> u" "i' + 1 \<le> (j' - 1) + 1"
      using less.prems i'(2) j'(3) False by auto
    note IH = less.hyps [OF measure ok less.prems(2) bounds(1-3) less.prems(6) bounds(4) part]
    obtain zs m where "partition_loop longs ?ys r (i' + 1) (j' - 1) = Some (zs, m)" "rearranged (r + 1) u ?ys zs"
        "r \<le> m" "m \<le> u" "partitioned r (m + 1) m u zs" using IH by blast
    moreover have "partition_loop longs xs r i j = partition_loop longs ?ys r (i' + 1) (j' - 1)"
      using i'(1) j'(1) False by (subst partition_loop.simps) simp
    ultimately show ?thesis using rearranged_trans [OF re] by auto
  qed
qed

text \<open>The separator goes between the two parts.\<close>

lemma quick_step_separates:
  assumes "slots_ok longs h xs" "0 < r" "r + 2 \<le> u" "u < h"
  shows "\<exists>ys j. quick_step longs xs r u = Some (ys, j) \<and> rearranged r u xs ys \<and> r \<le> j \<and> j \<le> u \<and>
    (\<forall>k. r \<le> k \<and> k < j \<longrightarrow> rec_at ys k \<le> rec_at ys j) \<and> (\<forall>k. j < k \<and> k \<le> u \<longrightarrow> rec_at ys j \<le> rec_at ys k)"
proof -
  let ?xs = "exchange_slots r (r + (u - r) div 2) xs"
  have mid: "r + (u - r) div 2 \<le> u" using assms(3) by arith
  have re: "rearranged r u xs ?xs"
    using mid assms by (intro exchange_rearranged) (auto simp: slots_ok_def)
  have ok: "slots_ok longs h ?xs" using rearranged_slots_ok [OF re assms(1,2,4)] .
  have start: "partitioned r (r + 1) u u ?xs" by (auto simp: partitioned_def)
  obtain ys j where ys: "partition_loop longs ?xs r (r + 1) u = Some (ys, j)" "rearranged (r + 1) u ?xs ys"
      "r \<le> j" "j \<le> u" "partitioned r (j + 1) j u ys"
    using partition_loop_partitions [OF ok assms(2) _ _ order.refl assms(4) _ start] assms(3) by auto
  let ?zs = "exchange_slots r j ys"
  have len: "length ys = Suc h" using ys(2) ok by (simp add: rearranged_def slots_ok_def)
  then have rj: "r < length ys" "j < length ys" using ys(3,4) assms(3,4) by auto
  have "rearranged r u ys ?zs" using ys(3,4) len assms by (intro exchange_rearranged) auto
  then have "rearranged r u xs ?zs"
    using rearranged_trans [OF re rearranged_trans [OF rearranged_widen [OF ys(2)]]] by auto
  moreover have "rec_at ?zs k \<le> rec_at ?zs j" if "r \<le> k" "k < j" for k
    using that ys(5) ys(3) unfolding exchange_at(1) [OF rj] by (auto simp: partitioned_def)
  moreover have "rec_at ?zs j \<le> rec_at ?zs k" if "j < k" "k \<le> u" for k
    using that ys(5) ys(3) unfolding exchange_at(1) [OF rj] by (auto simp: partitioned_def)
  ultimately show ?thesis
    using ys(1,3,4) by (intro exI [of _ ?zs] exI [of _ j]) (auto simp: quick_step_def)
qed


section \<open>Cuts and the stack\<close>

definition cut :: "nat \<Rightarrow> slot list \<Rightarrow> nat \<Rightarrow> bool" where
  "cut h xs a \<longleftrightarrow> (\<forall>x y. 0 < x \<and> x \<le> a \<and> a < y \<and> y < h \<longrightarrow> rec_at xs x \<le> rec_at xs y)"

definition settled :: "nat \<Rightarrow> slot list \<Rightarrow> nat \<Rightarrow> bool" where
  "settled h xs a \<longleftrightarrow> cut h xs a \<or> cut h xs (a - 1) \<and> cut h xs (a + 1)"

definition interval_ok :: "nat \<Rightarrow> slot list \<Rightarrow> nat \<times> nat \<Rightarrow> bool" where
  "interval_ok h xs = (\<lambda>(l, u). 0 < l \<and> l \<le> u + 1 \<and> u < h \<and> cut h xs (l - 1) \<and> cut h xs u)"

definition apart :: "nat \<times> nat \<Rightarrow> nat \<times> nat \<Rightarrow> bool" where
  "apart = (\<lambda>(l, u) (l', u'). u < l' \<or> u' < l)"

definition stack_ok :: "nat \<Rightarrow> slot list \<Rightarrow> (nat \<times> nat) list \<Rightarrow> bool" where
  "stack_ok h xs st \<longleftrightarrow> list_all (interval_ok h xs) st \<and> sorted_wrt apart st \<and>
     (\<forall>a. settled h xs a \<or> (\<exists>(l, u)\<in>set st. l \<le> a \<and> a < u))"

lemma cut_rearranged:
  assumes "rearranged l u xs ys" "cut h xs a" "a < l \<or> u \<le> a" "0 < l" "u < h"
  shows "cut h ys a"
  unfolding cut_def
proof (intro allI impI)
  have origin: "\<exists>k'. (k' \<le> a \<longleftrightarrow> k \<le> a) \<and> 0 < k' \<and> k' < h \<and> rec_at ys k = rec_at xs k'" if "0 < k" "k < h" for k
  proof (cases "l \<le> k \<and> k \<le> u")
    case True
    then obtain k' where "l \<le> k'" "k' \<le> u" "rec_at ys k = rec_at xs k'" using assms(1) unfolding rearranged_def by blast
    then show ?thesis using True assms(3-5) by (intro exI [of _ k']) auto
  next
    case False
    then show ?thesis using assms(1) that unfolding rearranged_def by (intro exI [of _ k]) (auto simp: not_le)
  qed
  fix x y assume xy: "0 < x \<and> x \<le> a \<and> a < y \<and> y < h"
  obtain x' where x': "x' \<le> a" "0 < x'" "rec_at ys x = rec_at xs x'" using origin [of x] xy by auto
  obtain y' where y': "\<not> y' \<le> a" "y' < h" "rec_at ys y = rec_at xs y'" using origin [of y] xy by auto
  show "rec_at ys x \<le> rec_at ys y" using assms(2) x' y' by (auto simp: cut_def)
qed

lemma cut_ends: "cut h xs 0" "h \<le> a + 1 \<Longrightarrow> cut h xs a"
  by (auto simp: cut_def)

lemma interval_rearranged:
  assumes "rearranged l u xs ys" "interval_ok h xs i" "apart (l, u) i" "0 < l" "u < h"
  shows "interval_ok h ys i"
proof -
  obtain l' u' where i: "i = (l', u')" by (cases i)
  then have "l' - 1 < l \<or> u \<le> l' - 1" "u' < l \<or> u \<le> u'"
    using assms(2,3) by (auto simp: interval_ok_def apart_def)
  then show ?thesis
    using assms(2) cut_rearranged [OF assms(1) _ _ assms(4,5)] by (auto simp: interval_ok_def i)
qed

lemma settled_rearranged:
  assumes "rearranged l u xs ys" "settled h xs a" "a < l \<or> u \<le> a" "0 < l" "u < h" "cut h xs (l - 1)" "cut h xs u"
  shows "settled h ys a"
proof -
  note cut = cut_rearranged [OF assms(1) _ _ assms(4,5)]
  consider "a + 1 < l" | "a + 1 = l" | "a = u" | "u < a" using assms(3) by linarith
  then show ?thesis
  proof cases
    case 1
    then have "a - 1 < l" by simp
    then show ?thesis using 1 assms(2) cut [of a] cut [of "a - 1"] cut [of "a + 1"] by (auto simp: settled_def)
  next
    case 2
    then show ?thesis using assms(6) cut [of a] by (auto simp: settled_def)
  next
    case 3
    then show ?thesis using assms(7) cut [of a] by (auto simp: settled_def)
  next
    case 4
    then have "u \<le> a - 1" by simp
    then show ?thesis using 4 assms(2) cut [of a] cut [of "a - 1"] cut [of "a + 1"] by (auto simp: settled_def)
  qed
qed

text \<open>An interval of one or two records leaves the stack.\<close>

lemma stack_pop:
  assumes "stack_ok h xs ((r, u) # st)" "u < r + 2"
  shows "stack_ok h xs st"
proof -
  have "settled h xs a \<or> (\<exists>(l, v)\<in>set st. l \<le> a \<and> a < v)" for a
  proof (cases "r \<le> a \<and> a < u")
    case True
    then have "a = r" "u = r + 1" using assms(2) by auto
    then show ?thesis using assms(1) by (auto simp: stack_ok_def interval_ok_def settled_def)
  next
    case False
    then show ?thesis using assms(1) unfolding stack_ok_def by auto
  qed
  then show ?thesis using assms(1) by (simp add: stack_ok_def)
qed

lemma stack_split:
  assumes "stack_ok h xs ((r, u) # st)" "rearranged r u xs ys" "r \<le> j" "j \<le> u"
    and left: "\<forall>k. r \<le> k \<and> k < j \<longrightarrow> rec_at ys k \<le> rec_at ys j"
    and right: "\<forall>k. j < k \<and> k \<le> u \<longrightarrow> rec_at ys j \<le> rec_at ys k"
  shows "stack_ok h ys ((j + 1, u) # (r, j - 1) # st)" "stack_ok h ys ((r, j - 1) # (j + 1, u) # st)"
proof -
  have ru: "0 < r" "u < h" "cut h xs (r - 1)" "cut h xs u" using assms(1) by (auto simp: stack_ok_def interval_ok_def)
  note cut = cut_rearranged [OF assms(2) _ _ ru(1,2)]
  have outer: "cut h ys (r - 1)" "cut h ys u" using ru cut by auto
  have inner: "cut h ys a" if a: "a = j \<or> a = j - 1" for a
    unfolding cut_def
  proof (intro allI impI)
    fix x y assume xy: "0 < x \<and> x \<le> a \<and> a < y \<and> y < h"
    consider "x < r" "r \<le> y" | "x < r" "y < r" | "r \<le> x" "u < y" | "r \<le> x" "y \<le> u" by linarith
    then show "rec_at ys x \<le> rec_at ys y"
    proof cases
      case 1
      then have "x \<le> r - 1" "r - 1 < y" using ru(1) by auto
      then show ?thesis using outer(1) xy unfolding cut_def by blast
    next
      case 2
      then show ?thesis using xy a assms(3) by auto
    next
      case 3
      then show ?thesis using outer(2) xy a assms(4) unfolding cut_def by auto
    next
      case 4
      then have "rec_at ys x \<le> rec_at ys j" "rec_at ys j \<le> rec_at ys y"
        using left right xy a by (cases "x = j"; cases "y = j"; auto)+
      then show ?thesis by simp
    qed
  qed
  have "list_all (interval_ok h ys) ((j + 1, u) # (r, j - 1) # st)"
  proof -
    have "list_all (interval_ok h ys) st"
      using assms(1) interval_rearranged [OF assms(2) _ _ ru(1,2)] by (auto simp: stack_ok_def list_all_iff)
    then show ?thesis using ru outer inner assms(3,4) by (auto simp: interval_ok_def)
  qed
  moreover have "apart (j + 1, u) i \<and> apart (r, j - 1) i" if "i \<in> set st" for i
    using assms(1,3,4) that ru(1) by (cases i) (fastforce simp: stack_ok_def apart_def)
  moreover have "apart (j + 1, u) (r, j - 1)" "apart (r, j - 1) (j + 1, u)" using ru(1) assms(3) by (auto simp: apart_def)
  moreover have "settled h ys a \<or> (\<exists>(l, v)\<in>set ((j + 1, u) # (r, j - 1) # st). l \<le> a \<and> a < v)" for a
  proof (cases "r \<le> a \<and> a < u")
    case True
    consider "a = j \<or> a = j - 1" | "j < a" | "a < j - 1" by linarith
    then show ?thesis using True inner by cases (auto simp: settled_def)
  next
    case False
    then have "settled h xs a \<or> (\<exists>(l, v)\<in>set st. l \<le> a \<and> a < v)" "a < r \<or> u \<le> a"
      using assms(1) unfolding stack_ok_def by auto
    then show ?thesis using settled_rearranged [OF assms(2) _ _ ru] by auto
  qed
  ultimately show "stack_ok h ys ((j + 1, u) # (r, j - 1) # st)" "stack_ok h ys ((r, j - 1) # (j + 1, u) # st)"
    using assms(1) by (auto simp: stack_ok_def)
qed

text \<open>Each interval is at most half of what was there when its place on the stack was last taken.\<close>

fun stack_fits :: "nat \<Rightarrow> (nat \<times> nat) list \<Rightarrow> bool" where
  "stack_fits n [] \<longleftrightarrow> True"
| "stack_fits n ((l, u) # st) \<longleftrightarrow> (u + 1 - l) * 2 ^ length st \<le> n \<and> stack_fits n st"

lemma stack_fits_split:
  assumes "stack_fits n ((r, u) # st)" "0 < r" "r \<le> j" "j \<le> u"
  shows "stack_fits n (if u - j + 1 < j - r then (j + 1, u) # (r, j - 1) # st else (r, j - 1) # (j + 1, u) # st)"
proof -
  have top: "(u + 1 - r) * 2 ^ length st \<le> n" "stack_fits n st" using assms(1) by simp_all
  have split: "a * 2 ^ length st \<le> n" "b * 2 ^ Suc (length st) \<le> n" if "a \<le> u + 1 - r" "2 * b \<le> u + 1 - r" for a b
    using order.trans [OF mult_le_mono1 [OF that(1), of "2 ^ length st"] top(1)]
      order.trans [OF mult_le_mono1 [OF that(2), of "2 ^ length st"] top(1)] by (simp_all only: power_Suc ac_simps)
  have sizes: "j - 1 + 1 - r = j - r" "u + 1 - (j + 1) = u - j" using assms(2,3) by simp_all
  show ?thesis
  proof (cases "u - j + 1 < j - r")
    case True
    then have "j - r \<le> u + 1 - r" "2 * (u - j) \<le> u + 1 - r" using assms(3,4) by arith+
    then show ?thesis using split [of "j - r" "u - j"] True top(2) sizes by simp
  next
    case False
    then have "u - j \<le> u + 1 - r" "2 * (j - r) \<le> u + 1 - r" using assms(3,4) by arith+
    then show ?thesis using split [of "u - j" "j - r"] False top(2) sizes by simp
  qed
qed

lemma stack_fits_room:
  assumes "stack_fits n ((r, u) # st)" "r + 2 \<le> u" "n < 2 ^ 32"
  shows "length st + 2 \<le> STACK_SIZE"
proof -
  have "1 * 2 ^ length st \<le> (u + 1 - r) * 2 ^ length st" using assms(2) by (intro mult_le_mono1) simp
  also have "\<dots> \<le> n" using assms(1) by simp
  also have "\<dots> < 2 ^ 32" by (rule assms(3))
  finally have "(2 :: nat) ^ length st < 2 ^ 32" by (simp only: mult_1)
  then have "length st < 32" by (rule power_less_imp_less_exp [rotated]) simp
  then show ?thesis by (simp add: STACK_SIZE_def)
qed

section \<open>quick and the pass over neighbours\<close>

definition stack_weight :: "(nat \<times> nat) list \<Rightarrow> nat" where
  "stack_weight st = sum_list (map (\<lambda>(l, u). 2 * (u + 1 - l) + 1) st)"

lemma quick_loop_settles:
  assumes "slots_ok longs (n + 1) xs" "stack_ok (n + 1) xs st" "stack_fits n st" "n < 2 ^ 32"
  shows "\<exists>ys. quick_loop longs st xs = Some ys \<and> rearranged 1 n xs ys \<and> (\<forall>a. settled (n + 1) ys a)"
  using assms
proof (induction "stack_weight st" arbitrary: st xs rule: less_induct)
  case less
  show ?case
  proof (cases st)
    case Nil
    then show ?thesis using less.prems(2) by (subst quick_loop.simps) (simp add: stack_ok_def)
  next
    case (Cons i st')
    obtain r u where i: "i = (r, u)" by (cases i)
    have ru: "0 < r" "u < n + 1" "r \<le> u + 1" using less.prems(2) by (auto simp: Cons i stack_ok_def interval_ok_def)
    show ?thesis
    proof (cases "u < r + 2")
      case True
      have "quick_loop longs st xs = quick_loop longs st' xs"
        using True by (subst quick_loop.simps) (simp add: Cons i)
      moreover have "stack_weight st' < stack_weight st" by (simp add: stack_weight_def Cons i)
      ultimately show ?thesis
        using less.hyps [of st' xs] less.prems stack_pop [of "n + 1" xs r u st'] True by (simp add: Cons i)
    next
      case False
      obtain ys j where ys: "quick_step longs xs r u = Some (ys, j)" "rearranged r u xs ys" "r \<le> j" "j \<le> u"
          "\<forall>k. r \<le> k \<and> k < j \<longrightarrow> rec_at ys k \<le> rec_at ys j" "\<forall>k. j < k \<and> k \<le> u \<longrightarrow> rec_at ys j \<le> rec_at ys k"
        using quick_step_separates [OF less.prems(1) ru(1) _ ru(2)] False by auto
      let ?st = "if u - j + 1 < j - r then (j + 1, u) # (r, j - 1) # st' else (r, j - 1) # (j + 1, u) # st'"
      have step: "quick_loop longs st xs = quick_loop longs ?st ys"
        using stack_fits_room [of n r u st'] less.prems(3,4) False ys(1)
        by (subst quick_loop.simps) (simp add: Cons i)
      have weight: "stack_weight ?st < stack_weight st"
        using ru ys(3,4) by (auto simp: stack_weight_def Cons i)
      have ok: "slots_ok longs (n + 1) ys" using rearranged_slots_ok [OF ys(2) less.prems(1) ru(1,2)] .
      have stack: "stack_ok (n + 1) ys ?st"
        using stack_split [OF _ ys(2-6), of "n + 1" st'] less.prems(2) by (simp add: Cons i)
      have fits: "stack_fits n ?st"
        using stack_fits_split [OF _ ru(1) ys(3,4)] less.prems(3) by (simp only: Cons i)
      have "rearranged 1 n xs ys" using rearranged_widen [OF ys(2)] ru by auto
      then show ?thesis
        using less.hyps [OF weight ok stack fits less.prems(4)] rearranged_trans step by metis
    qed
  qed
qed

lemma quick_settles:
  assumes "slots_ok longs (n + 1) xs" "n < 2 ^ 32"
  shows "\<exists>ys. quick n longs xs = Some ys \<and> rearranged 1 n xs ys \<and> (\<forall>a. settled (n + 1) ys a)"
proof -
  have "settled (n + 1) xs a \<or> 1 \<le> a \<and> a < n" for a
    using cut_ends by (cases a) (auto simp: settled_def not_less)
  then have "stack_ok (n + 1) xs [(1, n)]"
    by (simp add: stack_ok_def interval_ok_def cut_ends)
  then show ?thesis
    unfolding quick_def using assms by (intro quick_loop_settles) simp_all
qed

text \<open>The pass makes the cuts that are missing, from the left.\<close>

lemma fix_pairs_cuts:
  assumes "slots_ok longs h xs" "i + c = h" "0 < i" "\<forall>a<i. cut h xs a" "\<forall>a. settled h xs a"
  shows "rearranged 1 (h - 1) xs (fix_pairs longs c i xs) \<and> (\<forall>a. cut h (fix_pairs longs c i xs) a)"
  using assms
proof (induction c arbitrary: i xs)
  case 0
  then show ?case using cut_ends(2) [of h _ xs] by (metis add.right_neutral fix_pairs.simps(1) le_add1 le_trans not_less rearranged_refl)
next
  case (Suc c)
  let ?ys = "if hd (rec_at xs (i + 1)) \<le> hd (rec_at xs i) \<and> rec_greater longs (rec_at xs i) (rec_at xs (i + 1))
     then exchange_slots i (i + 1) xs else xs"
  have ih: "i < h" "i + 1 \<le> h" using Suc.prems(2) by auto
  have "rec_greater longs (rec_at xs i) (rec_at xs (i + 1)) \<longleftrightarrow> rec_at xs (i + 1) < rec_at xs i"
    using slots_ok_rec(2) [OF Suc.prems(1)] ih by auto
  moreover have "hd (rec_at xs (i + 1)) \<le> hd (rec_at xs i)" if "rec_at xs (i + 1) < rec_at xs i"
    using that slots_ok_rec(1) [OF Suc.prems(1)] ih by (intro hd_le) auto
  ultimately have ys: "?ys = (if rec_at xs (i + 1) < rec_at xs i then exchange_slots i (i + 1) xs else xs)" by auto
  show ?case
  proof (cases "cut h xs i")
    case True
    have "\<not> rec_at xs (i + 1) < rec_at xs i"
    proof (cases "i + 1 = h")
      case True
      then show ?thesis using Suc.prems(1,3) ih by (auto simp: slots_ok_def dest: less_asym)
    next
      case False
      then show ?thesis using \<open>cut h xs i\<close> Suc.prems(3) ih by (auto simp: cut_def not_less)
    qed
    then have "?ys = xs" using ys by simp
    moreover have "\<forall>a<i + 1. cut h xs a" using True Suc.prems(4) by (auto simp: less_Suc_eq)
    ultimately show ?thesis using Suc.IH [of xs "i + 1"] Suc.prems by simp
  next
    case False
    then have next_cut: "cut h xs (i + 1)" using Suc.prems(5) by (auto simp: settled_def)
    have inside: "i + 1 < h" using False cut_ends(2) [of h i xs] ih by (cases "i + 1 = h") auto
    have len: "i < length xs" "i + 1 < length xs" using Suc.prems(1) ih by (auto simp: slots_ok_def)
    have re: "rearranged i (i + 1) xs ?ys"
      unfolding ys using len by (auto intro: exchange_rearranged)
    have ok: "slots_ok longs h ?ys" using rearranged_slots_ok [OF re Suc.prems(1,3) inside] .
    note keep = cut_rearranged [OF re _ _ Suc.prems(3) inside]
    have pair: "rec_at ?ys i \<le> rec_at ?ys (i + 1)"
      unfolding ys using exchange_at(1) [OF len] by (auto simp: not_less)
    have cuts: "cut h ?ys (i - 1)" "cut h ?ys (i + 1)" using keep Suc.prems(3,4) next_cut by auto
    have here: "cut h ?ys i"
      unfolding cut_def
    proof (intro allI impI)
      fix x y assume xy: "0 < x \<and> x \<le> i \<and> i < y \<and> y < h"
      consider "x \<le> i - 1" | "i + 1 < y" | "x = i" "y = i + 1" using xy by linarith
      then show "rec_at ?ys x \<le> rec_at ?ys y"
      proof cases
        case 1
        then show ?thesis using cuts(1) xy unfolding cut_def by auto
      next
        case 2
        then show ?thesis using cuts(2) xy unfolding cut_def by auto
      next
        case 3
        then show ?thesis using pair by simp
      qed
    qed
    have below: "\<forall>a<i + 1. cut h ?ys a" using here keep Suc.prems(4) by (auto simp: less_Suc_eq)
    have settled: "settled h ?ys a" for a
    proof (cases "a \<le> i + 1")
      case True
      then show ?thesis using below cuts(2) by (cases "a = i + 1") (auto simp: settled_def)
    next
      case False
      then show ?thesis using settled_rearranged [OF re _ _ Suc.prems(3) inside _ next_cut] Suc.prems(3,4,5) by auto
    qed
    have "rearranged 1 (h - 1) xs ?ys" using rearranged_widen [OF re] Suc.prems(3) inside by auto
    moreover have "rearranged 1 (h - 1) ?ys (fix_pairs longs c (i + 1) ?ys) \<and> (\<forall>a. cut h (fix_pairs longs c (i + 1) ?ys) a)"
    proof (rule Suc.IH [OF ok _ _ below])
      show "i + 1 + c = h" using Suc.prems(2) by simp
      show "\<forall>a. settled h ?ys a" using settled by blast
    qed simp
    ultimately show ?thesis unfolding fix_pairs.simps(2) using rearranged_trans by blast
  qed
qed

text \<open>Records that a sort may be given: of the right length, and found to be below the upper guard within its 64 longwords.\<close>

definition record_ok :: "nat \<Rightarrow> srec \<Rightarrow> bool" where
  "record_ok longs p \<longleftrightarrow> length p = longs - 1 \<and> take 64 p \<noteq> take 64 (high_key longs)"

lemma record_ok_high_key: "record_ok longs p \<Longrightarrow> length p = longs - 1 \<and> p \<noteq> high_key longs"
  by (auto simp: record_ok_def)

lemma below_high_key: "length p = m \<Longrightarrow> p \<noteq> replicate m (- 1) \<Longrightarrow> p < (replicate m (- 1) :: srec)"
proof (induction m arbitrary: p)
  case (Suc m)
  then obtain w q where p: "p = w # q" "length q = m" by (cases p) auto
  have "w \<le> - 1" by simp
  then show ?case using Suc p by (cases "w = - 1") (auto simp: less_le)
qed simp

lemma pointers_ok:
  assumes "1 < longs" "\<forall>p\<in>set recs. record_ok longs p"
  shows "slots_ok longs (length recs + 1) (pointers longs recs)" "backs_ok (length recs + 1) (pointers longs recs)"
    "map snd (pointers longs recs) = low_key longs # recs @ [high_key longs]"
proof -
  show snd: "map snd (pointers longs recs) = low_key longs # recs @ [high_key longs]" by (simp add: pointers_def)
  have at: "rec_at (pointers longs recs) k = (low_key longs # recs @ [high_key longs]) ! k" if "k \<le> length recs + 1" for k
    using that by (simp add: pointers_def)
  have rec: "length (recs ! k) = longs - 1 \<and> recs ! k \<noteq> high_key longs" if "k < length recs" for k
    using assms(2) that by (intro record_ok_high_key) simp
  show "slots_ok longs (length recs + 1) (pointers longs recs)"
    using assms(1) rec below_high_key [of _ "longs - 1"]
    by (auto simp: slots_ok_def at nth_Cons nth_append low_key_def high_key_def pointers_def split: nat.split)
  show "backs_ok (length recs + 1) (pointers longs recs)" by (simp add: backs_ok_def pointers_def del: upt_Suc)
qed


section \<open>The sort in memory\<close>

lemma map_snd_guards:
  assumes "length zs = n + 2"
  shows "map snd zs = rec_at zs 0 # map (rec_at zs) [1..<n + 1] @ [rec_at zs (n + 1)]"
proof (rule nth_equalityI)
  fix k assume "k < length (map snd zs)"
  then show "map snd zs ! k = (rec_at zs 0 # map (rec_at zs) [1..<n + 1] @ [rec_at zs (n + 1)]) ! k"
    using assms by (cases k) (auto simp: nth_append less_Suc_eq simp del: upt_Suc)
qed (use assms in simp)

lemma sort_slots_sorts:
  assumes "1 < longs" "\<forall>p\<in>set recs. record_ok longs p" "length recs < 2 ^ 32"
  shows "\<exists>xs. sort_slots longs recs = Some xs \<and> length xs = length recs + 2 \<and> backs_ok (length recs + 1) xs \<and>
    (\<exists>out. map snd xs = low_key longs # out @ [high_key longs] \<and> sorted out \<and> mset out = mset recs)"
proof -
  let ?n = "length recs" and ?ps = "pointers longs recs"
  note ps = pointers_ok [OF assms(1,2)]
  obtain ys where ys: "quick ?n longs ?ps = Some ys" "rearranged 1 ?n ?ps ys" "\<forall>a. settled (?n + 1) ys a"
    using quick_settles [OF ps(1) assms(3)] by blast
  have ok: "slots_ok longs (?n + 1) ys" using rearranged_slots_ok [OF ys(2) ps(1)] by simp
  let ?xs = "fix_pairs longs ?n 1 ys"
  have fixed: "rearranged 1 ?n ys ?xs" "\<forall>a. cut (?n + 1) ?xs a"
    using fix_pairs_cuts [OF ok, of 1 ?n] ys(3) cut_ends(1) by auto
  have re: "rearranged 1 ?n ?ps ?xs" using rearranged_trans [OF ys(2) fixed(1)] .
  define out where "out = map (rec_at ?xs) [1..<?n + 1]"
  have len: "length ?xs = ?n + 2" using re ps(1) by (simp add: rearranged_def slots_ok_def)
  have "?xs ! 0 = ?ps ! 0" "?xs ! (?n + 1) = ?ps ! (?n + 1)" using re unfolding rearranged_def by auto
  moreover have "rec_at ?ps 0 = low_key longs" "rec_at ?ps (?n + 1) = high_key longs"
    by (simp_all add: pointers_def nth_append del: upt_Suc)
  ultimately have parts: "map snd ?xs = low_key longs # out @ [high_key longs]"
    using map_snd_guards [OF len] by (simp only: out_def)
  then have "mset out = mset recs" using re ps(3) by (simp add: rearranged_def del: mset_map)
  moreover have "rec_at ?xs x \<le> rec_at ?xs y" if "0 < x" "x < y" "y < ?n + 1" for x y
    using fixed(2) that unfolding cut_def by blast
  then have "sorted out" by (auto simp: out_def sorted_wrt_iff_nth_less simp del: upt_Suc)
  moreover have "backs_ok (?n + 1) ?xs" using re ps(2) unfolding rearranged_def by blast
  ultimately show ?thesis using ys(1) len parts by (auto simp: sort_slots_def)
qed

end
