(* ===== verification/Sort_Run.thy ===== *)
theory Sort_Run
  imports Sort_Quick
begin

text \<open>
  Streams of sorted records: what is left of the records when duplicates are rejected, the contract of a source of
  records, and the merge tree, which meets it.
\<close>

section \<open>What is left of the records\<close>

text \<open>The callback of a sort that is to give one record of each key.\<close>

definition reject :: "srec \<Rightarrow> srec \<Rightarrow> bool" where "reject p q = True"

definition kept :: "nat \<Rightarrow> dup_callback \<Rightarrow> srec list \<Rightarrow> srec list \<Rightarrow> bool" where
  "kept K callback xs ys \<longleftrightarrow>
     set ys \<subseteq> set xs \<and> take K ` set ys = take K ` set xs \<and> (callback = None \<longrightarrow> mset ys = mset xs)"

definition before :: "nat \<Rightarrow> dup_callback \<Rightarrow> srec \<Rightarrow> srec \<Rightarrow> bool" where
  "before K callback p q \<longleftrightarrow> (if callback = None then take K p \<le> take K q else take K p < take K q)"

lemma before_trans: "before K callback p q \<Longrightarrow> before K callback q r \<Longrightarrow> before K callback p r"
  by (auto simp: before_def split: if_split_asm)

lemma before_le: "before K callback p q \<Longrightarrow> take K p \<le> take K q"
  by (auto simp: before_def split: if_split_asm)

lemma kept_refl [simp]: "kept K callback xs xs"
  by (simp add: kept_def)

lemma kept_trans: "kept K callback xs ys \<Longrightarrow> kept K callback ys zs \<Longrightarrow> kept K callback xs zs"
  unfolding kept_def by (elim conjE, intro conjI) (erule (1) subset_trans, simp_all)

lemma kept_append:
  assumes "kept K callback xs xs'" "kept K callback ys ys'"
  shows "kept K callback (xs @ ys) (xs' @ ys')"
proof -
  have sub: "set xs' \<subseteq> set xs" "set ys' \<subseteq> set ys" using assms by (simp_all add: kept_def)
  have eq: "take K ` set xs' = take K ` set xs" "take K ` set ys' = take K ` set ys" using assms by (simp_all add: kept_def)
  have "callback = None \<longrightarrow> mset (xs' @ ys') = mset (xs @ ys)" using assms by (simp add: kept_def)
  then show ?thesis using Un_mono [OF sub] eq by (simp add: kept_def image_Un)
qed

lemma kept_Cons: "kept K callback xs ys \<Longrightarrow> kept K callback (x # xs) (x # ys)"
  using kept_append [of K callback "[x]" "[x]" xs ys] by simp

lemma kept_mset: "mset ys = mset xs \<Longrightarrow> kept K callback xs ys"
  using mset_eq_setD [of ys xs] by (simp add: kept_def)

lemma kept_Nil: "kept K callback xs [] \<longleftrightarrow> xs = []"
  by (simp add: kept_def) blast

lemma before_kept:
  "kept K callback ys zs \<Longrightarrow> \<forall>y\<in>set ys. before K callback x y \<Longrightarrow> \<forall>z\<in>set zs. before K callback x z"
  by (auto simp: kept_def)

section \<open>Sources of records\<close>

text \<open>What \<open>SORT_get\<close> promises its caller, and a stream the node of the tree above it.\<close>

locale record_source =
  fixes get :: "'s \<Rightarrow> (srec option \<times> 's) option"
    and pending :: "'s \<Rightarrow> srec list"
    and ok :: "'s \<Rightarrow> bool"
    and K :: nat
    and callback :: dup_callback
  assumes get_next: "ok s \<Longrightarrow> \<exists>r s'. get s = Some (r, s') \<and> ok s' \<and>
    (case r of
       None \<Rightarrow> pending s = []
     | Some x \<Rightarrow> kept K callback (pending s) (x # pending s') \<and> (\<forall>y\<in>set (pending s'). before K callback x y) \<and>
         length (pending s') < length (pending s))"
begin

lemma drain_sorted:
  assumes "ok s"
  shows "\<exists>out. drain get s = Some out \<and> kept K callback (pending s) out \<and> sorted_wrt (before K callback) out \<and>
    length out \<le> length (pending s)"
  using assms
proof (induction "length (pending s)" arbitrary: s rule: less_induct)
  case less
  obtain r s' where g: "get s = Some (r, s')" "ok s'"
    "case r of None \<Rightarrow> pending s = []
     | Some x \<Rightarrow> kept K callback (pending s) (x # pending s') \<and> (\<forall>y\<in>set (pending s'). before K callback x y) \<and>
         length (pending s') < length (pending s)"
    using get_next [OF less.prems] by blast
  show ?case
  proof (cases r)
    case None
    then show ?thesis using g by (subst drain.simps) simp
  next
    case (Some x)
    then obtain out where out: "drain get s' = Some out" "kept K callback (pending s') out"
      "sorted_wrt (before K callback) out" "length out \<le> length (pending s')"
      using less.hyps [of s'] g by auto
    have "kept K callback (pending s) (x # out)"
      using g(3) Some kept_trans kept_Cons [OF out(2)] by fastforce
    moreover have "sorted_wrt (before K callback) (x # out)"
      using g(3) Some out(3) before_kept [OF out(2)] by simp
    ultimately show ?thesis using g out Some by (subst drain.simps) auto
  qed
qed

end

section \<open>Streams\<close>

fun stream_records :: "stream \<Rightarrow> srec list" where
  "stream_records (Run xs) = xs"
| "stream_records (Mrg ra sa rb sb) =
     (case ra of None \<Rightarrow> [] | Some x \<Rightarrow> [x]) @ (case sa of None \<Rightarrow> [] | Some s \<Rightarrow> stream_records s) @
     (case rb of None \<Rightarrow> [] | Some x \<Rightarrow> [x]) @ (case sb of None \<Rightarrow> [] | Some s \<Rightarrow> stream_records s)"

fun height :: "stream \<Rightarrow> nat" where
  "height (Run xs) = 0"
| "height (Mrg ra sa rb sb) =
     Suc (max (case sa of None \<Rightarrow> 0 | Some s \<Rightarrow> height s) (case sb of None \<Rightarrow> 0 | Some s \<Rightarrow> height s))"

definition side_records :: "srec option \<Rightarrow> stream option \<Rightarrow> srec list" where
  "side_records r s = (case r of None \<Rightarrow> [] | Some x \<Rightarrow> [x]) @ (case s of None \<Rightarrow> [] | Some s \<Rightarrow> stream_records s)"

definition head_ok :: "nat \<Rightarrow> dup_callback \<Rightarrow> srec option \<Rightarrow> stream option \<Rightarrow> bool" where
  "head_ok K callback r s \<longleftrightarrow> (case r of None \<Rightarrow> True
     | Some x \<Rightarrow> K \<le> length x \<and> (case s of None \<Rightarrow> True | Some s \<Rightarrow> \<forall>y\<in>set (stream_records s). before K callback x y))"

fun stream_ok :: "nat \<Rightarrow> dup_callback \<Rightarrow> stream \<Rightarrow> bool" where
  "stream_ok K callback (Run xs) \<longleftrightarrow> (\<forall>x\<in>set xs. K \<le> length x) \<and> sorted_wrt (before K callback) xs"
| "stream_ok K callback (Mrg ra sa rb sb) \<longleftrightarrow>
     head_ok K callback ra sa \<and> (case sa of None \<Rightarrow> True | Some s \<Rightarrow> stream_ok K callback s) \<and>
     head_ok K callback rb sb \<and> (case sb of None \<Rightarrow> True | Some s \<Rightarrow> stream_ok K callback s)"


text \<open>A node of the tree asks the stream on a side that lacks a record.\<close>

definition refill :: "(stream \<Rightarrow> (srec option \<times> stream) option) \<Rightarrow> srec option \<Rightarrow> stream option \<Rightarrow>
    (srec option \<times> stream option) option" where
  "refill get ra sa = (case (ra, sa) of
       (None, Some s) \<Rightarrow> Option.bind (get s) (\<lambda>(r, s'). Some (r, if r = None then None else Some s'))
     | _ \<Rightarrow> Some (ra, sa))"

definition next_ok :: "nat \<Rightarrow> dup_callback \<Rightarrow> stream \<Rightarrow> bool" where
  "next_ok K callback t \<longleftrightarrow> (\<exists>r t'. get_merge K callback t = Some (r, t') \<and> stream_ok K callback t' \<and> height t' \<le> height t \<and>
    (case r of
       None \<Rightarrow> stream_records t = []
     | Some x \<Rightarrow> K \<le> length x \<and> kept K callback (stream_records t) (x # stream_records t') \<and>
         (\<forall>y\<in>set (stream_records t'). before K callback x y) \<and>
         length (stream_records t') < length (stream_records t)))"

definition side_height :: "stream option \<Rightarrow> nat" where
  "side_height s = (case s of None \<Rightarrow> 0 | Some s \<Rightarrow> height s)"

definition side_ok :: "nat \<Rightarrow> dup_callback \<Rightarrow> srec option \<Rightarrow> stream option \<Rightarrow> bool" where
  "side_ok K callback r s \<longleftrightarrow> head_ok K callback r s \<and> (case s of None \<Rightarrow> True | Some s \<Rightarrow> stream_ok K callback s)"

lemma stream_sides:
  "stream_records (Mrg ra sa rb sb) = side_records ra sa @ side_records rb sb"
  "stream_ok K callback (Mrg ra sa rb sb) \<longleftrightarrow> side_ok K callback ra sa \<and> side_ok K callback rb sb"
  "height (Mrg ra sa rb sb) = Suc (max (side_height sa) (side_height sb))"
  by (simp_all add: side_records_def side_ok_def side_height_def)

lemma refill_side:
  assumes "side_ok K callback ra sa" "\<And>s. sa = Some s \<Longrightarrow> stream_ok K callback s \<Longrightarrow> next_ok K callback s"
  shows "\<exists>r s. refill (get_merge K callback) ra sa = Some (r, s) \<and> side_ok K callback r s \<and> side_height s \<le> side_height sa \<and>
    kept K callback (side_records ra sa) (side_records r s) \<and> length (side_records r s) \<le> length (side_records ra sa) \<and>
    (r = None \<longrightarrow> side_records r s = [])"
proof (cases "ra = None \<and> sa \<noteq> None")
  case True
  then obtain s where s: "ra = None" "sa = Some s" by blast
  obtain r t where t: "get_merge K callback s = Some (r, t)" "stream_ok K callback t" "height t \<le> height s"
    "case r of
       None \<Rightarrow> stream_records s = []
     | Some x \<Rightarrow> K \<le> length x \<and> kept K callback (stream_records s) (x # stream_records t) \<and>
         (\<forall>y\<in>set (stream_records t). before K callback x y) \<and> length (stream_records t) < length (stream_records s)"
    using assms s unfolding next_ok_def side_ok_def by fastforce
  then show ?thesis using s
    by (cases r) (auto simp: refill_def side_ok_def head_ok_def side_height_def side_records_def)
next
  case False
  then have "refill (get_merge K callback) ra sa = Some (ra, sa)" "ra = None \<longrightarrow> side_records ra sa = []"
    by (auto simp: refill_def side_records_def split: option.split)
  then show ?thesis using assms(1) by (intro exI [of _ ra] exI [of _ sa]) simp
qed

lemma compare_32_take:
  assumes "0 < K" "K \<le> length p" "K \<le> length q" "compare_32 K p q = (v, w)"
  shows "v = w \<longleftrightarrow> take K p = take K q" "v < w \<longleftrightarrow> take K p < take K q"
proof -
  have "(v = w \<longleftrightarrow> take K p = take K q) \<and> (v < w \<longleftrightarrow> take K p < take K q)"
    using assms
  proof (induction K p q rule: compare_32.induct)
    case (2 p q)
    then show ?case by (cases p; cases q) auto
  next
    case (3 n p q)
    then show ?case by (cases p; cases q) (auto split: if_split_asm)
  qed simp
  then show "v = w \<longleftrightarrow> take K p = take K q" "v < w \<longleftrightarrow> take K p < take K q" by blast+
qed

lemma get_merge_run: "get_merge K callback (Run xs) = Some (case xs of [] \<Rightarrow> (None, Run []) | x # xs \<Rightarrow> (Some x, Run xs))"
  by (subst get_merge.simps) (simp split: list.split)

lemma get_merge_mrg:
  "get_merge K callback (Mrg ra sa rb sb) =
     Option.bind (refill (get_merge K callback) ra sa) (\<lambda>(ra, sa).
     Option.bind (refill (get_merge K callback) rb sb) (\<lambda>(rb, sb).
       (case (ra, rb) of
          (None, None) \<Rightarrow> Some (None, Mrg None sa None sb)
        | (Some a, None) \<Rightarrow> Some (Some a, Mrg None sa None sb)
        | (None, Some b) \<Rightarrow> Some (Some b, Mrg None sa None sb)
        | (Some a, Some b) \<Rightarrow>
            (case compare_32 K a b of (v, w) \<Rightarrow>
               if v = w \<and> callback \<noteq> None \<and> the callback a b then get_merge K callback (Mrg None sa rb sb)
               else if v < w then Some (Some a, Mrg None sa rb sb)
               else Some (Some b, Mrg ra sa None sb)))))"
  by (subst get_merge.simps) (simp add: refill_def)

lemma side_head:
  assumes "side_ok K callback (Some x) s"
  shows "side_ok K callback None s" "side_records (Some x) s = x # side_records None s" "K \<le> length x"
    "\<forall>y\<in>set (side_records None s). before K callback x y"
  using assms by (auto simp: side_ok_def head_ok_def side_records_def split: option.split_asm)

lemma before_all:
  "before K callback x y \<Longrightarrow> \<forall>z\<in>set zs. before K callback y z \<Longrightarrow> \<forall>z\<in>set zs. before K callback x z"
  by (blast intro: before_trans)

text \<open>A record that comes before all others is given and taken off its side.\<close>

lemma next_okI:
  assumes "get_merge K callback t = Some (Some x, t')" "stream_ok K callback t'" "height t' \<le> height t"
    "kept K callback (stream_records t) xs" "length xs \<le> length (stream_records t)"
    "mset xs = mset (x # stream_records t')" "K \<le> length x" "\<forall>y\<in>set (stream_records t'). before K callback x y"
  shows "next_ok K callback t"
proof -
  have "kept K callback (stream_records t) (x # stream_records t')"
    using kept_trans [OF assms(4) kept_mset] assms(6) by simp
  moreover have "length (stream_records t') < length (stream_records t)"
    using assms(5,6) by (metis size_mset length_Cons Suc_le_lessD)
  ultimately show ?thesis using assms unfolding next_ok_def by auto
qed

text \<open>Both sides have a record.\<close>

lemma both_sides:
  assumes K: "0 < K" "callback = None \<or> callback = Some reject"
    and ok: "side_ok K callback (Some x) s1" "side_ok K callback (Some y) s2"
    and step: "get_merge K callback t = (case compare_32 K x y of (v, w) \<Rightarrow>
      if v = w \<and> callback \<noteq> None \<and> the callback x y then get_merge K callback (Mrg None s1 (Some y) s2)
      else if v < w then Some (Some x, Mrg None s1 (Some y) s2) else Some (Some y, Mrg (Some x) s1 None s2))"
    and all: "kept K callback (stream_records t) (side_records (Some x) s1 @ side_records (Some y) s2)"
      "length (side_records (Some x) s1 @ side_records (Some y) s2) \<le> length (stream_records t)"
    and ht: "height (Mrg None s1 (Some y) s2) \<le> height t" "height (Mrg None s1 (Some y) s2) \<le> height t"
      "height (Mrg (Some x) s1 None s2) \<le> height t"
    and again: "stream_ok K callback (Mrg None s1 (Some y) s2) \<Longrightarrow> next_ok K callback (Mrg None s1 (Some y) s2)"
  shows "next_ok K callback t"
proof -
  note x = side_head [OF ok(1)] and y = side_head [OF ok(2)]
  obtain v w where vw: "compare_32 K x y = (v, w)" by fastforce
  note cmp = compare_32_take [OF K(1) x(3) y(3) vw]
  have oks: "stream_ok K callback (Mrg None s1 (Some y) s2)" "stream_ok K callback (Mrg (Some x) s1 None s2)"
    unfolding stream_sides using ok x(1) y(1) by simp_all
  consider (eq) "v = w" "callback \<noteq> None" | (less) "v < w" | (greater) "\<not> v < w" "v = w \<longrightarrow> callback = None" by metis
  then show ?thesis
  proof cases
    case eq
    let ?u = "Mrg None s1 (Some y) s2"
    have same: "get_merge K callback t = get_merge K callback ?u" using step vw eq K(2) by (auto simp: reject_def)
    have "kept K callback (side_records (Some x) s1 @ side_records (Some y) s2) (stream_records ?u)"
      using eq cmp(1) unfolding stream_sides x(2) y(2) kept_def by auto
    then have "kept K callback (stream_records t) (stream_records ?u)" using all(1) kept_trans by blast
    moreover have "length (stream_records ?u) \<le> length (stream_records t)"
      using all(2) unfolding stream_sides x(2) y(2) by simp
    ultimately show ?thesis using again [OF oks(1)] same ht(1) kept_trans unfolding next_ok_def
      by (fastforce simp del: stream_records.simps height.simps simp: kept_Nil split: option.splits)
  next
    case less
    then have xy: "before K callback x y" using cmp(2) by (simp add: before_def less_imp_le)
    show ?thesis
    proof (rule next_okI [OF _ oks(1) ht(1) all])
      show "get_merge K callback t = Some (Some x, Mrg None s1 (Some y) s2)" using step vw less less_imp_neq [OF less] by simp
      show "mset (side_records (Some x) s1 @ side_records (Some y) s2) = mset (x # stream_records (Mrg None s1 (Some y) s2))"
        unfolding stream_sides x(2) by simp
      show "\<forall>z\<in>set (stream_records (Mrg None s1 (Some y) s2)). before K callback x z"
        unfolding stream_sides y(2) using x(4) xy before_all [OF xy y(4)] by auto
    qed (rule x(3))
  next
    case greater
    then have yx: "before K callback y x" using cmp by (auto simp: before_def)
    show ?thesis
    proof (rule next_okI [OF _ oks(2) ht(3) all])
      show "get_merge K callback t = Some (Some y, Mrg (Some x) s1 None s2)" using step vw greater by auto
      show "mset (side_records (Some x) s1 @ side_records (Some y) s2) = mset (y # stream_records (Mrg (Some x) s1 None s2))"
        unfolding stream_sides y(2) by simp
      show "\<forall>z\<in>set (stream_records (Mrg (Some x) s1 None s2)). before K callback y z"
        unfolding stream_sides x(2) using y(4) yx before_all [OF yx x(4)] by auto
    qed (rule y(3))
  qed
qed

lemma get_merge_next:
  assumes "0 < K" "callback = None \<or> callback = Some reject" "stream_ok K callback t"
  shows "next_ok K callback t"
  using assms(3)
proof (induction t rule: wf_induct_rule [OF wf_measures, of "[height, \<lambda>t. length (stream_records t)]"])
  case (1 t)
  show ?case
  proof (cases t)
    case (Run xs)
    then show ?thesis using 1(2) by (cases xs) (auto simp: next_ok_def get_merge_run)
  next
    case (Mrg ra sa rb sb)
    have sides: "side_ok K callback ra sa" "side_ok K callback rb sb" using 1(2) Mrg by (simp_all only: stream_sides)
    have below: "next_ok K callback s" if "stream_ok K callback s" "sa = Some s \<or> sb = Some s" for s
    proof (rule 1(1))
      have "height s < height t" using that(2) Mrg by (auto simp: less_Suc_eq_le)
      then show "(s, t) \<in> measures [height, \<lambda>t. length (stream_records t)]" by simp
    qed (rule that(1))
    obtain r1 s1 where a: "refill (get_merge K callback) ra sa = Some (r1, s1)" "side_ok K callback r1 s1"
      "side_height s1 \<le> side_height sa" "kept K callback (side_records ra sa) (side_records r1 s1)"
      "length (side_records r1 s1) \<le> length (side_records ra sa)" "r1 = None \<longrightarrow> side_records r1 s1 = []"
      using refill_side [OF sides(1)] below by blast
    obtain r2 s2 where b: "refill (get_merge K callback) rb sb = Some (r2, s2)" "side_ok K callback r2 s2"
      "side_height s2 \<le> side_height sb" "kept K callback (side_records rb sb) (side_records r2 s2)"
      "length (side_records r2 s2) \<le> length (side_records rb sb)" "r2 = None \<longrightarrow> side_records r2 s2 = []"
      using refill_side [OF sides(2)] below by blast
    let ?all = "side_records r1 s1 @ side_records r2 s2"
    have all: "kept K callback (stream_records t) ?all" "length ?all \<le> length (stream_records t)"
      unfolding Mrg stream_sides length_append using kept_append [OF a(4) b(4)] add_mono [OF a(5) b(5)] by simp_all
    have ht: "height (Mrg r s1 r' s2) \<le> height t" for r r' using a(3) b(3) Mrg by (simp only: stream_sides)
    note step = get_merge_mrg [of K callback ra sa rb sb, folded Mrg, unfolded a(1) b(1), simplified]
    consider (none) "r1 = None" "r2 = None" | (a) x where "r1 = Some x" "r2 = None" | (b) y where "r1 = None" "r2 = Some y"
      | (both) x y where "r1 = Some x" "r2 = Some y" by (cases r1; cases r2) auto
    then show ?thesis
    proof cases
      case none
      then have "stream_records t = []" using all(1) a(6) b(6) by (simp add: kept_Nil)
      moreover have "stream_ok K callback (Mrg None s1 None s2)" using none a(2) b(2) by (simp only: stream_sides)
      ultimately show ?thesis using step ht none by (simp add: next_ok_def)
    next
      case (a x)
      note h = side_head [OF \<open>side_ok K callback r1 s1\<close> [unfolded a(1)]]
      have e: "side_records r2 s2 = []" "side_records None s2 = []" using a(2) b(6) by (simp_all add: side_records_def)
      show ?thesis
      proof (rule next_okI [OF _ _ ht all])
        show "get_merge K callback t = Some (Some x, Mrg None s1 None s2)" using step a by simp
        show "stream_ok K callback (Mrg None s1 None s2)" unfolding stream_sides using h(1) b(2) a(2) by simp
        show "mset ?all = mset (x # stream_records (Mrg None s1 None s2))" unfolding stream_sides a(1) h(2) e by simp
        show "\<forall>y\<in>set (stream_records (Mrg None s1 None s2)). before K callback x y" unfolding stream_sides e using h(4) by simp
      qed (rule h(3))
    next
      case (b y)
      note h = side_head [OF \<open>side_ok K callback r2 s2\<close> [unfolded b(2)]]
      have e: "side_records r1 s1 = []" "side_records None s1 = []" using b(1) a(6) by (simp_all add: side_records_def)
      show ?thesis
      proof (rule next_okI [OF _ _ ht all])
        show "get_merge K callback t = Some (Some y, Mrg None s1 None s2)" using step b by simp
        show "stream_ok K callback (Mrg None s1 None s2)" unfolding stream_sides using h(1) a(2) b(1) by simp
        show "mset ?all = mset (y # stream_records (Mrg None s1 None s2))" unfolding stream_sides b(2) h(2) e by simp
        show "\<forall>z\<in>set (stream_records (Mrg None s1 None s2)). before K callback y z" unfolding stream_sides e using h(4) by simp
      qed (rule h(3))
    next
      case (both x y)
      have again: "next_ok K callback (Mrg None s1 (Some y) s2)"
        if "stream_ok K callback (Mrg None s1 (Some y) s2)"
      proof (rule 1(1) [OF _ that])
        have "length (stream_records (Mrg None s1 (Some y) s2)) < length ?all"
          unfolding stream_sides using both side_head(2) [OF a(2) [unfolded both(1)]] by simp
        then show "(Mrg None s1 (Some y) s2, t) \<in> measures [height, \<lambda>t. length (stream_records t)]"
          using ht [of None "Some y"] all(2) by (simp del: height.simps stream_records.simps) (linarith)
      qed
      show ?thesis
        by (rule both_sides [OF assms(1,2) a(2) [unfolded both(1)] b(2) [unfolded both(2)] _ all [unfolded both] ht ht ht again])
          (use step [unfolded both] in \<open>simp only: option.case prod.case not_None_eq\<close>)
    qed
  qed
qed

definition callback_ok :: "dup_callback \<Rightarrow> bool" where
  "callback_ok callback \<longleftrightarrow> callback = None \<or> callback = Some reject"

interpretation merge: record_source "get_merge K callback" stream_records
  "\<lambda>t. stream_ok K callback t \<and> 0 < K \<and> callback_ok callback" K callback for K callback
proof
  fix t assume ok: "stream_ok K callback t \<and> 0 < K \<and> callback_ok callback"
  then have "next_ok K callback t" using get_merge_next by (auto simp: callback_ok_def)
  then obtain r t' where r: "get_merge K callback t = Some (r, t')" "stream_ok K callback t'"
    "case r of None \<Rightarrow> stream_records t = []
     | Some x \<Rightarrow> K \<le> length x \<and> kept K callback (stream_records t) (x # stream_records t') \<and>
         (\<forall>y\<in>set (stream_records t'). before K callback x y) \<and> length (stream_records t') < length (stream_records t)"
    unfolding next_ok_def by blast
  then show "\<exists>r s'. get_merge K callback t = Some (r, s') \<and> (stream_ok K callback s' \<and> 0 < K \<and> callback_ok callback) \<and>
    (case r of None \<Rightarrow> stream_records t = []
     | Some x \<Rightarrow> kept K callback (stream_records t) (x # stream_records s') \<and>
         (\<forall>y\<in>set (stream_records s'). before K callback x y) \<and> length (stream_records s') < length (stream_records t))"
    using ok by (intro exI [of _ r] exI [of _ t']) (auto split: option.splits)
qed

section \<open>The tree\<close>

lemma pair_streams_ok:
  assumes "\<forall>t\<in>set ts. stream_ok K callback t"
  shows "\<forall>t\<in>set (pair_streams ts). stream_ok K callback t"
    "concat (map stream_records (pair_streams ts)) = concat (map stream_records ts)"
  using assms by (induction ts rule: pair_streams.induct) (simp_all add: head_ok_def)

lemma merge_tree_ok:
  assumes "\<forall>t\<in>set ts. stream_ok K callback t"
  shows "stream_ok K callback (merge_tree ts) \<and> stream_records (merge_tree ts) = concat (map stream_records ts)"
  using assms
proof (induction ts rule: merge_tree.induct)
  case (1 ts)
  show ?case
  proof (cases "\<exists>a b rest. ts = a # b # rest")
    case True
    then obtain a b rest where ts: "ts = a # b # rest" by blast
    then have "merge_tree ts = merge_tree (pair_streams ts)" by (subst merge_tree.simps) simp
    then show ?thesis using 1 pair_streams_ok [OF 1(2)] ts by simp
  next
    case False
    then show ?thesis using 1(2) by (subst (1 2) merge_tree.simps) (cases ts; cases "tl ts"; auto)
  qed
qed

end
