(* ===== verification/Sort_Scb.thy ===== *)
theory Sort_Scb
  imports Sort_Run
begin

text \<open>
  The sort as its callers see it: what a memoryful gives, the invariant that \<open>SORT_put\<close> keeps of the runs and of the
  room in the sort memory, and \<open>SORT_get\<close> as a source of records.
\<close>

section \<open>Duplicates in memory\<close>

text \<open>A record is dropped when the next one, or at the end the guard \<open>z\<close>, has the same key.\<close>

fun last_of_keys :: "nat \<Rightarrow> srec list \<Rightarrow> srec \<Rightarrow> srec list" where
  "last_of_keys K [] z = []"
| "last_of_keys K (x # xs) z =
     (if take K x = take K (hd (xs @ [z])) then last_of_keys K xs z else x # last_of_keys K xs z)"

lemma last_of_keys_filter:
  "map (\<lambda>k. (xs @ [z]) ! k) (filter (\<lambda>k. take K ((xs @ [z]) ! k) \<noteq> take K ((xs @ [z]) ! (k + 1))) [0..<length xs]) =
     last_of_keys K xs z"
proof (induction xs)
  case (Cons x xs)
  have "[0..<length (x # xs)] = 0 # map Suc [0..<length xs]" by (simp add: map_Suc_upt upt_conv_Cons del: upt_Suc)
  moreover have "hd (xs @ [z]) = (xs @ [z]) ! 0" by (cases xs) simp_all
  ultimately show ?case using Cons.IH by (simp add: filter_map comp_def del: upt_Suc)
qed simp

lemma skip_equal_take:
  "length p = n \<Longrightarrow> length q = n \<Longrightarrow> K \<le> n \<Longrightarrow> K \<le> n - fst (skip_equal n p q) \<longleftrightarrow> take K p = take K q"
proof (induction n p q arbitrary: K rule: skip_equal.induct)
  case (2 n p q)
  obtain x p' y q' where pq: "p = x # p'" "q = y # q'" using 2 by (cases p; cases q) auto
  have fst: "fst (skip_equal n a b) \<le> n" for a b by (induction n a b rule: skip_equal.induct) auto
  show ?case
  proof (cases K)
    case (Suc K')
    then show ?thesis using 2 pq fst [of p' q'] by (auto simp: Suc_diff_le)
  qed simp
qed auto

lemma is_duplicate_reject:
  assumes "length p = longs - 1" "length q = longs - 1" "0 < K" "K \<le> longs - 1"
  shows "is_duplicate longs K reject p q \<longleftrightarrow> take K p = take K q"
proof -
  have "hd p = hd q" if "take K p = take K q" using that assms by (cases p; cases q; cases K) auto
  then show ?thesis using skip_equal_take [OF assms(1,2,4)] assms(4) by (auto simp: is_duplicate_def reject_def)
qed

lemma kept_slots_reject:
  assumes "map snd xs = l # ps @ [z]" "\<forall>p\<in>set (ps @ [z]). length p = longs - 1" "0 < K" "K \<le> longs - 1"
  shows "kept_slots longs K (Some reject) xs [1..<length ps + 1] = last_of_keys K ps z"
proof -
  have at: "rec_at xs (Suc k) = (ps @ [z]) ! k" if "k \<le> length ps" for k
    using arg_cong [OF assms(1), of "\<lambda>l. l ! Suc k"] arg_cong [OF assms(1), of length] that by simp
  have len: "length ((ps @ [z]) ! k) = longs - 1" if "k \<le> length ps" for k using assms(2) that by (auto simp: nth_append)
  have "[1..<length ps + 1] = map Suc [0..<length ps]" by (simp add: map_Suc_upt)
  moreover have "filter (\<lambda>k. \<not> is_duplicate longs K reject (rec_at xs (Suc k)) (rec_at xs (Suc k + 1))) [0..<length ps] =
      filter (\<lambda>k. take K ((ps @ [z]) ! k) \<noteq> take K ((ps @ [z]) ! (k + 1))) [0..<length ps]"
    using at len is_duplicate_reject [OF _ _ assms(3,4)] by (intro filter_cong) (auto simp del: upt_Suc)
  ultimately show ?thesis
    using at by (auto simp: kept_slots_def filter_map comp_def last_of_keys_filter [symmetric] simp del: upt_Suc)
qed

lemma last_of_keys_kept:
  assumes "sorted_wrt (\<lambda>p q. take K p \<le> take K q) (ps @ [z])" "\<forall>p\<in>set ps. take K p \<noteq> take K z"
  shows "kept K (Some reject) ps (last_of_keys K ps z) \<and> sorted_wrt (before K (Some reject)) (last_of_keys K ps z)"
  using assms
proof (induction ps)
  case (Cons x xs)
  let ?out = "last_of_keys K xs z"
  have ih: "kept K (Some reject) xs ?out" "sorted_wrt (before K (Some reject)) ?out" using Cons by auto
  show ?case
  proof (cases "take K x = take K (hd (xs @ [z]))")
    case True
    then have "xs \<noteq> []" "take K x \<in> take K ` set xs" using Cons.prems(2) by (cases xs; auto)+
    then have "kept K (Some reject) (x # xs) xs" by (auto simp: kept_def)
    then show ?thesis using True ih kept_trans by auto
  next
    case False
    have "take K x < take K y" if "y \<in> set xs" for y
    proof -
      have "take K x \<le> take K (hd (xs @ [z]))" "take K (hd (xs @ [z])) \<le> take K y"
        using that Cons.prems(1) by (cases xs; auto)+
      then show ?thesis using False by simp
    qed
    then have "\<forall>y\<in>set ?out. before K (Some reject) x y" using ih(1) by (auto simp: kept_def before_def)
    then show ?thesis using False ih kept_Cons [OF ih(1)] by simp
  qed
qed (simp add: kept_def)

lemma take_mono: "p \<le> q \<Longrightarrow> take K p \<le> take K (q :: srec)"
proof (induction K arbitrary: p q)
  case (Suc K)
  then show ?case by (cases p; cases q) auto
qed simp

section \<open>A memoryful\<close>

text \<open>Records with a key of ones are taken for duplicates of the guard.\<close>

definition key_ok :: "nat \<Rightarrow> dup_callback \<Rightarrow> srec \<Rightarrow> bool" where
  "key_ok K callback p \<longleftrightarrow> callback = None \<or> take K p \<noteq> replicate K (- 1)"

lemma sort_records_slots:
  assumes "1 < longs" "\<forall>p\<in>set recs. record_ok longs p" "length recs < 2 ^ 32" "0 < K" "K \<le> longs - 1"
  shows "\<exists>srt. sorted srt \<and> mset srt = mset recs \<and> sort_records longs K None recs = Some srt \<and>
    sort_records longs K (Some reject) recs = Some (last_of_keys K srt (high_key longs))"
proof -
  obtain xs srt where xs: "sort_slots longs recs = Some xs" "map snd xs = low_key longs # srt @ [high_key longs]"
    "sorted srt" "mset srt = mset recs" using sort_slots_sorts [OF assms(1-3)] by (elim exE conjE) (rule that)
  have len: "length srt = length recs" "set srt = set recs" using xs(4) by (metis size_mset, metis set_mset_mset)
  have "\<forall>p\<in>set (srt @ [high_key longs]). length p = longs - 1"
    using assms(2) len(2) record_ok_high_key by (auto simp: high_key_def)
  then have "kept_slots longs K (Some reject) xs [1..<length recs + 1] = last_of_keys K srt (high_key longs)"
    using kept_slots_reject [OF xs(2) _ assms(4,5)] len(1) by simp
  moreover have "map (rec_at xs) [1..<length recs + 1] = srt"
  proof (rule nth_equalityI)
    fix k assume "k < length (map (rec_at xs) [1..<length recs + 1])"
    then show "map (rec_at xs) [1..<length recs + 1] ! k = srt ! k"
      using arg_cong [OF xs(2), of "\<lambda>l. l ! Suc k"] arg_cong [OF xs(2), of length] len(1)
      by (simp add: nth_append del: upt_Suc)
  qed (simp add: len del: upt_Suc)
  ultimately show ?thesis using xs by (intro exI [of _ srt]) (simp add: sort_records_def kept_slots_def)
qed

lemma sort_records_ok:
  assumes "1 < longs" "\<forall>p\<in>set recs. record_ok longs p \<and> key_ok K callback p" "length recs < 2 ^ 32"
    "0 < K" "K \<le> longs - 1" "callback_ok callback"
  shows "\<exists>out. sort_records longs K callback recs = Some out \<and> kept K callback recs out \<and>
    sorted_wrt (before K callback) out"
proof -
  obtain srt where srt: "sorted srt" "mset srt = mset recs" "sort_records longs K None recs = Some srt"
    "sort_records longs K (Some reject) recs = Some (last_of_keys K srt (high_key longs))"
    using sort_records_slots [OF assms(1) _ assms(3-5)] assms(2) by blast
  have set: "set srt = set recs" using srt(2) by (metis set_mset_mset)
  have keys: "sorted_wrt (\<lambda>p q. take K p \<le> take K q) srt"
    using srt(1) by (rule sorted_wrt_mono_rel [rotated]) (rule take_mono)
  show ?thesis
  proof (cases "callback = None")
    case True
    then show ?thesis using srt keys kept_mset [OF srt(2)] by (simp add: before_def [abs_def])
  next
    case False
    then have callback: "callback = Some reject" using assms(6) by (auto simp: callback_ok_def)
    have high: "take K (high_key longs) = replicate K (- 1)" using assms(5) by (simp add: high_key_def min_def)
    have "take K p \<le> take K (high_key longs) \<and> take K p \<noteq> take K (high_key longs)" if "p \<in> set srt" for p
    proof -
      have p: "record_ok longs p" "take K p \<noteq> replicate K (- 1)" using assms(2) that set callback by (auto simp: key_ok_def)
      have "p \<le> high_key longs"
        using record_ok_high_key [OF p(1)] below_high_key [of p "longs - 1"] by (auto simp: high_key_def)
      then show ?thesis using p(2) high take_mono by metis
    qed
    then show ?thesis
      using last_of_keys_kept [of K srt "high_key longs"] keys srt(4) kept_trans [OF kept_mset [OF srt(2)]] callback
      by (simp add: sorted_wrt_append)
  qed
qed

text \<open>With the key of the guard, every record is dropped.\<close>

lemma last_of_keys_all: "\<forall>p\<in>set ps. take K p = take K z \<Longrightarrow> last_of_keys K ps z = []"
  by (induction ps) (auto simp: hd_append)

section \<open>The sort context block\<close>

definition run_ok :: "nat \<Rightarrow> dup_callback \<Rightarrow> srec list \<Rightarrow> bool" where
  "run_ok K callback xs \<longleftrightarrow> stream_ok K callback (Run xs)"

text \<open>Runs lie from the newest to the oldest, with less than eight of each depth below the last level.\<close>

definition depths_ok :: "nat list \<Rightarrow> bool" where
  "depths_ok ds \<longleftrightarrow> sorted ds \<and> (\<forall>d\<in>set ds. d \<le> 2) \<and> (\<forall>d<2. count_list ds d < 8)"

definition memory_fits :: "nat \<Rightarrow> nat \<Rightarrow> nat \<Rightarrow> bool" where
  "memory_fits room longs n \<longleftrightarrow> n * longs + n + 2 \<le> room"

definition sizes_ok :: "nat \<Rightarrow> nat \<Rightarrow> nat \<Rightarrow> dup_callback \<Rightarrow> bool" where
  "sizes_ok room longs K callback \<longleftrightarrow>
     room < 2 ^ 32 \<and> longs + 3 \<le> room \<and> 1 < longs \<and> 0 < K \<and> K \<le> longs - 1 \<and> callback_ok callback"

definition scb_fields :: "nat \<Rightarrow> nat \<Rightarrow> nat \<Rightarrow> dup_callback \<Rightarrow> scb \<Rightarrow> bool" where
  "scb_fields room longs K callback s \<longleftrightarrow>
     scb_size s = room \<and> scb_longs s = longs \<and> scb_key_length s = K \<and> scb_dup_callback s = callback \<and> scb_merge s = None"

definition runs_ok :: "nat \<Rightarrow> dup_callback \<Rightarrow> (nat \<times> srec list) list \<Rightarrow> bool" where
  "runs_ok K callback rs \<longleftrightarrow> (\<forall>r\<in>set rs. stream_ok K callback (Run (snd r)))"

definition run_records :: "(nat \<times> srec list) list \<Rightarrow> srec list" where
  "run_records rs = concat (map snd rs)"

text \<open>\<open>given\<close> are the records put so far.\<close>

definition scb_ok :: "nat \<Rightarrow> nat \<Rightarrow> nat \<Rightarrow> dup_callback \<Rightarrow> srec list \<Rightarrow> scb \<Rightarrow> bool" where
  "scb_ok room longs K callback given s \<longleftrightarrow>
     scb_fields room longs K callback s \<and> depths_ok (map fst (scb_runs s)) \<and> runs_ok K callback (scb_runs s) \<and>
     (\<forall>p\<in>set (scb_memory s). record_ok longs p \<and> key_ok K callback p) \<and>
     memory_fits room longs (length (scb_memory s)) \<and>
     kept K callback given (scb_memory s @ run_records (scb_runs s))"

section \<open>Runs\<close>

lemma put_run_ok:
  assumes "sizes_ok room longs K callback" "scb_fields room longs K callback s"
    "\<forall>p\<in>set (scb_memory s). record_ok longs p \<and> key_ok K callback p" "memory_fits room longs (length (scb_memory s))"
  shows "\<exists>run. put_run s = Some (s\<lparr>scb_runs := (0, run) # scb_runs s\<rparr>) \<and> stream_ok K callback (Run run) \<and>
    kept K callback (scb_memory s) run \<and>
    sort_records (scb_longs s) (scb_key_length s) (scb_dup_callback s) (scb_memory s) = Some run"
proof -
  have "length (scb_memory s) < 2 ^ 32" using assms(1,4) unfolding sizes_ok_def memory_fits_def by linarith
  then obtain run where run: "sort_records longs K callback (scb_memory s) = Some run" "kept K callback (scb_memory s) run"
    "sorted_wrt (before K callback) run"
    using sort_records_ok [of longs "scb_memory s" K callback] assms(1,3) by (auto simp: sizes_ok_def)
  have "K \<le> length x" if "x \<in> set run" for x
    using run(2) that assms(1,3) record_ok_high_key by (fastforce simp: kept_def sizes_ok_def)
  then show ?thesis using run assms(2) by (auto simp: put_run_def scb_fields_def)
qed

lemma runs_stream:
  assumes "runs_ok K callback rs"
  shows "stream_ok K callback (merge_tree (map (\<lambda>r. Run (snd r)) rs)) \<and>
    stream_records (merge_tree (map (\<lambda>r. Run (snd r)) rs)) = run_records rs"
  using merge_tree_ok [of "map (\<lambda>r. Run (snd r)) rs" K callback] assms by (simp add: runs_ok_def run_records_def comp_def)

lemma merge_runs_ok:
  assumes "sizes_ok room longs K callback" "scb_fields room longs K callback s" "runs_ok K callback (scb_runs s)" "n \<le> 32"
  shows "\<exists>run. merge_runs s n = Some (s\<lparr>scb_runs := (fst (scb_runs s ! (n - 1)) + 1, run) # drop n (scb_runs s)\<rparr>) \<and>
    stream_ok K callback (Run run) \<and> kept K callback (run_records (take n (scb_runs s))) run"
proof -
  let ?t = "merge_tree (map (\<lambda>r. Run (snd r)) (take n (scb_runs s)))"
  have "runs_ok K callback (take n (scb_runs s))" using assms(3) by (auto simp: runs_ok_def dest: in_set_takeD)
  note t = runs_stream [OF this]
  then obtain out where out: "drain (get_merge K callback) ?t = Some out"
    "kept K callback (run_records (take n (scb_runs s))) out" "sorted_wrt (before K callback) out"
    using merge.drain_sorted [of K callback ?t] assms(1) by (auto simp: sizes_ok_def)
  have "K \<le> length x" if "x \<in> set out" for x
  proof -
    have "x \<in> set (run_records (scb_runs s))"
      using that subsetD [OF conjunct1 [OF out(2) [unfolded kept_def]], of x]
      by (auto simp: run_records_def dest: in_set_takeD)
    then show ?thesis using assms(3) by (auto simp: runs_ok_def run_records_def)
  qed
  then show ?thesis using out assms(2,4) by (auto simp: merge_runs_def scb_fields_def)
qed

lemma sorted_split:
  assumes "sorted (d # ds)"
  shows "\<exists>rest. d # ds = replicate (1 + length (takeWhile (\<lambda>e. e = d) ds)) d @ rest \<and> (\<forall>e\<in>set rest. (d :: nat) < e) \<and> sorted rest"
  using assms
proof (induction ds)
  case (Cons e ds)
  then obtain rest where rest: "d # ds = replicate (1 + length (takeWhile (\<lambda>e. e = d) ds)) d @ rest" by auto
  show ?case
  proof (cases "e = d")
    case True
    then show ?thesis using Cons by auto
  next
    case False
    then show ?thesis using Cons.prems by (intro exI [of _ "e # ds"]) auto
  qed
qed simp

definition loop_ok :: "nat list \<Rightarrow> bool" where
  "loop_ok ds \<longleftrightarrow> ds \<noteq> [] \<and> sorted ds \<and> (\<forall>d\<in>set ds. d \<le> 2) \<and> (\<forall>d<2. count_list ds d < (if d = hd ds then 9 else 8))"

lemma count_replicate: "count_list (replicate n d @ ds) e = (if e = d then n else 0) + count_list ds e"
  by (induction n) auto

lemma groups_step:
  assumes "loop_ok (d # ds)" "d < 2" "n = 1 + length (takeWhile (\<lambda>e. e = d) ds)"
  shows "n \<le> 8" "n < 8 \<Longrightarrow> depths_ok (d # ds)" "\<forall>k<n. (d # ds) ! k = d" "n \<le> length (d # ds)"
    "n = 8 \<Longrightarrow> loop_ok ((d + 1) # drop n (d # ds))"
proof -
  obtain rest where rest: "d # ds = replicate n d @ rest" "\<forall>e\<in>set rest. d < e" "sorted rest"
    using sorted_split [of d ds] assms(1,3) by (auto simp: loop_ok_def)
  have fresh: "count_list rest d = 0" using rest(2) by (auto simp: count_list_0_iff)
  have count: "count_list (d # ds) e = (if e = d then n else count_list rest e)" for e
    unfolding rest(1) count_replicate using fresh by simp
  have bound: "count_list (d # ds) e < (if e = d then 9 else 8)" if "e < 2" for e using assms(1) that by (simp add: loop_ok_def)
  show "n \<le> 8" using bound [OF assms(2)] count [of d] by simp
  show "depths_ok (d # ds)" if "n < 8"
  proof -
    have "count_list (d # ds) e < 8" if "e < 2" for e
      using bound [OF that] count [of e] \<open>n < 8\<close> by (auto split: if_splits)
    then show ?thesis using assms(1) by (simp add: depths_ok_def loop_ok_def)
  qed
  show "\<forall>k<n. (d # ds) ! k = d" "n \<le> length (d # ds)" unfolding rest(1) by (simp_all add: nth_append)
  show "loop_ok ((d + 1) # drop n (d # ds))" if "n = 8"
  proof -
    have "count_list ((d + 1) # rest) e < (if e = d + 1 then 9 else 8)" if "e < 2" for e
      using bound [OF that] count [of e] fresh by (auto split: if_splits)
    moreover have "\<forall>e\<in>set rest. e \<le> 2"
      using assms(1) arg_cong [OF rest(1), of set] unfolding loop_ok_def by auto
    ultimately show ?thesis unfolding rest(1) using rest(2,3) assms(2) by (auto simp: loop_ok_def Suc_le_eq)
  qed
qed

text \<open>Eight runs of one depth become one of the next, until there are less; then the invariant is as before.\<close>

lemma merge_groups_ok:
  assumes "sizes_ok room longs K callback" "scb_fields room longs K callback s" "runs_ok K callback (scb_runs s)"
    "loop_ok (map fst (scb_runs s))"
  shows "\<exists>rs. merge_groups s = Some (s\<lparr>scb_runs := rs\<rparr>) \<and> runs_ok K callback rs \<and> depths_ok (map fst rs) \<and>
    kept K callback (run_records (scb_runs s)) (run_records rs)"
  using assms(2-4)
proof (induction "length (scb_runs s)" arbitrary: s rule: less_induct)
  case less
  obtain d run rest where rs: "scb_runs s = (d, run) # rest" using less.prems(3) by (cases "scb_runs s") (auto simp: loop_ok_def)
  let ?ds = "map fst rest" and ?n = "1 + length (takeWhile (\<lambda>r. fst r = d) rest)"
  have loop: "loop_ok (d # ?ds)" using less.prems(3) rs by simp
  have stop: ?case if "merge_groups s = Some s" "depths_ok (d # ?ds)"
    using that less.prems(2) rs by (intro exI [of _ "scb_runs s"]) simp
  have unfold: "merge_groups s = (if d = MAX_MERGE_LEVEL then Some s
      else if ?n < RUN_GROUP then Some s else Option.bind (merge_runs s ?n) merge_groups)"
    by (subst merge_groups.simps) (simp add: rs Let_def)
  show ?case
  proof (cases "d = 2")
    case True
    have "\<forall>e\<in>set (d # ?ds). e = 2" using loop True by (auto simp: loop_ok_def intro: antisym)
    then have "count_list (d # ?ds) e = 0" if "e < 2" for e using that by (intro count_list_0_iff [THEN iffD2]) auto
    then have "depths_ok (d # ?ds)" using loop by (simp add: depths_ok_def loop_ok_def)
    then show ?thesis using stop unfold True by (simp add: MAX_MERGE_LEVEL_def)
  next
    case False
    then have "d < 2" using loop by (auto simp: loop_ok_def)
    moreover have n: "?n = 1 + length (takeWhile (\<lambda>e. e = d) ?ds)" by (simp add: takeWhile_map comp_def)
    note step = groups_step [OF loop \<open>d < 2\<close> n]
    show ?thesis
    proof (cases "?n < 8")
      case True
      then show ?thesis using stop step(2) unfold by (simp add: RUN_GROUP_def)
    next
      case False
      then have n8: "?n = 8" using step(1) by simp
      obtain m where m: "merge_runs s 8 = Some (s\<lparr>scb_runs := (fst (scb_runs s ! 7) + 1, m) # drop 8 (scb_runs s)\<rparr>)"
        "stream_ok K callback (Run m)" "kept K callback (run_records (take 8 (scb_runs s))) m"
        using merge_runs_ok [OF assms(1) less.prems(1,2), of 8] by auto
      have len: "8 \<le> length (scb_runs s)" using step(4) n8 rs by simp
      have "fst (scb_runs s ! 7) = map fst (scb_runs s) ! 7" using len by simp
      also have "\<dots> = d" using step(3) [unfolded n8, rule_format, of 7] rs by simp
      finally have d7: "fst (scb_runs s ! 7) = d" .
      let ?u = "s\<lparr>scb_runs := (d + 1, m) # drop 8 (scb_runs s)\<rparr>"
      have "map fst (scb_runs ?u) = (d + 1) # drop ?n (d # ?ds)" using n8 rs by (simp add: drop_map [symmetric])
      then have "loop_ok (map fst (scb_runs ?u))" using step(5) [OF n8] by simp
      moreover have "runs_ok K callback (scb_runs ?u)"
        using less.prems(2) m(2) by (auto simp: runs_ok_def dest: in_set_dropD)
      moreover have "scb_fields room longs K callback ?u" using less.prems(1) by (simp add: scb_fields_def)
      moreover have "length (scb_runs ?u) < length (scb_runs s)" using len by simp
      ultimately obtain rs' where rs': "merge_groups ?u = Some (?u\<lparr>scb_runs := rs'\<rparr>)" "runs_ok K callback rs'"
        "depths_ok (map fst rs')" "kept K callback (run_records (scb_runs ?u)) (run_records rs')"
        using less.hyps [of ?u] by blast
      have "run_records (scb_runs s) = run_records (take 8 (scb_runs s)) @ run_records (drop 8 (scb_runs s))"
        by (simp add: run_records_def map_append [symmetric] concat_append [symmetric] del: map_append concat_append)
      then have "kept K callback (run_records (scb_runs s)) (run_records (scb_runs ?u))"
        using kept_append [OF m(3), of "run_records (drop 8 (scb_runs s))"] by (simp add: run_records_def)
      then have "kept K callback (run_records (scb_runs s)) (run_records rs')" using rs'(4) kept_trans by blast
      moreover have "merge_groups s = Some (s\<lparr>scb_runs := rs'\<rparr>)"
        using unfold False \<open>d < 2\<close> n8 m(1) d7 rs'(1) by (simp add: RUN_GROUP_def MAX_MERGE_LEVEL_def)
      ultimately show ?thesis using rs' by blast
    qed
  qed
qed

section \<open>Putting records\<close>

lemma SORT_init_ok:
  assumes "sizes_ok (size_memory div 4) (longs_of (record_length + 4)) (longs_of key_end) callback"
  shows "scb_ok (size_memory div 4) (longs_of (record_length + 4)) (longs_of key_end) callback []
    (SORT_init size_memory record_length key_end callback)"
  using assms by (simp add: scb_ok_def SORT_init_def scb_fields_def depths_ok_def runs_ok_def run_records_def
      memory_fits_def sizes_ok_def)

lemma SORT_put_ok:
  assumes "sizes_ok room longs K callback" "scb_ok room longs K callback given s" "record_ok longs p" "key_ok K callback p"
  shows "\<exists>s'. SORT_put p s = Some s' \<and> scb_ok room longs K callback (given @ [p]) s'"
proof (cases "no_room s")
  case True
  note ok = assms(2) [unfolded scb_ok_def]
  obtain run where run: "put_run s = Some (s\<lparr>scb_runs := (0, run) # scb_runs s\<rparr>)" "stream_ok K callback (Run run)"
    "kept K callback (scb_memory s) run" using put_run_ok [OF assms(1)] ok by blast
  let ?u = "s\<lparr>scb_runs := (0, run) # scb_runs s\<rparr>"
  have "loop_ok (map fst (scb_runs ?u))" using ok by (auto simp: loop_ok_def depths_ok_def less_Suc_eq)
  moreover have "runs_ok K callback (scb_runs ?u)" using ok run(2) by (simp add: runs_ok_def)
  moreover have "scb_fields room longs K callback ?u" using ok by (simp add: scb_fields_def)
  ultimately obtain rs where rs: "merge_groups ?u = Some (?u\<lparr>scb_runs := rs\<rparr>)" "runs_ok K callback rs"
    "depths_ok (map fst rs)" "kept K callback (run_records (scb_runs ?u)) (run_records rs)"
    using merge_groups_ok [OF assms(1)] by blast
  let ?v = "s\<lparr>scb_runs := rs, scb_memory := [p]\<rparr>"
  have "kept K callback (scb_memory s @ run_records (scb_runs s)) (run_records (scb_runs ?u))"
    using kept_append [OF run(3) kept_refl, of "run_records (scb_runs s)"] by (simp add: run_records_def)
  then have "kept K callback given (run_records rs)" using ok rs(4) kept_trans by blast
  then have "kept K callback (given @ [p]) (run_records rs @ [p])" using kept_append kept_refl by blast
  then have "kept K callback (given @ [p]) ([p] @ run_records rs)" using kept_trans kept_mset
    by (metis mset_append union_commute)
  then have "scb_ok room longs K callback (given @ [p]) ?v"
    using ok rs(2,3) assms(1,3,4) by (simp add: scb_ok_def scb_fields_def memory_fits_def sizes_ok_def)
  moreover have "SORT_put p s = Some ?v" using True run(1) rs(1) by (simp add: SORT_put_def)
  ultimately show ?thesis by blast
next
  case False
  note ok = assms(2) [unfolded scb_ok_def]
  let ?v = "s\<lparr>scb_memory := scb_memory s @ [p]\<rparr>"
  have "memory_fits room longs (length (scb_memory ?v))"
    using False ok by (simp add: no_room_def Let_def memory_fits_def scb_fields_def)
  moreover have "kept K callback (given @ [p]) ((scb_memory s @ run_records (scb_runs s)) @ [p])"
    using ok kept_append kept_refl by blast
  then have "kept K callback (given @ [p]) (scb_memory ?v @ run_records (scb_runs ?v))"
    by (rule kept_trans) (rule kept_mset, simp)
  ultimately have "scb_ok room longs K callback (given @ [p]) ?v"
    using ok assms(3,4) by (auto simp: scb_ok_def scb_fields_def)
  then show ?thesis using False by (simp add: SORT_put_def)
qed

section \<open>Getting records\<close>

definition scb_pending :: "scb \<Rightarrow> srec list" where
  "scb_pending s = (case scb_merge s of None \<Rightarrow> scb_sorted s | Some t \<Rightarrow> stream_records t)"

definition scb_ready :: "nat \<Rightarrow> dup_callback \<Rightarrow> scb \<Rightarrow> bool" where
  "scb_ready K callback s \<longleftrightarrow> scb_key_length s = K \<and> scb_dup_callback s = callback \<and> 0 < K \<and> callback_ok callback \<and>
     (case scb_merge s of None \<Rightarrow> sorted_wrt (before K callback) (scb_sorted s) | Some t \<Rightarrow> stream_ok K callback t)"

lemma SORT_sort_ready:
  assumes "sizes_ok room longs K callback" "scb_ok room longs K callback given s"
  shows "\<exists>s'. SORT_sort s = Some s' \<and> scb_ready K callback s' \<and> kept K callback given (scb_pending s')"
proof -
  note ok = assms(2) [unfolded scb_ok_def]
  obtain run where run: "put_run s = Some (s\<lparr>scb_runs := (0, run) # scb_runs s\<rparr>)" "stream_ok K callback (Run run)"
    "kept K callback (scb_memory s) run"
    "sort_records (scb_longs s) (scb_key_length s) (scb_dup_callback s) (scb_memory s) = Some run"
    using put_run_ok [OF assms(1)] ok by blast
  have kept: "kept K callback given (run @ run_records (scb_runs s))"
    using kept_append [OF run(3) kept_refl] ok kept_trans by blast
  have fields: "scb_key_length s = K" "scb_dup_callback s = callback" "scb_merge s = None" "0 < K" "callback_ok callback"
    using ok assms(1) by (simp_all add: scb_fields_def sizes_ok_def)
  show ?thesis
  proof (cases "scb_runs s = []")
    case True
    then show ?thesis using run(2,4) kept fields by (auto simp: SORT_sort_def scb_ready_def scb_pending_def run_records_def)
  next
    case False
    have "runs_ok K callback ((0, run) # scb_runs s)" using ok run(2) by (simp add: runs_ok_def)
    note t = runs_stream [OF this]
    have "kept K callback given (run_records ((0, run) # scb_runs s))" using kept by (simp add: run_records_def)
    then show ?thesis using t False run(1) fields by (auto simp: SORT_sort_def scb_ready_def scb_pending_def)
  qed
qed

interpretation scb: record_source SORT_get scb_pending "scb_ready K callback" K callback for K callback
proof
  fix s assume s: "scb_ready K callback s"
  show "\<exists>r s'. SORT_get s = Some (r, s') \<and> scb_ready K callback s' \<and>
    (case r of None \<Rightarrow> scb_pending s = []
     | Some x \<Rightarrow> kept K callback (scb_pending s) (x # scb_pending s') \<and>
         (\<forall>y\<in>set (scb_pending s'). before K callback x y) \<and> length (scb_pending s') < length (scb_pending s))"
  proof (cases "scb_merge s")
    case None
    then show ?thesis using s by (cases "scb_sorted s") (auto simp: SORT_get_def scb_ready_def scb_pending_def)
  next
    case (Some t)
    then have "stream_ok K callback t \<and> 0 < K \<and> callback_ok callback" using s by (simp add: scb_ready_def)
    from merge.get_next [OF this] show ?thesis using s Some
      by (fastforce simp: SORT_get_def scb_ready_def scb_pending_def split: option.splits)
  qed
qed

section \<open>A whole sort\<close>

fun put_all :: "srec list \<Rightarrow> scb \<Rightarrow> scb option" where
  "put_all [] s = Some s"
| "put_all (p # ps) s = Option.bind (SORT_put p s) (put_all ps)"

lemma put_all_ok:
  assumes "sizes_ok room longs K callback" "scb_ok room longs K callback given s"
    "\<forall>p\<in>set ps. record_ok longs p \<and> key_ok K callback p"
  shows "\<exists>s'. put_all ps s = Some s' \<and> scb_ok room longs K callback (given @ ps) s'"
  using assms(2,3)
proof (induction ps arbitrary: s given)
  case (Cons p ps)
  obtain s' where s': "SORT_put p s = Some s'" "scb_ok room longs K callback (given @ [p]) s'"
    using SORT_put_ok [OF assms(1) Cons.prems(1)] Cons.prems(2) by auto
  then show ?case using Cons.IH [OF s'(2)] Cons.prems(2) by simp
qed simp

lemma sizes_okI:
  assumes "0 < key_end" "key_end \<le> record_length" "longs_of (record_length + 4) + 3 \<le> size_memory div 4"
    "size_memory \<le> MAX_SORT_BUFFER_SIZE" "callback_ok callback"
  shows "sizes_ok (size_memory div 4) (longs_of (record_length + 4)) (longs_of key_end) callback"
proof -
  have "longs_of (record_length + 4) = longs_of record_length + 1" by (simp add: longs_of_def)
  moreover have "longs_of key_end \<le> longs_of record_length" using assms(2) by (simp add: longs_of_def div_le_mono)
  moreover have "0 < longs_of key_end" using assms(1) by (simp add: longs_of_def div_greater_zero_iff)
  moreover have "size_memory div 4 < 2 ^ 32" using assms(4) by (simp add: MAX_SORT_BUFFER_SIZE_def)
  ultimately show ?thesis using assms(3,5) by (simp add: sizes_ok_def)
qed

lemma whole_sort:
  assumes sizes: "0 < key_end" "key_end \<le> record_length" "longs_of (record_length + 4) + 3 \<le> size_memory div 4"
      "size_memory \<le> MAX_SORT_BUFFER_SIZE" "callback_ok callback"
    and recs: "\<forall>p\<in>set recs. record_ok (longs_of (record_length + 4)) p \<and> key_ok (longs_of key_end) callback p"
  shows "\<exists>s s' out. put_all recs (SORT_init size_memory record_length key_end callback) = Some s \<and>
    scb_ok (size_memory div 4) (longs_of (record_length + 4)) (longs_of key_end) callback recs s \<and>
    SORT_sort s = Some s' \<and> drain SORT_get s' = Some out \<and>
    kept (longs_of key_end) callback recs out \<and> sorted_wrt (before (longs_of key_end) callback) out"
proof -
  note ok = sizes_okI [OF sizes]
  obtain s where s: "put_all recs (SORT_init size_memory record_length key_end callback) = Some s"
    "scb_ok (size_memory div 4) (longs_of (record_length + 4)) (longs_of key_end) callback recs s"
    using put_all_ok [OF ok SORT_init_ok [OF ok] recs] by auto
  obtain s' where s': "SORT_sort s = Some s'" "scb_ready (longs_of key_end) callback s'"
    "kept (longs_of key_end) callback recs (scb_pending s')" using SORT_sort_ready [OF ok s(2)] by blast
  obtain out where "drain SORT_get s' = Some out" "kept (longs_of key_end) callback (scb_pending s') out"
    "sorted_wrt (before (longs_of key_end) callback) out" using scb.drain_sorted [OF s'(2)] by blast
  then show ?thesis using s s' kept_trans by blast
qed

end
