(* ===== verification/Sort_Key.thy ===== *)
theory Sort_Key
  imports Sort "HOL-Library.List_Lexorder"
begin

unbundle bit_operations_syntax

text \<open>
  \<open>diddle_key\<close> of \<^verbatim>\<open>src/jrd/sort.c\<close>, for little endian machines (\<open>VAX\<close>) with \<open>IEEE\<close> floating point numbers: it changes a key
  field in place so that unsigned comparison of longwords gives its order, and changes it back when the record is given.
  A field is the list of its longwords, in the order of memory.  The types of varying length, which stash their length
  elsewhere in the record, are not modelled.
\<close>

datatype skd_dtype = SKD_long | SKD_ulong | SKD_short | SKD_ushort | SKD_text | SKD_bytes | SKD_float | SKD_double
  | SKD_quad | SKD_timestamp1 | SKD_timestamp2 | SKD_sql_time | SKD_sql_date | SKD_int64

definition toggle_bit :: "nat \<Rightarrow> nat \<Rightarrow> srec \<Rightarrow> srec" where
  "toggle_bit k n xs = xs[k := xs ! k XOR push_bit n 1]"

fun swap_longs :: "srec \<Rightarrow> srec" where
  "swap_longs (a # b # xs) = b # a # xs"
| "swap_longs xs = xs"

definition longword :: "8 word \<Rightarrow> 8 word \<Rightarrow> 8 word \<Rightarrow> 8 word \<Rightarrow> longword" where
  "longword b0 b1 b2 b3 = ucast b0 OR push_bit 8 (ucast b1) OR push_bit 16 (ucast b2) OR push_bit 24 (ucast b3)"

definition byte :: "nat \<Rightarrow> longword \<Rightarrow> 8 word" where
  "byte k w = ucast (drop_bit (8 * k) w)"

definition swap_bytes :: "longword \<Rightarrow> longword" where
  "swap_bytes w = longword (byte 3 w) (byte 2 w) (byte 1 w) (byte 0 w)"

text \<open>Floating point numbers, with the sign in longword \<open>k\<close>: the sign is flipped or the field is to be complemented.\<close>

definition diddle_float :: "nat \<Rightarrow> bool \<Rightarrow> bool \<Rightarrow> srec \<Rightarrow> bool \<times> srec" where
  "diddle_float k complement direction xs =
     (let flag = (if direction \<or> \<not> complement then direction else True) in
      if flag \<noteq> bit (xs ! k) 31 then (complement, toggle_bit k 31 xs) else (\<not> complement, xs))"

fun diddle_type :: "skd_dtype \<Rightarrow> bool \<Rightarrow> bool \<Rightarrow> srec \<Rightarrow> bool \<times> srec" where
  "diddle_type SKD_timestamp1 complement direction xs = (complement, toggle_bit 0 31 xs)"
| "diddle_type SKD_timestamp2 complement direction xs = (complement, toggle_bit 0 31 xs)"
| "diddle_type SKD_sql_time complement direction xs = (complement, toggle_bit 0 31 xs)"
| "diddle_type SKD_sql_date complement direction xs = (complement, toggle_bit 0 31 xs)"
| "diddle_type SKD_ulong complement direction xs = (complement, xs)"
| "diddle_type SKD_ushort complement direction xs = (complement, xs)"
| "diddle_type SKD_text complement direction xs = (complement, map swap_bytes xs)"
| "diddle_type SKD_bytes complement direction xs = (complement, map swap_bytes xs)"
| "diddle_type SKD_short complement direction xs = (complement, toggle_bit 0 15 xs)"
| "diddle_type SKD_long complement direction xs = (complement, toggle_bit 0 31 xs)"
| "diddle_type SKD_quad complement direction xs = (complement, toggle_bit 1 31 xs)"
| "diddle_type SKD_int64 complement direction xs =
     (complement, if direction then swap_longs (toggle_bit 1 31 xs) else toggle_bit 1 31 (swap_longs xs))"
| "diddle_type SKD_double complement direction xs =
     (case diddle_float 1 complement direction (if direction then xs else swap_longs xs) of
        (c, ys) \<Rightarrow> (c, if direction then swap_longs ys else ys))"
| "diddle_type SKD_float complement direction xs = diddle_float 0 complement direction xs"

definition diddle_key :: "skd_dtype \<Rightarrow> bool \<Rightarrow> bool \<Rightarrow> srec \<Rightarrow> srec" where
  "diddle_key dtype descending direction xs =
     (case diddle_type dtype descending direction xs of (complement, ys) \<Rightarrow> if complement then map (\<lambda>w. NOT w) ys else ys)"

section \<open>The values of fields\<close>

text \<open>
  Lists of integers, compared as lists are.  A floating point number is its sign and its magnitude: the bits of the
  magnitude in their order, below zero from -1 on downwards, so that the negative zero is below the other one.  A short
  integer has the lower half of its longword.  Of an int64 and of a quad the low longword comes first in memory.
\<close>

definition sign_magnitude :: "bool \<Rightarrow> int \<Rightarrow> int" where
  "sign_magnitude s m = (if s then - m - 1 else m)"

definition magnitude :: "longword \<Rightarrow> int" where
  "magnitude w = uint w mod 2 ^ 31"

fun field_value :: "skd_dtype \<Rightarrow> srec \<Rightarrow> int list" where
  "field_value SKD_text xs = concat (map (\<lambda>w. [uint (byte 0 w), uint (byte 1 w), uint (byte 2 w), uint (byte 3 w)]) xs)"
| "field_value SKD_bytes xs = concat (map (\<lambda>w. [uint (byte 0 w), uint (byte 1 w), uint (byte 2 w), uint (byte 3 w)]) xs)"
| "field_value SKD_ulong xs = map uint xs"
| "field_value SKD_ushort xs = map uint xs"
| "field_value SKD_short xs = [sint (ucast (hd xs) :: 16 word)]"
| "field_value SKD_int64 xs = [sint (xs ! 1) * 2 ^ 32 + uint (hd xs)]"
| "field_value SKD_quad xs = [sint (xs ! 1) * 2 ^ 32 + uint (hd xs)]"
| "field_value SKD_float xs = [sign_magnitude (bit (hd xs) 31) (magnitude (hd xs))]"
| "field_value SKD_double xs = [sign_magnitude (bit (xs ! 1) 31) (magnitude (xs ! 1) * 2 ^ 32 + uint (hd xs))]"
| "field_value _ xs = sint (hd xs) # map uint (tl xs)"

fun field_ok :: "skd_dtype \<Rightarrow> srec \<Rightarrow> bool" where
  "field_ok SKD_text xs \<longleftrightarrow> True"
| "field_ok SKD_bytes xs \<longleftrightarrow> True"
| "field_ok SKD_short xs \<longleftrightarrow> length xs = 1 \<and> hd xs < 2 ^ 16"
| "field_ok SKD_int64 xs \<longleftrightarrow> length xs = 2"
| "field_ok SKD_quad xs \<longleftrightarrow> length xs = 2"
| "field_ok SKD_double xs \<longleftrightarrow> length xs = 2"
| "field_ok SKD_timestamp1 xs \<longleftrightarrow> length xs = 2"
| "field_ok SKD_timestamp2 xs \<longleftrightarrow> length xs = 2"
| "field_ok _ xs \<longleftrightarrow> length xs = 1"

section \<open>Words\<close>

lemma byte_longword [simp]:
  "byte 0 (longword b0 b1 b2 b3) = b0" "byte (Suc 0) (longword b0 b1 b2 b3) = b1"
  "byte 2 (longword b0 b1 b2 b3) = b2" "byte 3 (longword b0 b1 b2 b3) = b3"
  by (rule bit_word_eqI; auto simp: byte_def longword_def bit_simps dest: bit_imp_le_length)+

lemma longword_byte: "longword (byte 0 w) (byte (Suc 0) w) (byte 2 w) (byte 3 w) = w"
proof (rule bit_word_eqI)
  fix n assume "n < LENGTH(32)"
  then consider "n < 8" | "8 \<le> n" "n < 16" | "16 \<le> n" "n < 24" | "24 \<le> n" "n < 32" by (simp, linarith)
  then show "bit (longword (byte 0 w) (byte (Suc 0) w) (byte 2 w) (byte 3 w)) n = bit w n"
    by cases (auto simp: byte_def longword_def bit_simps)
qed

lemma swap_bytes_swap_bytes [simp]: "swap_bytes (swap_bytes w) = w"
  by (simp add: swap_bytes_def longword_byte)

lemma uint_bounds: "0 \<le> uint (w :: longword)" "uint (w :: longword) < 4294967296"
  using uint_lt2p [of w] by simp_all

lemma uint_not: "uint (NOT w) = 2 ^ 32 - 1 - uint (w :: longword)"
  using uint_bounds [of w]
  by (simp add: unsigned_not_eq take_bit_not_eq_mask_diff mask_eq_exp_minus_1 take_bit_int_eq_self)

lemma not_less_not: "NOT a < NOT (b :: longword) \<longleftrightarrow> b < a"
  by (auto simp: word_less_def uint_not)

lemma sign_bit: "bit (w :: longword) 31 \<longleftrightarrow> 2 ^ 31 \<le> uint w"
proof -
  have "uint w div 2 ^ 31 = (if 2 ^ 31 \<le> uint w then 1 else 0)"
  proof (cases "2 ^ 31 \<le> uint w")
    case True
    have "uint w = (uint w - 2 ^ 31) + 1 * 2 ^ 31" by simp
    also have "\<dots> div 2 ^ 31 = 1" using True uint_bounds [of w] by (subst div_mult_self1) (simp_all add: div_pos_pos_trivial)
    finally show ?thesis using True by simp
  qed (use uint_bounds [of w] in simp)
  then have "bit (uint w) 31 \<longleftrightarrow> 2 ^ 31 \<le> uint w" unfolding bit_iff_odd by simp
  then show ?thesis by (simp add: bit_uint_iff)
qed

lemma uint_magnitude: "uint w = magnitude w + (if bit w 31 then 2 ^ 31 else 0)"
proof (cases "bit w 31")
  case True
  then have "uint w mod 2 ^ 31 = uint w - 2 ^ 31"
    using uint_bounds [of w] minus_mod_self2 [of "uint w" "2 ^ 31"] mod_pos_pos_trivial [of "uint w - 2 ^ 31" "2 ^ 31"]
    by (simp add: sign_bit)
  then show ?thesis using True by (simp add: magnitude_def)
qed (use uint_bounds [of w] in \<open>simp add: magnitude_def sign_bit\<close>)

lemma magnitude_bounds: "0 \<le> magnitude w" "magnitude w < 2147483648"
  by (simp_all add: magnitude_def)

lemma uint_flip_sign: "uint (w XOR push_bit 31 1) = magnitude w + (if bit w 31 then 0 else 2 ^ 31)"
proof -
  have "take_bit 31 (w XOR push_bit 31 1) = take_bit 31 w" by (rule bit_word_eqI) (auto simp: bit_simps)
  moreover have "magnitude v = uint (take_bit 31 v)" for v
    unfolding magnitude_def by (simp only: unsigned_take_bit_eq flip: take_bit_eq_mod)
  ultimately have "magnitude (w XOR push_bit 31 1) = magnitude w" by simp
  moreover have "bit (w XOR push_bit 31 1) 31 \<longleftrightarrow> \<not> bit w 31" by (simp add: bit_simps)
  ultimately show ?thesis using uint_magnitude [of "w XOR push_bit 31 1"] by simp
qed

lemma sint_magnitude: "sint w = magnitude w - (if bit w 31 then 2 ^ 31 else 0)"
proof -
  have "sint w = uint w - 2 ^ 32 * of_bool (bit w 31)"
    using uint_bounds [of w]
    by (simp add: sint_uint signed_take_bit_eq_take_bit_minus take_bit_int_eq_self bit_uint_iff)
  then show ?thesis using uint_magnitude [of w] by simp
qed

lemma longword_word_of_int:
  "longword b0 b1 b2 b3 = word_of_int (uint b0 + 2 ^ 8 * uint b1 + 2 ^ 16 * uint b2 + 2 ^ 24 * uint b3)"
proof -
  have "longword b0 b1 b2 b3 = ucast b0 + push_bit 8 (ucast b1) + push_bit 16 (ucast b2) + push_bit 24 (ucast b3)"
  proof -
    let ?a = "ucast b0 OR push_bit 8 (ucast b1) :: longword"
    let ?b = "?a OR push_bit 16 (ucast b2)"
    have "ucast b0 + push_bit 8 (ucast b1) = ?a"
      by (rule disjunctive_add_eq_or, rule bit_word_eqI) (auto simp: bit_simps dest: bit_imp_le_length)
    moreover have "?a + push_bit 16 (ucast b2) = ?b"
      by (rule disjunctive_add_eq_or, rule bit_word_eqI) (auto simp: bit_simps dest: bit_imp_le_length)
    moreover have "?b + push_bit 24 (ucast b3) = ?b OR push_bit 24 (ucast b3)"
      by (rule disjunctive_add_eq_or, rule bit_word_eqI) (auto simp: bit_simps dest: bit_imp_le_length)
    moreover have "longword b0 b1 b2 b3 = ?b OR push_bit 24 (ucast b3)" by (simp only: longword_def or.assoc)
    ultimately show ?thesis by (simp only:)
  qed
  also have "\<dots> = word_of_int (uint b0 + 2 ^ 8 * uint b1 + 2 ^ 16 * uint b2 + 2 ^ 24 * uint b3)"
    by (simp add: push_bit_eq_mult unsigned_ucast_eq mult.commute)
  finally show ?thesis .
qed

lemma byte_bounds: "0 \<le> uint (b :: 8 word)" "uint (b :: 8 word) < 256"
  using uint_lt2p [of b] by simp_all

lemma uint_longword: "uint (longword b0 b1 b2 b3) = uint b0 + 2 ^ 8 * uint b1 + 2 ^ 16 * uint b2 + 2 ^ 24 * uint b3"
proof -
  let ?x = "uint b0 + 2 ^ 8 * uint b1 + 2 ^ 16 * uint b2 + 2 ^ 24 * uint b3"
  have "0 \<le> ?x" "?x < 2 ^ 32" using byte_bounds [of b0] byte_bounds [of b1] byte_bounds [of b2] byte_bounds [of b3] by simp_all
  then show ?thesis unfolding longword_word_of_int uint_word_of_int by simp
qed

lemma radix_less:
  assumes "0 \<le> x" "x < m" "0 \<le> y" "y < (m :: int)"
  shows "x + m * a < y + m * b \<longleftrightarrow> a < b \<or> a = b \<and> x < y"
proof (cases a b rule: linorder_cases)
  case less
  then have "m * (a + 1) \<le> m * b" using assms by (intro mult_left_mono) auto
  then show ?thesis using less assms by (simp add: algebra_simps)
next
  case greater
  then have "m * (b + 1) \<le> m * a" using assms by (intro mult_left_mono) auto
  then show ?thesis using greater assms by (simp add: algebra_simps)
qed simp

lemma radix_eq:
  assumes "0 \<le> x" "x < m" "0 \<le> y" "y < (m :: int)"
  shows "x + m * a = y + m * b \<longleftrightarrow> a = b \<and> x = y"
  using radix_less [OF assms, of a b] radix_less [OF assms(3,4,1,2), of b a] by (auto simp: not_less_iff_gr_or_eq)

lemma swap_bytes_less:
  "swap_bytes v < swap_bytes w \<longleftrightarrow>
     [uint (byte 0 v), uint (byte 1 v), uint (byte 2 v), uint (byte 3 v)] <
     [uint (byte 0 w), uint (byte 1 w), uint (byte 2 w), uint (byte 3 w)]"
proof -
  have "uint (swap_bytes w) =
      uint (byte 3 w) + 256 * (uint (byte 2 w) + 256 * (uint (byte 1 w) + 256 * uint (byte 0 w)))" for w
    by (simp add: swap_bytes_def uint_longword)
  note v = this
  show ?thesis
    unfolding word_less_def v radix_less [OF byte_bounds byte_bounds] radix_eq [OF byte_bounds byte_bounds] by simp blast
qed

section \<open>Order and round trip\<close>

lemma diddle_descending: "diddle_key d True True xs = map (\<lambda>w. NOT w) (diddle_key d False True xs)"
  by (cases d) (auto simp: diddle_key_def diddle_float_def Let_def comp_def split: prod.split)

lemma map_not_less: "length xs = length ys \<Longrightarrow> map (\<lambda>w. NOT w) xs < map (\<lambda>w. NOT w) ys \<longleftrightarrow> ys < (xs :: srec)"
  by (induction xs ys rule: list_induct2) (auto simp: not_less_not)

lemma diddle_key_length: "length (diddle_key d c direction xs) = length xs"
proof -
  have swap: "length (swap_longs zs) = length zs" for zs by (induction zs rule: swap_longs.induct) simp_all
  show ?thesis
    by (cases d) (auto simp: diddle_key_def diddle_float_def toggle_bit_def swap Let_def split: prod.split)
qed

lemma flip_sign_less: "v XOR push_bit 31 1 < w XOR push_bit 31 1 \<longleftrightarrow> sint v < sint (w :: longword)"
  using magnitude_bounds [of v] magnitude_bounds [of w] unfolding word_less_def uint_flip_sign sint_magnitude by auto

lemma flip_sign_eq: "v XOR push_bit n 1 = w XOR push_bit n 1 \<longleftrightarrow> v = (w :: longword)"
proof -
  have "(u XOR push_bit n 1) XOR push_bit n 1 = u" for u :: longword by (rule bit_word_eqI) (auto simp: bit_simps)
  then show ?thesis by metis
qed

lemma append_less: "length as = length bs \<Longrightarrow> as @ cs < bs @ ds \<longleftrightarrow> as < bs \<or> as = bs \<and> cs < (ds :: int list)"
proof (induction as bs rule: list_induct2)
  case (Cons a as b bs)
  then show ?case by (simp only: append_Cons Cons_less_Cons list.inject) blast
qed simp

lemma text_less:
  "length xs = length ys \<Longrightarrow> map swap_bytes xs < map swap_bytes ys \<longleftrightarrow> field_value SKD_text xs < field_value SKD_text ys"
proof (induction xs ys rule: list_induct2)
  case (Cons x xs y ys)
  let ?F = "\<lambda>w. [uint (byte 0 w), uint (byte 1 w), uint (byte 2 w), uint (byte 3 w)]"
  have "swap_bytes x = swap_bytes y \<longleftrightarrow> x = y" by (metis swap_bytes_swap_bytes)
  moreover have "?F x = ?F y \<longleftrightarrow> x = y"
    using longword_byte [of x] longword_byte [of y] unfolding list.inject word_uint_eq_iff [symmetric] One_nat_def by metis
  moreover have "field_value SKD_text (w # ws) = ?F w @ field_value SKD_text ws" for w ws by simp
  moreover have "?F x @ cs < ?F y @ ds \<longleftrightarrow> ?F x < ?F y \<or> ?F x = ?F y \<and> cs < ds" for cs ds
    by (rule append_less) simp
  ultimately show ?case by (simp only: list.map Cons_less_Cons Cons.IH swap_bytes_less)
qed simp

lemma ulong_less: "length xs = length ys \<Longrightarrow> xs < ys \<longleftrightarrow> map uint xs < map uint (ys :: srec)"
  by (induction xs ys rule: list_induct2) (auto simp: word_less_def word_uint_eq_iff)

text \<open>A floating point number as it is compared, and its low longword.\<close>

lemma uint_float:
  "uint (if bit w 31 then NOT w else w XOR push_bit 31 1) = sign_magnitude (bit w 31) (magnitude w) + 2 ^ 31"
  using uint_magnitude [of w] unfolding if_distrib [of uint] uint_flip_sign uint_not by (simp add: sign_magnitude_def)

lemma sign_magnitude_low:
  "sign_magnitude s (m * 2 ^ 32 + uint l) = uint (if s then NOT l else (l :: longword)) + 2 ^ 32 * sign_magnitude s m"
  by (simp add: sign_magnitude_def uint_not algebra_simps)

lemma two_longs_less:
  "[a, b] < [c, d] \<longleftrightarrow> uint b + 2 ^ 32 * (uint a - 2 ^ 31) < uint d + 2 ^ 32 * (uint c - 2 ^ 31)" for a b c d :: longword
proof -
  have "uint b + 2 ^ 32 * (uint a - 2 ^ 31) < uint d + 2 ^ 32 * (uint c - 2 ^ 31) \<longleftrightarrow>
      uint a - 2 ^ 31 < uint c - 2 ^ 31 \<or> uint a - 2 ^ 31 = uint c - 2 ^ 31 \<and> uint b < uint d"
    by (rule radix_less) (use uint_bounds in simp_all)
  then show ?thesis by (auto simp: word_less_def word_uint_eq_iff)
qed

lemma diddle_ascending_cases:
  "diddle_key SKD_float False True [w] = [if bit w 31 then NOT w else w XOR push_bit 31 1]"
  "diddle_key SKD_double False True [l, w] =
     [if bit w 31 then NOT w else w XOR push_bit 31 1, if bit w 31 then NOT l else l]"
  "diddle_key SKD_int64 False True [l, w] = [w XOR push_bit 31 1, l]"
  by (simp_all add: diddle_key_def diddle_float_def toggle_bit_def Let_def)

lemma flip_sign_uint: "uint (w XOR push_bit 31 1) - 2 ^ 31 = sint (w :: longword)"
  unfolding uint_flip_sign sint_magnitude by simp

lemma double_value:
  "field_value SKD_double [l, w] =
     [uint (if bit w 31 then NOT l else l) + 2 ^ 32 * sign_magnitude (bit w 31) (magnitude w)]"
  using sign_magnitude_low [of "bit w 31" "magnitude w" l] by simp

lemma two_values: "[x] < [y :: int] \<longleftrightarrow> x < y"
  by simp

lemma flip_clear: "\<not> bit u n \<Longrightarrow> u XOR push_bit n 1 = u + push_bit n (1 :: 'a :: len word)"
  by (rule disjunctive_add_eq_xor [symmetric], rule bit_word_eqI) (auto simp: bit_simps)

lemma flip_short: "uint (a XOR push_bit 15 1) = sint (a :: 16 word) + 2 ^ 15"
proof -
  let ?p = "push_bit 15 1 :: 16 word"
  have "a XOR ?p = a + ?p"
  proof (cases "bit a 15")
    case True
    let ?u = "a XOR ?p"
    have "\<not> bit ?u 15" using True by (simp add: bit_simps)
    moreover have "?u XOR ?p = a" by (rule bit_word_eqI) (auto simp: bit_simps)
    ultimately have "a = ?u + ?p" using flip_clear [of ?u 15] by metis
    then have "a + ?p = ?u + (?p + ?p)" by (metis add.assoc)
    moreover have "?p + ?p = 0" by simp
    ultimately show ?thesis by (simp only: add_0_right)
  qed (rule flip_clear)
  then have "uint (a XOR ?p) = take_bit 16 (uint a + 2 ^ 15)" by (simp add: uint_word_ariths take_bit_eq_mod)
  moreover have "sint a = take_bit 16 (uint a + 2 ^ 15) - 2 ^ 15" by (simp add: sint_uint signed_take_bit_eq_take_bit_shift)
  ultimately show ?thesis by simp
qed

lemma short_less:
  assumes "v < 2 ^ 16" "w < (2 ^ 16 :: longword)"
  shows "v XOR push_bit 15 1 < w XOR push_bit 15 1 \<longleftrightarrow> sint (ucast v :: 16 word) < sint (ucast w :: 16 word)"
proof -
  have "uint (u XOR push_bit 15 1) = sint (ucast u :: 16 word) + 2 ^ 15" if "u < 2 ^ 16" for u :: longword
  proof -
    have "uint (u XOR push_bit 15 1) = uint (ucast (u XOR push_bit 15 1) :: 16 word)"
    proof -
      have "take_bit 16 u = u" using that by (simp add: word_uint_eq_iff unsigned_take_bit_eq take_bit_int_eq_self word_less_def)
      moreover have "take_bit 16 (push_bit 15 1 :: longword) = push_bit 15 1" by (simp add: take_bit_push_bit)
      ultimately have "take_bit 16 (u XOR push_bit 15 1) = u XOR push_bit 15 1" by (simp only: take_bit_xor)
      then have "uint (u XOR push_bit 15 1) = take_bit 16 (uint (u XOR push_bit 15 1))" by (metis unsigned_take_bit_eq)
      then show ?thesis unfolding unsigned_ucast_eq by simp
    qed
    moreover have "(ucast (u XOR push_bit 15 1) :: 16 word) = ucast u XOR push_bit 15 1"
      by (rule bit_word_eqI) (auto simp: bit_simps)
    ultimately show ?thesis using flip_short [of "ucast u"] by simp
  qed
  then show ?thesis using assms by (simp only: word_less_def) simp
qed

lemma diddle_flip:
  "diddle_key SKD_short False True [w] = [w XOR push_bit 15 1]"
  "diddle_key SKD_quad False True [l, w] = [l, w XOR push_bit 31 1]"
  by (simp_all add: diddle_key_def toggle_bit_def)

lemma flip_first:
  assumes "d \<in> {SKD_long, SKD_timestamp1, SKD_timestamp2, SKD_sql_time, SKD_sql_date}" "0 < length xs" "length xs = length ys"
  shows "diddle_key d False True xs < diddle_key d False True ys \<longleftrightarrow> field_value d xs < field_value d ys"
proof -
  obtain v as w bs where xs: "xs = v # as" "ys = w # bs" using assms(2,3) by (cases xs; cases ys) auto
  have "diddle_key d False True (u # us) = (u XOR push_bit 31 1) # us" "field_value d (u # us) = sint u # map uint us" for u us
    using assms(1) by (auto simp: diddle_key_def toggle_bit_def)
  moreover have "as < bs \<longleftrightarrow> map uint as < map uint bs" using ulong_less assms(3) xs by simp
  moreover have "sint v = sint w \<longleftrightarrow> v = w" by (metis signed_word_eqI)
  ultimately show ?thesis unfolding xs by (simp only: Cons_less_Cons flip_sign_less flip_sign_eq)
qed

lemma diddle_ascending:
  assumes "field_ok d xs" "field_ok d ys" "length xs = length ys" "d \<noteq> SKD_quad"
  shows "diddle_key d False True xs < diddle_key d False True ys \<longleftrightarrow> field_value d xs < field_value d ys"
proof -
  have two: "\<exists>a b. zs = [a, b]" if "length zs = 2" for zs :: srec using that by (auto simp: length_Suc_conv numeral_2_eq_2)
  have one: "\<exists>a. zs = [a]" if "length zs = 1" for zs :: srec using that by (auto simp: length_Suc_conv)
  show ?thesis
  proof (cases d)
    case SKD_double
    then obtain a b v w where "xs = [a, v]" "ys = [b, w]" using assms(1,2) two [of xs] two [of ys] SKD_double by auto
    then show ?thesis
      by (simp only: SKD_double diddle_ascending_cases two_longs_less uint_float double_value two_values add_diff_cancel_right')
  next
    case SKD_int64
    then obtain a b v w where "xs = [a, v]" "ys = [b, w]" using assms(1,2) two [of xs] two [of ys] SKD_int64 by auto
    then show ?thesis
      by (simp only: SKD_int64 diddle_ascending_cases two_longs_less flip_sign_uint) (simp add: mult.commute add.commute)
  next
    case SKD_float
    then obtain v w where "xs = [v]" "ys = [w]" using assms(1,2) one [of xs] one [of ys] SKD_float by auto
    then show ?thesis
      by (simp only: SKD_float diddle_ascending_cases Cons_less_Cons word_less_def uint_float) simp
  next
    case SKD_short
    then obtain v w where "xs = [v]" "ys = [w]" "v < 2 ^ 16" "w < 2 ^ 16" using assms(1,2) one [of xs] one [of ys] SKD_short by auto
    then show ?thesis
      by (simp only: SKD_short diddle_flip Cons_less_Cons short_less field_value.simps list.sel less_irrefl simp_thms)
  next
    case SKD_quad
    then show ?thesis using assms(4) by simp
  next
    case SKD_text
    then show ?thesis using text_less [OF assms(3)] by (simp add: diddle_key_def)
  next
    case SKD_bytes
    then show ?thesis using text_less [OF assms(3)] by (simp add: diddle_key_def)
  next
    case SKD_ulong
    then show ?thesis using ulong_less [OF assms(3)] by (simp add: diddle_key_def)
  next
    case SKD_ushort
    then show ?thesis using ulong_less [OF assms(3)] by (simp add: diddle_key_def)
  next
    case SKD_long
    show ?thesis by (rule flip_first) (use assms SKD_long in auto)
  next
    case SKD_timestamp1
    show ?thesis by (rule flip_first) (use assms SKD_timestamp1 in auto)
  next
    case SKD_timestamp2
    show ?thesis by (rule flip_first) (use assms SKD_timestamp2 in auto)
  next
    case SKD_sql_time
    show ?thesis by (rule flip_first) (use assms SKD_sql_time in auto)
  next
    case SKD_sql_date
    show ?thesis by (rule flip_first) (use assms SKD_sql_date in auto)
  qed
qed

text \<open>A quad is compared by its low longword first, and only then by the high one.\<close>

lemma diddle_quad_less:
  "diddle_key SKD_quad False True [l, h] < diddle_key SKD_quad False True [l', h'] \<longleftrightarrow>
     uint l < uint l' \<or> (l = l' \<and> sint h < sint h')"
  by (simp only: diddle_flip Cons_less_Cons flip_sign_less) (simp add: word_less_def word_uint_eq_iff)

lemma not_flip: "(NOT w XOR push_bit 31 1) = NOT (w XOR push_bit 31 1)" for w :: longword
  by (rule bit_word_eqI) (auto simp: bit_simps)

lemma flip_flip: "(w XOR push_bit n 1) XOR push_bit n 1 = (w :: longword)"
  by (rule bit_word_eqI) (auto simp: bit_simps)

lemma flip_bit_flip_bit: "k < length xs \<Longrightarrow> toggle_bit k n (toggle_bit k n xs) = xs"
  unfolding toggle_bit_def by (simp only: nth_list_update_eq list_update_overwrite flip_flip list_update_id)

lemma flip_bit_not: "k < length xs \<Longrightarrow> toggle_bit k 31 (map (\<lambda>w. NOT w) xs) = map (\<lambda>w. NOT w) (toggle_bit k 31 xs)"
  by (simp add: toggle_bit_def not_flip map_update [symmetric])

lemma swap_not: "swap_longs (map (\<lambda>w. NOT w) xs) = map (\<lambda>w. NOT w) (swap_longs xs)"
  by (induction xs rule: swap_longs.induct) simp_all

lemma swap_swap [simp]: "swap_longs (swap_longs xs) = xs"
  by (induction xs rule: swap_longs.induct) simp_all

lemma not_not_map [simp]: "map (\<lambda>w. NOT w) (map (\<lambda>w. NOT w) xs) = (xs :: srec)"
  by (simp add: comp_def)

lemma sign_flip_bit: "k < length xs \<Longrightarrow> bit (toggle_bit k 31 xs ! k) 31 \<longleftrightarrow> \<not> bit (xs ! k) 31"
  by (simp add: toggle_bit_def bit_simps)

lemma float_roundtrip:
  assumes "k < length xs" "diddle_float k c True xs = (c', ys)" "zs = (if c' then map (\<lambda>w. NOT w) ys else ys)"
    "diddle_float k c False zs = (c'', us)"
  shows "(if c'' then map (\<lambda>w. NOT w) us else us) = xs"
proof -
  have sign: "bit (NOT w) 31 \<longleftrightarrow> \<not> bit w 31" for w :: longword by (simp add: bit_simps)
  have len: "length (toggle_bit k 31 xs) = length xs" by (simp add: toggle_bit_def)
  show ?thesis
    using assms by (auto simp: diddle_float_def Let_def sign sign_flip_bit len flip_bit_flip_bit flip_bit_not comp_def
        simp del: map_map split: if_split_asm)
qed

lemma toggle_bit_length [simp]: "length (toggle_bit k n xs) = length xs"
  by (simp add: toggle_bit_def)

lemma swap_bytes_not: "swap_bytes (NOT w) = NOT (swap_bytes w)"
proof (rule bit_word_eqI)
  fix n assume "n < LENGTH(32)"
  then consider "n < 8" | "8 \<le> n" "n < 16" | "16 \<le> n" "n < 24" | "24 \<le> n" "n < 32" by (simp, linarith)
  then show "bit (swap_bytes (NOT w)) n = bit (NOT (swap_bytes w)) n"
    by cases (auto simp: swap_bytes_def byte_def longword_def bit_simps)
qed

lemma swap_map [simp]: "map swap_bytes (map swap_bytes xs) = xs"
  by (simp add: comp_def)

lemma diddle_roundtrip:
  assumes "field_ok d xs"
  shows "diddle_key d c False (diddle_key d c True xs) = xs"
proof (cases d)
  case SKD_float
  obtain c' ys where ys: "diddle_float 0 c True xs = (c', ys)" by fastforce
  let ?zs = "if c' then map (\<lambda>w. NOT w) ys else ys"
  obtain c'' us where us: "diddle_float 0 c False ?zs = (c'', us)" by fastforce
  have "diddle_key d c True xs = ?zs" using SKD_float ys by (simp add: diddle_key_def)
  moreover have "diddle_key d c False ?zs = (if c'' then map (\<lambda>w. NOT w) us else us)"
    using SKD_float us by (simp add: diddle_key_def)
  moreover have "0 < length xs" using assms SKD_float by simp
  ultimately show ?thesis using float_roundtrip [OF _ ys refl us] by simp
next
  case SKD_double
  obtain c' ys where ys: "diddle_float 1 c True xs = (c', ys)" by fastforce
  let ?zs = "if c' then map (\<lambda>w. NOT w) ys else ys"
  obtain c'' us where us: "diddle_float 1 c False ?zs = (c'', us)" by fastforce
  have "diddle_key d c True xs = swap_longs ?zs" using SKD_double ys by (simp add: diddle_key_def swap_not)
  moreover have "diddle_key d c False (swap_longs ?zs) = (if c'' then map (\<lambda>w. NOT w) us else us)"
    using SKD_double us by (simp add: diddle_key_def)
  moreover have "1 < length xs" using assms SKD_double by simp
  ultimately show ?thesis using float_roundtrip [OF _ ys refl us] by simp
next
  case SKD_int64
  then obtain a b where "xs = [a, b]" using assms by (auto simp: length_Suc_conv numeral_2_eq_2)
  then show ?thesis using SKD_int64 by (auto simp: diddle_key_def toggle_bit_def not_flip [simplified] flip_flip [of _ 31, simplified])
next
  case SKD_quad
  then obtain a b where "xs = [a, b]" using assms by (auto simp: length_Suc_conv numeral_2_eq_2)
  then show ?thesis using SKD_quad by (auto simp: diddle_key_def toggle_bit_def not_flip [simplified] flip_flip [of _ 31, simplified])
next
  case SKD_short
  have "NOT w XOR push_bit 15 1 = NOT (w XOR push_bit 15 1)" for w :: longword by (rule bit_word_eqI) (auto simp: bit_simps)
  moreover obtain a where "xs = [a]" using assms SKD_short by (auto simp: length_Suc_conv)
  ultimately show ?thesis using SKD_short flip_flip [of a 15] by (auto simp: diddle_key_def toggle_bit_def)
next
  case SKD_text
  then show ?thesis by (cases c) (simp_all add: diddle_key_def comp_def swap_bytes_not)
next
  case SKD_bytes
  then show ?thesis by (cases c) (simp_all add: diddle_key_def comp_def swap_bytes_not)
qed (use assms in \<open>auto simp: diddle_key_def flip_bit_flip_bit flip_bit_not comp_def simp del: map_map\<close>)

end
