(* ===== verification/Sort_Props.thy ===== *)
theory Sort_Props
  imports Sort_Scb Sort_Key
begin

text \<open>
  The properties of the sort: for any number of records, in memory or through runs and merges of runs; of the form of the
  keys; and what becomes of keys like that of the guard, which a distinct aggregate can produce.
\<close>

section \<open>Keys of ones\<close>

lemma single_record:
  assumes "1 < longs" "length p = longs - 1" "0 < K" "K \<le> longs - 1" "take K p = replicate K (- 1)"
  shows "sort_records longs K (Some reject) [p] = Some []"
proof -
  let ?xs = "pointers longs [p]"
  have xs: "?xs = [(0, low_key longs), (1, p), (2, high_key longs)]" by (simp add: pointers_def upt_rec)
  have "p = high_key longs \<or> p < high_key longs"
    using below_high_key [OF assms(2)] by (auto simp: high_key_def)
  then have "\<not> rec_greater longs p (high_key longs)"
    using assms(2) by (auto simp: rec_greater_less high_key_def)
  then have "sort_slots longs [p] = Some ?xs"
    by (simp add: sort_slots_def quick_def quick_loop.simps xs)
  moreover have "kept_slots longs K (Some reject) ?xs [1..<length [p] + 1] = last_of_keys K [p] (high_key longs)"
    by (rule kept_slots_reject [where l = "low_key longs"]) (use assms in \<open>auto simp: xs high_key_def\<close>)
  moreover have "take K (high_key longs) = replicate K (- 1)" using assms(4) by (simp add: high_key_def min_def)
  ultimately show ?thesis using assms(5) by (simp add: sort_records_def)
qed

lemma skip_lower_reaches: "skip_lower xs key i = Some i' \<Longrightarrow> i' < length xs \<and> \<not> hd (rec_at xs i') < key"
  by (induction xs key i rule: skip_lower.induct) (auto simp: skip_lower.simps split: if_split_asm)

lemma skip_not_greater_none:
  "\<forall>k<length xs. \<not> rec_greater longs (rec_at xs k) (rec_at xs r) \<Longrightarrow> skip_not_greater longs xs r i = None"
  by (induction longs xs r i rule: skip_not_greater.induct) (subst skip_not_greater.simps, auto)

lemma scan_right_overrun:
  assumes "1 < longs" "\<forall>k<length xs. length (rec_at xs k) = longs - 1" "rec_at xs r = high_key longs"
  shows "scan_right longs xs r i = None"
proof (cases "skip_lower xs (hd (rec_at xs r)) i")
  case (Some i')
  have key: "hd (rec_at xs r) = - 1" using assms(1,3) by (cases "longs - 1") (auto simp: high_key_def)
  then have "hd (rec_at xs i') = hd (rec_at xs r)"
    using skip_lower_reaches [OF Some] word_order.extremum_unique by (auto simp: not_less)
  moreover have "\<not> rec_greater longs (rec_at xs k) (rec_at xs r)" if "k < length xs" for k
  proof -
    have len: "length (rec_at xs k) = longs - 1" using assms(2) that by blast
    then have "rec_at xs k = high_key longs \<or> rec_at xs k < high_key longs"
      using below_high_key [OF len] by (auto simp: high_key_def)
    then show ?thesis using rec_greater_less [OF len, of "high_key longs"] assms(3) by (auto simp: high_key_def)
  qed
  ultimately show ?thesis using Some skip_not_greater_none by (simp add: scan_right_def)
qed (simp add: scan_right_def)

lemma replicate_two: "replicate 2 x = [x, x]"
  by (simp add: numeral_2_eq_2)

section \<open>Properties\<close>

text \<open>
  (C20) A sort without a callback gives back the records it was given, each as often, in the order of their keys.  None of
  its steps fails: the stack of \<open>quick\<close> holds, no scan leaves the array, no merge has more than 32 streams, every loop ends.
\<close>

theorem SORT_sorts:
  assumes "0 < key_end" "key_end \<le> record_length" "longs_of (record_length + 4) + 3 \<le> size_memory div 4"
    "size_memory \<le> MAX_SORT_BUFFER_SIZE" "\<forall>p\<in>set recs. record_ok (longs_of (record_length + 4)) p"
  shows "\<exists>s s' out. put_all recs (SORT_init size_memory record_length key_end None) = Some s \<and>
    SORT_sort s = Some s' \<and> drain SORT_get s' = Some out \<and>
    mset out = mset recs \<and> sorted (map (take (longs_of key_end)) out)"
  using whole_sort [OF assms(1-4), of None recs] assms(5)
  by (auto simp: callback_ok_def key_ok_def kept_def before_def [abs_def] sorted_map)

theorem SORT_sorts_witness:
  "\<exists>s s' out. put_all [[3], [1], [2]] (SORT_init 131040 4 4 None) = Some s \<and>
    SORT_sort s = Some s' \<and> drain SORT_get s' = Some out \<and>
    mset out = mset [[3], [1], [2]] \<and> sorted (map (take (longs_of 4)) out)"
  by (rule SORT_sorts) (simp_all add: longs_of_def MAX_SORT_BUFFER_SIZE_def record_ok_def high_key_def)

text \<open>
  (C21) A sort whose callback rejects duplicates, the one of \<open>SELECT DISTINCT\<close>, gives exactly one record for each key
  that it was given, in the order of the keys, provided that no key consists of ones only.
\<close>

theorem SORT_distinct:
  assumes "0 < key_end" "key_end \<le> record_length" "longs_of (record_length + 4) + 3 \<le> size_memory div 4"
    "size_memory \<le> MAX_SORT_BUFFER_SIZE" "\<forall>p\<in>set recs. record_ok (longs_of (record_length + 4)) p"
    "\<forall>p\<in>set recs. take (longs_of key_end) p \<noteq> replicate (longs_of key_end) (- 1)"
  shows "\<exists>s s' out. put_all recs (SORT_init size_memory record_length key_end (Some reject)) = Some s \<and>
    SORT_sort s = Some s' \<and> drain SORT_get s' = Some out \<and> set out \<subseteq> set recs \<and>
    take (longs_of key_end) ` set out = take (longs_of key_end) ` set recs \<and>
    sorted_wrt (<) (map (take (longs_of key_end)) out)"
  using whole_sort [OF assms(1-4), of "Some reject" recs] assms(5,6)
  by (auto simp: callback_ok_def key_ok_def kept_def before_def [abs_def] sorted_wrt_map)

theorem SORT_distinct_witness:
  "\<exists>s s' out. put_all [[3, 1], [1, 2], [3, 4]] (SORT_init 131040 8 4 (Some reject)) = Some s \<and>
    SORT_sort s = Some s' \<and> drain SORT_get s' = Some out \<and> set out \<subseteq> set [[3, 1], [1, 2], [3, 4]] \<and>
    take (longs_of 4) ` set out = take (longs_of 4) ` set [[3, 1], [1, 2], [3, 4]] \<and>
    sorted_wrt (<) (map (take (longs_of 4)) out)"
  by (rule SORT_distinct) (simp_all add: longs_of_def MAX_SORT_BUFFER_SIZE_def record_ok_def high_key_def replicate_two)

text \<open>
  (C22) The unsigned comparison of fields that \<open>diddle_key\<close> has changed is the order of their values, and for a descending
  key the opposite order, for every type of field but the quad.
\<close>

theorem diddle_key_orders:
  assumes "field_ok d xs" "field_ok d ys" "length xs = length ys" "d \<noteq> SKD_quad"
  shows "(diddle_key d False True xs < diddle_key d False True ys \<longleftrightarrow> field_value d xs < field_value d ys) \<and>
    (diddle_key d True True xs < diddle_key d True True ys \<longleftrightarrow> field_value d ys < field_value d xs)"
  using diddle_ascending [OF assms] diddle_ascending [OF assms(2,1) _ assms(4)] assms(3)
  by (simp_all add: diddle_descending map_not_less diddle_key_length)

theorem diddle_key_orders_witness:
  "(diddle_key SKD_int64 False True [5, - 1] < diddle_key SKD_int64 False True [5, 0] \<longleftrightarrow>
      field_value SKD_int64 [5, - 1] < field_value SKD_int64 [5, 0]) \<and>
   (diddle_key SKD_int64 True True [5, - 1] < diddle_key SKD_int64 True True [5, 0] \<longleftrightarrow>
      field_value SKD_int64 [5, 0] < field_value SKD_int64 [5, - 1])"
  by (rule diddle_key_orders) simp_all

text \<open>
  Quads are not sorted by their values: the low longword decides before the high one, which has the sign.  Whenever the
  low longwords of two quads are in the opposite order of the high ones, so are the keys of the values.
\<close>

theorem diddle_quad_misorders:
  assumes "sint h < sint h'" "uint l' < uint l"
  shows "field_value SKD_quad [l, h] < field_value SKD_quad [l', h'] \<and>
    diddle_key SKD_quad False True [l', h'] < diddle_key SKD_quad False True [l, h]"
proof -
  have "uint l < 2 ^ 32" using uint_lt2p [of l] by simp
  moreover have "(sint h + 1) * 2 ^ 32 \<le> sint h' * 2 ^ 32" using assms(1) by (intro mult_right_mono) simp_all
  ultimately have "sint h * 2 ^ 32 + uint l < sint h' * 2 ^ 32 + uint l'"
    by (simp add: distrib_right) (use uint_ge_0 [of l'] in linarith)
  then show ?thesis using assms(2) by (simp add: diddle_quad_less)
qed

theorem diddle_quad_misorders_witness:
  "field_value SKD_quad [5, - 1] < field_value SKD_quad [3, 0] \<and>
    diddle_key SKD_quad False True [3, 0] < diddle_key SKD_quad False True [5, - 1]"
  by (rule diddle_quad_misorders) simp_all

text \<open>(C23) Before a record is given back, \<open>diddle_key\<close> restores what it had changed, in either order of sorting.\<close>

theorem diddle_key_roundtrip:
  assumes "field_ok d xs"
  shows "diddle_key d descending False (diddle_key d descending True xs) = xs"
  using assms by (rule diddle_roundtrip)

theorem diddle_key_roundtrip_witness:
  "diddle_key SKD_double True False (diddle_key SKD_double True True [1, 3220176896]) = [1, 3220176896]"
  by (rule diddle_key_roundtrip) simp

text \<open>
  (C24) The pass over neighbours compares the last record with the guard behind it: when duplicates are rejected, a record
  whose key is all ones is lost.  Such is the key of the largest integer, and the record of a distinct aggregate has no
  more than the key: \<open>COUNT (DISTINCT x)\<close> is 0 for the one value 2147483647.
\<close>

theorem guard_key_lost:
  assumes "0 < key_end" "key_end \<le> record_length" "longs_of (record_length + 4) + 3 \<le> size_memory div 4"
    "size_memory \<le> MAX_SORT_BUFFER_SIZE" "length p = longs_of (record_length + 4) - 1"
    "take (longs_of key_end) p = replicate (longs_of key_end) (- 1)"
  shows "\<exists>s s'. SORT_put p (SORT_init size_memory record_length key_end (Some reject)) = Some s \<and>
    SORT_sort s = Some s' \<and> SORT_get s' = Some (None, s')"
proof -
  let ?s = "SORT_init size_memory record_length key_end (Some reject)"
  have sizes: "sizes_ok (size_memory div 4) (longs_of (record_length + 4)) (longs_of key_end) (Some reject)"
    using sizes_okI [OF assms(1-4)] by (simp add: callback_ok_def)
  then have "SORT_put p ?s = Some (?s\<lparr>scb_memory := [p]\<rparr>)"
    by (simp add: SORT_put_def no_room_def SORT_init_def sizes_ok_def)
  moreover have "sort_records (longs_of (record_length + 4)) (longs_of key_end) (Some reject) [p] = Some []"
    using single_record assms(5,6) sizes by (simp add: sizes_ok_def)
  ultimately show ?thesis by (simp add: SORT_sort_def SORT_get_def SORT_init_def)
qed

theorem guard_key_lost_witness:
  "\<exists>s s'. SORT_put (diddle_key SKD_long False True [2147483647]) (SORT_init 131040 4 4 (Some reject)) = Some s \<and>
    SORT_sort s = Some s' \<and> SORT_get s' = Some (None, s')"
  by (rule guard_key_lost) (simp_all add: longs_of_def MAX_SORT_BUFFER_SIZE_def diddle_key_def toggle_bit_def)

text \<open>
  When the middle one of three or more records is all ones, as the guard is, the scan of the partition for a greater
  record finds none and leaves the array: the records of a distinct aggregate over three values 2147483647 do this.
\<close>

theorem guard_overrun:
  assumes "1 < longs" "3 \<le> length recs" "\<forall>p\<in>set recs. length p = longs - 1"
    "recs ! ((length recs - 1) div 2) = high_key longs"
  shows "sort_records longs K callback recs = None"
proof -
  let ?n = "length recs" and ?xs = "pointers longs recs"
  let ?m = "1 + (?n - 1) div 2"
  let ?ys = "exchange_slots 1 ?m ?xs"
  have lenx: "length ?xs = ?n + 2" by (simp add: pointers_def)
  have xs: "rec_at ?xs k = (low_key longs # recs @ [high_key longs]) ! k" if "k < ?n + 2" for k
    using that by (simp add: pointers_def del: upt_Suc)
  have m: "?m < ?n + 2" "1 < ?n + 2" using assms(2) by simp_all
  have len: "length (rec_at ?xs k) = longs - 1" if "k < ?n + 2" for k
    using xs [OF that] that assms(3) by (auto simp: nth_Cons nth_append low_key_def high_key_def split: nat.split)
  note ex = exchange_at [of 1 ?xs ?m, unfolded lenx, OF m(2,1)]
  have "rec_at ?xs ?m = high_key longs" using xs [OF m(1)] assms(2,4) by (simp add: nth_append)
  then have ys: "rec_at ?ys 1 = high_key longs" using ex(1) [of 1] by simp
  have leny: "\<forall>k<length ?ys. length (rec_at ?ys k) = longs - 1" unfolding ex(1,2) using len m by simp
  have "partition_loop longs ?ys 1 (1 + 1) ?n = None"
    using scan_right_overrun [OF assms(1) leny ys] by (subst partition_loop.simps) simp
  then have "quick_step longs ?xs 1 ?n = None" by (simp add: quick_step_def)
  then have "quick ?n longs ?xs = None" using assms(2) by (simp add: quick_def quick_loop.simps [of _ "[_]"])
  then show ?thesis by (simp add: sort_records_def sort_slots_def)
qed

theorem guard_overrun_witness:
  "sort_records 2 1 (Some reject) (replicate 3 (diddle_key SKD_long False True [2147483647])) = None"
  by (rule guard_overrun) (simp_all add: high_key_def diddle_key_def toggle_bit_def)

section \<open>The room in memory\<close>

text \<open>
  While records are put, those in memory and the pointers to them, with the one to the guard, never overlap, and there are
  never more than seven runs of one depth below the last level.
\<close>

lemma SORT_put_in_bounds:
  assumes "0 < key_end" "key_end \<le> record_length" "longs_of (record_length + 4) + 3 \<le> size_memory div 4"
    "size_memory \<le> MAX_SORT_BUFFER_SIZE" "\<forall>p\<in>set recs. record_ok (longs_of (record_length + 4)) p"
  shows "\<exists>s. put_all recs (SORT_init size_memory record_length key_end None) = Some s \<and>
    length (scb_memory s) * longs_of (record_length + 4) + (length (scb_memory s) + 2) \<le> scb_size s \<and>
    (\<forall>d<MAX_MERGE_LEVEL. count_list (map fst (scb_runs s)) d < RUN_GROUP)"
  using whole_sort [OF assms(1-4), of None recs] assms(5)
  by (auto simp: callback_ok_def key_ok_def scb_ok_def scb_fields_def memory_fits_def depths_ok_def
      MAX_MERGE_LEVEL_def RUN_GROUP_def)

end
