(* ===== verification/Spec2Isabelle.thy ===== *)
theory Spec2Isabelle
  imports Sqz Sbm_Next Like Lock_Props Tra_Props Cvt_Props Coll_Props Sort_Props
begin

text \<open>
  A verification of parts of the InterBase database engine.

  \<^bold>\<open>The program.\<close>  InterBase is a relational database server in C.  The engine proper is in
  \<^verbatim>\<open>src/jrd\<close>: it compiles requests, evaluates their expressions, keeps versions of records on
  pages and gives transactions their view of them.  The processes that have a database open
  coordinate through a lock table in shared memory, \<^verbatim>\<open>src/lock\<close>.  Character sets are in
  \<^verbatim>\<open>src/intl\<close>.  Around the engine are the SQL front end, the network layer, the precompiler and
  the utilities.  The development covers eight of the engine's parts: those that are algorithms over
  state of their own, rather than calls of other parts.  A record that is stored goes through the
  compression; the records a search selects are sets of numbers in sparse bit maps, which a
  transaction also uses for its committed sub-transactions; the string predicates decide on a
  record; the transaction states say whether a version of a record is visible; the lock manager
  says which transactions are alive; the converters translate the strings that come and go, and the
  collation drivers compare them and make the keys by which they are indexed and sorted; and the sort
  orders records by their keys for whoever asked for an order, for distinct values, or for an index.

  \<^bold>\<open>How code is modelled.\<close>  A routine is a function of the same name from the state to the result
  and the new state.  \<open>Prelude\<close> has the byte type and the result type: a \<^verbatim>\<open>BUGCHECK\<close> is the error
  \<open>BUGCHECK n\<close>, and an access outside of the memory a routine was given, which is undefined in C, the
  error \<open>OUT_OF_BOUNDS\<close>.  Bytes and bit patterns are words of their width; counters are numbers with the
  wrap-around written out where the code can reach it.  The configuration is UNIX classic: every
  process has its own cache, shares the lock table and sends signals; the super server, VMS and
  Windows variants are left out.

  \<^bold>\<open>The parts.\<close>

  \<^item> Record compression, \<^verbatim>\<open>src/jrd/sqz.c\<close>: \<open>Sqz\<close>, all routines.  The lemmas show that compression and
  difference strings can be undone and that the undoing stays within its buffers for any input.  The
  locale \<open>codec\<close> states what a compressor promises to the code that stores records.

  \<^item> Sparse bit maps, \<^verbatim>\<open>src/jrd/sbm.c\<close>: \<open>Sbm\<close> (the map, its invariant \<open>sbm_ok\<close>, insertion, deletion, meet and
  join) and \<open>Sbm_Next\<close> (the search for the next bit, equality).  The abstract value of a map is the set
  \<open>sbm_set\<close>, and the operations are the operations on sets; the locales \<open>slot_meet\<close> and \<open>slot_join\<close> carry the
  argument from segments to buckets and from buckets to the root, and \<open>number_set\<close> is what clients
  rely on.  The searches find the next and the previous member but in two cases, which their properties
  leave out: a member that is \<open>alone\<close> in a singular bucket is missed from the positions next to it, by the
  backward search anywhere and by the forward search unless it is the first of its bucket (a property of its
  own), and the backward search from a bucket above all members gives up.

  \<^item> String predicates, \<^verbatim>\<open>src/jrd/evl_like.c\<close> and \<^verbatim>\<open>evl.c\<close>: \<open>Like\<close>, against the language a pattern denotes.

  \<^item> The lock manager, \<^verbatim>\<open>src/lock/lock.c\<close>.  \<open>Lock\<close> has the table and the operations on requests,
  \<open>Deadlock\<close> the search for cycles, \<open>Lock_Owner\<close> owners, signals and the turn of a waiting owner.  Each
  hold of the table's mutex is one function; \<open>lock_step\<close> in \<open>Lock_Steps\<close> interleaves them in any order; of an owner
  that waits, the blocking routines may release, downgrade and convert other requests in the meantime, but not make
  new ones or wait themselves.  \<open>lock_reachable\<close> are the tables that come of it.  Of \<^verbatim>\<open>signal_owner\<close> only the case of another process that can
  be signalled is there, so that \<^verbatim>\<open>post_blockage\<close> purges nobody.  \<open>Lock_Inv\<close>, \<open>Lock_Table\<close> and \<open>Lock_Ops\<close> have the invariant of the
  table and its preservation, \<open>Lock_System\<close> and \<open>Lock_Steps\<close> that of owners and waits, \<open>Lock_Outcome\<close> what becomes of
  a request, \<open>Lock_Example\<close> runs of the system that start at the table \<^verbatim>\<open>lock_initialize\<close> leaves, and
  \<open>Lock_Props\<close> the properties.  The locale \<open>lock_modes\<close> is what is needed of the compatibility matrix.

  \<^item> Transaction states, \<^verbatim>\<open>src/jrd/tra.c\<close> and \<^verbatim>\<open>tpc.c\<close>.  \<open>Tip\<close> has the inventory pages, on which every
  transaction has two bits, and a process's cache of them; \<open>Tra\<close> snapshots, the start of a transaction,
  waiting for one, and the clean-up.  \<open>Tip_Inv\<close> relates all of these to \<open>tip_state\<close>, the state on the pages;
  \<open>Tpc_Inv\<close> has the invariant of the cache and its steps \<open>tip_step\<close> among other processes that change the
  pages and move the oldest interesting transaction over those that are committed or dead; \<open>Tip_Cleanup\<close> the loops of the clean-up; \<open>Tra_Props\<close> the properties.

  \<^item> Character sets, \<^verbatim>\<open>src/intl/cv_narrow.c\<close>, \<^verbatim>\<open>cv_big5.c\<close>, \<^verbatim>\<open>cv_gb2312.c\<close>, \<^verbatim>\<open>cv_ksc.c\<close> and
  \<^verbatim>\<open>cs_utffss.c\<close>: \<open>Cvt\<close>.  The locale \<open>char_unit\<close> in \<open>Cvt_Spec\<close> is the contract of the conversion of one character,
  from which the loop of every converter gets its properties, and \<open>unit_inverse\<close> that of two conversions
  that undo each other; \<open>Utf\<close> shows them for the file system safe form of Unicode, and \<open>Cvt_Props\<close> has the
  properties.

  \<^item> Collation drivers, \<^verbatim>\<open>src/intl/lc_narrow.c\<close>, \<^verbatim>\<open>lc_ascii.c\<close> and \<^verbatim>\<open>lc_ksc.c\<close>: \<open>Coll\<close> and, for Korean and for
  the upper case of multibyte strings, \<open>Coll_Ksc\<close>.  \<open>Coll_Order\<close> has the order of keys, the locale \<open>sort_keys\<close>, which is what indices and sorts rely on (the comparison is the order of the keys, hence a
  total preorder), and the meaning of the two loops of the international family as the entries and the specials
  of a string; \<open>coll_ok\<close> are the conditions on the tables.  Five of the tables in \<^verbatim>\<open>src/intl/collations\<close> do not
  meet them, and their keys and comparisons disagree: \<^verbatim>\<open>pw1252i850.h\<close>, \<^verbatim>\<open>pw1252span.h\<close>, \<^verbatim>\<open>pw1254turk.h\<close>,
  \<^verbatim>\<open>pd857turk.h\<close> and \<^verbatim>\<open>db852hdc.h\<close>, whose weights are cut off by the bit fields.  The locale is interpreted for all three families; \<open>Coll_Props\<close> has the
  properties.

  \<^item> The sort, \<^verbatim>\<open>src/jrd/sort.c\<close>: \<open>Sort\<close> has the sort in memory (\<open>quick\<close>, the pass over neighbours and that
  over duplicates), the merge tree and the sort context block with its operations; \<open>Sort_Key\<close> the keys of
  fields of fixed length, and that their unsigned comparison is the order of the values, for all types but the
  quad, whose keys put the low longword first.  \<open>Sort_Quick\<close> shows that the sort in memory sorts: the intervals on its stack lie between
  cuts, places with nothing greater on the left than on the right.  \<open>Sort_Run\<close> has the locale \<open>record_source\<close>, what
  a source of records in order promises; the nodes of the merge tree meet it, and in \<open>Sort_Scb\<close>, with the
  invariant of \<open>SORT_put\<close>, so does \<open>SORT_get\<close>.  \<open>Sort_Props\<close> has the properties.

  \<^bold>\<open>Parameters.\<close>  What other parts contribute is an argument.  The lock manager is given \<open>remap\<close> (what
  extending the mapped file returns), \<open>dead\<close> (which processes no longer exist) and whether a wait timed
  out.  The transaction states are given \<open>granted\<close> (whether the lock of a transaction can be had at once),
  \<open>lock_data\<close> and \<open>query_min\<close> (the data of such locks), and whether the transaction's own lock was granted.
  The converters and the collation drivers are given their tables, and \<^verbatim>\<open>CONTAINING\<close> the upper case of its character set.
  Nothing is assumed of them but what a property states.

  \<^bold>\<open>Bounds and fuel.\<close>  The depth of the deadlock search is bounded by the size of the table: each call
  marks a request that was not marked, so \<open>lhb_used\<close> + 2 levels are enough, and that it returns in every
  reachable table is proved with the property on wait turns.  \<open>purge_requests\<close> and the loop of \<^verbatim>\<open>SBM_equal\<close> are
  partial functions and are shown to return, and so are the loops of \<open>quick\<close>, of the merge tree and of \<open>SORT_put\<close>, whose 50 intervals
  and 32 streams are shown to be enough; all other recursions have a measure.  Calls of the lock manager have room in the 16-bit counts of the lock, and the block
  sizes are those of a 32-bit machine.  The series and the length of a key are kept in a byte: \<open>lock_step\<close> has
  requests with a series below 256 and keys of less than 256 bytes, and \<open>LOCK_enq_long_key\<close> is what becomes of others.
  Strings of at most 85 bytes have all their weights in a key of 256 bytes, Korean ones of at most 170 bytes.  The
  lengths of the string predicates are those of lists, which are the code's up to 32767 bytes.  Transaction numbers stay below 2147483648, which
  is where the engine's own numbers end.

  \<^bold>\<open>Not modelled.\<close>  The page cache, so that fetching a page is reading its current contents and writes
  come in the order they are made; the journal; I/O.  Of the lock manager: the mutex, the repair of queues
  after a crash in \<^verbatim>\<open>acquire\<close>, \<^verbatim>\<open>LOCK_re_post\<close>, the history, validation and the lock manager
  process.  Of the transactions: commit, rollback, prepare and reconnect, which go through record
  versions and deferred work, the sweep, and external files.  Of the character sets: the tables, which
  are generated, the converters of the JIS family, and what sets up the objects of a character set.  Of the sort: the work files, the
  buffers of runs, \<open>order\<close> (which puts kept records into the order of their pointers before they are written), fields of varying length and scrollable cursors.
  Indices, record versions, the request compiler
  and the optimizer work on pages and on pools of blocks shared with the rest of the engine, and would need
  the page cache first.  The SQL parser is generated, the precompiler and the utilities are preprocessed
  sources, and the network layer is I/O.
\<close>

end
